(* ===== verification/Prelude.thy ===== *)
theory Prelude
  imports Main "HOL-Library.Word" "HOL-Library.Char_ord" "HOL-Library.List_Lexorder"
    "HOL-Library.Product_Lexorder"
begin

text \<open>
  Shared vocabulary of the development: the result type of the contracts' fallible
  functions (an error value or a panic, against a value), the Rust combinators the
  sources use on it (\<open>?\<close>, \<open>map_err\<close>, \<open>ok_or\<close>, \<open>try_map\<close>, a \<open>for\<close> loop with \<open>?\<close>),
  the fixed-width arithmetic of the numeric types, the key-value storage of the contracts
  (an ordered map, as \<open>cw_storage_plus\<close> and \<open>BTreeMap\<close> are), list functions of the
  standard library and of itertools, and the chain's treatment of transactions (a failed
  one leaves the state as it was).
\<close>

named_theorems result_simps \<open>inversion of the combinators of the result type\<close>
named_theorems kv_simps \<open>the laws of the key-value storage\<close>

section \<open>Definitions\<close>

subsection \<open>Results\<close>

datatype 'e failure = Err 'e | Panic string

type_synonym ('e, 'a) result = "'e failure + 'a"

abbreviation Ok :: "'a \<Rightarrow> ('e, 'a) result" where
  "Ok x \<equiv> Inr x"

abbreviation fail :: "'e \<Rightarrow> ('e, 'a) result" where
  "fail e \<equiv> Inl (Err e)"

abbreviation panic :: "string \<Rightarrow> ('e, 'a) result" where
  "panic s \<equiv> Inl (Panic s)"

fun and_then :: "('e, 'a) result \<Rightarrow> ('a \<Rightarrow> ('e, 'b) result) \<Rightarrow> ('e, 'b) result" where
  "and_then (Inl e) f = Inl e"
| "and_then (Inr x) f = f x"

fun map_failure :: "('e \<Rightarrow> 'f) \<Rightarrow> 'e failure \<Rightarrow> 'f failure" where
  "map_failure f (Err e) = Err (f e)"
| "map_failure f (Panic s) = Panic s"

fun map_err :: "('e \<Rightarrow> 'f) \<Rightarrow> ('e, 'a) result \<Rightarrow> ('f, 'a) result" where
  "map_err f (Inl e) = Inl (map_failure f e)"
| "map_err f (Inr x) = Inr x"

abbreviation change_context :: "'f \<Rightarrow> ('e, 'a) result \<Rightarrow> ('f, 'a) result" where
  "change_context c r \<equiv> map_err (\<lambda>_. c) r"

fun ok_or :: "'e \<Rightarrow> 'a option \<Rightarrow> ('e, 'a) result" where
  "ok_or e None = fail e"
| "ok_or e (Some x) = Ok x"

fun expect_some :: "string \<Rightarrow> 'a option \<Rightarrow> ('e, 'a) result" where
  "expect_some msg None = panic msg"
| "expect_some msg (Some x) = Ok x"

fun expect_ok :: "string \<Rightarrow> ('e, 'a) result \<Rightarrow> ('f, 'a) result" where
  "expect_ok msg (Inl _) = panic msg"
| "expect_ok msg (Inr x) = Ok x"

definition ensure :: "bool \<Rightarrow> 'e \<Rightarrow> ('e, unit) result" where
  "ensure b e = (if b then Ok () else fail e)"

definition assert_or_panic :: "bool \<Rightarrow> string \<Rightarrow> ('e, unit) result" where
  "assert_or_panic b msg = (if b then Ok () else panic msg)"

fun try_map :: "('a \<Rightarrow> ('e, 'b) result) \<Rightarrow> 'a list \<Rightarrow> ('e, 'b list) result" where
  "try_map f [] = Ok []"
| "try_map f (x # xs) =
     and_then (f x) (\<lambda>y. and_then (try_map f xs) (\<lambda>ys. Ok (y # ys)))"

fun try_fold :: "('s \<Rightarrow> 'a \<Rightarrow> ('e, 's) result) \<Rightarrow> 's \<Rightarrow> 'a list \<Rightarrow> ('e, 's) result" where
  "try_fold f s [] = Ok s"
| "try_fold f s (x # xs) = and_then (f s x) (\<lambda>s'. try_fold f s' xs)"

fun is_panic :: "('e, 'a) result \<Rightarrow> bool" where
  "is_panic (Inl (Panic _)) = True"
| "is_panic _ = False"

fun is_ok :: "('e, 'a) result \<Rightarrow> bool" where
  "is_ok (Inl _) = False"
| "is_ok (Inr _) = True"

subsection \<open>Fixed-width arithmetic\<close>

type_synonym u8 = "8 word"
type_synonym u32 = "32 word"
type_synonym u64 = "64 word"
type_synonym u128 = "128 word"
type_synonym u256 = "256 word"

definition checked_add :: "'w::len word \<Rightarrow> 'w word \<Rightarrow> 'w word option" where
  "checked_add a b = (if unat a + unat b < 2 ^ LENGTH('w) then Some (a + b) else None)"

definition checked_sub :: "'w::len word \<Rightarrow> 'w word \<Rightarrow> 'w word option" where
  "checked_sub a b = (if b \<le> a then Some (a - b) else None)"

definition checked_mul :: "'w::len word \<Rightarrow> 'w word \<Rightarrow> 'w word option" where
  "checked_mul a b = (if unat a * unat b < 2 ^ LENGTH('w) then Some (a * b) else None)"

definition checked_div :: "'w::len word \<Rightarrow> 'w word \<Rightarrow> 'w word option" where
  "checked_div a b = (if b = 0 then None else Some (a div b))"

definition saturating_add :: "'w::len word \<Rightarrow> 'w word \<Rightarrow> 'w word" where
  "saturating_add a b = (case checked_add a b of None \<Rightarrow> - 1 | Some c \<Rightarrow> c)"

definition saturating_sub :: "'w::len word \<Rightarrow> 'w word \<Rightarrow> 'w word" where
  "saturating_sub a b = (if b \<le> a then a - b else 0)"

definition saturating_mul :: "'w::len word \<Rightarrow> 'w word \<Rightarrow> 'w word" where
  "saturating_mul a b = (case checked_mul a b of None \<Rightarrow> - 1 | Some c \<Rightarrow> c)"

text \<open>The sum of 128-bit integers, which panics on overflow.\<close>

fun sum_u128 :: "u128 list \<Rightarrow> u128 \<Rightarrow> ('e, u128) result" where
  "sum_u128 [] acc = Ok acc"
| "sum_u128 (w # ws) acc =
     and_then (expect_some ''attempt to add with overflow'' (checked_add acc w)) (\<lambda>acc. sum_u128 ws acc)"

subsection \<open>Key-value storage\<close>

type_synonym ('k, 'v) kv = "('k \<times> 'v) list"

abbreviation kv_get :: "('k, 'v) kv \<Rightarrow> 'k \<Rightarrow> 'v option" where
  "kv_get m k \<equiv> map_of m k"

fun kv_set :: "'k::linorder \<Rightarrow> 'v \<Rightarrow> ('k, 'v) kv \<Rightarrow> ('k, 'v) kv" where
  "kv_set k v [] = [(k, v)]"
| "kv_set k v ((k', v') # m) =
     (if k < k' then (k, v) # (k', v') # m
      else if k = k' then (k, v) # m
      else (k', v') # kv_set k v m)"

definition kv_del :: "'k \<Rightarrow> ('k, 'v) kv \<Rightarrow> ('k, 'v) kv" where
  "kv_del k m = filter (\<lambda>p. fst p \<noteq> k) m"

definition kv_ok :: "('k::linorder, 'v) kv \<Rightarrow> bool" where
  "kv_ok m \<longleftrightarrow> sorted_wrt (<) (map fst m)"

definition kv_of_list :: "('k::linorder \<times> 'v) list \<Rightarrow> ('k, 'v) kv" where
  "kv_of_list ps = foldl (\<lambda>m (k, v). kv_set k v m) [] ps"

subsection \<open>Lists\<close>

text \<open>Itertools' \<open>chunk_by\<close>: maximal runs of consecutive elements with the same key.\<close>

fun chunk_by :: "('a \<Rightarrow> 'k) \<Rightarrow> 'a list \<Rightarrow> ('k \<times> 'a list) list" where
  "chunk_by f [] = []"
| "chunk_by f (x # xs) =
     (case chunk_by f xs of
        [] \<Rightarrow> [(f x, [x])]
      | (k, ys) # cs \<Rightarrow> if f x = k then (k, x # ys) # cs else (f x, [x]) # (k, ys) # cs)"

text \<open>Itertools' \<open>duplicates\<close>: each value that occurs more than once, at its second occurrence.\<close>

fun duplicates_aux :: "'a list \<Rightarrow> 'a list \<Rightarrow> 'a list \<Rightarrow> 'a list" where
  "duplicates_aux seen dups [] = []"
| "duplicates_aux seen dups (x # xs) =
     (if x \<in> set seen \<and> x \<notin> set dups then x # duplicates_aux seen (x # dups) xs
      else duplicates_aux (x # seen) dups xs)"

definition duplicates :: "'a list \<Rightarrow> 'a list" where
  "duplicates xs = duplicates_aux [] [] xs"

subsection \<open>Transactions\<close>

text \<open>
  A contract's entry point returns the new state with a response, or fails. The chain
  discards every write of a failed call, so a failed call leaves the state as it was.
\<close>

record ('m, 'ev) response =
  messages :: "'m list"
  events :: "'ev list"

definition response_new :: "('m, 'ev) response" where
  "response_new = \<lparr>messages = [], events = []\<rparr>"

definition commit :: "'s \<Rightarrow> ('e, 's \<times> 'r) result \<Rightarrow> 's" where
  "commit s r = (case r of Inl _ \<Rightarrow> s | Inr (s', _) \<Rightarrow> s')"

definition run_txs :: "('s \<Rightarrow> 'm \<Rightarrow> ('e, 's \<times> 'r) result) \<Rightarrow> 's \<Rightarrow> 'm list \<Rightarrow> 's" where
  "run_txs exec s ms = foldl (\<lambda>s m. commit s (exec s m)) s ms"

section \<open>Lemmas\<close>

subsection \<open>Results\<close>

lemma and_then_Inr_iff [result_simps]:
  "and_then m f = Inr y \<longleftrightarrow> (\<exists>x. m = Inr x \<and> f x = Inr y)"
  by (cases m) auto

lemma and_then_Inl_iff:
  "and_then m f = Inl e \<longleftrightarrow> m = Inl e \<or> (\<exists>x. m = Inr x \<and> f x = Inl e)"
  by (cases m) auto

lemma and_then_assoc: "and_then (and_then m f) g = and_then m (\<lambda>x. and_then (f x) g)"
  by (cases m) auto

lemma and_then_cong [fundef_cong]:
  "m = m' \<Longrightarrow> (\<And>x. m' = Inr x \<Longrightarrow> f x = f' x) \<Longrightarrow> and_then m f = and_then m' f'"
  by (cases m') auto

lemma map_err_Inr_iff [result_simps]: "map_err f m = Inr y \<longleftrightarrow> m = Inr y"
  by (cases m) auto

lemma ok_or_Inr_iff [result_simps]: "ok_or e m = Inr y \<longleftrightarrow> m = Some y"
  by (cases m) auto

lemma expect_some_Inr_iff [result_simps]: "expect_some e m = Inr y \<longleftrightarrow> m = Some y"
  by (cases m) auto

lemma expect_ok_Inr_iff [result_simps]: "expect_ok e m = Inr y \<longleftrightarrow> m = Inr y"
  by (cases m) auto

lemma ensure_Inr_iff [result_simps]: "ensure b e = Inr y \<longleftrightarrow> b"
  by (auto simp: ensure_def)

lemma assert_or_panic_Inr_iff [result_simps]: "assert_or_panic b e = Inr y \<longleftrightarrow> b"
  by (auto simp: assert_or_panic_def)

lemma is_panic_iff: "is_panic r \<longleftrightarrow> (\<exists>s. r = Inl (Panic s))"
  by (cases r rule: is_panic.cases) auto

lemma is_panic_and_then [simp]:
  "is_panic (and_then m f) \<longleftrightarrow> is_panic m \<or> (\<exists>x. m = Inr x \<and> is_panic (f x))"
  by (cases m rule: is_panic.cases) auto

lemma is_panic_map_err [simp]: "is_panic (map_err f m) = is_panic m"
  by (cases m rule: is_panic.cases) auto

lemma is_panic_ok_or [simp]: "\<not> is_panic (ok_or e m)"
  by (cases m) auto

lemma is_panic_ensure [simp]: "\<not> is_panic (ensure b e)"
  by (simp add: ensure_def)

lemma is_panic_expect_some [simp]: "is_panic (expect_some e m) \<longleftrightarrow> m = None"
  by (cases m) auto

lemma is_panic_assert [simp]: "is_panic (assert_or_panic b e) \<longleftrightarrow> \<not> b"
  by (simp add: assert_or_panic_def)

lemma is_panic_expect_ok [simp]: "is_panic (expect_ok e r) \<longleftrightarrow> \<not> is_ok r"
  by (cases r) auto

lemma try_map_Inr_iff [result_simps]:
  "try_map f xs = Inr ys \<longleftrightarrow> list_all2 (\<lambda>x y. f x = Inr y) xs ys"
proof (induction xs arbitrary: ys)
  case Nil
  then show ?case by auto
next
  case (Cons x xs)
  then show ?case by (cases ys) (auto simp: and_then_Inr_iff)
qed

lemma is_panic_try_map:
  "is_panic (try_map f xs) \<Longrightarrow> \<exists>x \<in> set xs. is_panic (f x)"
  by (induction xs) auto

lemma is_panic_try_fold:
  assumes "I s" and "\<And>s x. x \<in> set xs \<Longrightarrow> I s \<Longrightarrow> \<not> is_panic (f s x)"
    and "\<And>s x s'. x \<in> set xs \<Longrightarrow> I s \<Longrightarrow> f s x = Inr s' \<Longrightarrow> I s'"
  shows "\<not> is_panic (try_fold f s xs)"
  using assms
proof (induction xs arbitrary: s)
  case Nil
  then show ?case by simp
next
  case (Cons x xs)
  have "\<not> is_panic (try_fold f s' xs)" if "f s x = Inr s'" for s'
  proof (rule Cons.IH)
    show "I s'" using Cons.prems(1,3) that by (meson list.set_intros(1))
  qed (use Cons.prems(2,3) in \<open>meson list.set_intros(2)\<close>)+
  then show ?case using Cons.prems(1,2) by simp
qed

lemma try_map_all_ok: "(\<And>x. x \<in> set xs \<Longrightarrow> f x = Inr (g x)) \<Longrightarrow> try_map f xs = Inr (map g xs)"
  by (induction xs) auto

lemma try_map_same: "try_map f xs = Inr ys \<Longrightarrow> (\<And>x y. f x = Inr y \<Longrightarrow> g y = x) \<Longrightarrow> map g ys = xs"
  by (auto simp: try_map_Inr_iff list_all2_conv_all_nth intro: nth_equalityI)

lemma length_try_map: "try_map f xs = Inr ys \<Longrightarrow> length ys = length xs"
  by (auto simp: try_map_Inr_iff dest: list_all2_lengthD)

lemma try_fold_append:
  "try_fold f s (xs @ ys) = and_then (try_fold f s xs) (\<lambda>s'. try_fold f s' ys)"
  by (induction xs arbitrary: s) (auto simp: and_then_assoc)

lemma try_fold_invariant:
  assumes "try_fold f s xs = Inr s'" and "I s"
    and "\<And>s x s'. x \<in> set xs \<Longrightarrow> I s \<Longrightarrow> f s x = Inr s' \<Longrightarrow> I s'"
  shows "I s'"
  using assms
proof (induction xs arbitrary: s)
  case Nil
  then show ?case by simp
next
  case (Cons x xs)
  from Cons.prems(1) obtain s1 where s1: "f s x = Inr s1" and r: "try_fold f s1 xs = Inr s'"
    by (auto simp: result_simps)
  have "I s1" using Cons.prems(3) [OF _ Cons.prems(2) s1] by simp
  then show ?case by (rule Cons.IH [OF r]) (rule Cons.prems(3), simp_all)
qed

subsection \<open>Arithmetic\<close>

lemma unat_less_width: "unat (a :: 'w::len word) < 2 ^ LENGTH('w)"
  by (rule unsigned_less)

lemma checked_add_Some_iff:
  "checked_add a b = Some c \<longleftrightarrow> unat a + unat b < 2 ^ LENGTH('w) \<and> c = (a :: 'w::len word) + b"
  by (auto simp: checked_add_def)

lemma checked_add_unat:
  "checked_add (a :: 'w::len word) b = Some c \<Longrightarrow> unat c = unat a + unat b"
  by (auto simp: checked_add_def unat_word_ariths split: if_splits)

lemma checked_sub_unat:
  "checked_sub (a :: 'w::len word) b = Some c \<Longrightarrow> unat c = unat a - unat b \<and> unat b \<le> unat a"
  by (auto simp: checked_sub_def unat_sub word_le_nat_alt split: if_splits)

lemma checked_mul_unat:
  "checked_mul (a :: 'w::len word) b = Some c \<Longrightarrow> unat c = unat a * unat b"
  by (auto simp: checked_mul_def unat_word_ariths split: if_splits)

lemma sum_u128_Inr: "sum_u128 ws acc = Inr r \<Longrightarrow> unat r = unat acc + sum_list (map unat ws)"
  by (induction ws acc rule: sum_u128.induct) (auto simp: result_simps dest: checked_add_unat)

lemma unat_max_word: "unat (- 1 :: 'w::len word) = 2 ^ LENGTH('w) - 1"
  by (simp only: unsigned_minus_1_eq_mask mask_eq_exp_minus_1)

lemma unat_saturating_add:
  "unat (saturating_add (a :: 'w::len word) b) = min (2 ^ LENGTH('w) - 1) (unat a + unat b)"
proof (cases "unat a + unat b < 2 ^ LENGTH('w)")
  case True
  then show ?thesis by (simp add: saturating_add_def checked_add_def unat_word_ariths)
next
  case False
  then show ?thesis
    by (simp add: saturating_add_def checked_add_def unat_max_word del: unsigned_minus_1_eq_mask)
qed

lemma unat_saturating_add_le:
  "unat (saturating_add a b) \<le> unat a + unat b"
  by (simp add: unat_saturating_add)

lemma le_saturating_add1: "a \<le> saturating_add a b"
proof -
  have "unat a < 2 ^ LENGTH('a)" by (rule unat_less_width)
  then have "unat a \<le> 2 ^ LENGTH('a) - 1" by linarith
  then show ?thesis by (simp add: word_le_nat_alt unat_saturating_add)
qed

subsection \<open>Key-value storage\<close>

lemma kv_get_set [simp, kv_simps]: "map_of (kv_set k v m) = (map_of m)(k \<mapsto> v)"
  by (induction k v m rule: kv_set.induct) auto

lemma kv_get_del [simp, kv_simps]: "map_of (kv_del k m) = (map_of m)(k := None)"
  by (induction m) (auto simp: kv_del_def)

lemma fst_kv_set: "fst ` set (kv_set k v m) = insert k (fst ` set m)"
  by (induction k v m rule: kv_set.induct) auto

lemma set_kv_set_subset: "set (kv_set k v m) \<subseteq> insert (k, v) (set m)"
  by (induction k v m rule: kv_set.induct) auto

lemma kv_ok_Nil [simp]: "kv_ok []"
  by (simp add: kv_ok_def)

lemma kv_ok_Cons: "kv_ok ((k, v) # m) \<longleftrightarrow> (\<forall>k' \<in> fst ` set m. k < k') \<and> kv_ok m"
  by (auto simp: kv_ok_def)

lemma kv_ok_set [simp, intro]: "kv_ok m \<Longrightarrow> kv_ok (kv_set k v m)"
  by (induction k v m rule: kv_set.induct) (auto simp: kv_ok_Cons fst_kv_set)

lemma kv_ok_del [simp, intro]: "kv_ok m \<Longrightarrow> kv_ok (kv_del k m)"
  by (induction m) (auto simp: kv_ok_Cons kv_del_def)

lemma kv_ok_distinct: "kv_ok m \<Longrightarrow> distinct (map fst m)"
  unfolding kv_ok_def by (metis strict_sorted_iff)

lemma kv_ok_get_iff: "kv_ok m \<Longrightarrow> map_of m k = Some v \<longleftrightarrow> (k, v) \<in> set m"
  by (simp add: kv_ok_distinct)

lemma set_kv_set:
  "kv_ok m \<Longrightarrow> set (kv_set k v m) = insert (k, v) {p \<in> set m. fst p \<noteq> k}"
  by (induction k v m rule: kv_set.induct) (auto simp: kv_ok_Cons)

lemma map_of_foldl_del:
  "map_of (foldl (\<lambda>m v. kv_del (f v) m) m vs) = (\<lambda>k. if k \<in> f ` set vs then None else map_of m k)"
  by (induction vs arbitrary: m) (auto simp: fun_eq_iff)

lemma map_of_foldl_set:
  "map_of (foldl (\<lambda>m v. kv_set (f v) (g v) m) m vs) k =
     (if k \<in> f ` set vs then map_of (foldl (\<lambda>m v. kv_set (f v) (g v) m) [] vs) k else map_of m k)"
  by (induction vs rule: rev_induct) auto

lemma map_of_foldl_set_inj:
  assumes "inj f"
  shows "map_of (foldl (\<lambda>m v. kv_set (f v) (g v) m) m vs) (f v) = (if v \<in> set vs then Some (g v) else map_of m (f v))"
  using assms by (induction vs rule: rev_induct) (auto dest: injD)

lemma kv_ok_foldl_del: "kv_ok m \<Longrightarrow> kv_ok (foldl (\<lambda>m v. kv_del (f v) m) m vs)"
  by (induction vs arbitrary: m) auto

lemma kv_ok_foldl_set: "kv_ok m \<Longrightarrow> kv_ok (foldl (\<lambda>m v. kv_set (f v) (g v) m) m vs)"
  by (induction vs arbitrary: m) auto

lemma sum_list_kv_set:
  fixes f :: "'k::linorder \<times> 'v \<Rightarrow> nat"
  assumes "kv_ok m" and "map_of m k = Some v"
  shows "sum_list (map f (kv_set k v' m)) + f (k, v) = sum_list (map f m) + f (k, v')"
  using assms
proof (induction k v' m rule: kv_set.induct)
  case (1 k v)
  then show ?case by simp
next
  case (2 k v' k1 v1 m)
  show ?case
  proof (cases "k = k1")
    case True
    with "2.prems" show ?thesis by simp
  next
    case False
    with "2.prems"(2) have "map_of m k = Some v" by simp
    moreover from this have "k \<in> fst ` set m" by (force dest: map_of_SomeD)
    with "2.prems"(1) have "k1 < k" by (auto simp: kv_ok_Cons)
    ultimately show ?thesis using False "2.prems"(1) "2.IH" by (auto simp: kv_ok_Cons)
  qed
qed

lemma sum_list_kv_set_new:
  fixes f :: "'k::linorder \<times> 'v \<Rightarrow> nat"
  shows "map_of m k = None \<Longrightarrow> sum_list (map f (kv_set k v m)) = f (k, v) + sum_list (map f m)"
  by (induction k v m rule: kv_set.induct) (auto split: if_splits)

lemma sum_list_kv_upd:
  fixes f :: "'k::linorder \<times> 'v \<Rightarrow> nat"
  assumes "kv_ok m"
  shows "sum_list (map f (kv_set k v m)) + (case map_of m k of Some w \<Rightarrow> f (k, w) | None \<Rightarrow> 0)
    = sum_list (map f m) + f (k, v)"
  using assms by (cases "map_of m k") (simp_all add: sum_list_kv_set sum_list_kv_set_new)

lemma map_fst_kv_set:
  "kv_ok m \<Longrightarrow> map_of m k = Some v \<Longrightarrow> map fst (kv_set k v' m) = map fst m"
proof (induction k v' m rule: kv_set.induct)
  case (1 k v)
  then show ?case by simp
next
  case (2 k v' k1 v1 m)
  show ?case
  proof (cases "k = k1")
    case True
    then show ?thesis by simp
  next
    case False
    with "2.prems"(2) have "map_of m k = Some v" by simp
    moreover from this have "k \<in> fst ` set m" by (force dest: map_of_SomeD)
    with "2.prems"(1) have "k1 < k" by (auto simp: kv_ok_Cons)
    ultimately show ?thesis using False "2.prems"(1) "2.IH" by (auto simp: kv_ok_Cons)
  qed
qed

lemma kv_of_list_sorted:
  assumes "kv_ok m"
  shows "kv_of_list m = m"
proof -
  have snoc: "kv_ok (m @ [(k, v)]) \<Longrightarrow> kv_set k v m = m @ [(k, v)]" for m and k :: "'a" and v :: 'b
    by (induction m) (auto simp: kv_ok_Cons)
  have pre: "kv_ok (xs @ ys) \<Longrightarrow> kv_ok xs" for xs ys :: "('a, 'b) kv"
    by (simp add: kv_ok_def sorted_wrt_append)
  show ?thesis using assms
  proof (induction m rule: rev_induct)
    case Nil
    then show ?case by (simp add: kv_of_list_def)
  next
    case (snoc p m)
    then have "kv_of_list m = m" using pre by blast
    then show ?case using snoc \<open>\<And>v m k. kv_ok (m @ [(k, v)]) \<Longrightarrow> kv_set k v m = m @ [(k, v)]\<close>
      by (cases p) (simp add: kv_of_list_def)
  qed
qed

lemma kv_ok_map_snd: "kv_ok (map (\<lambda>(k, v). (k, f v)) m) = kv_ok m"
proof -
  have "map fst (map (\<lambda>(k, v). (k, f v)) m) = map fst m" by (induction m) auto
  then show ?thesis by (simp only: kv_ok_def)
qed

lemma sum_list_kv_of_list_le:
  fixes f :: "'k::linorder \<times> 'v \<Rightarrow> nat"
  shows "sum_list (map f (kv_of_list ps)) \<le> sum_list (map f ps)"
proof -
  have set_le: "sum_list (map f (kv_set k v m)) \<le> f (k, v) + sum_list (map f m)" for k v m
    by (induction k v m rule: kv_set.induct) auto
  have "sum_list (map f (foldl (\<lambda>m (k, v). kv_set k v m) m ps))
          \<le> sum_list (map f m) + sum_list (map f ps)" for m
  proof (induction ps arbitrary: m)
    case Nil
    then show ?case by simp
  next
    case (Cons p ps)
    obtain k v where p: "p = (k, v)" by (cases p)
    have "sum_list (map f (foldl (\<lambda>m (k, v). kv_set k v m) (kv_set k v m) ps))
            \<le> sum_list (map f (kv_set k v m)) + sum_list (map f ps)"
      by (rule Cons.IH)
    then show ?case using set_le [of k v m] p by simp
  qed
  from this [of "[]"] show ?thesis by (simp add: kv_of_list_def)
qed

lemma kv_ok_of_list [simp]: "kv_ok (kv_of_list ps)"
proof -
  have "kv_ok m \<Longrightarrow> kv_ok (foldl (\<lambda>m (k, v). kv_set k v m) m ps)" for m
    by (induction ps arbitrary: m) auto
  then show ?thesis by (simp add: kv_of_list_def)
qed

lemma fst_kv_of_list: "fst ` set (kv_of_list ps) = fst ` set ps"
proof -
  have "fst ` set (foldl (\<lambda>m (k, v). kv_set k v m) m ps) = fst ` set m \<union> fst ` set ps" for m
    by (induction ps arbitrary: m) (simp_all add: fst_kv_set case_prod_beta)
  then show ?thesis by (simp add: kv_of_list_def)
qed

lemma set_kv_of_list_subset: "set (kv_of_list ps) \<subseteq> set ps"
proof -
  have "set (foldl (\<lambda>m (k, v). kv_set k v m) m ps) \<subseteq> set m \<union> set ps" for m
  proof (induction ps arbitrary: m)
    case (Cons p ps)
    then show ?case using set_kv_set_subset [of "fst p" "snd p" m]
      by (fastforce simp: case_prod_beta)
  qed simp
  from this [of "[]"] show ?thesis by (simp add: kv_of_list_def)
qed

subsection \<open>Lists\<close>

lemma is_ok_iff: "is_ok x \<longleftrightarrow> (\<exists>y. x = Inr y)"
  by (cases x) auto

lemma length_filter_unique:
  assumes "distinct (map fst xs)" and "\<And>x y. x \<in> set xs \<Longrightarrow> y \<in> set xs \<Longrightarrow> P x \<Longrightarrow> P y \<Longrightarrow> fst x = fst y"
  shows "length (filter P xs) \<le> 1"
  using assms
proof (induction xs)
  case (Cons x xs)
  show ?case
  proof (cases "P x")
    case True
    have "\<not> P y" if "y \<in> set xs" for y
      using Cons.prems(2) [of x y] Cons.prems(1) True that by force
    then have "filter P xs = []" by (simp add: filter_empty_conv)
    then show ?thesis by simp
  next
    case False
    have "length (filter P xs) \<le> 1" using Cons.prems by (intro Cons.IH) auto
    then show ?thesis using False by simp
  qed
qed simp

lemma list_all2_map_eq:
  "list_all2 P xs ys \<Longrightarrow> (\<And>x y. P x y \<Longrightarrow> f y = g x) \<Longrightarrow> map f ys = map g xs"
  by (induction rule: list_all2_induct) auto

lemma list_all2_right_in: "list_all2 P xs ys \<Longrightarrow> y \<in> set ys \<Longrightarrow> \<exists>x \<in> set xs. P x y"
  by (induction rule: list_all2_induct) auto

lemma list_all2_left_in: "list_all2 P xs ys \<Longrightarrow> x \<in> set xs \<Longrightarrow> \<exists>y \<in> set ys. P x y"
  by (induction rule: list_all2_induct) auto

lemma concat_chunk_by: "concat (map snd (chunk_by f xs)) = xs"
  by (induction xs) (auto split: list.splits)

lemma chunk_by_keys: "list_all (\<lambda>c. list_all (\<lambda>y. f y = fst c) (snd c)) (chunk_by f xs)"
  by (induction xs) (auto split: list.splits if_splits)

lemma chunk_by_key: "(k, ys) \<in> set (chunk_by f xs) \<Longrightarrow> y \<in> set ys \<Longrightarrow> f y = k"
  using chunk_by_keys [of f xs] by (force simp: list_all_iff)

lemma chunk_by_nonempty: "(k, ys) \<in> set (chunk_by f xs) \<Longrightarrow> ys \<noteq> []"
  by (induction xs arbitrary: k ys) (auto split: list.splits if_splits)

lemma duplicates_aux_Nil_iff:
  "set dups \<subseteq> set seen \<Longrightarrow>
     duplicates_aux seen dups xs = [] \<longleftrightarrow>
     (\<forall>x \<in> set xs. x \<in> set seen \<longrightarrow> x \<in> set dups) \<and> distinct (filter (\<lambda>x. x \<notin> set dups) xs)"
  by (induction seen dups xs rule: duplicates_aux.induct) auto

lemma duplicates_Nil_iff: "duplicates xs = [] \<longleftrightarrow> distinct xs"
  by (simp add: duplicates_def duplicates_aux_Nil_iff)

subsection \<open>Transactions\<close>

lemma commit_Inr [simp]: "commit s (Inr (s', r)) = s'"
  by (simp add: commit_def)

lemma commit_Inl [simp]: "commit s (Inl e) = s"
  by (simp add: commit_def)

lemma run_txs_simps [simp]:
  "run_txs exec s [] = s"
  "run_txs exec s (m # ms) = run_txs exec (commit s (exec s m)) ms"
  by (simp_all add: run_txs_def)

text \<open>
  The interface of a contract as the chain sees it: an entry point, the calls it is built
  for, and a property that every successful one of them preserves. Runs of any length then
  preserve it.
\<close>

locale contract_machine =
  fixes exec :: "'s \<Rightarrow> 'm \<Rightarrow> ('e, 's \<times> 'r) result"
    and inv :: "'s \<Rightarrow> bool"
    and ok :: "'m \<Rightarrow> bool"
  assumes exec_inv: "inv s \<Longrightarrow> ok m \<Longrightarrow> exec s m = Inr (s', r) \<Longrightarrow> inv s'"
begin

lemma commit_inv: "inv s \<Longrightarrow> ok m \<Longrightarrow> inv (commit s (exec s m))"
  by (cases "exec s m") (auto dest: exec_inv)

lemma run_inv: "inv s \<Longrightarrow> list_all ok ms \<Longrightarrow> inv (run_txs exec s ms)"
  by (induction ms arbitrary: s) (auto dest: commit_inv)

text \<open>A relation between states that every call establishes and that is transitive holds over a run.\<close>

lemma run_rel:
  assumes "inv s" and "list_all ok ms"
    and refl: "\<And>s. R s s" and trans: "\<And>a b c. R a b \<Longrightarrow> R b c \<Longrightarrow> R a c"
    and step: "\<And>s m s' r. inv s \<Longrightarrow> ok m \<Longrightarrow> exec s m = Inr (s', r) \<Longrightarrow> R s s'"
  shows "R s (run_txs exec s ms)"
  using assms(1,2)
proof (induction ms arbitrary: s)
  case Nil
  show ?case using refl by simp
next
  case (Cons m ms)
  then have "ok m" and ms: "list_all ok ms" by simp_all
  have "R s (commit s (exec s m))"
    using Cons.prems(1) \<open>ok m\<close> refl step by (cases "exec s m") auto
  then show ?case
    using Cons.IH [OF commit_inv [OF Cons.prems(1) \<open>ok m\<close>] ms] trans by auto
qed

end

end
