(* ===== verification/Wasm_Std.thy ===== *)
theory Wasm_Std
  imports Prelude
begin

text \<open>
  The parts of \<open>packages/axelar-wasm-std\<close> every contract builds on: the nonempty numeric
  types (\<open>nonempty/uint.rs\<close>, \<open>nonempty/vec.rs\<close>), the thresholds (\<open>threshold.rs\<close>), the
  snapshot of a set of weighted participants (\<open>snapshot.rs\<close>), the persistent counter
  (\<open>counter.rs\<close>), the kill switch (\<open>killswitch.rs\<close>), the verification status
  (\<open>verification.rs\<close>) and the helpers of \<open>vec.rs\<close>.
  A nonempty value is represented by its underlying value; the constructors below reject
  the empty one. The multiplication by a fraction that the snapshot uses
  (\<open>cosmwasm_std::Uint128::mul_ceil\<close>) is a parameter with its documented behaviour as the
  hypothesis \<open>mul_ceil_rounds_up\<close>.
\<close>

section \<open>Definitions\<close>

subsection \<open>Nonempty values\<close>

datatype nonempty_error = InvalidValue string

definition nonempty_uint64_try_from :: "u64 \<Rightarrow> (nonempty_error, u64) result" where
  "nonempty_uint64_try_from value = (if value = 0 then fail (InvalidValue ''0'') else Ok value)"

definition nonempty_uint128_try_from :: "u128 \<Rightarrow> (nonempty_error, u128) result" where
  "nonempty_uint128_try_from value = (if value = 0 then fail (InvalidValue ''0'') else Ok value)"

definition nonempty_uint128_one :: u128 where
  "nonempty_uint128_one = 1"

definition nonempty_uint256_try_from :: "u256 \<Rightarrow> (nonempty_error, u256) result" where
  "nonempty_uint256_try_from value = (if value = 0 then fail (InvalidValue ''0'') else Ok value)"

definition nonempty_uint32_try_from :: "u32 \<Rightarrow> (nonempty_error, u32) result" where
  "nonempty_uint32_try_from value = (if value = 0 then fail (InvalidValue ''0'') else Ok value)"

definition nonempty_string_try_from :: "string \<Rightarrow> (nonempty_error, string) result" where
  "nonempty_string_try_from value = (if value = [] then fail (InvalidValue ''empty'') else Ok value)"

definition nonempty_vec_try_from :: "'a list \<Rightarrow> (nonempty_error, 'a list) result" where
  "nonempty_vec_try_from value = (if value = [] then fail (InvalidValue ''empty'') else Ok value)"

definition to_none_if_empty :: "'a list \<Rightarrow> 'a list option" where
  "to_none_if_empty xs = (if xs = [] then None else Some xs)"

subsection \<open>Thresholds\<close>

datatype threshold_error = OutOfInterval | NoMajority | InvalidParameter nonempty_error

datatype threshold = Threshold (numerator: u64) (denominator: u64)

datatype majority_threshold = MajorityThreshold (mt_numerator: u64) (mt_denominator: u64)

definition threshold_inv :: "threshold \<Rightarrow> threshold option" where
  "threshold_inv t = Some (Threshold (denominator t) (numerator t))"

definition full_mul :: "u64 \<Rightarrow> u64 \<Rightarrow> u128" where
  "full_mul a b = ucast a * ucast b"

definition threshold_le :: "threshold \<Rightarrow> threshold \<Rightarrow> bool" where
  "threshold_le t u \<longleftrightarrow>
     full_mul (numerator t) (denominator u) \<le> full_mul (numerator u) (denominator t)"

definition threshold_from_nonempty :: "u64 \<times> u64 \<Rightarrow> (threshold_error, threshold) result" where
  "threshold_from_nonempty nd =
     (case nd of (n, d) \<Rightarrow> if n > d then fail OutOfInterval else Ok (Threshold n d))"

definition threshold_try_from :: "u64 \<times> u64 \<Rightarrow> (threshold_error, threshold) result" where
  "threshold_try_from value =
     and_then (map_err InvalidParameter (nonempty_uint64_try_from (fst value))) (\<lambda>n.
     and_then (map_err InvalidParameter (nonempty_uint64_try_from (snd value))) (\<lambda>d.
     threshold_from_nonempty (n, d)))"

definition majority_try_from :: "threshold \<Rightarrow> (threshold_error, majority_threshold) result" where
  "majority_try_from value =
     (if numerator value \<le> denominator value div 2 then fail NoMajority
      else Ok (MajorityThreshold (numerator value) (denominator value)))"

definition threshold_of_majority :: "majority_threshold \<Rightarrow> threshold" where
  "threshold_of_majority m = Threshold (mt_numerator m) (mt_denominator m)"

subsection \<open>Snapshots\<close>

record participant =
  p_address :: string
  p_weight :: u128

record snapshot =
  sn_quorum :: u128
  sn_participants :: "(string, participant) kv"

text \<open>
  The multiplication by a fraction, rounding up: \<open>None\<close> is its panic. Its documentation
  promises the ceiling of the product, and a panic only for a zero denominator or a result
  that does not fit, which a fraction of at most one rules out.
\<close>

type_synonym mul_ceil_fn = "u128 \<Rightarrow> u64 \<Rightarrow> u64 \<Rightarrow> u128 option"

definition mul_ceil_rounds_up :: "mul_ceil_fn \<Rightarrow> bool" where
  "mul_ceil_rounds_up mul_ceil \<longleftrightarrow>
     (\<forall>w n d. d \<noteq> 0 \<longrightarrow> n \<le> d \<longrightarrow>
        (\<exists>q. mul_ceil w n d = Some q \<and>
             unat q = (unat w * unat n + (unat d - 1)) div unat d))"

definition snapshot_total :: "participant list \<Rightarrow> u128" where
  "snapshot_total ps = foldl (\<lambda>t p. saturating_add t (p_weight p)) 0 ps"

definition snapshot_new ::
  "mul_ceil_fn \<Rightarrow> majority_threshold \<Rightarrow> participant list \<Rightarrow> ('e, snapshot) result" where
  "snapshot_new mul_ceil quorum_threshold participants =
     and_then (expect_some ''mul_ceil''
       (mul_ceil (snapshot_total participants) (mt_numerator quorum_threshold)
          (mt_denominator quorum_threshold))) (\<lambda>q.
     and_then (expect_ok ''violated invariant: quorum is zero'' (nonempty_uint128_try_from q)) (\<lambda>quorum.
     Ok \<lparr>sn_quorum = quorum,
         sn_participants = kv_of_list (map (\<lambda>p. (p_address p, p)) participants)\<rparr>))"

definition snapshot_participants :: "snapshot \<Rightarrow> string list" where
  "snapshot_participants s = map fst (sn_participants s)"

definition snapshot_find :: "snapshot \<Rightarrow> string \<Rightarrow> participant option" where
  "snapshot_find s a = kv_get (sn_participants s) a"

subsection \<open>Counter\<close>

datatype std_error = Overflow | StdNotFound

definition counter_cur :: "u64 option \<Rightarrow> u64" where
  "counter_cur item = (case item of None \<Rightarrow> 0 | Some v \<Rightarrow> v)"

definition counter_incr :: "u64 option \<Rightarrow> (std_error, u64 option \<times> u64) result" where
  "counter_incr item =
     and_then (ok_or Overflow (checked_add (counter_cur item) 1)) (\<lambda>value. Ok (Some value, value))"

subsection \<open>Kill switch\<close>

datatype killswitch = Engaged | Disengaged

definition killswitch_init :: "killswitch \<Rightarrow> killswitch option" where
  "killswitch_init s = Some s"

definition killswitch_engage ::
  "killswitch option \<Rightarrow> 'ev \<Rightarrow> (std_error, killswitch option \<times> 'ev list) result" where
  "killswitch_engage state on_state_change =
     (case state of
        None \<Rightarrow> fail StdNotFound
      | Some Disengaged \<Rightarrow> Ok (Some Engaged, [on_state_change])
      | Some Engaged \<Rightarrow> Ok (Some Engaged, []))"

definition killswitch_disengage ::
  "killswitch option \<Rightarrow> 'ev \<Rightarrow> (std_error, killswitch option \<times> 'ev list) result" where
  "killswitch_disengage state on_state_change =
     (case state of
        None \<Rightarrow> fail StdNotFound
      | Some Engaged \<Rightarrow> Ok (Some Disengaged, [on_state_change])
      | Some Disengaged \<Rightarrow> Ok (Some Disengaged, []))"

definition is_contract_active :: "killswitch option \<Rightarrow> bool" where
  "is_contract_active state = ((case state of None \<Rightarrow> Engaged | Some s \<Rightarrow> s) = Disengaged)"

subsection \<open>Verification status\<close>

datatype verification_status =
    SucceededOnSourceChain | FailedOnSourceChain | NotFoundOnSourceChain
  | FailedToVerify | InProgress | Unknown

definition is_confirmed :: "verification_status \<Rightarrow> bool" where
  "is_confirmed st \<longleftrightarrow> (case st of
       SucceededOnSourceChain \<Rightarrow> True | FailedOnSourceChain \<Rightarrow> True | _ \<Rightarrow> False)"

subsection \<open>Invariants\<close>

text \<open>The multiplication rounds up as documented for this function, which serves as an instance.\<close>

definition mul_ceil_std :: mul_ceil_fn where
  "mul_ceil_std w n d =
     (let q = (unat w * unat n + (unat d - 1)) div unat d
      in if d = 0 \<or> 2 ^ 128 \<le> q then None else Some (of_nat q))"

definition threshold_ok :: "threshold \<Rightarrow> bool" where
  "threshold_ok t \<longleftrightarrow> numerator t \<noteq> 0 \<and> denominator t \<noteq> 0 \<and> numerator t \<le> denominator t"

definition majority_ok :: "majority_threshold \<Rightarrow> bool" where
  "majority_ok m \<longleftrightarrow> mt_denominator m \<noteq> 0 \<and> mt_numerator m \<le> mt_denominator m
     \<and> unat (mt_denominator m) < 2 * unat (mt_numerator m)"

definition weight_sum :: "participant list \<Rightarrow> nat" where
  "weight_sum ps = sum_list (map (\<lambda>p. unat (p_weight p)) ps)"

section \<open>Lemmas\<close>

subsection \<open>Thresholds\<close>

lemma unat_ucast_64_128: "unat (ucast (a :: u64) :: u128) = unat a"
proof -
  have "unat a < 2 ^ 64" using unat_less_width [of a] by simp
  then have "unat a < 2 ^ 128" by simp
  then show ?thesis by (simp add: unsigned_ucast_eq take_bit_nat_eq_self)
qed

lemma unat_full_mul: "unat (full_mul a b) = unat a * unat b"
proof -
  have a: "unat a < 2 ^ 64" and b: "unat b < 2 ^ 64"
    using unat_less_width [of a] unat_less_width [of b] by simp_all
  have "unat a * unat b < 2 ^ 64 * 2 ^ 64"
    using a b by (rule mult_strict_mono) simp_all
  then have "unat a * unat b < 2 ^ 128" by simp
  then show ?thesis
    by (simp add: full_mul_def unat_word_ariths unat_ucast_64_128)
qed

lemma threshold_le_iff:
  "threshold_le t u \<longleftrightarrow>
     unat (numerator t) * unat (denominator u) \<le> unat (numerator u) * unat (denominator t)"
  by (simp add: threshold_le_def word_le_nat_alt unat_full_mul)

lemma threshold_try_from_Inr_iff [result_simps]:
  "threshold_try_from (n, d) = Inr t \<longleftrightarrow> n \<noteq> 0 \<and> d \<noteq> 0 \<and> n \<le> d \<and> t = Threshold n d"
  by (auto simp: threshold_try_from_def threshold_from_nonempty_def nonempty_uint64_try_from_def
      and_then_Inr_iff map_err_Inr_iff split: if_splits)

lemma unat_div_2: "unat ((d :: u64) div 2) = unat d div 2"
  by (simp add: unat_div)

lemma majority_try_from_Inr_iff [result_simps]:
  "majority_try_from t = Inr m \<longleftrightarrow>
     unat (denominator t) < 2 * unat (numerator t) \<and>
     m = MajorityThreshold (numerator t) (denominator t)"
proof -
  have "numerator t \<le> denominator t div 2 \<longleftrightarrow> 2 * unat (numerator t) \<le> unat (denominator t)"
    by (simp add: word_le_nat_alt unat_div_2) arith
  then show ?thesis by (auto simp: majority_try_from_def)
qed

lemma majority_ok_of_threshold:
  "threshold_ok t \<Longrightarrow> majority_try_from t = Inr m \<Longrightarrow> majority_ok m"
  by (auto simp: result_simps majority_ok_def threshold_ok_def)

subsection \<open>Snapshots\<close>

lemma snapshot_total_aux:
  "unat t + weight_sum ps < 2 ^ 128 \<Longrightarrow>
     unat (foldl (\<lambda>t p. saturating_add t (p_weight p)) t ps) = unat t + weight_sum ps"
  by (induction ps arbitrary: t) (simp_all add: weight_sum_def unat_saturating_add)

lemma unat_snapshot_total:
  "weight_sum ps < 2 ^ 128 \<Longrightarrow> unat (snapshot_total ps) = weight_sum ps"
  using snapshot_total_aux [of 0 ps] by (simp add: snapshot_total_def)

lemma snapshot_total_pos_aux:
  "t \<noteq> 0 \<Longrightarrow> foldl (\<lambda>t p. saturating_add t (p_weight p)) t ps \<noteq> 0"
proof (induction ps arbitrary: t)
  case Nil
  then show ?case by simp
next
  case (Cons p ps)
  have "saturating_add t (p_weight p) \<noteq> 0"
    using le_saturating_add1 [of t "p_weight p"] Cons.prems by (auto simp: word_le_nat_alt unat_eq_0)
  then show ?case using Cons.IH by simp
qed

lemma saturating_add_0_left [simp]: "saturating_add 0 w = (w :: 'w::len word)"
  by (simp add: saturating_add_def checked_add_def unat_less_width)

lemma snapshot_total_pos:
  "ps \<noteq> [] \<Longrightarrow> (\<And>p. p \<in> set ps \<Longrightarrow> p_weight p \<noteq> 0) \<Longrightarrow> snapshot_total ps \<noteq> 0"
  by (cases ps) (auto simp: snapshot_total_def dest: snapshot_total_pos_aux [rotated])

lemma ceil_div_majority:
  fixes w n d :: nat
  assumes "0 < d" and "n \<le> d" and "d < 2 * n" and "0 < w"
  shows "w < 2 * ((w * n + (d - 1)) div d)" and "(w * n + (d - 1)) div d \<le> w"
proof -
  let ?q = "(w * n + (d - 1)) div d"
  have "w * n + (d - 1) < d * Suc ?q"
    using assms(1) by (rule dividend_less_times_div [THEN order_less_le_trans]) simp
  then have "w * n < d * Suc ?q - (d - 1)" using assms(1) by linarith
  then have q: "w * n \<le> d * ?q" using assms(1) by simp
  have "w * d < w * (2 * n)" using assms(3,4) by simp
  also have "\<dots> = 2 * (w * n)" by simp
  also have "\<dots> \<le> 2 * (d * ?q)" using q by simp
  finally have "d * w < d * (2 * ?q)" by (simp only: ac_simps)
  then show "w < 2 * ?q" using assms(1) by (simp only: mult_less_cancel1)
  have "w * n \<le> w * d" using assms(2) by (rule mult_le_mono2)
  moreover have "Suc w * d = w * d + d" by simp
  ultimately have "w * n + (d - 1) < Suc w * d" using assms(1) by linarith
  then have "?q < Suc w" by (rule less_mult_imp_div_less)
  then show "?q \<le> w" by simp
qed

lemma sn_participants_ok [simp]:
  "snapshot_new mc th ps = Inr s \<Longrightarrow> kv_ok (sn_participants s)"
  by (auto simp: snapshot_new_def result_simps)

lemma snapshot_new_spec:
  assumes mc: "mul_ceil_rounds_up mc" and th: "majority_ok th"
    and ne: "ps \<noteq> []" and pos: "\<And>p. p \<in> set ps \<Longrightarrow> p_weight p \<noteq> 0"
    and fits: "weight_sum ps < 2 ^ 128"
  shows "\<exists>q. snapshot_new mc th ps =
             Inr \<lparr>sn_quorum = q, sn_participants = kv_of_list (map (\<lambda>p. (p_address p, p)) ps)\<rparr>
           \<and> weight_sum ps < 2 * unat q \<and> unat q \<le> weight_sum ps"
proof -
  let ?w = "snapshot_total ps" and ?n = "mt_numerator th" and ?d = "mt_denominator th"
  from mc th obtain q where q: "mc ?w ?n ?d = Some q"
    and uq: "unat q = (unat ?w * unat ?n + (unat ?d - 1)) div unat ?d"
    unfolding mul_ceil_rounds_up_def majority_ok_def by blast
  have w: "unat ?w = weight_sum ps" using fits by (rule unat_snapshot_total)
  have "0 < unat ?w" using snapshot_total_pos [OF ne pos] by (simp add: unat_gt_0)
  then have "weight_sum ps < 2 * unat q" and "unat q \<le> weight_sum ps"
    using ceil_div_majority [of "unat ?d" "unat ?n" "unat ?w"] th uq w
    by (simp_all add: majority_ok_def word_le_nat_alt unat_gt_0)
  moreover from this have "q \<noteq> 0" by auto
  ultimately show ?thesis using q by (simp add: snapshot_new_def nonempty_uint128_try_from_def)
qed

lemma mul_ceil_std_rounds_up: "mul_ceil_rounds_up mul_ceil_std"
proof -
  have "mul_ceil_std w n d = Some (of_nat ((unat w * unat n + (unat d - 1)) div unat d)) \<and>
        (unat w * unat n + (unat d - 1)) div unat d < 2 ^ 128"
    if "d \<noteq> 0" "n \<le> d" for w n d
  proof -
    let ?q = "(unat w * unat n + (unat d - 1)) div unat d"
    have "unat w * unat n \<le> unat w * unat d" using that by (simp add: word_le_nat_alt)
    moreover have "Suc (unat w) * unat d = unat w * unat d + unat d" by simp
    moreover have "0 < unat d" using that by (simp add: unat_gt_0)
    ultimately have "unat w * unat n + (unat d - 1) < Suc (unat w) * unat d" by linarith
    then have "?q < Suc (unat w)" by (rule less_mult_imp_div_less)
    moreover have "unat w < 2 ^ 128" using unat_less_width [of w] by simp
    ultimately have "?q < 2 ^ 128" by linarith
    then show ?thesis using that by (simp add: mul_ceil_std_def)
  qed
  then show ?thesis by (simp add: mul_ceil_rounds_up_def unat_of_nat)
qed

section \<open>Properties\<close>

text \<open>
  A pair of integers is accepted as a majority threshold exactly when it is a fraction of
  at most one and strictly more than one half, although the source compares with the rounded
  down half of the denominator; and the order of two thresholds is the order of the fractions.
\<close>

lemma majority_threshold_exact:
  "((\<exists>t m. threshold_try_from (n, d) = Inr t \<and> majority_try_from t = Inr m
      \<and> mt_numerator m = n \<and> mt_denominator m = d) \<longleftrightarrow>
     0 < unat d \<and> unat n \<le> unat d \<and> unat d < 2 * unat n)
   \<and> (threshold_le t u \<longleftrightarrow>
     unat (numerator t) * unat (denominator u) \<le> unat (numerator u) * unat (denominator t))"
  by (auto simp: result_simps threshold_le_iff word_le_nat_alt unat_gt_0 unat_eq_zero)

text \<open>
  A snapshot of participants of positive weight, taken at a majority threshold, never
  panics; its quorum is more than half of the total weight and never more than all of it, so
  that a quorum can be reached and two disjoint groups cannot both reach it.
\<close>

lemma snapshot_quorum_majority:
  assumes "mul_ceil_rounds_up mul_ceil" and "majority_ok th"
    and "ps \<noteq> []" and "\<forall>p \<in> set ps. p_weight p \<noteq> 0" and "weight_sum ps < 2 ^ 128"
  shows "\<exists>s. snapshot_new mul_ceil th ps = (Inr s :: ('e, snapshot) result)
           \<and> weight_sum ps < 2 * unat (sn_quorum s) \<and> unat (sn_quorum s) \<le> weight_sum ps
           \<and> set (snapshot_participants s) = p_address ` set ps"
proof -
  obtain q where "snapshot_new mul_ceil th ps =
      (Inr \<lparr>sn_quorum = q, sn_participants = kv_of_list (map (\<lambda>p. (p_address p, p)) ps)\<rparr>
         :: ('e, snapshot) result)"
    and "weight_sum ps < 2 * unat q" and "unat q \<le> weight_sum ps"
    using snapshot_new_spec [OF assms(1-3) _ assms(5)] assms(4) by blast
  then show ?thesis
    by (auto simp: snapshot_participants_def fst_kv_of_list image_image)
qed

lemma snapshot_quorum_majority_example:
  "\<exists>s. snapshot_new mul_ceil_std (MajorityThreshold 2 3)
          [\<lparr>p_address = ''a'', p_weight = 2\<rparr>, \<lparr>p_address = ''b'', p_weight = 3\<rparr>] = Inr s
        \<and> 5 < 2 * unat (sn_quorum s) \<and> unat (sn_quorum s) \<le> 5
        \<and> set (snapshot_participants s) = {''a'', ''b''}"
  using snapshot_quorum_majority [OF mul_ceil_std_rounds_up, of "MajorityThreshold 2 3"
      "[\<lparr>p_address = ''a'', p_weight = 2\<rparr>, \<lparr>p_address = ''b'', p_weight = 3\<rparr>]"]
  by (simp add: majority_ok_def weight_sum_def)

end
