(* ===== verification/Msg_Id.thy ===== *)
theory Msg_Id
  imports Wasm_Std
begin

text \<open>
  Message ids and addresses, \<open>packages/axelar-wasm-std/src/msg_id\<close>, \<open>address.rs\<close> and
  \<open>packages/starknet-checked-felt\<close>. The regular expressions of the sources are written out
  as checks on the string. The decoders of other crates (hexadecimal, base 58, bech32m, the
  addresses of other chains) are the fields of the record \<open>codecs\<close>; what the sources rely on
  is the locale \<open>hex_codec\<close>. The contract that \<open>msg_id/mod.rs\<close> states for the trait
  \<open>MessageId\<close> (one string per id, one id per string) is the locale \<open>message_id\<close>.
\<close>

section \<open>Definitions\<close>

subsection \<open>Decimal numbers and alphabets\<close>

definition is_digit :: "char \<Rightarrow> bool" where
  "is_digit c \<longleftrightarrow> (48 :: nat) \<le> of_char c \<and> of_char c \<le> (57 :: nat)"

definition digit_val :: "char \<Rightarrow> nat" where
  "digit_val c = of_char c - 48"

definition digit_char :: "nat \<Rightarrow> char" where
  "digit_char n = char_of (48 + n)"

definition parse_nat :: "string \<Rightarrow> nat" where
  "parse_nat s = foldl (\<lambda>n c. 10 * n + digit_val c) 0 s"

fun show_nat :: "nat \<Rightarrow> string" where
  "show_nat n = (if n < 10 then [digit_char n] else show_nat (n div 10) @ [digit_char (n mod 10)])"

declare show_nat.simps [simp del]

definition parse_u64 :: "string \<Rightarrow> u64 option" where
  "parse_u64 s =
     (if s \<noteq> [] \<and> list_all is_digit s \<and> parse_nat s < 2 ^ 64 then Some (of_nat (parse_nat s)) else None)"

definition parse_u32 :: "string \<Rightarrow> u32 option" where
  "parse_u32 s =
     (if s \<noteq> [] \<and> list_all is_digit s \<and> parse_nat s < 2 ^ 32 then Some (of_nat (parse_nat s)) else None)"

definition show_word :: "'w::len word \<Rightarrow> string" where
  "show_word w = show_nat (unat w)"

text \<open>The patterns \<open>0|[1-9][0-9]*\<close> and \<open>[1-9][0-9]*\<close>.\<close>

definition canonical_dec :: "string \<Rightarrow> bool" where
  "canonical_dec s \<longleftrightarrow> s = ''0'' \<or> s \<noteq> [] \<and> list_all is_digit s \<and> hd s \<noteq> CHR ''0''"

definition positive_dec :: "string \<Rightarrow> bool" where
  "positive_dec s \<longleftrightarrow> s \<noteq> [] \<and> list_all is_digit s \<and> hd s \<noteq> CHR ''0''"

definition is_lower_hex :: "char \<Rightarrow> bool" where
  "is_lower_hex c \<longleftrightarrow> c \<in> set ''0123456789abcdef''"

definition is_base58 :: "char \<Rightarrow> bool" where
  "is_base58 c \<longleftrightarrow> c \<in> set ''123456789ABCDEFGHJKLMNPQRSTUVWXYZabcdefghijkmnopqrstuvwxyz''"

definition is_bech32_data :: "char \<Rightarrow> bool" where
  "is_bech32_data c \<longleftrightarrow> c \<in> set ''023456789acdefghjklmnpqrstuvwxyz''"

text \<open>The parts before and after the first occurrence of a separator; \<open>None\<close> without one.\<close>

definition split_at_char :: "char \<Rightarrow> string \<Rightarrow> (string \<times> string) option" where
  "split_at_char c s =
     (case dropWhile (\<lambda>x. x \<noteq> c) s of
        [] \<Rightarrow> None
      | _ # post \<Rightarrow> Some (takeWhile (\<lambda>x. x \<noteq> c) s, post))"

subsection \<open>Codecs of other crates\<close>

record codecs =
  hex_decode :: "string \<Rightarrow> u8 list option"
  hex_encode :: "u8 list \<Rightarrow> string"
  b58_decode :: "string \<Rightarrow> u8 list option"
  b58_encode :: "u8 list \<Rightarrow> string"
  bech32m_checked :: "string \<Rightarrow> (string \<times> string) option"
  eip55_ok :: "string \<Rightarrow> bool"
  sui_ok :: "string \<Rightarrow> bool"
  stellar_ok :: "string \<Rightarrow> bool"

subsection \<open>Message ids\<close>

datatype msg_id_error =
    InvalidMessageID string string
  | EventIndexOverflow string
  | InvalidTxHash string
  | InvalidTxDigest string
  | InvalidBech32mFormat string
  | InvalidBech32m string
  | InvalidFieldElement string

datatype hex_tx_hash = HexTxHash (txh_tx_hash: "u8 list")

datatype hex_tx_hash_and_event_index =
  HexTxHashAndEventIndex (tx_hash: "u8 list") (event_index: u64)

definition hex_tx_hash_pattern :: "string \<Rightarrow> bool" where
  "hex_tx_hash_pattern s \<longleftrightarrow> length s = 66 \<and> take 2 s = ''0x'' \<and> list_all is_lower_hex (drop 2 s)"

definition decode_hash32 ::
  "(string \<Rightarrow> u8 list option) \<Rightarrow> string \<Rightarrow> 'e \<Rightarrow> ('e, u8 list) result" where
  "decode_hash32 dec s e =
     and_then (ok_or e (dec s)) (\<lambda>bytes. if length bytes = 32 then Ok bytes else fail e)"

definition hex_tx_hash_from_str ::
  "(string \<Rightarrow> u8 list option) \<Rightarrow> string \<Rightarrow> (msg_id_error, hex_tx_hash) result" where
  "hex_tx_hash_from_str dec message_id =
     and_then (ensure (hex_tx_hash_pattern message_id)
                (InvalidMessageID message_id ''^0x[0-9a-f]{64}$'')) (\<lambda>_.
     and_then (decode_hash32 dec (drop 2 message_id) (InvalidTxHash message_id)) (\<lambda>h.
     Ok (HexTxHash h)))"

definition hex_tx_hash_to_string :: "(u8 list \<Rightarrow> string) \<Rightarrow> hex_tx_hash \<Rightarrow> string" where
  "hex_tx_hash_to_string enc i = ''0x'' @ enc (txh_tx_hash i)"

definition hex_event_from_str ::
  "(string \<Rightarrow> u8 list option) \<Rightarrow> string \<Rightarrow> (msg_id_error, hex_tx_hash_and_event_index) result" where
  "hex_event_from_str dec message_id =
     (let invalid = InvalidMessageID message_id ''^(0x[0-9a-f]{64})-(0|[1-9][0-9]*)$'' in
      and_then (ok_or invalid (split_at_char (CHR ''-'') message_id)) (\<lambda>(tx_id, idx).
      and_then (ensure (hex_tx_hash_pattern tx_id \<and> canonical_dec idx) invalid) (\<lambda>_.
      and_then (decode_hash32 dec (drop 2 tx_id) (InvalidTxHash message_id)) (\<lambda>h.
      and_then (ok_or (EventIndexOverflow message_id) (parse_u64 idx)) (\<lambda>i.
      Ok (HexTxHashAndEventIndex h i))))))"

definition hex_event_to_string :: "(u8 list \<Rightarrow> string) \<Rightarrow> hex_tx_hash_and_event_index \<Rightarrow> string" where
  "hex_event_to_string enc i = ''0x'' @ enc (tx_hash i) @ ''-'' @ show_word (event_index i)"

definition base58_event_from_str ::
  "(string \<Rightarrow> u8 list option) \<Rightarrow> string \<Rightarrow> (msg_id_error, u8 list \<times> u64) result" where
  "base58_event_from_str dec message_id =
     (let invalid = InvalidMessageID message_id ''^([1-9A-HJ-NP-Za-km-z]{32,44})-(0|[1-9][0-9]*)$'' in
      and_then (ok_or invalid (split_at_char (CHR ''-'') message_id)) (\<lambda>(tx_id, idx).
      and_then (ensure (32 \<le> length tx_id \<and> length tx_id \<le> 44 \<and> list_all is_base58 tx_id
                        \<and> canonical_dec idx) invalid) (\<lambda>_.
      and_then (decode_hash32 dec tx_id (InvalidTxDigest message_id)) (\<lambda>h.
      and_then (ok_or (EventIndexOverflow message_id) (parse_u64 idx)) (\<lambda>i.
      Ok (h, i))))))"

definition decode_b58_signature ::
  "(string \<Rightarrow> u8 list option) \<Rightarrow> string \<Rightarrow> (msg_id_error, u8 list) result" where
  "decode_b58_signature dec signature =
     and_then (ok_or (InvalidTxDigest signature) (dec signature)) (\<lambda>bytes.
     if length bytes = 64 then Ok bytes else fail (InvalidTxDigest signature))"

definition parse_nonempty_u32 :: "string \<Rightarrow> (nonempty_error, u32) result" where
  "parse_nonempty_u32 s = and_then (ok_or (InvalidValue s) (parse_u32 s)) nonempty_uint32_try_from"

definition solana_event_from_str ::
  "(string \<Rightarrow> u8 list option) \<Rightarrow> string \<Rightarrow> (msg_id_error, u8 list \<times> u32 \<times> u32) result" where
  "solana_event_from_str dec message_id =
     (let invalid = InvalidMessageID message_id
            (''^([1-9A-HJ-NP-Za-km-z]{64,88})-([1-9][0-9]*)'' @ [CHR 0x5C] @ ''.([1-9][0-9]*)$'') in
      and_then (ok_or invalid (split_at_char (CHR ''-'') message_id)) (\<lambda>(signature, rest).
      and_then (ok_or invalid (split_at_char (CHR ''.'') rest)) (\<lambda>(group, ix).
      and_then (ensure (64 \<le> length signature \<and> length signature \<le> 88 \<and> list_all is_base58 signature
                        \<and> positive_dec group \<and> positive_dec ix) invalid) (\<lambda>_.
      and_then (decode_b58_signature dec signature) (\<lambda>raw.
      and_then (change_context (EventIndexOverflow message_id) (parse_nonempty_u32 group)) (\<lambda>g.
      and_then (change_context (EventIndexOverflow message_id) (parse_nonempty_u32 ix)) (\<lambda>i.
      Ok (raw, g, i))))))))"

subsection \<open>Starknet field elements\<close>

datatype checked_felt_error = AddressPrefix | AddressLength | FeltOverflowing | HexDecode

definition felt_max :: nat where
  "felt_max = 2 ^ 251 + 17 * 2 ^ 192"

definition from_be_slice :: "u8 list \<Rightarrow> nat" where
  "from_be_slice bs = foldl (\<lambda>n b. 256 * n + unat b) 0 bs"

text \<open>\<open>str::trim_start_matches\<close> removes the prefix as often as it occurs.\<close>

fun trim_start_0x :: "string \<Rightarrow> string" where
  "trim_start_0x (a # b # s) =
     (if a = CHR ''0'' \<and> b = CHR ''x'' then trim_start_0x s else a # b # s)"
| "trim_start_0x s = s"

definition checked_felt_from_str ::
  "(string \<Rightarrow> u8 list option) \<Rightarrow> string \<Rightarrow> (checked_felt_error, nat) result" where
  "checked_felt_from_str dec s =
     and_then (ensure (take 2 s = ''0x'') AddressPrefix) (\<lambda>_.
     let trimmed_addr = trim_start_0x s in
     and_then (ensure (length trimmed_addr = 64) AddressLength) (\<lambda>_.
     and_then (ok_or HexDecode (dec trimmed_addr)) (\<lambda>bytes.
     and_then (ensure (from_be_slice bytes \<le> felt_max) FeltOverflowing) (\<lambda>_.
     Ok (from_be_slice bytes)))))"

definition felt_event_from_str ::
  "(string \<Rightarrow> u8 list option) \<Rightarrow> string \<Rightarrow> (msg_id_error, nat \<times> u64) result" where
  "felt_event_from_str dec message_id =
     (let invalid = InvalidMessageID message_id ''^(0x0[0-9a-f]{63})-(0|[1-9][0-9]*)$'' in
      and_then (ok_or invalid (split_at_char (CHR ''-'') message_id)) (\<lambda>(tx_id, idx).
      and_then (ensure (hex_tx_hash_pattern tx_id \<and> tx_id ! 2 = CHR ''0'' \<and> canonical_dec idx) invalid) (\<lambda>_.
      and_then (change_context (InvalidFieldElement tx_id) (checked_felt_from_str dec tx_id)) (\<lambda>felt.
      and_then (ok_or (EventIndexOverflow message_id) (parse_u64 idx)) (\<lambda>i.
      Ok (felt, i))))))"

subsection \<open>Bech32m\<close>

text \<open>
  The prefix and the format's length are configuration; the pattern the source builds from
  them matches the prefix, a \<open>1\<close> and the data characters. The check that the prefix is
  alphanumeric is made on bytes, so prefixes outside ASCII are rejected here.
\<close>

definition is_alphanumeric :: "char \<Rightarrow> bool" where
  "is_alphanumeric c \<longleftrightarrow>
     c \<in> set ''0123456789ABCDEFGHIJKLMNOPQRSTUVWXYZabcdefghijklmnopqrstuvwxyz''"

definition verify_bech32m ::
  "(string \<Rightarrow> (string \<times> string) option) \<Rightarrow> string \<Rightarrow> string \<Rightarrow> (msg_id_error, unit) result" where
  "verify_bech32m checked input expected_prefix =
     and_then (ok_or (InvalidBech32m input) (checked input)) (\<lambda>(hrp, data).
     and_then (ensure (hrp = expected_prefix) (InvalidBech32m input)) (\<lambda>_.
     if data = [] then fail (InvalidBech32m input) else Ok ()))"

definition bech32m_from_str ::
  "(string \<Rightarrow> (string \<times> string) option) \<Rightarrow> string \<Rightarrow> nat \<Rightarrow> string \<Rightarrow> (msg_id_error, string) result" where
  "bech32m_from_str checked prefix len message_id =
     and_then (ensure (prefix \<noteq> [] \<and> length prefix \<le> 83)
       (InvalidBech32mFormat ''Prefix size should be between 1 and 83'')) (\<lambda>_.
     let data_part_length = len - length prefix - 1 in
     and_then (ensure (data_part_length \<ge> 6)
       (InvalidBech32mFormat ''The data part should be at least 6 characters long'')) (\<lambda>_.
     and_then (ensure (list_all is_alphanumeric prefix)
       (InvalidBech32mFormat ''The prefix should contain only Bech32m valid characters'')) (\<lambda>_.
     and_then (ensure (take (length prefix) message_id = prefix
         \<and> length message_id = length prefix + 1 + data_part_length
         \<and> message_id ! length prefix = CHR ''1''
         \<and> list_all is_bech32_data (drop (length prefix + 1) message_id))
       (InvalidMessageID message_id (''Bech32m with '' @ prefix @ '' prefix''))) (\<lambda>_.
     and_then (verify_bech32m checked message_id prefix) (\<lambda>_.
     Ok message_id)))))"

subsection \<open>All formats\<close>

datatype message_id_format =
    FieldElementAndEventIndexFormat
  | HexTxHashAndEventIndexFormat
  | Base58TxDigestAndEventIndexFormat
  | Base58SolanaTxSignatureAndEventIndexFormat
  | HexTxHashFormat
  | Bech32mFormat string u32

fun verify_msg_id :: "codecs \<Rightarrow> string \<Rightarrow> message_id_format \<Rightarrow> (msg_id_error, unit) result" where
  "verify_msg_id cd m FieldElementAndEventIndexFormat =
     and_then (felt_event_from_str (hex_decode cd) m) (\<lambda>_. Ok ())"
| "verify_msg_id cd m HexTxHashAndEventIndexFormat =
     and_then (hex_event_from_str (hex_decode cd) m) (\<lambda>_. Ok ())"
| "verify_msg_id cd m Base58TxDigestAndEventIndexFormat =
     and_then (base58_event_from_str (b58_decode cd) m) (\<lambda>_. Ok ())"
| "verify_msg_id cd m Base58SolanaTxSignatureAndEventIndexFormat =
     and_then (solana_event_from_str (b58_decode cd) m) (\<lambda>_. Ok ())"
| "verify_msg_id cd m HexTxHashFormat =
     and_then (hex_tx_hash_from_str (hex_decode cd) m) (\<lambda>_. Ok ())"
| "verify_msg_id cd m (Bech32mFormat prefix len) =
     and_then (bech32m_from_str (bech32m_checked cd) prefix (unat len) m) (\<lambda>_. Ok ())"

subsection \<open>Addresses\<close>

datatype address_format = Eip55 | Sui | Stellar | Solana | Starknet

datatype address_error = InvalidAddress string

text \<open>The upper case of an ASCII string; bytes outside ASCII are kept.\<close>

definition to_uppercase :: "string \<Rightarrow> string" where
  "to_uppercase s =
     map (\<lambda>c. if (97 :: nat) \<le> of_char c \<and> of_char c \<le> (122 :: nat) then char_of (of_char c - (32 :: nat)) else c) s"

fun validate_address :: "codecs \<Rightarrow> string \<Rightarrow> address_format \<Rightarrow> (address_error, unit) result" where
  "validate_address cd a Eip55 = ensure (eip55_ok cd a) (InvalidAddress a)"
| "validate_address cd a Sui = ensure (sui_ok cd a) (InvalidAddress a)"
| "validate_address cd a Stellar =
     (if a \<noteq> to_uppercase a then fail (InvalidAddress a)
      else if take 1 a = ''M'' then fail (InvalidAddress a)
      else ensure (stellar_ok cd a) (InvalidAddress a))"
| "validate_address cd a Solana =
     and_then (ensure (32 \<le> length a \<and> length a \<le> 44) (InvalidAddress a)) (\<lambda>_.
     and_then (ok_or (InvalidAddress a) (b58_decode cd a)) (\<lambda>pubkey.
     ensure (length pubkey = 32) (InvalidAddress a)))"
| "validate_address cd a Starknet =
     and_then (change_context (InvalidAddress a) (checked_felt_from_str (hex_decode cd) a)) (\<lambda>_. Ok ())"

subsection \<open>A hexadecimal codec\<close>

text \<open>An instance of the hexadecimal codec: it decodes both cases and encodes to the lower one.\<close>

definition hex_char :: "nat \<Rightarrow> char" where
  "hex_char n = ''0123456789abcdef'' ! n"

definition hex_val :: "char \<Rightarrow> nat option" where
  "hex_val c = map_of (zip ''0123456789abcdefABCDEF'' ([0..<16] @ [10..<16])) c"

definition hex_byte :: "nat \<Rightarrow> nat \<Rightarrow> u8" where
  "hex_byte x y = word_of_nat (16 * x + y)"

fun hex_decode_std :: "string \<Rightarrow> u8 list option" where
  "hex_decode_std [] = Some []"
| "hex_decode_std [c] = None"
| "hex_decode_std (c # d # s) =
     (case (hex_val c, hex_val d, hex_decode_std s) of
        (Some x, Some y, Some bs) \<Rightarrow> Some (hex_byte x y # bs)
      | _ \<Rightarrow> None)"

definition hex_encode_std :: "u8 list \<Rightarrow> string" where
  "hex_encode_std bs = concat (map (\<lambda>b. [hex_char (unat b div 16), hex_char (unat b mod 16)]) bs)"

section \<open>Lemmas\<close>

subsection \<open>Decimal numbers\<close>

lemma of_char_digit_char: "n < 10 \<Longrightarrow> of_char (digit_char n) = (48 + n :: nat)"
  by (simp add: digit_char_def)

lemma is_digit_digit_char [simp]: "n < 10 \<Longrightarrow> is_digit (digit_char n)"
  by (simp add: is_digit_def of_char_digit_char)

lemma digit_val_digit_char [simp]: "n < 10 \<Longrightarrow> digit_val (digit_char n) = n"
  by (simp add: digit_val_def of_char_digit_char)

lemma digit_char_digit_val: "is_digit c \<Longrightarrow> digit_char (digit_val c) = c"
  by (simp add: digit_char_def digit_val_def is_digit_def)

lemma digit_val_less: "is_digit c \<Longrightarrow> digit_val c < 10"
  unfolding digit_val_def is_digit_def by linarith

lemma digit_char_0 [simp]: "digit_char 0 = CHR ''0''"
  unfolding digit_char_def by (simp only: char_of_eq_iff) simp

lemma parse_nat_snoc [simp]: "parse_nat (s @ [c]) = 10 * parse_nat s + digit_val c"
  by (simp add: parse_nat_def)

lemma parse_nat_single [simp]: "parse_nat [c] = digit_val c"
  by (simp add: parse_nat_def)

lemma parse_nat_Nil [simp]: "parse_nat [] = 0"
  by (simp add: parse_nat_def)

lemma parse_show_nat [simp]: "parse_nat (show_nat n) = n"
proof (induction n rule: show_nat.induct)
  case (1 n)
  show ?case
  proof (cases "n < 10")
    case True
    then show ?thesis using parse_nat_snoc [of "[]" "digit_char n"]
      by (simp add: show_nat.simps [of n])
  next
    case False
    then show ?thesis using 1 by (simp add: show_nat.simps [of n])
  qed
qed

lemma show_nat_digits: "list_all is_digit (show_nat n) \<and> show_nat n \<noteq> []"
proof (induction n rule: show_nat.induct)
  case (1 n)
  then show ?case by (cases "n < 10") (simp_all add: show_nat.simps [of n])
qed

lemma digit_char_0_iff: "n < 10 \<Longrightarrow> digit_char n = CHR ''0'' \<longleftrightarrow> n = 0"
proof
  assume "n < 10" and "digit_char n = CHR ''0''"
  then show "n = 0" using of_char_digit_char [of n] by simp
qed simp

lemma hd_show_nat: "0 < n \<Longrightarrow> hd (show_nat n) \<noteq> CHR ''0''"
proof (induction n rule: show_nat.induct)
  case (1 n)
  show ?case
  proof (cases "n < 10")
    case True
    then show ?thesis using "1.prems" by (simp add: show_nat.simps [of n] digit_char_0_iff)
  next
    case False
    then show ?thesis using 1 show_nat_digits [of "n div 10"] by (simp add: show_nat.simps [of n])
  qed
qed

lemma canonical_show_nat: "canonical_dec (show_nat n)"
proof (cases "n = 0")
  case True
  then show ?thesis by (simp add: canonical_dec_def show_nat.simps [of 0] is_digit_def)
next
  case False
  then show ?thesis using hd_show_nat show_nat_digits by (simp add: canonical_dec_def)
qed

lemma parse_nat_pos: "s \<noteq> [] \<Longrightarrow> list_all is_digit s \<Longrightarrow> hd s \<noteq> CHR ''0'' \<Longrightarrow> 0 < parse_nat s"
proof (induction s rule: rev_induct)
  case Nil
  then show ?case by simp
next
  case (snoc c s)
  show ?case
  proof (cases "s = []")
    case True
    then have "digit_char (digit_val c) \<noteq> CHR ''0''"
      using snoc.prems by (simp add: digit_char_digit_val)
    then have "digit_val c \<noteq> 0" by (metis digit_char_0)
    then show ?thesis by simp
  next
    case False
    then show ?thesis using snoc by simp
  qed
qed

lemma show_parse_pos:
  "s \<noteq> [] \<Longrightarrow> list_all is_digit s \<Longrightarrow> hd s \<noteq> CHR ''0'' \<Longrightarrow> show_nat (parse_nat s) = s"
proof (induction s rule: rev_induct)
  case Nil
  then show ?case by simp
next
  case (snoc c s)
  have c: "is_digit c" "digit_val c < 10" using snoc.prems digit_val_less by simp_all
  show ?case
  proof (cases "s = []")
    case True
    then show ?thesis using c by (simp add: show_nat.simps [of "digit_val c"] digit_char_digit_val)
  next
    case False
    then have "0 < parse_nat s" and "show_nat (parse_nat s) = s"
      using snoc by (simp_all add: parse_nat_pos)
    then show ?thesis
      using c by (simp add: show_nat.simps [of "10 * parse_nat s + digit_val c"] digit_char_digit_val)
  qed
qed

lemma show_parse_nat: "canonical_dec s \<Longrightarrow> show_nat (parse_nat s) = s"
  using show_parse_pos
  by (auto simp: canonical_dec_def parse_nat_def digit_val_def show_nat.simps [of 0])

lemma parse_u64_show [simp]: "parse_u64 (show_word (w :: u64)) = Some w"
  using show_nat_digits [of "unat w"] unat_less_width [of w]
  by (simp add: parse_u64_def show_word_def)

lemma show_parse_u64: "canonical_dec s \<Longrightarrow> parse_u64 s = Some w \<Longrightarrow> show_word w = s"
  by (auto simp: parse_u64_def show_word_def show_parse_nat unat_of_nat split: if_splits)

lemma list_all_notin: "\<not> P c \<Longrightarrow> list_all P s \<Longrightarrow> c \<notin> set s"
  by (auto simp: list_all_iff)

lemma split_at_char_append:
  "c \<notin> set s \<Longrightarrow> split_at_char c (s @ c # t) = Some (s, t)"
proof (induction s)
  case Nil
  then show ?case by (simp add: split_at_char_def)
next
  case (Cons a s)
  then show ?case by (auto simp: split_at_char_def split: list.splits)
qed

lemma split_at_char_Some:
  "split_at_char c s = Some (a, b) \<longleftrightarrow> s = a @ c # b \<and> c \<notin> set a"
proof
  assume "split_at_char c s = Some (a, b)"
  then obtain x where "dropWhile (\<lambda>x. x \<noteq> c) s = x # b" and a: "a = takeWhile (\<lambda>x. x \<noteq> c) s"
    by (auto simp: split_at_char_def split: list.splits)
  moreover from this(1) have "x = c" using hd_dropWhile [of "\<lambda>x. x \<noteq> c" s] by force
  ultimately show "s = a @ c # b \<and> c \<notin> set a"
    using takeWhile_dropWhile_id [of "\<lambda>x. x \<noteq> c" s] by (auto dest: set_takeWhileD)
qed (auto simp: split_at_char_append)

subsection \<open>The contract of message ids\<close>

locale message_id =
  fixes from_str :: "string \<Rightarrow> ('e, 'i) result"
    and to_str :: "'i \<Rightarrow> string"
    and wf :: "'i \<Rightarrow> bool"
  assumes parse_print: "wf i \<Longrightarrow> from_str (to_str i) = Inr i"
    and print_parse: "from_str s = Inr i \<Longrightarrow> to_str i = s \<and> wf i"
begin

lemma from_str_inject: "from_str s = Inr i \<Longrightarrow> from_str t = Inr i \<Longrightarrow> s = t"
  using print_parse by blast

lemma to_str_inject: "wf i \<Longrightarrow> wf j \<Longrightarrow> to_str i = to_str j \<Longrightarrow> i = j"
  using parse_print by (metis sum.inject(2))

lemma valid_iff: "(\<exists>i. from_str s = Inr i) \<longleftrightarrow> (\<exists>i. wf i \<and> s = to_str i)"
  using parse_print print_parse by blast

end

text \<open>What the sources rely on of the hexadecimal codec.\<close>

locale hex_codec =
  fixes dec :: "string \<Rightarrow> u8 list option"
    and enc :: "u8 list \<Rightarrow> string"
  assumes dec_enc: "dec (enc bs) = Some bs"
    and enc_dec: "list_all is_lower_hex s \<Longrightarrow> dec s = Some bs \<Longrightarrow> enc bs = s"
    and enc_lower: "list_all is_lower_hex (enc bs)"
    and length_enc: "length (enc bs) = 2 * length bs"
begin

lemma hex_pattern_enc: "length h = 32 \<Longrightarrow> hex_tx_hash_pattern (''0x'' @ enc h)"
  using enc_lower length_enc by (simp add: hex_tx_hash_pattern_def)

lemma decode_hash32_iff:
  "list_all is_lower_hex s \<Longrightarrow> decode_hash32 dec s e = Inr h \<longleftrightarrow> s = enc h \<and> length h = 32"
  using dec_enc enc_dec by (auto simp: decode_hash32_def result_simps split: if_splits)

lemma hex_tx_hash_pattern_split:
  "hex_tx_hash_pattern s \<Longrightarrow> decode_hash32 dec (drop 2 s) e = Inr h \<Longrightarrow>
     s = ''0x'' @ enc h \<and> length h = 32"
  using append_take_drop_id [of 2 s] by (auto simp: hex_tx_hash_pattern_def decode_hash32_iff)

lemma decode_hash32_enc: "length h = 32 \<Longrightarrow> decode_hash32 dec (enc h) e = Inr h"
  by (simp add: decode_hash32_iff enc_lower)

lemma hex_tx_hash_from_str_iff:
  "hex_tx_hash_from_str dec s = Inr i \<longleftrightarrow>
     s = ''0x'' @ enc (txh_tx_hash i) \<and> length (txh_tx_hash i) = 32"
proof
  assume "hex_tx_hash_from_str dec s = Inr i"
  then have p: "hex_tx_hash_pattern s"
    and d: "decode_hash32 dec (drop 2 s) (InvalidTxHash s) = Inr (txh_tx_hash i)"
    by (auto simp: hex_tx_hash_from_str_def result_simps)
  show "s = ''0x'' @ enc (txh_tx_hash i) \<and> length (txh_tx_hash i) = 32"
    by (rule hex_tx_hash_pattern_split [OF p d])
next
  assume "s = ''0x'' @ enc (txh_tx_hash i) \<and> length (txh_tx_hash i) = 32"
  then show "hex_tx_hash_from_str dec s = Inr i"
    using hex_pattern_enc [of "txh_tx_hash i"]
    by (cases i) (simp add: hex_tx_hash_from_str_def decode_hash32_enc ensure_def)
qed

lemma hex_event_from_str_iff:
  "hex_event_from_str dec s = Inr i \<longleftrightarrow>
     s = ''0x'' @ enc (tx_hash i) @ ''-'' @ show_word (event_index i) \<and> length (tx_hash i) = 32"
proof
  assume "hex_event_from_str dec s = Inr i"
  then obtain tx idx h n where s: "split_at_char (CHR ''-'') s = Some (tx, idx)"
    and p: "hex_tx_hash_pattern tx" "canonical_dec idx"
    and d': "decode_hash32 dec (drop 2 tx) (InvalidTxHash s) = Inr h"
    and u': "parse_u64 idx = Some n" and i: "i = HexTxHashAndEventIndex h n"
    unfolding hex_event_from_str_def Let_def result_simps
    by (clarsimp simp only: split_paired_Ex prod.case result_simps sum.inject)
  have d: "decode_hash32 dec (drop 2 tx) (InvalidTxHash s) = Inr (tx_hash i)"
    and u: "parse_u64 idx = Some (event_index i)"
    using d' u' i by simp_all
  note h = hex_tx_hash_pattern_split [OF p(1) d]
  have "s = tx @ CHR ''-'' # idx" using s by (simp only: split_at_char_Some)
  moreover have "show_word (event_index i) = idx" by (rule show_parse_u64 [OF p(2) u])
  ultimately show "s = ''0x'' @ enc (tx_hash i) @ ''-'' @ show_word (event_index i) \<and> length (tx_hash i) = 32"
    using h by (elim conjE) (simp only: append.simps append_assoc simp_thms)
next
  assume s: "s = ''0x'' @ enc (tx_hash i) @ ''-'' @ show_word (event_index i) \<and> length (tx_hash i) = 32"
  then have len: "length (tx_hash i) = 32" by (rule conjunct2)
  have "CHR ''-'' \<notin> set (enc (tx_hash i))"
    using enc_lower by (rule list_all_notin [rotated]) (simp add: is_lower_hex_def)
  then have "CHR ''-'' \<notin> set (''0x'' @ enc (tx_hash i))" by simp
  then have sp: "split_at_char (CHR ''-'') s = Some (''0x'' @ enc (tx_hash i), show_word (event_index i))"
    using s split_at_char_append [of "CHR ''-''" "''0x'' @ enc (tx_hash i)"] by simp
  have p: "hex_tx_hash_pattern (''0x'' @ enc (tx_hash i))"
    using len by (rule hex_pattern_enc)
  have c: "canonical_dec (show_word (event_index i))"
    unfolding show_word_def by (rule canonical_show_nat)
  have "decode_hash32 dec (enc (tx_hash i)) (InvalidTxHash s) = Inr (tx_hash i)"
    using len by (rule decode_hash32_enc)
  then have "hex_event_from_str dec s = Inr (HexTxHashAndEventIndex (tx_hash i) (event_index i))"
    using p c by (simp add: hex_event_from_str_def Let_def sp ensure_def)
  then show "hex_event_from_str dec s = Inr i" by simp
qed

end

text \<open>Both hexadecimal formats of message ids keep the contract, for every hexadecimal codec.\<close>

sublocale hex_codec \<subseteq> tx_hash: message_id "hex_tx_hash_from_str dec" "hex_tx_hash_to_string enc"
    "\<lambda>i. length (txh_tx_hash i) = 32"
  by unfold_locales (auto simp: hex_tx_hash_from_str_iff hex_tx_hash_to_string_def)

sublocale hex_codec \<subseteq> tx_event: message_id "hex_event_from_str dec" "hex_event_to_string enc"
    "\<lambda>i. length (tx_hash i) = 32"
  by unfold_locales (auto simp: hex_event_from_str_iff hex_event_to_string_def)

subsection \<open>The codec is an instance\<close>

lemma hex_val_hex_char: "n < 16 \<Longrightarrow> hex_val (hex_char n) = Some n"
proof -
  have "list_all (\<lambda>n. hex_val (hex_char n) = Some n) [0..<16]" by code_simp
  then show "n < 16 \<Longrightarrow> ?thesis" by (simp add: list_all_iff)
qed

lemma hex_char_hex_val:
  assumes "is_lower_hex c" and "hex_val c = Some n"
  shows "n < 16 \<and> hex_char n = c"
proof -
  have "\<forall>c \<in> set ''0123456789abcdef''. case hex_val c of None \<Rightarrow> True | Some n \<Rightarrow> n < 16 \<and> hex_char n = c"
    by code_simp
  then have "case hex_val c of None \<Rightarrow> True | Some n \<Rightarrow> n < 16 \<and> hex_char n = c"
    using assms(1) unfolding is_lower_hex_def by (rule bspec)
  then show ?thesis using assms(2) by simp
qed

lemma is_lower_hex_hex_char: "n < 16 \<Longrightarrow> is_lower_hex (hex_char n)"
  unfolding is_lower_hex_def hex_char_def by (rule nth_mem) simp

lemma hex_byte_split: "16 * (unat (b :: u8) div 16) + unat b mod 16 = unat b"
  by simp

lemma hex_encode_std_simps [simp]:
  "hex_encode_std [] = []"
  "hex_encode_std (b # bs) =
     hex_char (unat b div 16) # hex_char (unat b mod 16) # hex_encode_std bs"
  by (simp_all add: hex_encode_std_def)

lemma byte_div_16: "unat (b :: u8) div 16 < 16"
  using unat_less_width [of b] by simp

lemma hex_decode_encode_std: "hex_decode_std (hex_encode_std bs) = Some bs"
proof (induction bs)
  case (Cons b bs)
  have "hex_byte (unat b div 16) (unat b mod 16) = b"
    unfolding hex_byte_def by (simp only: hex_byte_split) simp
  then show ?case using Cons byte_div_16 [of b] by (simp add: hex_val_hex_char)
qed simp

lemma unat_hex_byte: "x < 16 \<Longrightarrow> y < 16 \<Longrightarrow> unat (hex_byte x y) = 16 * x + y"
  unfolding hex_byte_def by (subst unat_of_nat) simp

lemma hex_encode_decode_std:
  "list_all is_lower_hex s \<Longrightarrow> hex_decode_std s = Some bs \<Longrightarrow> hex_encode_std bs = s"
proof (induction s arbitrary: bs rule: hex_decode_std.induct)
  case (3 c d s)
  obtain x y bs' where *: "hex_val c = Some x" "hex_val d = Some y" "hex_decode_std s = Some bs'"
      and bs: "bs = hex_byte x y # bs'"
    using "3.prems"(2) by (auto split: option.splits)
  have c: "x < 16 \<and> hex_char x = c" and d: "y < 16 \<and> hex_char y = d"
    using "3.prems"(1) hex_char_hex_val [OF _ *(1)] hex_char_hex_val [OF _ *(2)] by simp_all
  moreover have "hex_encode_std bs' = s" using "3.prems"(1) *(3) by (intro "3.IH") simp_all
  ultimately show ?case by (auto simp: bs unat_hex_byte)
qed simp_all

lemma hex_encode_std_lower: "list_all is_lower_hex (hex_encode_std bs)"
  by (induction bs) (simp_all add: is_lower_hex_hex_char byte_div_16)

lemma length_hex_encode_std: "length (hex_encode_std bs) = 2 * length bs"
  by (induction bs) simp_all

interpretation std_hex: hex_codec hex_decode_std hex_encode_std
  by (rule hex_codec.intro)
     (rule hex_decode_encode_std hex_encode_std_lower length_hex_encode_std
        | erule hex_encode_decode_std, assumption)+

subsection \<open>Field elements\<close>

lemma from_be_slice_snoc: "from_be_slice (bs @ [b]) = 256 * from_be_slice bs + unat b"
  by (simp add: from_be_slice_def)

lemma base256_inject:
  "256 * x + a = 256 * y + b \<Longrightarrow> a < 256 \<Longrightarrow> b < 256 \<Longrightarrow> x = y \<and> a = (b :: nat)"
proof -
  assume e: "256 * x + a = 256 * y + b" and "a < 256" and "b < 256"
  then have "(256 * x + a) div 256 = x" and "(256 * y + b) div 256 = y" by simp_all
  then show "x = y \<and> a = b" using e by simp
qed

lemma from_be_slice_inject:
  "length as = length bs \<Longrightarrow> from_be_slice as = from_be_slice bs \<Longrightarrow> as = bs"
proof (induction as arbitrary: bs rule: rev_induct)
  case Nil
  then show ?case by simp
next
  case (snoc a as)
  obtain bs' b where bs: "bs = bs' @ [b]" using snoc.prems(1) by (cases bs rule: rev_cases) auto
  have "256 * from_be_slice as + unat a = 256 * from_be_slice bs' + unat b"
    using snoc.prems(2) by (simp add: bs from_be_slice_snoc)
  moreover have "unat a < 256" "unat b < 256"
    using unat_less_width [of a] unat_less_width [of b] by simp_all
  ultimately have "from_be_slice as = from_be_slice bs' \<and> unat a = unat b" by (rule base256_inject)
  then show ?case using snoc bs by (simp add: word_unat_eq_iff)
qed

lemma trim_start_0x_hex: "list_all is_lower_hex s \<Longrightarrow> trim_start_0x (''0x'' @ s) = s"
  by (cases s rule: trim_start_0x.cases) (auto simp: is_lower_hex_def)

lemma hex_tx_hash_pattern_body:
  "hex_tx_hash_pattern s \<Longrightarrow> s = ''0x'' @ drop 2 s \<and> list_all is_lower_hex (drop 2 s) \<and> length (drop 2 s) = 64"
  using append_take_drop_id [of 2 s] by (simp add: hex_tx_hash_pattern_def)

lemma felt_event_Inr:
  assumes "felt_event_from_str dec s = Inr (felt, i)"
  obtains body idx bs where "s = ''0x'' @ body @ ''-'' @ idx" "list_all is_lower_hex body"
    "length body = 64" "dec body = Some bs" "felt = from_be_slice bs" "idx = show_word i"
proof -
  obtain tx idx where sp: "split_at_char (CHR ''-'') s = Some (tx, idx)"
    and p: "hex_tx_hash_pattern tx" and c: "canonical_dec idx"
    and f: "checked_felt_from_str dec tx = Inr felt" and u: "parse_u64 idx = Some i"
    using assms unfolding felt_event_from_str_def Let_def result_simps
    by (clarsimp simp only: split_paired_Ex prod.case result_simps sum.inject prod.inject)
  note b = hex_tx_hash_pattern_body [OF p]
  have "trim_start_0x tx = drop 2 tx" using trim_start_0x_hex [of "drop 2 tx"] b by metis
  then obtain bs where "dec (drop 2 tx) = Some bs" "felt = from_be_slice bs"
    using f by (auto simp: checked_felt_from_str_def Let_def result_simps)
  moreover have "s = ''0x'' @ drop 2 tx @ ''-'' @ idx"
    using sp b unfolding split_at_char_Some by (metis append.assoc append_Cons append_Nil)
  moreover have "idx = show_word i" by (rule show_parse_u64 [OF c u, symmetric])
  ultimately show thesis using that b by blast
qed

text \<open>
  \<open>checked_felt_from_str\<close> strips every leading \<open>0x\<close>, so a repeated prefix names the same
  field element, although the address is documented to be \<open>0x\<close> and 64 digits.
\<close>

lemma felt_repeated_prefix:
  "checked_felt_from_str dec (''0x'' @ ''0x'' @ s) = checked_felt_from_str dec (''0x'' @ s)"
  by (simp add: checked_felt_from_str_def)

subsection \<open>Verification does not panic\<close>

lemma is_panic_decode_hash32 [simp]: "\<not> is_panic (decode_hash32 dec s e)"
  by (simp add: decode_hash32_def)

lemma is_panic_validate_address [simp]: "\<not> is_panic (validate_address cd a f)"
  by (cases f) (auto simp: checked_felt_from_str_def Let_def)

lemma is_panic_verify_msg_id [simp]: "\<not> is_panic (verify_msg_id cd s fmt)"
  by (cases fmt)
     (auto simp: felt_event_from_str_def hex_event_from_str_def base58_event_from_str_def
       solana_event_from_str_def hex_tx_hash_from_str_def bech32m_from_str_def verify_bech32m_def
       checked_felt_from_str_def decode_b58_signature_def parse_nonempty_u32_def
       nonempty_uint32_try_from_def Let_def split: if_splits)

section \<open>Properties\<close>

text \<open>
  C40. For every hexadecimal codec that inverts itself on lower-case digits, the message ids
  of the format \<open>HexTxHashAndEventIndex\<close> are parsed and printed without loss: a string is
  accepted with the result \<open>i\<close> exactly if it is the printed form of \<open>i\<close> and the hash of \<open>i\<close>
  has 32 bytes. So each transaction event has one message id, as the trait demands.
\<close>

theorem hex_event_parse_print:
  assumes "hex_codec dec enc"
  shows "hex_event_from_str dec s = Inr i \<longleftrightarrow> s = hex_event_to_string enc i \<and> length (tx_hash i) = 32"
  by (simp only: hex_codec.hex_event_from_str_iff [OF assms] hex_event_to_string_def)

theorem hex_event_parse_print_witness:
  "hex_event_from_str hex_decode_std
     (''0x'' @ hex_encode_std (replicate 32 171) @ ''-'' @ ''17'')
   = Inr (HexTxHashAndEventIndex (replicate 32 171) 17)"
proof -
  have "show_word (17 :: u64) = ''17''" by code_simp
  then show ?thesis
    using hex_event_parse_print [OF std_hex.hex_codec_axioms,
        of _ "HexTxHashAndEventIndex (replicate 32 171) 17"]
    by (simp only: hex_event_to_string_def hex_tx_hash_and_event_index.sel length_replicate simp_thms)
qed

text \<open>
  Two accepted message ids of the format \<open>FieldElementAndEventIndex\<close> with the same
  field element and event index are the same string, for every hexadecimal codec that
  inverts itself on lower-case digits.
\<close>

lemma felt_event_unique:
  assumes "hex_codec dec enc"
    and "felt_event_from_str dec s = Inr i" and "felt_event_from_str dec t = Inr i"
  shows "s = t"
proof -
  obtain felt n where i: "i = (felt, n)" by (cases i)
  obtain body bs where s: "s = ''0x'' @ body @ ''-'' @ show_word n" "list_all is_lower_hex body"
      "length body = 64" "dec body = Some bs" "felt = from_be_slice bs"
    using assms(2) unfolding i by (rule felt_event_Inr) blast
  obtain body' bs' where t: "t = ''0x'' @ body' @ ''-'' @ show_word n" "list_all is_lower_hex body'"
      "length body' = 64" "dec body' = Some bs'" "felt = from_be_slice bs'"
    using assms(3) unfolding i by (rule felt_event_Inr) blast
  have e: "enc bs = body" "enc bs' = body'"
    using hex_codec.enc_dec [OF assms(1)] s(2,4) t(2,4) by blast+
  then have "length bs = length bs'"
    using hex_codec.length_enc [OF assms(1), of bs] hex_codec.length_enc [OF assms(1), of bs'] s(3) t(3)
    by simp
  then have "bs = bs'" using s(5) t(5) from_be_slice_inject by simp
  then show "s = t" using e s(1) t(1) by simp
qed

lemma felt_event_unique_example:
  "{t. felt_event_from_str hex_decode_std t = Inr (0, 1)} =
     {''0x'' @ replicate 64 (CHR ''0'') @ ''-1''}"
proof -
  have sp: "split_at_char (CHR ''-'') (''0x'' @ replicate 64 (CHR ''0'') @ ''-1'') =
      Some (''0x'' @ replicate 64 (CHR ''0''), ''1'')"
    by (simp add: split_at_char_Some)
  have p: "hex_tx_hash_pattern (''0x'' @ replicate 64 (CHR ''0''))" "canonical_dec ''1''"
    by code_simp+
  have "show_word (1 :: u64) = ''1''" by code_simp
  then have n: "parse_u64 ''1'' = Some 1" using parse_u64_show [of 1] by (simp only:)
  have t: "trim_start_0x (''0x'' @ replicate 64 (CHR ''0'')) = replicate 64 (CHR ''0'')" by code_simp
  have d: "hex_decode_std (replicate 64 (CHR ''0'')) = Some (replicate 32 0)" by code_simp
  have z: "from_be_slice (replicate n 0) = 0" for n
    by (induction n) (simp_all add: from_be_slice_def)
  have "checked_felt_from_str hex_decode_std (''0x'' @ replicate 64 (CHR ''0'')) = Inr 0"
    unfolding checked_felt_from_str_def Let_def t by (simp add: d z ensure_def)
  then have "felt_event_from_str hex_decode_std (''0x'' @ replicate 64 (CHR ''0'') @ ''-1'') = Inr (0, 1)"
    unfolding felt_event_from_str_def Let_def sp using p by (simp add: ensure_def n)
  then show ?thesis using felt_event_unique [OF std_hex.hex_codec_axioms] by blast
qed

end
