(* ===== verification/Router_Api.thy ===== *)
theory Router_Api
  imports Msg_Id
begin

text \<open>
  The shared vocabulary of the routing contracts: chain names
  (\<open>packages/axelar-wasm-std/src/chain.rs\<close>) and the addresses, cross-chain ids, messages, gateway
  directions and chain endpoints of \<open>packages/router-api/src/primitives.rs\<close>. Strings are the
  bytes of their encoding. The hash function (Keccak 256) is a parameter; what is hashed, the
  preimage, is written out, and shown to determine the message.
\<close>

section \<open>Definitions\<close>

subsection \<open>Chain names and addresses\<close>

definition field_delimiter :: char where
  "field_delimiter = CHR ''_''"

definition is_ascii :: "string \<Rightarrow> bool" where
  "is_ascii s = list_all (\<lambda>c. (of_char c :: nat) < 128) s"

definition lower_char :: "char \<Rightarrow> char" where
  "lower_char c =
     (if (65 :: nat) \<le> of_char c \<and> of_char c \<le> (90 :: nat) then char_of (of_char c + (32 :: nat)) else c)"

definition to_lowercase :: "string \<Rightarrow> string" where
  "to_lowercase s = map lower_char s"

datatype chain_error = InvalidChainNameError

definition chain_name_max_len :: nat where
  "chain_name_max_len = 20"

definition is_raw_chain_name :: "string \<Rightarrow> bool" where
  "is_raw_chain_name s \<longleftrightarrow>
     s \<noteq> [] \<and> length s \<le> chain_name_max_len \<and> is_ascii s \<and> field_delimiter \<notin> set s"

definition chain_name_raw_from_str :: "string \<Rightarrow> (chain_error, string) result" where
  "chain_name_raw_from_str s = (if \<not> is_raw_chain_name s then fail InvalidChainNameError else Ok s)"

definition chain_name_normalize :: "string \<Rightarrow> string" where
  "chain_name_normalize s = to_lowercase s"

definition chain_name_from_str :: "string \<Rightarrow> (chain_error, string) result" where
  "chain_name_from_str s = and_then (chain_name_raw_from_str s) (\<lambda>c. Ok (chain_name_normalize c))"

datatype router_error =
    RouterStd
  | RoutingDisabledError
  | ChainAlreadyExists
  | InvalidChainName
  | InvalidMessageId
  | ChainNotFound
  | GatewayNotRegistered
  | GatewayAlreadyRegistered
  | CoordinatorNotFound
  | ChainFrozenError string
  | RouterInvalidAddress
  | WrongSourceChain
  | RouterStoreFailure
  | NexusError

definition is_address :: "string \<Rightarrow> bool" where
  "is_address s \<longleftrightarrow> s \<noteq> [] \<and> field_delimiter \<notin> set s"

definition address_from_str :: "string \<Rightarrow> (router_error, string) result" where
  "address_from_str s =
     and_then (ensure (s \<noteq> []) RouterInvalidAddress) (\<lambda>_.
     if \<not> is_address s then fail RouterInvalidAddress else Ok s)"

text \<open>\<open>validate_cosmwasm_address\<close>, with the chain's address check as a parameter.\<close>

definition validate_cosmwasm_address ::
  "(string \<Rightarrow> string option) \<Rightarrow> string \<Rightarrow> (address_error, string) result" where
  "validate_cosmwasm_address addr_validate a = ok_or (InvalidAddress a) (addr_validate a)"

subsection \<open>Cross-chain ids and messages\<close>

datatype cross_chain_id = CrossChainId (source_chain: string) (message_id: string)

definition cross_chain_id_new :: "string \<Rightarrow> string \<Rightarrow> (router_error, cross_chain_id) result" where
  "cross_chain_id_new chain mid =
     and_then (change_context InvalidChainName (chain_name_raw_from_str chain)) (\<lambda>c.
     and_then (ensure (mid \<noteq> []) InvalidMessageId) (\<lambda>_.
     Ok (CrossChainId c mid)))"

definition cross_chain_id_to_string :: "cross_chain_id \<Rightarrow> string" where
  "cross_chain_id_to_string i = source_chain i @ [field_delimiter] @ message_id i"

text \<open>The storage key puts the length of the chain name first, then the two strings.\<close>

definition cross_chain_id_key :: "cross_chain_id \<Rightarrow> nat \<times> string \<times> string" where
  "cross_chain_id_key i = (length (source_chain i), source_chain i, message_id i)"

instantiation cross_chain_id :: linorder
begin

definition less_eq_cross_chain_id :: "cross_chain_id \<Rightarrow> cross_chain_id \<Rightarrow> bool" where
  "less_eq_cross_chain_id i j \<longleftrightarrow> cross_chain_id_key i \<le> cross_chain_id_key j"

definition less_cross_chain_id :: "cross_chain_id \<Rightarrow> cross_chain_id \<Rightarrow> bool" where
  "less_cross_chain_id i j \<longleftrightarrow> cross_chain_id_key i < cross_chain_id_key j"

instance
  by intro_classes
     (auto simp: less_eq_cross_chain_id_def less_cross_chain_id_def cross_chain_id_key_def
       cross_chain_id.expand)

end

record message =
  cc_id :: cross_chain_id
  source_address :: string
  destination_chain :: string
  destination_address :: string
  payload_hash :: "u8 list"

definition char_byte :: "char \<Rightarrow> u8" where
  "char_byte c = word_of_nat (of_char c)"

definition str_bytes :: "string \<Rightarrow> u8 list" where
  "str_bytes s = map char_byte s"

definition message_preimage :: "message \<Rightarrow> u8 list" where
  "message_preimage m =
     (let d = str_bytes [field_delimiter] in
      str_bytes (cross_chain_id_to_string (cc_id m)) @ d @ str_bytes (source_address m) @ d
      @ str_bytes (destination_chain m) @ d @ str_bytes (destination_address m) @ d @ payload_hash m)"

definition message_hash :: "(u8 list \<Rightarrow> u8 list) \<Rightarrow> message \<Rightarrow> u8 list" where
  "message_hash keccak256 m = keccak256 (message_preimage m)"

subsection \<open>Chain endpoints\<close>

datatype gateway_direction = DirNone | Incoming | Outgoing | Bidirectional

fun direction_bits :: "gateway_direction \<Rightarrow> u8" where
  "direction_bits DirNone = 0"
| "direction_bits Incoming = 1"
| "direction_bits Outgoing = 2"
| "direction_bits Bidirectional = or 1 2"

definition flag_contains :: "u8 \<Rightarrow> gateway_direction \<Rightarrow> bool" where
  "flag_contains flags d \<longleftrightarrow> and flags (direction_bits d) = direction_bits d"

record chain_endpoint =
  ep_name :: string
  ep_gateway :: string
  ep_frozen_status :: u8
  ep_msg_id_format :: message_id_format

definition incoming_frozen :: "chain_endpoint \<Rightarrow> bool" where
  "incoming_frozen e = flag_contains (ep_frozen_status e) Incoming"

definition outgoing_frozen :: "chain_endpoint \<Rightarrow> bool" where
  "outgoing_frozen e = flag_contains (ep_frozen_status e) Outgoing"

subsection \<open>Well-formedness\<close>

text \<open>What deserialisation establishes of the messages a contract receives.\<close>

definition message_ok :: "message \<Rightarrow> bool" where
  "message_ok m \<longleftrightarrow>
     is_raw_chain_name (source_chain (cc_id m)) \<and> message_id (cc_id m) \<noteq> []
     \<and> is_address (source_address m) \<and> is_raw_chain_name (destination_chain m)
     \<and> is_address (destination_address m) \<and> length (payload_hash m) = 32"

section \<open>Lemmas\<close>

subsection \<open>Chain names\<close>

lemma of_char_lower_char:
  "(of_char (lower_char c) :: nat) =
     (if (65 :: nat) \<le> of_char c \<and> of_char c \<le> (90 :: nat) then of_char c + 32 else of_char c)"
  by (simp add: lower_char_def)

lemma lower_char_idem [simp]: "lower_char (lower_char c) = lower_char c"
proof -
  have "\<not> ((65 :: nat) \<le> of_char (lower_char c) \<and> of_char (lower_char c) \<le> (90 :: nat))"
    unfolding of_char_lower_char by simp
  then show ?thesis unfolding lower_char_def [of "lower_char c"] by (simp only: if_False)
qed

lemma lower_char_delimiter: "lower_char c = field_delimiter \<longleftrightarrow> c = field_delimiter"
proof
  assume e: "lower_char c = field_delimiter"
  then have "(of_char (lower_char c) :: nat) = 95" by (simp add: field_delimiter_def)
  then have "\<not> ((65 :: nat) \<le> of_char c \<and> of_char c \<le> (90 :: nat))"
    using of_char_lower_char [of c] by (auto split: if_splits)
  then show "c = field_delimiter" using e by (simp only: lower_char_def if_False)
qed (simp add: lower_char_def field_delimiter_def)

lemma to_lowercase_idem [simp]: "to_lowercase (to_lowercase s) = to_lowercase s"
  by (simp add: to_lowercase_def)

lemma is_raw_chain_name_lowercase: "is_raw_chain_name s \<Longrightarrow> is_raw_chain_name (to_lowercase s)"
  by (auto simp: is_raw_chain_name_def is_ascii_def to_lowercase_def list_all_iff of_char_lower_char
      lower_char_delimiter image_iff dest: sym)

lemma chain_name_from_str_Inr:
  "chain_name_from_str s = Inr c \<Longrightarrow> is_raw_chain_name c \<and> to_lowercase c = c"
  by (auto simp: chain_name_from_str_def chain_name_raw_from_str_def chain_name_normalize_def
      is_raw_chain_name_lowercase split: if_splits)

lemma chain_name_from_str_idem:
  "chain_name_from_str s = Inr c \<Longrightarrow> chain_name_from_str c = Inr c"
  using chain_name_from_str_Inr [of s c]
  by (simp add: chain_name_from_str_def chain_name_raw_from_str_def chain_name_normalize_def)

subsection \<open>What is hashed determines the message\<close>

lemma char_byte_inject: "char_byte c = char_byte d \<longleftrightarrow> c = d"
proof
  have u: "unat (char_byte x) = of_char x" for x :: char
    unfolding char_byte_def by (subst unat_of_nat) simp
  assume "char_byte c = char_byte d"
  then have "(of_char c :: nat) = of_char d" using u by metis
  then show "c = d" by simp
qed simp

lemma str_bytes_inject: "str_bytes a = str_bytes b \<longleftrightarrow> a = b"
  unfolding str_bytes_def by (rule inj_map_eq_map) (simp add: inj_def char_byte_inject)

lemma str_bytes_append [simp]:
  "str_bytes (a @ b) = str_bytes a @ str_bytes b" "str_bytes (c # b) = char_byte c # str_bytes b"
  "str_bytes [] = []"
  by (simp_all add: str_bytes_def)

lemma delimiter_notin_bytes: "char_byte c \<in> set (str_bytes s) \<longleftrightarrow> c \<in> set s"
  by (auto simp: str_bytes_def char_byte_inject)

lemma split_first_delimiter:
  "d \<notin> set a \<Longrightarrow> d \<notin> set b \<Longrightarrow> a @ d # x = b @ d # y \<Longrightarrow> a = b \<and> x = y"
proof (induction a arbitrary: b)
  case Nil
  then show ?case by (cases b) auto
next
  case (Cons c a)
  then show ?case by (cases b) auto
qed

lemma split_last_delimiter:
  assumes "d \<notin> set a" and "d \<notin> set b" and "x @ d # a = y @ d # b"
  shows "x = y \<and> a = b"
proof -
  have "rev a @ d # rev x = rev b @ d # rev y" using assms(3) by (metis append.assoc append_Cons append_Nil rev.simps(2) rev_append)
  then show ?thesis using split_first_delimiter [of d "rev a" "rev b" "rev x" "rev y"] assms(1,2) by simp
qed

lemma preimage_inject:
  assumes m: "message_ok m" and n: "message_ok n" and e: "message_preimage m = message_preimage n"
  shows "m = n"
proof -
  let ?d = "char_byte field_delimiter"
  have ok: "?d \<notin> set (str_bytes (f m)) \<and> ?d \<notin> set (str_bytes (f n))"
    if "f \<in> {source_chain \<circ> cc_id, source_address, destination_chain, destination_address}" for f
    using that m n by (auto simp: delimiter_notin_bytes message_ok_def is_raw_chain_name_def is_address_def)
  define pre where "pre k = str_bytes (source_chain (cc_id k)) @ ?d # str_bytes (message_id (cc_id k))
      @ ?d # str_bytes (source_address k) @ ?d # str_bytes (destination_chain k)
      @ ?d # str_bytes (destination_address k)" for k :: message
  have p: "message_preimage k = pre k @ ?d # payload_hash k" for k
    by (simp add: message_preimage_def cross_chain_id_to_string_def pre_def Let_def)
  have "pre m = pre n \<and> ?d # payload_hash m = ?d # payload_hash n"
    using e m n by (simp add: p message_ok_def)
  then have 1: "pre m = pre n" and ph: "payload_hash m = payload_hash n" by simp_all
  have s: "source_chain (cc_id m) = source_chain (cc_id n)"
    and 2: "str_bytes (message_id (cc_id m)) @ ?d # str_bytes (source_address m)
        @ ?d # str_bytes (destination_chain m) @ ?d # str_bytes (destination_address m)
      = str_bytes (message_id (cc_id n)) @ ?d # str_bytes (source_address n)
        @ ?d # str_bytes (destination_chain n) @ ?d # str_bytes (destination_address n)"
    using split_first_delimiter [OF _ _ 1 [unfolded pre_def]] ok [of "source_chain \<circ> cc_id"]
    by (simp_all add: str_bytes_inject)
  have da: "destination_address m = destination_address n"
    and 3: "(str_bytes (message_id (cc_id m)) @ ?d # str_bytes (source_address m))
        @ ?d # str_bytes (destination_chain m)
      = (str_bytes (message_id (cc_id n)) @ ?d # str_bytes (source_address n))
        @ ?d # str_bytes (destination_chain n)"
    using split_last_delimiter [of ?d "str_bytes (destination_address m)" "str_bytes (destination_address n)"
        "str_bytes (message_id (cc_id m)) @ ?d # str_bytes (source_address m)
           @ ?d # str_bytes (destination_chain m)"
        "str_bytes (message_id (cc_id n)) @ ?d # str_bytes (source_address n)
           @ ?d # str_bytes (destination_chain n)"] 2 ok [of destination_address]
    by (simp_all add: str_bytes_inject)
  have dc: "destination_chain m = destination_chain n"
    and 4: "str_bytes (message_id (cc_id m)) @ ?d # str_bytes (source_address m)
      = str_bytes (message_id (cc_id n)) @ ?d # str_bytes (source_address n)"
    using split_last_delimiter [OF _ _ 3] ok [of destination_chain] by (simp_all add: str_bytes_inject)
  have "message_id (cc_id m) = message_id (cc_id n) \<and> source_address m = source_address n"
    using split_last_delimiter [OF _ _ 4] ok [of source_address] by (simp add: str_bytes_inject)
  then show ?thesis
    using s da dc ph by (auto intro: message.equality cross_chain_id.expand)
qed

section \<open>Properties\<close>

text \<open>
  C35. The hash of a message identifies it. If the hash function does not collide on what two
  well-formed messages feed to it, then the messages have the same hash exactly if they are
  equal: although the fields are only separated by a delimiter and the message id may contain
  it, the fields cannot be shifted into each other.
\<close>

theorem message_hash_identifies:
  assumes "message_ok m" and "message_ok n"
    and "inj_on keccak256 {message_preimage m, message_preimage n}"
  shows "message_hash keccak256 m = message_hash keccak256 n \<longleftrightarrow> m = n"
  using assms preimage_inject unfolding message_hash_def inj_on_def by blast

theorem message_hash_identifies_witness:
  "message_hash id \<lparr>cc_id = CrossChainId ''eth'' ''a_b'', source_address = ''c'',
       destination_chain = ''avax'', destination_address = ''d'', payload_hash = replicate 32 0\<rparr>
   \<noteq> message_hash id \<lparr>cc_id = CrossChainId ''eth'' ''a'', source_address = ''b'',
       destination_chain = ''c'', destination_address = ''d'', payload_hash = replicate 32 0\<rparr>"
  (is "message_hash id ?m \<noteq> message_hash id ?n")
proof -
  have "message_ok ?m" "message_ok ?n" by code_simp+
  then have "message_hash id ?m = message_hash id ?n \<longleftrightarrow> ?m = ?n"
    by (rule message_hash_identifies) simp
  then show ?thesis by simp
qed

end
