(* ===== verification/Permissions.thy ===== *)
theory Permissions
  imports Wasm_Std
begin

unbundle bit_operations_syntax

text \<open>
  Access control of the contracts: the roles of \<open>axelar-wasm-std/src/permission_control.rs\<close>
  and the checks that the macros of \<open>packages/msgs-derive\<close> generate from the
  \<open>#[permission(...)]\<close> attributes of an \<open>ExecuteMsg\<close> and wrap around a contract's \<open>execute\<close>.
  A set of flags is the byte the source's \<open>FlagSet\<close> stores. The functions that look up
  specific senders and proxies are the contract's own; they are arguments here.
\<close>

section \<open>Definitions\<close>

subsection \<open>Roles\<close>

datatype permission = NoPrivilege | Admin | Governance | Elevated | Any

fun permission_bits :: "permission \<Rightarrow> u8" where
  "permission_bits NoPrivilege = 1"
| "permission_bits Admin = 2"
| "permission_bits Governance = 4"
| "permission_bits Elevated = 2 OR 4"
| "permission_bits Any = 1 OR (2 OR 4)"

datatype permission_error =
    GeneralPermissionDenied u8 u8
  | SpecificPermissionDenied "string list"
  | GeneralAndSpecificPermissionDenied u8 u8 "string list"
  | AddressNotWhitelisted "string list" string
  | WhitelistNotFound string
  | WrongVariant
  | Unauthorized

record permission_state =
  admin_addr :: "string option"
  governance_addr :: "string option"

definition set_admin :: "string \<Rightarrow> permission_state \<Rightarrow> permission_state" where
  "set_admin addr st = st\<lparr>admin_addr := Some addr\<rparr>"

definition set_governance :: "string \<Rightarrow> permission_state \<Rightarrow> permission_state" where
  "set_governance addr st = st\<lparr>governance_addr := Some addr\<rparr>"

definition sender_role :: "permission_state \<Rightarrow> string \<Rightarrow> u8" where
  "sender_role st sender =
     (let role = permission_bits NoPrivilege;
          role = (if admin_addr st = Some sender then role OR permission_bits Admin else role);
          role = (if governance_addr st = Some sender then role OR permission_bits Governance else role)
      in if role AND permission_bits Elevated \<noteq> 0 then role AND NOT (permission_bits NoPrivilege)
         else role)"

subsection \<open>The permissions of a message\<close>

record msg_permissions =
  specific_perms :: "string list"
  general_perms :: "permission list"
  external_perms :: "string list"

text \<open>What the derive macro accepts at compile time.\<close>

definition permissions_valid :: "msg_permissions \<Rightarrow> bool" where
  "permissions_valid p \<longleftrightarrow>
     distinct (general_perms p) \<and> distinct (specific_perms p) \<and> distinct (external_perms p)
     \<and> \<not> (general_perms p = [] \<and> specific_perms p = [])
     \<and> \<not> (specific_perms p \<noteq> [] \<and> Any \<in> set (general_perms p))"

fun specific_check ::
  "(string \<Rightarrow> ('e, bool) result) \<Rightarrow> string \<Rightarrow> string list \<Rightarrow> (permission_error, bool) result" where
  "specific_check f sender [] = Ok False"
| "specific_check f sender (r # rs) =
     and_then (change_context (WhitelistNotFound sender) (f r)) (\<lambda>sender_is_authorized.
     if sender_is_authorized then Ok True else specific_check f sender rs)"

definition general_check ::
  "permission_state \<Rightarrow> string \<Rightarrow> msg_permissions \<Rightarrow> (permission_error, unit) result" where
  "general_check st sender p =
     (if general_perms p = [] \<and> specific_perms p \<noteq> [] then fail (SpecificPermissionDenied (specific_perms p))
      else let permission = foldr (\<lambda>q b. permission_bits q OR b) (general_perms p) 0;
               role = sender_role st sender
           in if permission AND permission_bits Any = permission_bits Any then Ok ()
              else if permission AND role = 0 then fail (GeneralPermissionDenied permission role)
              else Ok ())"

definition ensure_permissions ::
  "permission_state \<Rightarrow> string \<Rightarrow> msg_permissions \<Rightarrow> (string \<Rightarrow> ('e, bool) result)
     \<Rightarrow> (permission_error, unit) result" where
  "ensure_permissions st sender p f =
     and_then (specific_check f sender (specific_perms p)) (\<lambda>authorized.
     if authorized then Ok () else general_check st sender p)"

subsection \<open>Messages relayed by another contract\<close>

datatype 'm from_proxy = Relay string 'm | Direct 'm

fun validate_external_contract ::
  "(string \<times> ('e, string) result) list \<Rightarrow> string \<Rightarrow> (permission_error, string) result" where
  "validate_external_contract [] contract_addr = fail Unauthorized"
| "validate_external_contract ((name, stored) # cs) contract_addr =
     (case stored of
        Inr stored_addr \<Rightarrow> if stored_addr = contract_addr then Ok name
                         else validate_external_contract cs contract_addr
      | Inl (Err _) \<Rightarrow> validate_external_contract cs contract_addr
      | Inl (Panic s) \<Rightarrow> panic s)"

definition verify_external_executor :: "msg_permissions \<Rightarrow> string \<Rightarrow> (permission_error, unit) result" where
  "verify_external_executor p contract_name =
     (if contract_name \<in> set (external_perms p) then Ok () else fail Unauthorized)"

text \<open>
  The prologue of a wrapped \<open>execute\<close>: the sender that counts and the message, or the error.
\<close>

definition authorize ::
  "permission_state \<Rightarrow> (string \<times> ('e, string) result) list \<Rightarrow> ('m \<Rightarrow> msg_permissions)
     \<Rightarrow> ('m \<Rightarrow> string \<Rightarrow> string \<Rightarrow> ('f, bool) result)
     \<Rightarrow> string \<Rightarrow> 'm from_proxy \<Rightarrow> (permission_error, string \<times> 'm) result" where
  "authorize st proxies perms specific sender msg =
     and_then (case msg of
         Relay original_sender m \<Rightarrow>
           and_then (validate_external_contract proxies sender) (\<lambda>name.
           and_then (verify_external_executor (perms m) name) (\<lambda>_. Ok (original_sender, m)))
       | Direct m \<Rightarrow> Ok (sender, m)) (\<lambda>(sender', m).
     and_then (ensure_permissions st sender' (perms m) (\<lambda>role. specific m role sender')) (\<lambda>_.
     Ok (sender', m)))"

subsection \<open>Specification\<close>

fun holds_permission :: "permission_state \<Rightarrow> string \<Rightarrow> permission \<Rightarrow> bool" where
  "holds_permission st a NoPrivilege \<longleftrightarrow> admin_addr st \<noteq> Some a \<and> governance_addr st \<noteq> Some a"
| "holds_permission st a Admin \<longleftrightarrow> admin_addr st = Some a"
| "holds_permission st a Governance \<longleftrightarrow> governance_addr st = Some a"
| "holds_permission st a Elevated \<longleftrightarrow> admin_addr st = Some a \<or> governance_addr st = Some a"
| "holds_permission st a Any \<longleftrightarrow> True"

fun authorized_by :: "(string \<Rightarrow> ('e, bool) result) \<Rightarrow> string list \<Rightarrow> bool" where
  "authorized_by f [] \<longleftrightarrow> False"
| "authorized_by f (r # rs) \<longleftrightarrow> f r = Inr True \<or> f r = Inr False \<and> authorized_by f rs"

section \<open>Lemmas\<close>

lemma permission_bits_simps [simp]: "permission_bits Elevated = 6" "permission_bits Any = 7"
  by simp_all

declare permission_bits.simps(4,5) [simp del]

lemma sender_role_cases:
  "sender_role st a =
     (if admin_addr st = Some a then if governance_addr st = Some a then 6 else 2
      else if governance_addr st = Some a then 4 else 1)"
  by (simp add: sender_role_def)

lemma permission_holds:
  "permission_bits q AND sender_role st a \<noteq> 0 \<longleftrightarrow> holds_permission st a q"
  by (cases q) (simp_all add: sender_role_cases)

lemma general_bits_role:
  "foldr (\<lambda>q b. permission_bits q OR b) qs 0 AND sender_role st a \<noteq> 0 \<longleftrightarrow>
     (\<exists>q \<in> set qs. holds_permission st a q)"
proof (induction qs)
  case Nil
  then show ?case by simp
next
  case (Cons q qs)
  have "(x OR y) AND r = 0 \<longleftrightarrow> x AND r = 0 \<and> y AND r = 0" for x y r :: u8
    by (simp add: and.commute [of _ r] bit.conj_disj_distrib or_eq_0_iff)
  then show ?case using Cons permission_holds [of q st a] by auto
qed

lemma contains_any_role:
  assumes "b AND 7 = (7 :: u8)"
  shows "b AND sender_role st a \<noteq> 0"
proof -
  have "sender_role st a = 7 AND sender_role st a" by (simp add: sender_role_cases)
  then have "b AND sender_role st a = (b AND 7) AND sender_role st a" by (simp add: and.assoc)
  then show ?thesis using assms by (simp add: sender_role_cases)
qed

lemma general_check_Inr_iff [result_simps]:
  "general_check st a p = Inr x \<longleftrightarrow> (\<exists>q \<in> set (general_perms p). holds_permission st a q)"
  using contains_any_role [of "foldr (\<lambda>q b. permission_bits q OR b) (general_perms p) 0" st a]
    general_bits_role [of "general_perms p" st a]
  by (auto simp: general_check_def Let_def)

lemma specific_check_Inr_iff [result_simps]:
  "specific_check f a rs = Inr b \<longleftrightarrow>
     (if b then authorized_by f rs else \<forall>r \<in> set rs. f r = Inr False)"
proof (induction rs)
  case (Cons r rs)
  then show ?case
    by (auto simp: result_simps split: if_splits)
qed auto

lemma ensure_permissions_Inr_iff [result_simps]:
  "ensure_permissions st a p f = Inr x \<longleftrightarrow>
     authorized_by f (specific_perms p)
     \<or> (\<forall>r \<in> set (specific_perms p). f r = Inr False)
       \<and> (\<exists>q \<in> set (general_perms p). holds_permission st a q)"
proof -
  have "authorized_by f rs \<Longrightarrow> \<not> (\<forall>r \<in> set rs. f r = Inr False)" for rs by (induction rs) auto
  then show ?thesis
    by (auto simp: ensure_permissions_def and_then_Inr_iff specific_check_Inr_iff
        general_check_Inr_iff split: if_splits)
qed

lemma ensure_any [simp]:
  "ensure_permissions st a \<lparr>specific_perms = [], general_perms = [Any], external_perms = x\<rparr> f = Inr ()"
  by (simp add: ensure_permissions_Inr_iff)

lemma validate_external_contract_Inr:
  "validate_external_contract cs a = Inr n \<Longrightarrow> (n, Inr a) \<in> set cs"
  by (induction cs a rule: validate_external_contract.induct) (auto split: sum.splits failure.splits if_splits)

lemma authorize_Direct_Inr_iff [result_simps]:
  "authorize st proxies perms sp a (Direct m) = Inr (b, m') \<longleftrightarrow>
     b = a \<and> m' = m \<and> ensure_permissions st a (perms m) (\<lambda>role. sp m role a) = Inr ()"
  by (auto simp: authorize_def and_then_Inr_iff)

lemma authorize_Relay_Inr:
  "authorize st proxies perms sp a (Relay o' m) = Inr (b, m') \<Longrightarrow>
     b = o' \<and> m' = m \<and> ensure_permissions st o' (perms m) (\<lambda>role. sp m role o') = Inr ()
     \<and> (\<exists>n \<in> set (external_perms (perms m)). (n, Inr a) \<in> set proxies)"
  by (auto simp: authorize_def and_then_Inr_iff verify_external_executor_def split: if_splits
      dest: validate_external_contract_Inr)

lemma is_panic_specific_check:
  "(\<And>r. \<not> is_panic (f r)) \<Longrightarrow> \<not> is_panic (specific_check f a rs)"
  by (induction rs) auto

lemma is_panic_general_check [simp]: "\<not> is_panic (general_check st a p)"
  by (simp add: general_check_def Let_def)

lemma is_panic_validate_external_contract:
  "list_all (\<lambda>c. \<not> is_panic (snd c)) cs \<Longrightarrow> \<not> is_panic (validate_external_contract cs a)"
  by (induction cs a rule: validate_external_contract.induct) (auto split: sum.splits failure.splits)

lemma is_panic_authorize:
  assumes "list_all (\<lambda>c. \<not> is_panic (snd c)) proxies" and "\<And>m role a. \<not> is_panic (sp m role a)"
  shows "\<not> is_panic (authorize st proxies perms sp a call)"
proof -
  have "\<not> is_panic (ensure_permissions st b (perms m) (\<lambda>role. sp m role b))" for b m
    using is_panic_specific_check [of "\<lambda>role. sp m role b", OF assms(2)]
    by (simp add: ensure_permissions_def)
  then show ?thesis
    using is_panic_validate_external_contract [OF assms(1)]
    by (auto simp: authorize_def verify_external_executor_def split: from_proxy.splits)
qed

lemma authorize_Inr:
  "authorize st proxies perms sp a call = Inr (b, m) \<Longrightarrow>
     ensure_permissions st b (perms m) (\<lambda>role. sp m role b) = Inr ()
     \<and> (call = Direct m \<and> b = a
        \<or> call = Relay b m \<and> (\<exists>n \<in> set (external_perms (perms m)). (n, Inr a) \<in> set proxies))"
  by (cases call) (auto simp: authorize_Direct_Inr_iff dest: authorize_Relay_Inr)

section \<open>Properties\<close>

text \<open>
  The generated check lets a message through exactly when one of the message's specific
  roles recognises the sender, or no specific role does (and none failed to look it up) and
  the sender holds one of the message's general permissions: the admin address holds
  \<open>Admin\<close> and \<open>Elevated\<close>, the governance address \<open>Governance\<close> and \<open>Elevated\<close>, every other
  address only \<open>NoPrivilege\<close>, and everybody \<open>Any\<close>.
\<close>

lemma permission_check_exact:
  "ensure_permissions st sender p f = Inr () \<longleftrightarrow>
     authorized_by f (specific_perms p)
     \<or> (\<forall>r \<in> set (specific_perms p). f r = Inr False)
       \<and> (\<exists>q \<in> set (general_perms p). holds_permission st sender q)"
  by (rule ensure_permissions_Inr_iff)

lemma permission_check_exact_example:
  "ensure_permissions \<lparr>admin_addr = Some ''admin'', governance_addr = Some ''gov''\<rparr> ''gov''
     \<lparr>specific_perms = [''router''], general_perms = [Elevated], external_perms = []\<rparr>
     (\<lambda>_. (Inr False :: (unit, bool) result)) = Inr ()
   \<and> ensure_permissions \<lparr>admin_addr = Some ''admin'', governance_addr = Some ''gov''\<rparr> ''user''
     \<lparr>specific_perms = [''router''], general_perms = [Elevated], external_perms = []\<rparr>
     (\<lambda>_. (Inr False :: (unit, bool) result)) \<noteq> Inr ()"
  by (simp add: permission_check_exact)

text \<open>
  A proxy cannot escalate privileges. A message relayed by another contract is executed
  only when this contract is registered under a name the message lists as its proxy, and the
  original sender passes, as a direct sender, the check of the same message; the message is
  then executed with the original sender as its sender.
\<close>

lemma relay_no_escalation:
  assumes "authorize st proxies perms sp contract (Relay original m) = Inr (effective, m')"
  shows "effective = original \<and> m' = m
    \<and> (\<exists>n \<in> set (external_perms (perms m)). (n, Inr contract) \<in> set proxies)
    \<and> authorize st proxies perms sp original (Direct m) = Inr (original, m)"
  using authorize_Relay_Inr [OF assms] by (auto simp: authorize_Direct_Inr_iff)

lemma relay_no_escalation_example:
  "authorize \<lparr>admin_addr = Some ''admin'', governance_addr = Some ''gov''\<rparr>
       [(''coordinator'', (Inr ''coord'' :: (unit, string) result))]
       (\<lambda>_. \<lparr>specific_perms = [], general_perms = [Governance], external_perms = [''coordinator'']\<rparr>)
       (\<lambda>_ _ _. (Inr False :: (unit, bool) result)) ''gov'' (Direct ''msg'') = Inr (''gov'', ''msg'')"
proof -
  let ?st = "\<lparr>admin_addr = Some ''admin'', governance_addr = Some ''gov''\<rparr>"
  let ?px = "[(''coordinator'', (Inr ''coord'' :: (unit, string) result))]"
  let ?pm = "\<lambda>_. \<lparr>specific_perms = [], general_perms = [Governance], external_perms = [''coordinator'']\<rparr>"
  have "authorize ?st ?px ?pm (\<lambda>_ _ _. (Inr False :: (unit, bool) result)) ''coord''
      (Relay ''gov'' ''msg'') = Inr (''gov'', ''msg'')"
    by (simp add: authorize_def verify_external_executor_def ensure_permissions_def
        general_check_def sender_role_def)
  from relay_no_escalation [OF this] show ?thesis by simp
qed

end
