(* ===== verification/Router.thy ===== *)
theory Router
  imports Router_Api Permissions
begin

text \<open>
  The router, \<open>contracts/router/src\<close>: the registry of chains and their gateways, freezing,
  the kill switch, and the routing of messages between gateways. The query of the core's nexus
  module and the chain's address check are parameters of the environment; a failed query is
  \<open>None\<close>. The index of chains by gateway is a filter of the primary map, which is what the
  indexed map maintains.
\<close>

unbundle bit_operations_syntax

section \<open>Definitions\<close>

subsection \<open>State\<close>

record router_config =
  rc_axelarnet_gateway :: string
  rc_coordinator :: string

record router_state =
  rt_config :: "router_config option"
  rt_perms :: permission_state
  rt_killswitch :: "killswitch option"
  rt_chains :: "(string, chain_endpoint) kv"

record router_env =
  re_addr_validate :: "string \<Rightarrow> string option"
  re_is_chain_registered :: "string \<Rightarrow> bool option"
  re_codecs :: codecs

datatype router_event =
    RouterInstantiated string string string string
  | ChainRegistered string string
  | GatewayUpgraded string string
  | ChainFrozen string gateway_direction
  | ChainUnfrozen string gateway_direction
  | MessageRouted message
  | RoutingDisabled
  | RoutingEnabled

datatype router_out = GatewayRouteMessages (go_gateway: string) (go_messages: "message list")

type_synonym router_response = "(router_out, router_event) response"

definition load_config :: "router_state \<Rightarrow> (router_error, router_config) result" where
  "load_config s = ok_or RouterStoreFailure (rt_config s)"

definition load_chain_by_chain_name :: "router_state \<Rightarrow> string \<Rightarrow> chain_endpoint option" where
  "load_chain_by_chain_name s chain_name = kv_get (rt_chains s) chain_name"

definition index_load_chain_by_gateway ::
  "router_state \<Rightarrow> string \<Rightarrow> ('e, chain_endpoint option) result" where
  "index_load_chain_by_gateway s contract_address =
     (case filter (\<lambda>(_, e). ep_gateway e = contract_address) (rt_chains s) of
        [] \<Rightarrow> Ok None
      | [(_, chain)] \<Rightarrow> Ok (Some chain)
      | _ \<Rightarrow> panic ''More than one gateway for chain'')"

definition load_chain_by_gateway :: "router_state \<Rightarrow> string \<Rightarrow> (router_error, chain_endpoint) result" where
  "load_chain_by_gateway s gateway =
     and_then (index_load_chain_by_gateway s gateway) (ok_or GatewayNotRegistered)"

definition chains_update ::
  "router_state \<Rightarrow> string \<Rightarrow> (chain_endpoint option \<Rightarrow> (router_error, chain_endpoint) result)
     \<Rightarrow> (router_error, router_state) result" where
  "chains_update s name f =
     and_then (f (kv_get (rt_chains s) name)) (\<lambda>e. Ok (s\<lparr>rt_chains := kv_set name e (rt_chains s)\<rparr>))"

subsection \<open>Registration\<close>

definition register_chain ::
  "router_env \<Rightarrow> router_state \<Rightarrow> string \<Rightarrow> string \<Rightarrow> message_id_format
     \<Rightarrow> (router_error, router_state \<times> router_response) result" where
  "register_chain env s name gateway msg_id_format =
     and_then (index_load_chain_by_gateway s gateway) (\<lambda>found.
     and_then (ensure (found = None) GatewayAlreadyRegistered) (\<lambda>_.
     and_then (ok_or NexusError (re_is_chain_registered env name)) (\<lambda>registered.
     and_then (ensure (\<not> registered) ChainAlreadyExists) (\<lambda>_.
     and_then (chains_update s name (\<lambda>chain. case chain of
         Some _ \<Rightarrow> fail ChainAlreadyExists
       | None \<Rightarrow> Ok \<lparr>ep_name = name, ep_gateway = gateway, ep_frozen_status = direction_bits DirNone,
                     ep_msg_id_format = msg_id_format\<rparr>)) (\<lambda>s'.
     Ok (s', \<lparr>messages = [], events = [ChainRegistered name gateway]\<rparr>))))))"

definition upgrade_gateway ::
  "router_state \<Rightarrow> string \<Rightarrow> string \<Rightarrow> (router_error, router_state \<times> router_response) result" where
  "upgrade_gateway s chain contract_address =
     and_then (index_load_chain_by_gateway s contract_address) (\<lambda>found.
     and_then (ensure (found = None) GatewayAlreadyRegistered) (\<lambda>_.
     and_then (chains_update s chain (\<lambda>chain. case chain of
         None \<Rightarrow> fail ChainNotFound
       | Some e \<Rightarrow> Ok (e\<lparr>ep_gateway := contract_address\<rparr>))) (\<lambda>s'.
     Ok (s', \<lparr>messages = [], events = [GatewayUpgraded chain contract_address]\<rparr>))))"

subsection \<open>Freezing\<close>

definition freeze_specific_chain ::
  "router_state \<Rightarrow> string \<Rightarrow> gateway_direction \<Rightarrow> (router_error, router_state) result" where
  "freeze_specific_chain s chain direction =
     chains_update s chain (\<lambda>e. case e of
         None \<Rightarrow> fail ChainNotFound
       | Some e \<Rightarrow> Ok (e\<lparr>ep_frozen_status := ep_frozen_status e OR direction_bits direction\<rparr>))"

definition unfreeze_specific_chain ::
  "router_state \<Rightarrow> string \<Rightarrow> gateway_direction \<Rightarrow> (router_error, router_state) result" where
  "unfreeze_specific_chain s chain direction =
     chains_update s chain (\<lambda>e. case e of
         None \<Rightarrow> fail ChainNotFound
       | Some e \<Rightarrow> Ok (e\<lparr>ep_frozen_status := ep_frozen_status e AND NOT (direction_bits direction)\<rparr>))"

text \<open>The hash maps of the messages are lists here, in the order the iteration visits them.\<close>

definition freeze_chains ::
  "router_state \<Rightarrow> (string \<times> gateway_direction) list
     \<Rightarrow> (router_error, router_state \<times> router_response) result" where
  "freeze_chains s chains' =
     and_then (try_fold (\<lambda>s (chain, direction). freeze_specific_chain s chain direction) s chains') (\<lambda>s'.
     Ok (s', \<lparr>messages = [], events = map (\<lambda>(c, d). ChainFrozen c d) chains'\<rparr>))"

definition unfreeze_chains ::
  "router_state \<Rightarrow> (string \<times> gateway_direction) list
     \<Rightarrow> (router_error, router_state \<times> router_response) result" where
  "unfreeze_chains s chains' =
     and_then (try_fold (\<lambda>s (chain, direction). unfreeze_specific_chain s chain direction) s chains') (\<lambda>s'.
     Ok (s', \<lparr>messages = [], events = map (\<lambda>(c, d). ChainUnfrozen c d) chains'\<rparr>))"

definition disable_routing :: "router_state \<Rightarrow> (router_error, router_state \<times> router_response) result" where
  "disable_routing s =
     and_then (map_err (\<lambda>_. RouterStd) (killswitch_engage (rt_killswitch s) RoutingDisabled)) (\<lambda>(k, evs).
     Ok (s\<lparr>rt_killswitch := k\<rparr>, \<lparr>messages = [], events = evs\<rparr>))"

definition enable_routing :: "router_state \<Rightarrow> (router_error, router_state \<times> router_response) result" where
  "enable_routing s =
     and_then (map_err (\<lambda>_. RouterStd) (killswitch_disengage (rt_killswitch s) RoutingEnabled)) (\<lambda>(k, evs).
     Ok (s\<lparr>rt_killswitch := k\<rparr>, \<lparr>messages = [], events = evs\<rparr>))"

subsection \<open>Routing\<close>

definition verify_msg_ids ::
  "codecs \<Rightarrow> message list \<Rightarrow> message_id_format \<Rightarrow> (router_error, unit) result" where
  "verify_msg_ids cd msgs expected_format =
     change_context InvalidMessageId
       (try_fold (\<lambda>_ m. verify_msg_id cd (message_id (cc_id m)) expected_format) () msgs)"

definition validate_msgs ::
  "codecs \<Rightarrow> router_state \<Rightarrow> router_config \<Rightarrow> string \<Rightarrow> message list
     \<Rightarrow> (router_error, message list) result" where
  "validate_msgs cd s config sender msgs =
     (if sender = rc_axelarnet_gateway config
      then and_then (verify_msg_ids cd msgs HexTxHashAndEventIndexFormat) (\<lambda>_. Ok msgs)
      else
        and_then (load_chain_by_gateway s sender) (\<lambda>source_chain'.
        if incoming_frozen source_chain' then fail (ChainFrozenError (ep_name source_chain'))
        else if \<exists>m \<in> set msgs. source_chain (cc_id m) \<noteq> ep_name source_chain' then fail WrongSourceChain
        else and_then (verify_msg_ids cd msgs (ep_msg_id_format source_chain')) (\<lambda>_. Ok msgs)))"

definition destination_gateway ::
  "router_env \<Rightarrow> router_state \<Rightarrow> router_config \<Rightarrow> string \<Rightarrow> (router_error, string) result" where
  "destination_gateway env s config chain =
     (case load_chain_by_chain_name s chain of
        Some e \<Rightarrow> if outgoing_frozen e then fail (ChainFrozenError (ep_name e)) else Ok (ep_gateway e)
      | None \<Rightarrow>
          and_then (ok_or NexusError (re_is_chain_registered env chain)) (\<lambda>registered.
          if registered then Ok (rc_axelarnet_gateway config) else fail ChainNotFound))"

definition route_messages ::
  "router_env \<Rightarrow> router_state \<Rightarrow> string \<Rightarrow> message list
     \<Rightarrow> (router_error, router_state \<times> router_response) result" where
  "route_messages env s sender msgs =
     and_then (ensure (is_contract_active (rt_killswitch s)) RoutingDisabledError) (\<lambda>_.
     and_then (load_config s) (\<lambda>config.
     and_then (validate_msgs (re_codecs env) s config sender msgs) (\<lambda>msgs.
     and_then (try_map (\<lambda>(chain, ms).
         and_then (destination_gateway env s config chain) (\<lambda>gateway.
         Ok (GatewayRouteMessages gateway ms))) (chunk_by destination_chain msgs)) (\<lambda>wasm_msgs.
     Ok (s, \<lparr>messages = wasm_msgs, events = map MessageRouted msgs\<rparr>)))))"

subsection \<open>Entry points\<close>

datatype router_msg =
    RegisterChain string string message_id_format
  | UpgradeGateway string string
  | FreezeChains "(string \<times> gateway_direction) list"
  | UnfreezeChains "(string \<times> gateway_direction) list"
  | DisableRouting
  | EnableRouting
  | RouteMessages "message list"

fun router_permissions :: "router_msg \<Rightarrow> msg_permissions" where
  "router_permissions (RegisterChain _ _ _) =
     \<lparr>specific_perms = [], general_perms = [Governance], external_perms = [''coordinator'']\<rparr>"
| "router_permissions (UpgradeGateway _ _) =
     \<lparr>specific_perms = [], general_perms = [Governance], external_perms = []\<rparr>"
| "router_permissions (FreezeChains _) =
     \<lparr>specific_perms = [], general_perms = [Elevated], external_perms = []\<rparr>"
| "router_permissions (UnfreezeChains _) =
     \<lparr>specific_perms = [], general_perms = [Elevated], external_perms = []\<rparr>"
| "router_permissions DisableRouting =
     \<lparr>specific_perms = [], general_perms = [Elevated], external_perms = []\<rparr>"
| "router_permissions EnableRouting =
     \<lparr>specific_perms = [], general_perms = [Elevated], external_perms = []\<rparr>"
| "router_permissions (RouteMessages _) =
     \<lparr>specific_perms = [''gateway''], general_perms = [], external_perms = []\<rparr>"

datatype router_contract_error =
    RouterErr router_error
  | RouterAddressErr address_error
  | RouterPermissionErr permission_error

definition find_gateway_address :: "router_state \<Rightarrow> string \<Rightarrow> (router_error, bool) result" where
  "find_gateway_address s sender =
     and_then (load_config s) (\<lambda>config.
     if rc_axelarnet_gateway config = sender then Ok True
     else case load_chain_by_gateway s sender of
            Inr _ \<Rightarrow> Ok True
          | Inl (Err GatewayNotRegistered) \<Rightarrow> Ok True
          | Inl e \<Rightarrow> Inl e)"

definition find_coordinator_address :: "router_state \<Rightarrow> (router_error, string) result" where
  "find_coordinator_address s =
     and_then (change_context CoordinatorNotFound (load_config s)) (\<lambda>c. Ok (rc_coordinator c))"

fun router_dispatch ::
  "router_env \<Rightarrow> router_state \<Rightarrow> string \<Rightarrow> router_msg
     \<Rightarrow> (router_contract_error, router_state \<times> router_response) result" where
  "router_dispatch env s sender (RegisterChain chain gateway_address msg_id_format) =
     and_then (map_err RouterAddressErr
       (validate_cosmwasm_address (re_addr_validate env) gateway_address)) (\<lambda>gateway.
     map_err RouterErr (register_chain env s chain gateway msg_id_format))"
| "router_dispatch env s sender (UpgradeGateway chain contract_address) =
     and_then (map_err RouterAddressErr
       (validate_cosmwasm_address (re_addr_validate env) contract_address)) (\<lambda>contract_address.
     map_err RouterErr (upgrade_gateway s chain contract_address))"
| "router_dispatch env s sender (FreezeChains chains') = map_err RouterErr (freeze_chains s chains')"
| "router_dispatch env s sender (UnfreezeChains chains') = map_err RouterErr (unfreeze_chains s chains')"
| "router_dispatch env s sender (RouteMessages msgs) = map_err RouterErr (route_messages env s sender msgs)"
| "router_dispatch env s sender DisableRouting = map_err RouterErr (disable_routing s)"
| "router_dispatch env s sender EnableRouting = map_err RouterErr (enable_routing s)"

definition router_execute ::
  "router_env \<Rightarrow> router_state \<Rightarrow> string \<times> router_msg from_proxy
     \<Rightarrow> (router_contract_error, router_state \<times> router_response) result" where
  "router_execute env s call =
     (case call of (sender, msg) \<Rightarrow>
        and_then (map_err RouterPermissionErr
          (authorize (rt_perms s) [(''coordinator'', find_coordinator_address s)] router_permissions
             (\<lambda>m role a. find_gateway_address s a) sender msg)) (\<lambda>(sender', m).
        router_dispatch env s sender' m))"

definition router_instantiate ::
  "router_env \<Rightarrow> string \<Rightarrow> string \<Rightarrow> string \<Rightarrow> string
     \<Rightarrow> (router_contract_error, router_state \<times> router_response) result" where
  "router_instantiate env admin_address governance_address axelarnet_gateway coordinator_address =
     and_then (map_err RouterAddressErr (validate_cosmwasm_address (re_addr_validate env) admin_address)) (\<lambda>admin.
     and_then (map_err RouterAddressErr (validate_cosmwasm_address (re_addr_validate env) governance_address)) (\<lambda>governance.
     and_then (map_err RouterAddressErr (validate_cosmwasm_address (re_addr_validate env) axelarnet_gateway)) (\<lambda>gateway.
     and_then (map_err RouterAddressErr (validate_cosmwasm_address (re_addr_validate env) coordinator_address)) (\<lambda>coordinator.
     Ok (\<lparr>rt_config = Some \<lparr>rc_axelarnet_gateway = gateway, rc_coordinator = coordinator\<rparr>,
          rt_perms = set_governance governance
            (set_admin admin \<lparr>admin_addr = None, governance_addr = None\<rparr>),
          rt_killswitch = killswitch_init Disengaged,
          rt_chains = []\<rparr>,
         \<lparr>messages = [], events = [RouterInstantiated admin governance gateway coordinator]\<rparr>)))))"

subsection \<open>Queries\<close>

definition chain_info :: "router_state \<Rightarrow> string \<Rightarrow> (router_error, chain_endpoint) result" where
  "chain_info s chain = ok_or ChainNotFound (kv_get (rt_chains s) chain)"

definition router_chains :: "router_state \<Rightarrow> string option \<Rightarrow> u32 \<Rightarrow> chain_endpoint list" where
  "router_chains s start_after limit =
     map snd (take (unat limit)
       (filter (\<lambda>(c, _). case start_after of None \<Rightarrow> True | Some b \<Rightarrow> b < c) (rt_chains s)))"

definition router_is_enabled :: "router_state \<Rightarrow> bool" where
  "router_is_enabled s = is_contract_active (rt_killswitch s)"

subsection \<open>Invariant\<close>

text \<open>
  Every chain is stored under its name and has a gateway of its own; the configuration,
  the kill switch and the roles have been set.
\<close>

definition gateways_unique :: "(string, chain_endpoint) kv \<Rightarrow> bool" where
  "gateways_unique cs \<longleftrightarrow>
     (\<forall>c d e f. kv_get cs c = Some e \<and> kv_get cs d = Some f \<and> ep_gateway e = ep_gateway f \<longrightarrow> c = d)"

definition chains_ok :: "(string, chain_endpoint) kv \<Rightarrow> bool" where
  "chains_ok cs \<longleftrightarrow>
     kv_ok cs \<and> (\<forall>c e. kv_get cs c = Some e \<longrightarrow> ep_name e = c) \<and> gateways_unique cs"

definition router_inv :: "router_state \<Rightarrow> bool" where
  "router_inv s \<longleftrightarrow> chains_ok (rt_chains s) \<and> rt_config s \<noteq> None \<and> rt_killswitch s \<noteq> None"

text \<open>
  What no call changes: the configuration, the roles, and of every registered chain the name
  and the format of its message ids.
\<close>

definition router_stable :: "router_state \<Rightarrow> router_state \<Rightarrow> bool" where
  "router_stable s s' \<longleftrightarrow>
     rt_config s' = rt_config s \<and> rt_perms s' = rt_perms s
     \<and> (\<forall>c e. kv_get (rt_chains s) c = Some e \<longrightarrow>
          (\<exists>e'. kv_get (rt_chains s') c = Some e' \<and> ep_name e' = ep_name e
             \<and> ep_msg_id_format e' = ep_msg_id_format e))"

subsection \<open>Specification\<close>

text \<open>
  A transaction is a call with the environment it meets. The gateway that a message for a
  chain has to reach, if it may be delivered at all, and what the router has to check and
  to do with a batch of messages.
\<close>

definition router_tx ::
  "router_state \<Rightarrow> router_env \<times> string \<times> router_msg from_proxy
     \<Rightarrow> (router_contract_error, router_state \<times> router_response) result" where
  "router_tx s tx = router_execute (fst tx) s (snd tx)"

inductive router_reachable :: "router_state \<Rightarrow> bool" where
  init: "router_instantiate env admin governance axelarnet_gateway coordinator = Inr (s, r) \<Longrightarrow> router_reachable s"
| step: "router_reachable s \<Longrightarrow> router_tx s tx = Inr (s', r) \<Longrightarrow> router_reachable s'"

definition is_axelarnet_gateway :: "router_state \<Rightarrow> string \<Rightarrow> bool" where
  "is_axelarnet_gateway s a \<longleftrightarrow> map_option rc_axelarnet_gateway (rt_config s) = Some a"

definition route_gateway :: "router_env \<Rightarrow> router_state \<Rightarrow> string \<Rightarrow> string option" where
  "route_gateway env s chain =
     (case kv_get (rt_chains s) chain of
        Some e \<Rightarrow> if ep_frozen_status e AND 2 \<noteq> 0 then None else Some (ep_gateway e)
      | None \<Rightarrow> if re_is_chain_registered env chain = Some True
                then map_option rc_axelarnet_gateway (rt_config s) else None)"

definition ids_valid :: "codecs \<Rightarrow> message list \<Rightarrow> message_id_format \<Rightarrow> bool" where
  "ids_valid cd msgs fmt \<longleftrightarrow> list_all (\<lambda>m. is_ok (verify_msg_id cd (message_id (cc_id m)) fmt)) msgs"

definition source_allowed :: "router_env \<Rightarrow> router_state \<Rightarrow> string \<Rightarrow> message list \<Rightarrow> bool" where
  "source_allowed env s sender msgs \<longleftrightarrow>
     (if is_axelarnet_gateway s sender
      then ids_valid (re_codecs env) msgs HexTxHashAndEventIndexFormat
      else \<exists>(c, e) \<in> set (rt_chains s). ep_gateway e = sender \<and> ep_frozen_status e AND 1 = 0
             \<and> list_all (\<lambda>m. source_chain (cc_id m) = c) msgs
             \<and> ids_valid (re_codecs env) msgs (ep_msg_id_format e))"

definition route_allowed :: "router_env \<Rightarrow> router_state \<Rightarrow> string \<Rightarrow> message list \<Rightarrow> bool" where
  "route_allowed env s sender msgs \<longleftrightarrow>
     rt_killswitch s = Some Disengaged \<and> source_allowed env s sender msgs
     \<and> list_all (\<lambda>m. route_gateway env s (destination_chain m) \<noteq> None) msgs"

definition route_delivers :: "router_env \<Rightarrow> router_state \<Rightarrow> message list \<Rightarrow> router_response \<Rightarrow> bool" where
  "route_delivers env s msgs r \<longleftrightarrow>
     concat (map go_messages (messages r)) = msgs
     \<and> list_all (\<lambda>out. list_all (\<lambda>m. route_gateway env s (destination_chain m) = Some (go_gateway out))
                     (go_messages out)) (messages r)
     \<and> events r = map MessageRouted msgs"

text \<open>Whether a chain is frozen in a direction, and which calls unfreeze it.\<close>

definition frozen_in :: "router_state \<Rightarrow> string \<Rightarrow> u8 \<Rightarrow> bool" where
  "frozen_in s c bits \<longleftrightarrow>
     (case kv_get (rt_chains s) c of None \<Rightarrow> False | Some e \<Rightarrow> ep_frozen_status e AND bits = bits)"

fun unfreezes :: "string \<Rightarrow> router_msg from_proxy \<Rightarrow> bool" where
  "unfreezes c (Direct (UnfreezeChains cs)) \<longleftrightarrow> c \<in> fst ` set cs"
| "unfreezes c (Relay _ (UnfreezeChains cs)) \<longleftrightarrow> c \<in> fst ` set cs"
| "unfreezes c _ \<longleftrightarrow> False"

section \<open>Lemmas\<close>

subsection \<open>The index by gateway\<close>

lemma filter_gateway_le_1:
  assumes "chains_ok cs"
  shows "length (filter (\<lambda>(_, e). ep_gateway e = a) cs) \<le> 1"
proof (rule ccontr)
  let ?fs = "filter (\<lambda>(_, e). ep_gateway e = a) cs"
  assume "\<not> length ?fs \<le> 1"
  then obtain p q r where fs: "?fs = p # q # r" by (cases ?fs rule: remdups_adj.cases) auto
  obtain c e d f where pq: "p = (c, e)" "q = (d, f)" by (cases p; cases q)
  have "(c, e) \<in> set ?fs" and "(d, f) \<in> set ?fs" unfolding fs pq by simp_all
  then have "kv_get cs c = Some e" "kv_get cs d = Some f" "ep_gateway e = ep_gateway f"
    using assms by (simp_all add: chains_ok_def kv_ok_get_iff)
  then have "c = d" using assms unfolding chains_ok_def gateways_unique_def by blast
  moreover have "distinct (map fst ?fs)"
    using assms by (simp add: chains_ok_def kv_ok_distinct distinct_map_filter)
  ultimately show False unfolding fs pq by simp
qed

lemma index_load_Some:
  "chains_ok (rt_chains s) \<Longrightarrow> index_load_chain_by_gateway s a = (Inr (Some e) :: ('x, chain_endpoint option) result) \<longleftrightarrow>
     kv_get (rt_chains s) (ep_name e) = Some e \<and> ep_gateway e = a"
proof -
  assume ok: "chains_ok (rt_chains s)"
  let ?fs = "filter (\<lambda>(_, e). ep_gateway e = a) (rt_chains s)"
  have mem: "(c, e') \<in> set ?fs \<longleftrightarrow> kv_get (rt_chains s) c = Some e' \<and> ep_gateway e' = a" for c e'
    using ok by (auto simp: chains_ok_def kv_ok_get_iff)
  have name: "kv_get (rt_chains s) c = Some e' \<Longrightarrow> ep_name e' = c" for c e'
    using ok by (simp add: chains_ok_def)
  consider "?fs = []" | c e' where "?fs = [(c, e')]"
    using filter_gateway_le_1 [OF ok, of a] by (cases ?fs rule: remdups_adj.cases) auto
  then show ?thesis
  proof cases
    case 1
    then show ?thesis using mem [of "ep_name e" e] by (simp add: index_load_chain_by_gateway_def)
  next
    case 2
    then show ?thesis using mem [of "ep_name e" e] mem [of c e'] name
      by (auto simp: index_load_chain_by_gateway_def)
  qed
qed

lemma index_load_None:
  "index_load_chain_by_gateway s a = (Inr None :: ('x, chain_endpoint option) result) \<Longrightarrow>
     kv_get (rt_chains s) c = Some e \<Longrightarrow> ep_gateway e \<noteq> a"
  by (auto simp: index_load_chain_by_gateway_def filter_empty_conv dest!: map_of_SomeD split: list.splits)

lemma index_load_no_panic:
  "chains_ok (rt_chains s) \<Longrightarrow> \<not> is_panic (index_load_chain_by_gateway s a)"
  using filter_gateway_le_1 [of "rt_chains s" a]
  by (auto simp: index_load_chain_by_gateway_def split: list.splits)

lemma load_chain_by_gateway_Inr_iff:
  "chains_ok (rt_chains s) \<Longrightarrow> load_chain_by_gateway s a = Inr e \<longleftrightarrow>
     kv_get (rt_chains s) (ep_name e) = Some e \<and> ep_gateway e = a"
  by (auto simp: load_chain_by_gateway_def result_simps index_load_Some)

lemma load_chain_by_gateway_no_panic:
  "chains_ok (rt_chains s) \<Longrightarrow> \<not> is_panic (load_chain_by_gateway s a)"
  by (simp add: load_chain_by_gateway_def index_load_no_panic)

subsection \<open>Preservation\<close>

lemma chains_update_Inr_iff [result_simps]:
  "chains_update s c f = Inr s' \<longleftrightarrow>
     (\<exists>e. f (kv_get (rt_chains s) c) = Inr e \<and> s' = s\<lparr>rt_chains := kv_set c e (rt_chains s)\<rparr>)"
  by (auto simp: chains_update_def result_simps)

lemma chains_ok_set:
  assumes "chains_ok cs" and "ep_name e = c"
    and "\<And>d f. kv_get cs d = Some f \<Longrightarrow> ep_gateway f = ep_gateway e \<Longrightarrow> d = c"
  shows "chains_ok (kv_set c e cs)"
proof -
  have "gateways_unique (kv_set c e cs)"
    unfolding gateways_unique_def
  proof (intro allI impI)
    fix x y f g
    let ?m = "kv_set c e cs"
    assume xy: "kv_get ?m x = Some f \<and> kv_get ?m y = Some g \<and> ep_gateway f = ep_gateway g"
    have old: "z \<noteq> c \<Longrightarrow> kv_get ?m z = Some h \<Longrightarrow> kv_get cs z = Some h" for z h by simp
    have new: "z \<noteq> c \<Longrightarrow> kv_get ?m z = Some h \<Longrightarrow> ep_gateway h \<noteq> ep_gateway e" for z h
      using assms(3) old by blast
    have c: "kv_get ?m c = Some h \<Longrightarrow> h = e" for h by simp
    show "x = y"
    proof (cases "x = c \<or> y = c")
      case True
      then show ?thesis using xy new c by metis
    next
      case False
      then have "kv_get cs x = Some f" "kv_get cs y = Some g" using xy old by blast+
      then show ?thesis using xy assms(1) unfolding chains_ok_def gateways_unique_def by blast
    qed
  qed
  then show ?thesis using assms(1,2) by (simp add: chains_ok_def)
qed

lemma chains_ok_modify:
  assumes "chains_ok cs" and "kv_get cs c = Some e"
    and "ep_name e' = ep_name e" and "ep_gateway e' = ep_gateway e"
  shows "chains_ok (kv_set c e' cs)"
proof (rule chains_ok_set [OF assms(1)])
  show "ep_name e' = c" using assms(1-3) by (simp add: chains_ok_def)
next
  fix d f
  assume "kv_get cs d = Some f" and "ep_gateway f = ep_gateway e'"
  then show "d = c"
    using assms(1,2,4) unfolding chains_ok_def gateways_unique_def by simp
qed

lemma router_stable_refl: "router_stable s s"
  by (simp add: router_stable_def)

lemma router_stable_trans: "router_stable a b \<Longrightarrow> router_stable b c \<Longrightarrow> router_stable a c"
  unfolding router_stable_def by metis

lemma register_chain_step:
  assumes "router_inv s" and "register_chain env s c g fmt = Inr (s', r)"
  shows "router_inv s' \<and> router_stable s s'"
proof -
  define e where "e = \<lparr>ep_name = c, ep_gateway = g, ep_frozen_status = 0, ep_msg_id_format = fmt\<rparr>"
  have none: "index_load_chain_by_gateway s g = (Inr None :: (router_error, _) result)"
    and fresh: "kv_get (rt_chains s) c = None"
    and s': "s' = s\<lparr>rt_chains := kv_set c e (rt_chains s)\<rparr>"
    using assms(2) by (auto simp: register_chain_def result_simps e_def split: option.splits)
  have e: "ep_name e = c" "ep_gateway e = g" by (simp_all add: e_def)
  have "chains_ok (kv_set c e (rt_chains s))"
    by (rule chains_ok_set) (use assms(1) e index_load_None [OF none] in \<open>auto simp: router_inv_def\<close>)
  then show ?thesis using assms(1) fresh by (auto simp: s' router_inv_def router_stable_def)
qed

lemma upgrade_gateway_step:
  assumes "router_inv s" and "upgrade_gateway s c g = Inr (s', r)"
  shows "router_inv s' \<and> router_stable s s'"
proof -
  obtain e where none: "index_load_chain_by_gateway s g = (Inr None :: (router_error, _) result)"
    and e: "kv_get (rt_chains s) c = Some e"
    and s': "s' = s\<lparr>rt_chains := kv_set c (e\<lparr>ep_gateway := g\<rparr>) (rt_chains s)\<rparr>"
    using assms(2) by (auto simp: upgrade_gateway_def result_simps split: option.splits)
  have "chains_ok (kv_set c (e\<lparr>ep_gateway := g\<rparr>) (rt_chains s))"
    by (rule chains_ok_set) (use assms(1) e index_load_None [OF none] in \<open>auto simp: router_inv_def chains_ok_def\<close>)
  then show ?thesis using assms(1) e by (auto simp: s' router_inv_def router_stable_def)
qed

lemma set_frozen_step:
  "router_inv s \<Longrightarrow> kv_get (rt_chains s) c = Some e \<Longrightarrow>
     s' = s\<lparr>rt_chains := kv_set c (e\<lparr>ep_frozen_status := fs\<rparr>) (rt_chains s)\<rparr> \<Longrightarrow>
     router_inv s' \<and> router_stable s s'"
  by (auto simp: router_inv_def router_stable_def intro!: chains_ok_modify)

lemma freeze_specific_step:
  "router_inv s \<Longrightarrow> freeze_specific_chain s c d = Inr s' \<Longrightarrow> router_inv s' \<and> router_stable s s'"
  by (auto simp: freeze_specific_chain_def result_simps set_frozen_step split: option.splits)

lemma unfreeze_specific_step:
  "router_inv s \<Longrightarrow> unfreeze_specific_chain s c d = Inr s' \<Longrightarrow> router_inv s' \<and> router_stable s s'"
  by (auto simp: unfreeze_specific_chain_def result_simps set_frozen_step split: option.splits)

lemma try_fold_step:
  assumes "try_fold f s xs = Inr s'" and "router_inv s"
    and "\<And>s x s'. router_inv s \<Longrightarrow> f s x = Inr s' \<Longrightarrow> router_inv s' \<and> router_stable s s'"
  shows "router_inv s' \<and> router_stable s s'"
  by (rule try_fold_invariant [where I = "\<lambda>t. router_inv t \<and> router_stable s t", OF assms(1)])
     (use assms(2,3) router_stable_refl router_stable_trans in blast)+

lemma dispatch_step:
  assumes "router_inv s" and "router_dispatch env s a m = Inr (s', r)"
  shows "router_inv s' \<and> router_stable s s'"
proof (cases m)
  case (FreezeChains cs)
  then show ?thesis using assms freeze_specific_step
    by (auto simp: freeze_chains_def result_simps elim!: try_fold_step)
next
  case (UnfreezeChains cs)
  then show ?thesis using assms unfreeze_specific_step
    by (auto simp: unfreeze_chains_def result_simps elim!: try_fold_step)
next
  case DisableRouting
  then show ?thesis using assms
    by (auto simp: disable_routing_def killswitch_engage_def router_inv_def router_stable_def
        split: option.splits killswitch.splits)
next
  case EnableRouting
  then show ?thesis using assms
    by (auto simp: enable_routing_def killswitch_disengage_def router_inv_def router_stable_def
        split: option.splits killswitch.splits)
next
  case (RegisterChain c g fmt)
  then show ?thesis using assms(2) by (auto simp: result_simps dest!: register_chain_step [OF assms(1)])
next
  case (UpgradeGateway c g)
  then show ?thesis using assms(2) by (auto simp: result_simps dest!: upgrade_gateway_step [OF assms(1)])
next
  case (RouteMessages ms)
  then have "s' = s" using assms(2) by (auto simp: result_simps route_messages_def)
  then show ?thesis using assms(1) router_stable_refl by simp
qed

lemma router_execute_Inr_iff:
  "router_execute env s (a, m) = Inr x \<longleftrightarrow>
     (\<exists>a' m'. authorize (rt_perms s) [(''coordinator'', find_coordinator_address s)] router_permissions
          (\<lambda>m role a. find_gateway_address s a) a m = Inr (a', m')
        \<and> router_dispatch env s a' m' = Inr x)"
  by (auto simp: router_execute_def result_simps)

lemma router_execute_step:
  "router_inv s \<Longrightarrow> router_execute env s call = Inr (s', r) \<Longrightarrow> router_inv s' \<and> router_stable s s'"
  by (cases call) (auto simp: router_execute_Inr_iff dest: dispatch_step)

lemma router_tx_step:
  "router_inv s \<Longrightarrow> router_tx s tx = Inr (s', r) \<Longrightarrow> router_inv s' \<and> router_stable s s'"
  unfolding router_tx_def by (blast dest: router_execute_step)

interpretation rt: contract_machine router_tx router_inv "\<lambda>_. True"
  by unfold_locales (blast dest: router_tx_step)

lemma router_run_stable: "router_inv s \<Longrightarrow> router_stable s (run_txs router_tx s txs)"
  by (rule rt.run_rel [where R = router_stable])
     (use router_stable_refl router_stable_trans router_tx_step in \<open>auto simp: list_all_iff\<close>)

lemma router_instantiate_inv: "router_instantiate env a g x c = Inr (s, r) \<Longrightarrow> router_inv s"
  by (auto simp: router_instantiate_def result_simps router_inv_def chains_ok_def gateways_unique_def
      killswitch_init_def)

subsection \<open>Routing\<close>

lemma and_exp_cases: "(x :: u8) AND 2 ^ n = 0 \<or> x AND 2 ^ n = 2 ^ n"
proof (cases "bit x n")
  case True
  then have "x AND 2 ^ n = 2 ^ n" by (auto intro!: bit_word_eqI simp: bit_simps)
  then show ?thesis ..
next
  case False
  then show ?thesis by (simp add: and_exp_eq_0_iff_not_bit)
qed

lemma flag_simps:
  "incoming_frozen e \<longleftrightarrow> ep_frozen_status e AND 1 \<noteq> 0"
  "outgoing_frozen e \<longleftrightarrow> ep_frozen_status e AND 2 \<noteq> 0"
  using and_exp_cases [of "ep_frozen_status e" 0] and_exp_cases [of "ep_frozen_status e" 1]
  by (auto simp: incoming_frozen_def outgoing_frozen_def flag_contains_def)

lemma verify_msg_ids_Inr_iff [result_simps]:
  "verify_msg_ids cd msgs fmt = Inr x \<longleftrightarrow> ids_valid cd msgs fmt"
proof -
  have "try_fold (\<lambda>_ m. verify_msg_id cd (message_id (cc_id m)) fmt) u msgs = Inr x \<longleftrightarrow>
      ids_valid cd msgs fmt" for u :: unit
  proof (induction msgs arbitrary: u)
    case (Cons m msgs)
    then show ?case
      by (cases "verify_msg_id cd (message_id (cc_id m)) fmt") (auto simp: ids_valid_def)
  qed (simp add: ids_valid_def)
  then show ?thesis by (simp add: verify_msg_ids_def result_simps)
qed

lemma destination_gateway_Inr_iff:
  "rt_config s = Some config \<Longrightarrow>
     destination_gateway env s config d = Inr g \<longleftrightarrow> route_gateway env s d = Some g"
  by (auto simp: destination_gateway_def route_gateway_def load_chain_by_chain_name_def flag_simps
      result_simps split: option.splits if_splits)

lemma source_chain_iff:
  assumes "chains_ok (rt_chains s)"
  shows "(\<exists>(c, e) \<in> set (rt_chains s). ep_gateway e = a \<and> P c e) \<longleftrightarrow>
     (\<exists>e. load_chain_by_gateway s a = Inr e \<and> P (ep_name e) e)"
proof -
  have "kv_get (rt_chains s) c = Some e \<Longrightarrow> ep_name e = c" for c e
    using assms by (simp add: chains_ok_def)
  then show ?thesis
    using assms by (auto simp: load_chain_by_gateway_Inr_iff chains_ok_def kv_ok_get_iff)
qed

lemma validate_msgs_Inr_iff:
  assumes "router_inv s" and "rt_config s = Some config"
  shows "validate_msgs (re_codecs env) s config a msgs = Inr ms \<longleftrightarrow> ms = msgs \<and> source_allowed env s a msgs"
proof (cases "a = rc_axelarnet_gateway config")
  case True
  then show ?thesis using assms(2)
    by (auto simp: validate_msgs_def source_allowed_def is_axelarnet_gateway_def result_simps)
next
  case False
  have ok: "chains_ok (rt_chains s)" using assms(1) by (simp add: router_inv_def)
  show ?thesis using False assms(2)
    by (simp add: validate_msgs_def source_allowed_def is_axelarnet_gateway_def source_chain_iff [OF ok]
        and_then_Inr_iff) (auto simp: result_simps flag_simps list_all_iff split: if_splits)
qed

lemma route_messages_Inr:
  assumes "router_inv s" and "route_messages env s a msgs = Inr (s', r)"
  shows "route_allowed env s a msgs \<and> s' = s \<and> route_delivers env s msgs r"
proof -
  obtain config where config: "rt_config s = Some config" using assms(1) by (auto simp: router_inv_def)
  obtain outs where active: "is_contract_active (rt_killswitch s)" and src: "source_allowed env s a msgs"
    and outs: "list_all2 (\<lambda>c out. \<exists>g. destination_gateway env s config (fst c) = Inr g
        \<and> GatewayRouteMessages g (snd c) = out) (chunk_by destination_chain msgs) outs"
    and s': "s' = s" and r: "r = \<lparr>messages = outs, events = map MessageRouted msgs\<rparr>"
    using assms(2) config
    by (auto simp: route_messages_def load_config_def result_simps case_prod_beta
        validate_msgs_Inr_iff [OF assms(1) config])
  have "map go_messages outs = map snd (chunk_by destination_chain msgs)"
    using outs by (rule list_all2_map_eq) auto
  then have content: "concat (map go_messages outs) = msgs" by (simp add: concat_chunk_by)
  have dest: "route_gateway env s (destination_chain m) = Some (go_gateway out)"
    if out: "out \<in> set outs" and m: "m \<in> set (go_messages out)" for out m
  proof -
    obtain c where c: "c \<in> set (chunk_by destination_chain msgs)"
      and g: "destination_gateway env s config (fst c) = Inr (go_gateway out)" "go_messages out = snd c"
      using list_all2_right_in [OF outs out] by auto
    have "destination_chain m = fst c"
      using c m g(2) chunk_by_key [of "fst c" "snd c"] by simp
    then show ?thesis using g(1) destination_gateway_Inr_iff [OF config] by simp
  qed
  then have del: "route_delivers env s msgs r" using content by (simp add: route_delivers_def r list_all_iff)
  have "list_all (\<lambda>m. route_gateway env s (destination_chain m) \<noteq> None) msgs"
    using dest content by (force simp: list_all_iff)
  then show ?thesis
    using active src s' del assms(1)
    by (auto simp: route_allowed_def is_contract_active_def router_inv_def)
qed

lemma route_messages_succeeds:
  assumes "router_inv s" and "route_allowed env s a msgs"
  shows "\<exists>r. route_messages env s a msgs = Inr (s, r)"
proof -
  obtain config where config: "rt_config s = Some config" using assms(1) by (auto simp: router_inv_def)
  have "\<exists>g. destination_gateway env s config (fst c) = Inr g" if c: "c \<in> set (chunk_by destination_chain msgs)" for c
  proof -
    obtain m ms where m: "snd c = m # ms" using chunk_by_nonempty c by (metis list.exhaust prod.collapse)
    have "m \<in> set (concat (map snd (chunk_by destination_chain msgs)))" using c m by force
    then have "m \<in> set msgs" by (simp only: concat_chunk_by)
    then have "route_gateway env s (destination_chain m) \<noteq> None"
      using assms(2) by (simp add: route_allowed_def list_all_iff)
    moreover have "destination_chain m = fst c" using c m
      by (metis chunk_by_key list.set_intros(1) prod.collapse)
    ultimately show ?thesis using destination_gateway_Inr_iff [OF config] by auto
  qed
  then obtain f where "\<And>c. c \<in> set (chunk_by destination_chain msgs) \<Longrightarrow>
      destination_gateway env s config (fst c) = Inr (f c)" by metis
  then have "try_map (\<lambda>(chain, ms). and_then (destination_gateway env s config chain)
      (\<lambda>g. Inr (GatewayRouteMessages g ms))) (chunk_by destination_chain msgs)
    = (Inr (map (\<lambda>c. GatewayRouteMessages (f c) (snd c)) (chunk_by destination_chain msgs))
        :: (router_error, _) result)"
    by (intro try_map_all_ok) (simp add: case_prod_beta)
  moreover have "validate_msgs (re_codecs env) s config a msgs = Inr msgs"
    using assms(2) by (simp add: validate_msgs_Inr_iff [OF assms(1) config] route_allowed_def)
  ultimately show ?thesis
    using assms(2) config
    by (simp add: route_messages_def load_config_def ensure_def route_allowed_def is_contract_active_def)
qed

lemma find_gateway_address_True: "router_inv s \<Longrightarrow> find_gateway_address s a = Inr True"
  using load_chain_by_gateway_no_panic [of s a]
  by (cases "load_chain_by_gateway s a")
     (auto simp: find_gateway_address_def load_config_def router_inv_def load_chain_by_gateway_def
        and_then_Inl_iff index_load_chain_by_gateway_def split: failure.splits router_error.splits
        list.splits option.splits)

lemma execute_route:
  "router_inv s \<Longrightarrow> router_execute env s (a, Direct (RouteMessages msgs)) = Inr x \<longleftrightarrow>
     route_messages env s a msgs = Inr x"
  by (auto simp: router_execute_Inr_iff authorize_Direct_Inr_iff ensure_permissions_Inr_iff
      find_gateway_address_True result_simps)

subsection \<open>Panics\<close>

lemma is_panic_chains_update:
  "(\<And>e. \<not> is_panic (f e)) \<Longrightarrow> \<not> is_panic (chains_update s c f)"
  by (simp add: chains_update_def)

lemma is_panic_freeze_specific [simp]:
  "\<not> is_panic (freeze_specific_chain s c d)" "\<not> is_panic (unfreeze_specific_chain s c d)"
  by (simp_all add: freeze_specific_chain_def unfreeze_specific_chain_def chains_update_def
      split: option.splits)

lemma is_panic_freeze_chains [simp]:
  "\<not> is_panic (freeze_chains s cs)" "\<not> is_panic (unfreeze_chains s cs)"
  by (simp_all add: freeze_chains_def unfreeze_chains_def case_prod_beta
      is_panic_try_fold [where I = "\<lambda>_. True"])

lemma is_panic_verify_msg_ids [simp]: "\<not> is_panic (verify_msg_ids cd msgs fmt)"
  by (simp add: verify_msg_ids_def is_panic_try_fold [where I = "\<lambda>_. True"])

lemma is_panic_route_messages:
  assumes "router_inv s"
  shows "\<not> is_panic (route_messages env s a msgs)"
proof -
  have "\<not> is_panic (validate_msgs (re_codecs env) s config a msgs)" for config
    using load_chain_by_gateway_no_panic [of s a] assms
    by (auto simp: validate_msgs_def router_inv_def)
  moreover have "\<not> is_panic (destination_gateway env s config c)" for config c
    by (auto simp: destination_gateway_def split: option.splits)
  then have "\<not> is_panic (try_map (\<lambda>(c, ms). and_then (destination_gateway env s config c)
      (\<lambda>g. Inr (GatewayRouteMessages g ms))) cs)" for config cs
    by (auto dest!: is_panic_try_map)
  ultimately show ?thesis by (simp add: route_messages_def load_config_def)
qed

lemma is_panic_router_dispatch:
  assumes "router_inv s"
  shows "\<not> is_panic (router_dispatch env s a m)"
proof -
  have "\<not> is_panic (index_load_chain_by_gateway s g :: (router_error, _) result)" for g
    using assms by (simp add: router_inv_def index_load_no_panic)
  then have "\<not> is_panic (register_chain env s c g fmt)" "\<not> is_panic (upgrade_gateway s c g)" for c g fmt
    by (auto simp: register_chain_def upgrade_gateway_def chains_update_def split: option.splits)
  then show ?thesis
    using is_panic_route_messages [OF assms]
    by (cases m) (auto simp: validate_cosmwasm_address_def disable_routing_def enable_routing_def
        killswitch_engage_def killswitch_disengage_def split: option.splits killswitch.splits)
qed

lemma is_panic_router_execute:
  assumes "router_inv s"
  shows "\<not> is_panic (router_execute env s call)"
proof -
  have "\<not> is_panic (authorize (rt_perms s) [(''coordinator'', find_coordinator_address s)] router_permissions
      (\<lambda>m role a. find_gateway_address s a) (fst call) (snd call))"
    by (rule is_panic_authorize)
       (simp_all add: find_gateway_address_True [OF assms] find_coordinator_address_def load_config_def)
  then show ?thesis
    using is_panic_router_dispatch [OF assms]
    by (auto simp: router_execute_def case_prod_beta)
qed

subsection \<open>Freezing\<close>

lemma frozen_or:
  assumes "x AND b = (b :: u8)"
  shows "(x OR y) AND b = b"
proof (rule bit_word_eqI)
  fix n
  assume "n < LENGTH(8)"
  have "bit (x AND b) n = bit b n" using assms by simp
  then show "bit ((x OR y) AND b) n = bit b n" by (auto simp: bit_simps)
qed

lemma frozen_set: "(x OR b) AND b = (b :: u8)"
  by (rule bit_word_eqI) (auto simp: bit_simps)

lemma freeze_specific_frozen:
  "freeze_specific_chain s c d = Inr s' \<Longrightarrow>
     frozen_in s' c (direction_bits d) \<and> (\<forall>c b. frozen_in s c b \<longrightarrow> frozen_in s' c b)"
  by (auto simp: freeze_specific_chain_def result_simps frozen_in_def frozen_set frozen_or
      split: option.splits if_splits)

lemma unfreeze_specific_frozen:
  "unfreeze_specific_chain s c d = Inr s' \<Longrightarrow> c' \<noteq> c \<Longrightarrow> frozen_in s c' b \<Longrightarrow> frozen_in s' c' b"
  by (auto simp: unfreeze_specific_chain_def result_simps frozen_in_def split: option.splits if_splits)

lemma freeze_chains_frozen:
  "freeze_chains s cs = Inr (s', r) \<Longrightarrow>
     (\<forall>(c, d) \<in> set cs. frozen_in s' c (direction_bits d)) \<and> (\<forall>c b. frozen_in s c b \<longrightarrow> frozen_in s' c b)"
proof -
  have "try_fold (\<lambda>s (c, d). freeze_specific_chain s c d) s cs = Inr s' \<Longrightarrow>
     (\<forall>(c, d) \<in> set cs. frozen_in s' c (direction_bits d)) \<and> (\<forall>c b. frozen_in s c b \<longrightarrow> frozen_in s' c b)"
  proof (induction cs arbitrary: s)
    case (Cons p cs)
    obtain c d where p: "p = (c, d)" by (cases p)
    obtain s1 where s1: "freeze_specific_chain s c d = Inr s1"
      and r: "try_fold (\<lambda>s (c, d). freeze_specific_chain s c d) s1 cs = Inr s'"
      using Cons.prems by (auto simp: p result_simps)
    show ?case using freeze_specific_frozen [OF s1] Cons.IH [OF r] by (simp add: p)
  qed simp
  then show "freeze_chains s cs = Inr (s', r) \<Longrightarrow> ?thesis"
    by (auto simp: freeze_chains_def result_simps)
qed

lemma unfreeze_chains_frozen:
  assumes "unfreeze_chains s cs = Inr (s', r)" and "c \<notin> fst ` set cs" and "frozen_in s c b"
  shows "frozen_in s' c b"
proof -
  from assms(1) have "try_fold (\<lambda>s (c, d). unfreeze_specific_chain s c d) s cs = Inr s'"
    by (auto simp: unfreeze_chains_def result_simps)
  from this assms(3) show ?thesis
    by (rule try_fold_invariant)
       (use assms(2) unfreeze_specific_frozen in \<open>auto simp: image_iff split: prod.splits\<close>)
qed

lemma dispatch_frozen:
  assumes "router_dispatch env s a m = Inr (s', r)" and "\<not> unfreezes c (Direct m)" and "frozen_in s c b"
  shows "frozen_in s' c b"
proof (cases m)
  case (FreezeChains cs)
  then show ?thesis using assms(1,3) freeze_chains_frozen by (auto simp: result_simps)
next
  case (UnfreezeChains cs)
  then show ?thesis using assms unfreeze_chains_frozen by (auto simp: result_simps)
qed (use assms in \<open>auto simp: result_simps register_chain_def upgrade_gateway_def route_messages_def
      disable_routing_def enable_routing_def frozen_in_def split: option.splits if_splits\<close>)

lemma unfreezes_Relay [simp]: "unfreezes c (Relay a m) = unfreezes c (Direct m)"
  by (cases m) auto

lemma router_tx_frozen:
  assumes "router_tx s tx = Inr (s', r)" and "\<not> unfreezes c (snd (snd tx))" and "frozen_in s c b"
  shows "frozen_in s' c b"
proof -
  obtain env a call where tx: "tx = (env, a, call)" by (cases tx)
  obtain a' m where au: "authorize (rt_perms s) [(''coordinator'', find_coordinator_address s)]
      router_permissions (\<lambda>m role a. find_gateway_address s a) a call = Inr (a', m)"
    and d: "router_dispatch env s a' m = Inr (s', r)"
    using assms(1) by (auto simp: tx router_tx_def router_execute_Inr_iff)
  have "unfreezes c call = unfreezes c (Direct m)" using authorize_Inr [OF au] by auto
  then show ?thesis using dispatch_frozen [OF d _ assms(3)] assms(2) tx by simp
qed

lemma run_frozen:
  "frozen_in s c b \<Longrightarrow> list_all (\<lambda>tx. \<not> unfreezes c (snd (snd tx))) txs \<Longrightarrow>
     frozen_in (run_txs router_tx s txs) c b"
proof (induction txs arbitrary: s)
  case (Cons tx txs)
  have "frozen_in (commit s (router_tx s tx)) c b"
    using Cons.prems router_tx_frozen [of s tx] by (cases "router_tx s tx") auto
  then show ?case using Cons by simp
qed simp

lemma router_reachable_inv: "router_reachable s \<Longrightarrow> router_inv s"
  by (induction rule: router_reachable.induct) (auto dest: router_instantiate_inv router_tx_step)

lemma frozen_blocks:
  assumes "router_inv s" and "frozen_in s c b"
  shows "b AND 2 \<noteq> 0 \<Longrightarrow> route_gateway env s c = None"
    and "b AND 1 \<noteq> 0 \<Longrightarrow> kv_get (rt_chains s) c = Some e \<Longrightarrow> \<not> is_axelarnet_gateway s (ep_gateway e)
      \<Longrightarrow> \<not> source_allowed env s (ep_gateway e) msgs"
proof -
  have sub: "x AND n \<noteq> 0" if "x AND b = b" "b AND n \<noteq> 0" for x n :: u8
  proof
    assume "x AND n = 0"
    have "b AND n = (x AND b) AND n" using that(1) by simp
    also have "\<dots> = b AND (x AND n)" by (simp only: and.assoc and.commute and.left_commute)
    finally show False using \<open>x AND n = 0\<close> that(2) by simp
  qed
  show "b AND 2 \<noteq> 0 \<Longrightarrow> route_gateway env s c = None"
    using assms(2) sub by (auto simp: frozen_in_def route_gateway_def split: option.splits)
  assume b: "b AND 1 \<noteq> 0" and e: "kv_get (rt_chains s) c = Some e"
    and n: "\<not> is_axelarnet_gateway s (ep_gateway e)"
  have ok: "chains_ok (rt_chains s)" using assms(1) by (simp add: router_inv_def)
  have "load_chain_by_gateway s (ep_gateway e) = Inr e' \<Longrightarrow> e' = e" for e'
    using ok e unfolding load_chain_by_gateway_Inr_iff [OF ok] chains_ok_def gateways_unique_def
    by (metis option.inject)
  moreover have "ep_frozen_status e AND 1 \<noteq> 0" using assms(2) e b sub by (simp add: frozen_in_def)
  ultimately show "\<not> source_allowed env s (ep_gateway e) msgs"
    using n unfolding source_allowed_def source_chain_iff [OF ok] by auto
qed

lemma route_only_allowed:
  "router_inv s \<Longrightarrow> is_ok (router_execute env s (a, Direct (RouteMessages msgs))) \<Longrightarrow> route_allowed env s a msgs"
  using route_messages_Inr by (fastforce simp: is_ok_iff execute_route)

text \<open>A frozen chain sends nothing: neither its gateway nor any other but the Axelarnet gateway passes its messages.\<close>

lemma frozen_source:
  assumes "router_inv s" and "frozen_in s c b" and "b AND 1 \<noteq> 0" and "\<not> is_axelarnet_gateway s a"
    and "map_option ep_gateway (kv_get (rt_chains s) c) = Some a \<or> (\<exists>m \<in> set msgs. source_chain (cc_id m) = c)"
  shows "\<not> source_allowed env s a msgs"
proof
  assume src: "source_allowed env s a msgs"
  have ok: "chains_ok (rt_chains s)" using assms(1) by (simp add: router_inv_def)
  from src assms(4) obtain d e where e: "(d, e) \<in> set (rt_chains s)" "ep_gateway e = a" "ep_frozen_status e AND 1 = 0"
    and all: "list_all (\<lambda>m. source_chain (cc_id m) = d) msgs" by (auto simp: source_allowed_def)
  have get: "kv_get (rt_chains s) d = Some e" using e(1) ok by (simp add: chains_ok_def kv_ok_def strict_sorted_iff)
  have "d = c" using assms(5)
  proof
    assume "map_option ep_gateway (kv_get (rt_chains s) c) = Some a"
    then obtain e' where "kv_get (rt_chains s) c = Some e'" "ep_gateway e' = a" by auto
    then show "d = c" using get e(2) ok unfolding chains_ok_def gateways_unique_def by metis
  qed (use all in \<open>auto simp: list_all_iff\<close>)
  then show False using frozen_blocks(2) [OF assms(1-3)] get e(2) assms(4) src by metis
qed

subsection \<open>Authority\<close>

text \<open>Which calls set the gateway of a chain and which its freezing.\<close>

fun sets_gateway :: "string \<Rightarrow> router_msg \<Rightarrow> bool" where
  "sets_gateway c (RegisterChain c' _ _) \<longleftrightarrow> c' = c"
| "sets_gateway c (UpgradeGateway c' _) \<longleftrightarrow> c' = c"
| "sets_gateway c _ \<longleftrightarrow> False"

fun sets_freeze :: "string \<Rightarrow> router_msg \<Rightarrow> bool" where
  "sets_freeze c (FreezeChains cs) \<longleftrightarrow> c \<in> fst ` set cs"
| "sets_freeze c (UnfreezeChains cs) \<longleftrightarrow> c \<in> fst ` set cs"
| "sets_freeze c _ \<longleftrightarrow> False"

definition only_frozen :: "router_state \<Rightarrow> string set \<Rightarrow> router_state \<Rightarrow> bool" where
  "only_frozen s C t \<longleftrightarrow> t = s\<lparr>rt_chains := rt_chains t\<rparr> \<and> (\<forall>c. kv_get (rt_chains t) c = kv_get (rt_chains s) c
     \<or> c \<in> C \<and> (\<exists>e f. kv_get (rt_chains s) c = Some e \<and> kv_get (rt_chains t) c = Some (e\<lparr>ep_frozen_status := f\<rparr>)))"

lemma only_frozen_step:
  assumes "only_frozen s C t" "c \<in> C" "kv_get (rt_chains t) c = Some e"
  shows "only_frozen s C (t\<lparr>rt_chains := kv_set c (e\<lparr>ep_frozen_status := f\<rparr>) (rt_chains t)\<rparr>)"
proof -
  from assms obtain e0 f0 where "kv_get (rt_chains s) c = Some e0" "e = e0 \<or> e = e0\<lparr>ep_frozen_status := f0\<rparr>"
    unfolding only_frozen_def by (metis option.inject)
  then have "\<exists>e0 f'. kv_get (rt_chains s) c = Some e0 \<and> e\<lparr>ep_frozen_status := f\<rparr> = e0\<lparr>ep_frozen_status := f'\<rparr>" by auto
  moreover have "t = s\<lparr>rt_chains := rt_chains t\<rparr>" using assms(1) by (simp add: only_frozen_def)
  then have "t\<lparr>rt_chains := x\<rparr> = s\<lparr>rt_chains := x\<rparr>" for x by (metis router_state.update_convs(4) router_state.surjective router_state.select_convs)
  ultimately show ?thesis using assms(1,2) by (auto simp: only_frozen_def)
qed

lemma freezing_frame:
  "freeze_chains s cs = Inr (s', r) \<Longrightarrow> only_frozen s (fst ` set cs) s'"
  "unfreeze_chains s cs = Inr (s', r) \<Longrightarrow> only_frozen s (fst ` set cs) s'"
proof -
  have init: "only_frozen s (fst ` set cs) s" by (simp add: only_frozen_def)
  have keys: "(c, d) \<in> set cs \<Longrightarrow> c \<in> fst ` set cs" for c d by force
  show "freeze_chains s cs = Inr (s', r) \<Longrightarrow> only_frozen s (fst ` set cs) s'"
    by (auto simp: freeze_chains_def result_simps freeze_specific_chain_def split: option.splits
        elim!: try_fold_invariant [where I = "only_frozen s (fst ` set cs)", OF _ init] intro!: only_frozen_step intro: keys)
  show "unfreeze_chains s cs = Inr (s', r) \<Longrightarrow> only_frozen s (fst ` set cs) s'"
    by (auto simp: unfreeze_chains_def result_simps unfreeze_specific_chain_def split: option.splits
        elim!: try_fold_invariant [where I = "only_frozen s (fst ` set cs)", OF _ init] intro!: only_frozen_step intro: keys)
qed

lemma dispatch_frame:
  assumes "router_dispatch env s a m = Inr (s', r)"
  shows "rt_config s' = rt_config s \<and> rt_perms s' = rt_perms s
    \<and> (rt_killswitch s' = rt_killswitch s \<or> m = DisableRouting \<or> m = EnableRouting)
    \<and> (\<forall>c. kv_get (rt_chains s') c = kv_get (rt_chains s) c \<or> sets_gateway c m
        \<or> sets_freeze c m \<and> (\<exists>e f. kv_get (rt_chains s) c = Some e \<and> kv_get (rt_chains s') c = Some (e\<lparr>ep_frozen_status := f\<rparr>)))"
proof (cases m)
  case (RegisterChain c g f)
  then show ?thesis using assms by (auto simp: result_simps register_chain_def split: option.splits)
next
  case (UpgradeGateway c g)
  then show ?thesis using assms by (auto simp: result_simps upgrade_gateway_def split: option.splits)
next
  case (FreezeChains cs)
  then have fr: "only_frozen s (fst ` set cs) s'" using assms freezing_frame(1) by (auto simp: result_simps)
  then obtain x where "s' = s\<lparr>rt_chains := x\<rparr>" unfolding only_frozen_def by blast
  then have "rt_config s' = rt_config s" "rt_perms s' = rt_perms s" "rt_killswitch s' = rt_killswitch s" by simp_all
  then show ?thesis using fr FreezeChains by (auto simp: only_frozen_def)
next
  case (UnfreezeChains cs)
  then have fr: "only_frozen s (fst ` set cs) s'" using assms freezing_frame(2) by (auto simp: result_simps)
  then obtain x where "s' = s\<lparr>rt_chains := x\<rparr>" unfolding only_frozen_def by blast
  then have "rt_config s' = rt_config s" "rt_perms s' = rt_perms s" "rt_killswitch s' = rt_killswitch s" by simp_all
  then show ?thesis using fr UnfreezeChains by (auto simp: only_frozen_def)
next
  case (RouteMessages ms)
  then show ?thesis using assms by (auto simp: result_simps route_messages_def)
qed (use assms in \<open>auto simp: result_simps disable_routing_def enable_routing_def\<close>)

lemma dispatch_authority:
  assumes "router_dispatch env s a m = Inr (s', r)"
    and "ensure_permissions (rt_perms s) a (router_permissions m) (\<lambda>role. find_gateway_address s a) = Inr ()"
    and "s' \<noteq> s"
  shows "holds_permission (rt_perms s) a Elevated
    \<and> ((\<exists>c. map_option ep_gateway (kv_get (rt_chains s') c) \<noteq> map_option ep_gateway (kv_get (rt_chains s) c))
        \<longrightarrow> holds_permission (rt_perms s) a Governance)"
proof -
  let ?same = "\<lambda>t. \<forall>c. map_option ep_gateway (kv_get (rt_chains t) c) = map_option ep_gateway (kv_get (rt_chains s) c)"
  have fold: "?same t" if "try_fold f s cs = Inr t"
    and "\<And>s x s'. f s x = Inr s' \<Longrightarrow> \<forall>c. map_option ep_gateway (kv_get (rt_chains s') c)
          = map_option ep_gateway (kv_get (rt_chains s) c)" for f t and cs :: "(string \<times> gateway_direction) list"
    by (rule try_fold_invariant [OF that(1), where I = ?same]) (use that(2) in auto)
  show ?thesis
  proof (cases m)
    case (FreezeChains cs)
    then have "?same s'" using assms(1)
      by (auto simp: freeze_chains_def result_simps freeze_specific_chain_def
          elim!: fold [THEN spec] split: option.splits)
    then show ?thesis using assms(2) FreezeChains by (auto simp: result_simps)
  next
    case (UnfreezeChains cs)
    then have "?same s'" using assms(1)
      by (auto simp: unfreeze_chains_def result_simps unfreeze_specific_chain_def
          elim!: fold [THEN spec] split: option.splits)
    then show ?thesis using assms(2) UnfreezeChains by (auto simp: result_simps)
  next
    case (RouteMessages ms)
    then show ?thesis using assms(1,3) by (auto simp: result_simps route_messages_def)
  qed (use assms in \<open>auto simp: result_simps disable_routing_def enable_routing_def\<close>)
qed

lemma coordinator_iff:
  "Inr a = find_coordinator_address s \<longleftrightarrow> map_option rc_coordinator (rt_config s) = Some a"
  by (cases "rt_config s") (auto simp: find_coordinator_address_def load_config_def)

subsection \<open>An example\<close>

abbreviation example_codecs :: codecs where
  "example_codecs \<equiv> \<lparr>hex_decode = hex_decode_std, hex_encode = hex_encode_std, b58_decode = (\<lambda>_. None),
     b58_encode = (\<lambda>_. []), bech32m_checked = (\<lambda>_. None), eip55_ok = (\<lambda>_. False),
     sui_ok = (\<lambda>_. False), stellar_ok = (\<lambda>_. False)\<rparr>"

abbreviation example_env :: router_env where
  "example_env \<equiv> \<lparr>re_addr_validate = Some, re_is_chain_registered = (\<lambda>c. Some (c = ''osmo'')),
     re_codecs = example_codecs\<rparr>"

abbreviation example_chain :: "string \<Rightarrow> string \<Rightarrow> u8 \<Rightarrow> chain_endpoint" where
  "example_chain c g f \<equiv> \<lparr>ep_name = c, ep_gateway = g, ep_frozen_status = f,
     ep_msg_id_format = HexTxHashAndEventIndexFormat\<rparr>"

abbreviation example_state :: "u8 \<Rightarrow> router_state" where
  "example_state f \<equiv> \<lparr>rt_config = Some \<lparr>rc_axelarnet_gateway = ''axl'', rc_coordinator = ''coord''\<rparr>,
     rt_perms = \<lparr>admin_addr = Some ''admin'', governance_addr = Some ''gov''\<rparr>,
     rt_killswitch = Some Disengaged,
     rt_chains = [(''avax'', example_chain ''avax'' ''gw2'' 0), (''eth'', example_chain ''eth'' ''gw1'' f)]\<rparr>"

abbreviation example_init :: "router_state" where
  "example_init \<equiv> (example_state 0)\<lparr>rt_chains := []\<rparr>"

abbreviation example_message :: message where
  "example_message \<equiv> \<lparr>cc_id = CrossChainId ''eth'' (''0x'' @ hex_encode_std (replicate 32 171) @ ''-17''),
     source_address = ''alice'', destination_chain = ''avax'', destination_address = ''bob'',
     payload_hash = replicate 32 0\<rparr>"

lemma example_instantiated:
  "router_instantiate example_env ''admin'' ''gov'' ''axl'' ''coord'' =
     Inr (example_init, \<lparr>messages = [], events = [RouterInstantiated ''admin'' ''gov'' ''axl'' ''coord'']\<rparr>)"
  by (simp add: router_instantiate_def validate_cosmwasm_address_def set_governance_def set_admin_def
      killswitch_init_def)

lemmas router_eval =
  router_tx_def router_execute_def authorize_def ensure_permissions_def general_check_def sender_role_def
  verify_external_executor_def find_gateway_address_def find_coordinator_address_def load_config_def
  register_chain_def upgrade_gateway_def chains_update_def index_load_chain_by_gateway_def
  load_chain_by_gateway_def validate_cosmwasm_address_def ensure_def Let_def freeze_chains_def
  freeze_specific_chain_def

lemma example_register:
  "router_tx example_init (example_env, ''gov'', Direct (RegisterChain ''avax'' ''gw2'' HexTxHashAndEventIndexFormat)) =
     Inr (example_init\<lparr>rt_chains := [(''avax'', example_chain ''avax'' ''gw2'' 0)]\<rparr>,
          \<lparr>messages = [], events = [ChainRegistered ''avax'' ''gw2'']\<rparr>)"
  "router_tx (example_init\<lparr>rt_chains := [(''avax'', example_chain ''avax'' ''gw2'' 0)]\<rparr>)
       (example_env, ''coord'', Relay ''gov'' (RegisterChain ''eth'' ''gw1'' HexTxHashAndEventIndexFormat)) =
     Inr (example_state 0, \<lparr>messages = [], events = [ChainRegistered ''eth'' ''gw1'']\<rparr>)"
  by (simp_all add: router_eval)

lemma example_freeze:
  "router_execute example_env (example_state 0) (''admin'', Direct (FreezeChains [(''eth'', Incoming)])) =
     Inr (example_state 1, \<lparr>messages = [], events = [ChainFrozen ''eth'' Incoming]\<rparr>)"
  by (simp add: router_eval)

lemma example_reachable: "router_reachable (example_state 0)"
  by (rule step [OF step [OF init [OF example_instantiated] example_register(1)] example_register(2)])

lemma example_ids_valid: "ids_valid example_codecs [example_message] HexTxHashAndEventIndexFormat"
proof -
  have "show_word (17 :: u64) = ''17''" by code_simp
  then have "hex_event_from_str hex_decode_std (message_id (cc_id example_message)) =
      Inr (HexTxHashAndEventIndex (replicate 32 171) 17)"
    by (simp only: std_hex.hex_event_from_str_iff) simp
  then show ?thesis by (simp add: ids_valid_def)
qed

lemma example_allowed: "route_allowed example_env (example_state 0) ''gw1'' [example_message]"
  using example_ids_valid
  by (simp add: route_allowed_def source_allowed_def is_axelarnet_gateway_def route_gateway_def)

section \<open>Properties\<close>

text \<open>
  C33. The router never panics. In every state that transactions can produce, every call, by
  whoever and in whatever environment, returns a response or an error: the index by gateway,
  whose lookup panics on two chains with one gateway, never holds such a pair.
\<close>

theorem router_never_panics:
  assumes "router_reachable s"
  shows "\<not> is_panic (router_execute env s call)"
  using is_panic_router_execute [OF router_reachable_inv [OF assms]] .

theorem router_never_panics_witness:
  "\<not> is_panic (router_execute example_env (example_state 0)
      (''gov'', Direct (UpgradeGateway ''eth'' ''gw2'')))"
  by (rule router_never_panics [OF example_reachable])

text \<open>
  C10. Routing is exact. If a batch of messages is accepted in a reachable state, then routing is
  enabled, the sender is the Axelarnet gateway or the gateway of a chain that is not frozen and that is
  the source chain of every message, every message id has the format of the source, and every
  destination can be reached; the state is unchanged, and the messages are handed over to the
  gateways of their destinations (the Axelarnet gateway for chains that only the core knows),
  each message once and in the order of the batch. If a batch is rejected, one of these conditions
  fails, or the Axelarnet gateway sent a message to a chain that is not registered with the router.
\<close>

theorem routing_exact:
  assumes "router_reachable s"
  shows "case router_execute env s (sender, Direct (RouteMessages msgs)) of
      Inl _ \<Rightarrow> route_allowed env s sender msgs \<longrightarrow>
        is_axelarnet_gateway s sender \<and> (\<exists>m \<in> set msgs. kv_get (rt_chains s) (destination_chain m) = None)
    | Inr (s', r) \<Rightarrow> route_allowed env s sender msgs \<and> s' = s \<and> route_delivers env s msgs r"
proof -
  note inv = router_reachable_inv [OF assms]
  show ?thesis
  proof (cases "router_execute env s (sender, Direct (RouteMessages msgs))")
    case (Inl e)
    then show ?thesis
      using route_messages_succeeds [OF inv, of env sender msgs] by (auto simp flip: execute_route [OF inv])
  next
    case (Inr x)
    obtain s' r where x: "x = (s', r)" by (cases x)
    have "route_messages env s sender msgs = Inr (s', r)" using Inr by (simp add: execute_route [OF inv] x)
    then show ?thesis using route_messages_Inr [OF inv] Inr by (simp add: x)
  qed
qed

theorem routing_exact_witness:
  "\<exists>r. router_execute example_env (example_state 0) (''gw1'', Direct (RouteMessages [example_message])) =
         Inr (example_state 0, r)
     \<and> route_delivers example_env (example_state 0) [example_message] r"
  using routing_exact [OF example_reachable, of example_env "''gw1''" "[example_message]"] example_allowed
  by (cases "router_execute example_env (example_state 0) (''gw1'', Direct (RouteMessages [example_message]))")
    (auto simp: is_axelarnet_gateway_def)

text \<open>
  C28. A freeze holds until the chain is unfrozen. After a call that froze the chain \<open>c\<close> in
  a direction, and any further transactions of which none unfreezes \<open>c\<close> in any direction:
  if the direction is outgoing or both, no batch with a message to \<open>c\<close> is routed, whoever sends it.
  If it is incoming or both, no batch with a message of the source chain \<open>c\<close> and no batch of the
  gateway of \<open>c\<close> is routed, unless the sender is the Axelarnet gateway, whose messages the router
  does not check for their source chain. Upgrading the gateway of \<open>c\<close> does not lift the freeze.
\<close>

theorem freeze_holds:
  assumes "router_reachable s"
    and "router_execute env s (admin, Direct (FreezeChains cs)) = Inr (s1, r1)"
    and "(c, d) \<in> set cs"
    and "list_all (\<lambda>tx. \<not> unfreezes c (snd (snd tx))) txs"
    and "s2 = run_txs router_tx s1 txs"
  shows "(d \<in> {Outgoing, Bidirectional} \<and> c \<in> destination_chain ` set msgs \<longrightarrow>
           \<not> is_ok (router_execute env' s2 (sender, Direct (RouteMessages msgs))))
    \<and> (d \<in> {Incoming, Bidirectional} \<and> \<not> is_axelarnet_gateway s2 sender
        \<and> (map_option ep_gateway (kv_get (rt_chains s2) c) = Some sender \<or> (\<exists>m \<in> set msgs. source_chain (cc_id m) = c)) \<longrightarrow>
           \<not> is_ok (router_execute env' s2 (sender, Direct (RouteMessages msgs))))"
proof -
  note inv = router_reachable_inv [OF assms(1)]
  have "freeze_chains s cs = Inr (s1, r1)"
    using assms(2) by (auto simp: router_execute_Inr_iff authorize_Direct_Inr_iff result_simps)
  then have "frozen_in s1 c (direction_bits d)" using freeze_chains_frozen assms(3) by blast
  then have f: "frozen_in s2 c (direction_bits d)" using run_frozen assms(4,5) by simp
  have "router_inv s1" using router_execute_step [OF inv assms(2)] by simp
  then have inv2: "router_inv s2" using rt.run_inv assms(5) by (simp add: list_all_iff)
  have "c \<notin> destination_chain ` set msgs" if "d \<in> {Outgoing, Bidirectional}" "route_allowed env' s2 sender msgs"
    using frozen_blocks(1) [OF inv2 f, of env'] that by (auto simp: route_allowed_def list_all_iff)
  moreover have "\<not> route_allowed env' s2 sender msgs" if "d \<in> {Incoming, Bidirectional}" "\<not> is_axelarnet_gateway s2 sender"
    "map_option ep_gateway (kv_get (rt_chains s2) c) = Some sender \<or> (\<exists>m \<in> set msgs. source_chain (cc_id m) = c)"
    using frozen_source [OF inv2 f _ that(2,3), of env'] that(1) by (auto simp: route_allowed_def)
  ultimately show ?thesis using route_only_allowed [OF inv2, of env' sender msgs] by blast
qed

theorem freeze_holds_witness:
  "\<not> is_ok (router_execute example_env
        (run_txs router_tx (example_state 1)
           [(example_env, ''gov'', Direct (UpgradeGateway ''eth'' ''gw3'')),
            (example_env, ''gov'', Direct (UnfreezeChains [(''avax'', Incoming)]))])
        (''gw3'', Direct (RouteMessages [example_message])))"
proof -
  let ?txs = "[(example_env, ''gov'', Direct (UpgradeGateway ''eth'' ''gw3'')),
            (example_env, ''gov'', Direct (UnfreezeChains [(''avax'', Incoming)]))]"
  have run: "run_txs router_tx (example_state 1) ?txs =
      (example_state 1)\<lparr>rt_chains := [(''avax'', example_chain ''avax'' ''gw2'' 0), (''eth'', example_chain ''eth'' ''gw3'' 1)]\<rparr>"
    by (simp add: router_eval unfreeze_chains_def unfreeze_specific_chain_def)
  show ?thesis
    using freeze_holds [OF example_reachable example_freeze, of "''eth''" Incoming ?txs _ "[example_message]"
        example_env "''gw3''"]
    unfolding run by (simp add: is_axelarnet_gateway_def)
qed

text \<open>
  C29. Who changes what in the router. A call that changes the state was made by an address with an
  elevated role, that is the admin or governance, directly or, for the registration of a chain,
  through the coordinator. It changes neither the configuration nor the roles, the kill switch only
  by enabling or disabling routing, the entry of a chain only by registering this chain or
  upgrading its gateway, or by freezing or unfreezing it, and then nothing but its frozen status.
  Routing messages changes nothing.
\<close>

theorem router_authority:
  assumes "router_execute env s (sender, call) = Inr (s', r)"
  shows "s' = s \<or> (\<exists>a m. (call = Direct m \<and> a = sender
         \<or> call = Relay a m \<and> map_option rc_coordinator (rt_config s) = Some sender
           \<and> (\<exists>c g f. m = RegisterChain c g f))
      \<and> holds_permission (rt_perms s) a Elevated \<and> (\<forall>ms. m \<noteq> RouteMessages ms)
      \<and> rt_config s' = rt_config s \<and> rt_perms s' = rt_perms s
      \<and> (rt_killswitch s' = rt_killswitch s \<or> m = DisableRouting \<or> m = EnableRouting)
      \<and> (\<forall>c. kv_get (rt_chains s') c = kv_get (rt_chains s) c \<or> sets_gateway c m
          \<or> sets_freeze c m \<and> (\<exists>e f. kv_get (rt_chains s) c = Some e \<and> kv_get (rt_chains s') c = Some (e\<lparr>ep_frozen_status := f\<rparr>))))"
proof (cases "s' = s")
  case False
  obtain a m where au: "authorize (rt_perms s) [(''coordinator'', find_coordinator_address s)]
      router_permissions (\<lambda>m role a. find_gateway_address s a) sender call = Inr (a, m)"
    and d: "router_dispatch env s a m = Inr (s', r)"
    using assms(1) by (auto simp: router_execute_Inr_iff)
  note p = authorize_Inr [OF au]
  have "call = Direct m \<and> a = sender
      \<or> call = Relay a m \<and> map_option rc_coordinator (rt_config s) = Some sender \<and> (\<exists>c g f. m = RegisterChain c g f)"
    using p by (cases m) (auto simp: result_simps coordinator_iff)
  moreover have "m \<noteq> RouteMessages ms" for ms using d False by (auto simp: result_simps route_messages_def)
  moreover have "holds_permission (rt_perms s) a Elevated" using dispatch_authority [OF d _ False] p by blast
  ultimately show ?thesis using dispatch_frame [OF d] by blast
qed simp

theorem router_authority_witness:
  "\<exists>m. Direct (FreezeChains [(''eth'', Incoming)]) = Direct m
      \<and> holds_permission \<lparr>admin_addr = Some ''admin'', governance_addr = Some ''gov''\<rparr> ''admin'' Elevated
      \<and> kv_get (rt_chains (example_state 1)) ''avax'' = kv_get (rt_chains (example_state 0)) ''avax''"
  using router_authority [OF example_freeze] by force

text \<open>
  The gateway of a chain changes only by governance, as the permissions of the messages say.
\<close>

lemma gateway_changes_governed:
  assumes "router_execute env s (sender, call) = Inr (s', r)"
    and "map_option ep_gateway (kv_get (rt_chains s') c) \<noteq> map_option ep_gateway (kv_get (rt_chains s) c)"
  shows "\<exists>a m. (call = Direct m \<and> a = sender \<or> call = Relay a m) \<and> holds_permission (rt_perms s) a Governance"
proof -
  obtain a m where au: "authorize (rt_perms s) [(''coordinator'', find_coordinator_address s)]
      router_permissions (\<lambda>m role a. find_gateway_address s a) sender call = Inr (a, m)"
    and d: "router_dispatch env s a m = Inr (s', r)"
    using assms(1) by (auto simp: router_execute_Inr_iff)
  have "s' \<noteq> s" using assms(2) by auto
  then show ?thesis using dispatch_authority [OF d] authorize_Inr [OF au] assms(2) by blast
qed

text \<open>
  Registrations are permanent. Whatever transactions follow, a registered chain stays
  registered under its name with the format of message ids it was registered with, and the
  roles and the configuration stay as instantiated.
\<close>

lemma registrations_permanent:
  assumes "router_reachable s"
  shows "rt_config (run_txs router_tx s txs) = rt_config s \<and> rt_perms (run_txs router_tx s txs) = rt_perms s
    \<and> (\<forall>c e. chain_info s c = Inr e \<longrightarrow>
         (\<exists>e'. chain_info (run_txs router_tx s txs) c = Inr e' \<and> ep_name e' = c
            \<and> ep_msg_id_format e' = ep_msg_id_format e))"
proof -
  have "kv_get (rt_chains s) c = Some e \<Longrightarrow> ep_name e = c" for c e
    using router_reachable_inv [OF assms] by (simp add: router_inv_def chains_ok_def)
  then show ?thesis
    using router_run_stable [OF router_reachable_inv [OF assms], of txs]
    unfolding router_stable_def chain_info_def ok_or_Inr_iff by metis
qed

lemma registrations_permanent_example:
  "\<exists>e'. chain_info (run_txs router_tx (example_state 0)
          [(example_env, ''admin'', Direct (UpgradeGateway ''eth'' ''evil''))]) ''eth'' = Inr e'
      \<and> ep_msg_id_format e' = HexTxHashAndEventIndexFormat"
proof -
  have "chain_info (example_state 0) ''eth'' = Inr (example_chain ''eth'' ''gw1'' 0)"
    by (simp add: chain_info_def)
  then show ?thesis
    using registrations_permanent [OF example_reachable,
        of "[(example_env, ''admin'', Direct (UpgradeGateway ''eth'' ''evil''))]"] by fastforce
qed

end
