(* ===== verification/Voting.thy ===== *)
theory Voting
  imports Wasm_Std
begin

text \<open>
  Weighted polls, \<open>packages/axelar-wasm-std/src/voting.rs\<close>. A poll has a list of items; each
  participant votes once, on all items, with a fixed weight; an item has consensus when the
  tally of one vote reaches the quorum. The tallies are keyed by the name of the vote, in
  the order of the names, as the source's \<open>BTreeMap\<close> keyed by strings is.
\<close>

section \<open>Definitions\<close>

datatype voting_error =
    NotParticipant | InvalidVoteSize | AlreadyVoted | PollNotInProgress | PollNotEnded
  | PollExpired | MessageIndexOutOfBounds | PollResultsLengthUnequal

type_synonym poll_id = u64

datatype vote = SucceededOnChain | FailedOnChain | NotFound

fun vote_str :: "vote \<Rightarrow> string" where
  "vote_str SucceededOnChain = ''SucceededOnChain''"
| "vote_str FailedOnChain = ''FailedOnChain''"
| "vote_str NotFound = ''NotFound''"

definition vote_parse :: "string \<Rightarrow> vote option" where
  "vote_parse s =
     (if s = ''SucceededOnChain'' then Some SucceededOnChain
      else if s = ''FailedOnChain'' then Some FailedOnChain
      else if s = ''NotFound'' then Some NotFound
      else None)"

definition vote_iter :: "vote list" where
  "vote_iter = [SucceededOnChain, FailedOnChain, NotFound]"

type_synonym tallies = "(string, u128) kv"

definition tallies_default :: tallies where
  "tallies_default = kv_of_list (map (\<lambda>v. (vote_str v, 0)) vote_iter)"

fun tallies_consensus :: "tallies \<Rightarrow> u128 \<Rightarrow> ('e, vote option) result" where
  "tallies_consensus [] quorum = Ok None"
| "tallies_consensus ((k, t) # m) quorum =
     (if t \<ge> quorum
      then and_then (expect_some ''can't parse vote string back to enum'' (vote_parse k))
             (\<lambda>v. Ok (Some v))
      else tallies_consensus m quorum)"

definition tally :: "tallies \<Rightarrow> vote \<Rightarrow> u128 \<Rightarrow> tallies" where
  "tally m vote weight =
     kv_set (vote_str vote)
       (saturating_add (case kv_get m (vote_str vote) of None \<Rightarrow> 0 | Some t \<Rightarrow> t) weight) m"

type_synonym poll_results = "vote option list"

definition results_difference ::
  "poll_results \<Rightarrow> poll_results \<Rightarrow> (voting_error, poll_results) result" where
  "results_difference lhs rhs =
     (if length lhs \<noteq> length rhs then fail PollResultsLengthUnequal
      else Ok (map (\<lambda>(l, r). if l \<noteq> None \<and> r = None then l else None) (zip lhs rhs)))"

record poll_state =
  ps_poll_id :: poll_id
  ps_results :: poll_results
  ps_consensus_participants :: "string list"

datatype poll_status = Poll_InProgress | Poll_Expired | Poll_Finished

record participation =
  pa_weight :: u128
  pa_voted :: bool

record weighted_poll =
  wp_poll_id :: poll_id
  wp_quorum :: u128
  wp_expires_at :: u64
  wp_poll_size :: u64
  wp_tallies :: "tallies list"
  wp_finished :: bool
  wp_participation :: "(string, participation) kv"

definition weighted_poll_new :: "poll_id \<Rightarrow> snapshot \<Rightarrow> u64 \<Rightarrow> nat \<Rightarrow> weighted_poll" where
  "weighted_poll_new poll_id snapshot expiry poll_size =
     \<lparr>wp_poll_id = poll_id,
      wp_quorum = sn_quorum snapshot,
      wp_expires_at = expiry,
      wp_poll_size = of_nat poll_size,
      wp_tallies = replicate poll_size tallies_default,
      wp_finished = False,
      wp_participation =
        kv_of_list (map (\<lambda>(a, p). (a, \<lparr>pa_weight = p_weight p, pa_voted = False\<rparr>))
          (sn_participants snapshot))\<rparr>"

definition poll_finish :: "weighted_poll \<Rightarrow> u64 \<Rightarrow> (voting_error, weighted_poll) result" where
  "poll_finish p block_height =
     (if wp_finished p then fail PollNotInProgress
      else if block_height < wp_expires_at p then fail PollNotEnded
      else Ok (p\<lparr>wp_finished := True\<rparr>))"

definition poll_results :: "weighted_poll \<Rightarrow> ('e, poll_results) result" where
  "poll_results p = try_map (\<lambda>t. tallies_consensus t (wp_quorum p)) (wp_tallies p)"

definition voted_consensus :: "vote list \<Rightarrow> poll_results \<Rightarrow> bool" where
  "voted_consensus votes results =
     list_all (\<lambda>(vote, result). result = None \<or> Some vote = result) (zip votes results)"

definition weighted_poll_state ::
  "weighted_poll \<Rightarrow> (string \<Rightarrow> vote list option) \<Rightarrow> ('e, poll_state) result" where
  "weighted_poll_state p voting_history =
     and_then (try_map (\<lambda>t. tallies_consensus t (wp_quorum p)) (wp_tallies p)) (\<lambda>results.
     Ok \<lparr>ps_poll_id = wp_poll_id p,
         ps_results = results,
         ps_consensus_participants =
           filter (\<lambda>a. case voting_history a of
                         None \<Rightarrow> False
                       | Some votes \<Rightarrow> voted_consensus votes results)
             (map fst (wp_participation p))\<rparr>)"

definition poll_consensus :: "weighted_poll \<Rightarrow> u32 \<Rightarrow> (voting_error, vote option) result" where
  "poll_consensus p idx =
     (if unat idx < length (wp_tallies p)
      then tallies_consensus (wp_tallies p ! unat idx) (wp_quorum p)
      else fail MessageIndexOutOfBounds)"

fun tally_all :: "tallies list \<Rightarrow> vote list \<Rightarrow> u128 \<Rightarrow> tallies list" where
  "tally_all (t # ts) (v # vs) weight = tally t v weight # tally_all ts vs weight"
| "tally_all ts vs weight = ts"

definition cast_vote ::
  "weighted_poll \<Rightarrow> u64 \<Rightarrow> string \<Rightarrow> vote list \<Rightarrow> (voting_error, weighted_poll) result" where
  "cast_vote p block_height sender votes =
     and_then (ok_or NotParticipant (kv_get (wp_participation p) sender)) (\<lambda>participation.
     if block_height \<ge> wp_expires_at p then fail PollExpired
     else if (of_nat (length votes) :: u64) \<noteq> wp_poll_size p then fail InvalidVoteSize
     else if pa_voted participation then fail AlreadyVoted
     else Ok (p\<lparr>wp_tallies := tally_all (wp_tallies p) votes (pa_weight participation),
                wp_participation :=
                  kv_set sender (participation\<lparr>pa_voted := True\<rparr>) (wp_participation p)\<rparr>))"

definition weighted_poll_status :: "weighted_poll \<Rightarrow> u64 \<Rightarrow> poll_status" where
  "weighted_poll_status p current_height =
     (if wp_finished p then Poll_Finished
      else if current_height \<ge> wp_expires_at p then Poll_Expired
      else Poll_InProgress)"

subsection \<open>Specification\<close>

text \<open>
  A ballot is a call of \<open>cast_vote\<close>: the block height, the sender and the votes. The
  specification of a poll only counts ballots: the weight of a vote on an item is the sum
  of the weights of the ballots that cast it there.
\<close>

type_synonym ballot = "u64 \<times> string \<times> vote list"

definition cast_votes :: "weighted_poll \<Rightarrow> ballot list \<Rightarrow> (voting_error, weighted_poll) result" where
  "cast_votes p ballots = try_fold (\<lambda>p (h, s, vs). cast_vote p h s vs) p ballots"

definition tally_of :: "tallies \<Rightarrow> vote \<Rightarrow> u128" where
  "tally_of t v = (case kv_get t (vote_str v) of None \<Rightarrow> 0 | Some w \<Rightarrow> w)"

definition participant_weight :: "weighted_poll \<Rightarrow> string \<Rightarrow> nat" where
  "participant_weight p a =
     (case kv_get (wp_participation p) a of None \<Rightarrow> 0 | Some x \<Rightarrow> unat (pa_weight x))"

definition spec_weight :: "(string \<Rightarrow> nat) \<Rightarrow> ballot list \<Rightarrow> nat \<Rightarrow> vote \<Rightarrow> nat" where
  "spec_weight wt ballots i v =
     sum_list (map (\<lambda>(h, s, vs). if i < length vs \<and> vs ! i = v then wt s else 0) ballots)"

definition voters_for :: "ballot list \<Rightarrow> nat \<Rightarrow> vote \<Rightarrow> string set" where
  "voters_for ballots i v = (\<lambda>(h, s, vs). s) ` set (filter (\<lambda>(h, s, vs). i < length vs \<and> vs ! i = v) ballots)"

definition has_voted :: "weighted_poll \<Rightarrow> string \<Rightarrow> bool" where
  "has_voted p a \<longleftrightarrow> (\<exists>x. kv_get (wp_participation p) a = Some x \<and> pa_voted x)"

subsection \<open>Invariants\<close>

definition vote_keys :: "string list" where
  "vote_keys = [''FailedOnChain'', ''NotFound'', ''SucceededOnChain'']"

definition tallies_wf :: "tallies \<Rightarrow> bool" where
  "tallies_wf t \<longleftrightarrow> map fst t = vote_keys"

definition tallied_weight :: "tallies \<Rightarrow> nat" where
  "tallied_weight t =
     unat (tally_of t SucceededOnChain) + unat (tally_of t FailedOnChain) + unat (tally_of t NotFound)"

definition total_weight :: "weighted_poll \<Rightarrow> nat" where
  "total_weight p = sum_list (map (\<lambda>x. unat (pa_weight (snd x))) (wp_participation p))"

definition voted_weight :: "weighted_poll \<Rightarrow> nat" where
  "voted_weight p =
     sum_list (map (\<lambda>x. if pa_voted (snd x) then unat (pa_weight (snd x)) else 0) (wp_participation p))"

definition poll_wf :: "weighted_poll \<Rightarrow> bool" where
  "poll_wf p \<longleftrightarrow>
     kv_ok (wp_participation p)
     \<and> list_all tallies_wf (wp_tallies p)
     \<and> list_all (\<lambda>t. tallied_weight t \<le> voted_weight p) (wp_tallies p)
     \<and> total_weight p < 2 * unat (wp_quorum p)
     \<and> of_nat (length (wp_tallies p)) = wp_poll_size p"

definition snapshot_wf :: "snapshot \<Rightarrow> bool" where
  "snapshot_wf s \<longleftrightarrow>
     kv_ok (sn_participants s)
     \<and> sum_list (map (\<lambda>x. unat (p_weight (snd x))) (sn_participants s)) < 2 * unat (sn_quorum s)"

section \<open>Lemmas\<close>

subsection \<open>Tallies\<close>

lemma vote_str_inj [simp]: "vote_str v = vote_str w \<longleftrightarrow> v = w"
  by (cases v; cases w) simp_all

lemma vote_parse_str [simp]: "vote_parse (vote_str v) = Some v"
  by (cases v) (simp_all add: vote_parse_def)

lemma tallies_wf_cases:
  assumes "tallies_wf t"
  obtains f n s where
    "t = [(''FailedOnChain'', f), (''NotFound'', n), (''SucceededOnChain'', s)]"
proof -
  from assms obtain x y z where "t = [x, y, z]"
    and "fst x = ''FailedOnChain''" "fst y = ''NotFound''" "fst z = ''SucceededOnChain''"
    by (auto simp: tallies_wf_def vote_keys_def map_eq_Cons_conv)
  then show ?thesis using that [of "snd x" "snd y" "snd z"] by (cases x; cases y; cases z) auto
qed

lemma tallies_wf_default [simp]: "tallies_wf tallies_default"
  by (simp add: tallies_default_def vote_iter_def kv_of_list_def tallies_wf_def vote_keys_def
      less_char_def)

lemma tally_of_tally:
  "tally_of (tally t v w) v' = (if v = v' then saturating_add (tally_of t v) w else tally_of t v')"
  by (simp add: tally_of_def tally_def)

lemma tallies_wf_tally [simp, intro]: "tallies_wf t \<Longrightarrow> tallies_wf (tally t v w)"
  by (erule tallies_wf_cases, cases v) (simp_all add: tally_def tallies_wf_def vote_keys_def)

lemma tallies_consensus_wf:
  assumes "tallies_wf t"
  shows "tallies_consensus t q =
     Ok (if q \<le> tally_of t FailedOnChain then Some FailedOnChain
         else if q \<le> tally_of t NotFound then Some NotFound
         else if q \<le> tally_of t SucceededOnChain then Some SucceededOnChain
         else None)"
  using assms by (rule tallies_wf_cases) (simp add: tally_of_def vote_parse_def)

lemma tally_of_default [simp]: "tally_of tallies_default v = 0"
  by (cases v) (simp_all add: tally_of_def tallies_default_def vote_iter_def kv_of_list_def)

lemma tallied_weight_tally:
  "tallied_weight (tally t v w) \<le> tallied_weight t + unat w"
  by (cases v) (simp_all add: tallied_weight_def tally_of_tally unat_saturating_add)

lemma tally_of_le_tallied: "unat (tally_of t v) \<le> tallied_weight t"
  by (cases v) (simp_all add: tallied_weight_def)

lemma tally_of_pair_le: "v \<noteq> w \<Longrightarrow> unat (tally_of t v) + unat (tally_of t w) \<le> tallied_weight t"
  by (cases v; cases w) (simp_all add: tallied_weight_def)

lemma length_tally_all [simp]: "length (tally_all ts vs w) = length ts"
  by (induction ts vs w rule: tally_all.induct) auto

lemma nth_tally_all:
  "i < length ts \<Longrightarrow>
     tally_all ts vs w ! i = (if i < length vs then tally (ts ! i) (vs ! i) w else ts ! i)"
proof (induction ts vs w arbitrary: i rule: tally_all.induct)
  case (1 t ts v vs weight)
  then show ?case by (cases i) auto
qed auto

subsection \<open>The polls\<close>

lemma cast_vote_Inr_iff:
  "cast_vote p h s vs = Inr p' \<longleftrightarrow>
     (\<exists>pa. kv_get (wp_participation p) s = Some pa \<and> h < wp_expires_at p
        \<and> of_nat (length vs) = wp_poll_size p \<and> \<not> pa_voted pa
        \<and> p' = p\<lparr>wp_tallies := tally_all (wp_tallies p) vs (pa_weight pa),
                wp_participation := kv_set s (pa\<lparr>pa_voted := True\<rparr>) (wp_participation p)\<rparr>)"
  by (auto simp: cast_vote_def result_simps not_le)

lemma total_weight_cast_vote:
  assumes ok: "kv_ok (wp_participation p)" and "cast_vote p h s vs = Inr p'"
  shows "total_weight p' = total_weight p"
proof -
  from assms obtain pa where pa: "kv_get (wp_participation p) s = Some pa"
    and p': "wp_participation p' = kv_set s (pa\<lparr>pa_voted := True\<rparr>) (wp_participation p)"
    by (auto simp: cast_vote_Inr_iff)
  show ?thesis
    using sum_list_kv_set [OF ok pa, of "\<lambda>x. unat (pa_weight (snd x))" "pa\<lparr>pa_voted := True\<rparr>"]
    by (simp add: total_weight_def p')
qed

lemma voted_weight_cast_vote:
  assumes ok: "kv_ok (wp_participation p)" and "cast_vote p h s vs = Inr p'"
    and pa: "kv_get (wp_participation p) s = Some pa"
  shows "voted_weight p' = voted_weight p + unat (pa_weight pa)"
  using assms sum_list_kv_set [OF ok pa,
      of "\<lambda>x. if pa_voted (snd x) then unat (pa_weight (snd x)) else 0" "pa\<lparr>pa_voted := True\<rparr>"]
  by (auto simp: cast_vote_Inr_iff voted_weight_def)

lemma voted_weight_le_total: "voted_weight p \<le> total_weight p"
  unfolding voted_weight_def total_weight_def by (rule sum_list_mono) simp

lemma poll_wf_cast_vote:
  assumes wf: "poll_wf p" and cast: "cast_vote p h s vs = Inr p'"
  shows "poll_wf p'"
proof -
  from wf have ok: "kv_ok (wp_participation p)" by (simp add: poll_wf_def)
  from cast obtain pa where pa: "kv_get (wp_participation p) s = Some pa"
    and p': "p' = p\<lparr>wp_tallies := tally_all (wp_tallies p) vs (pa_weight pa),
                wp_participation := kv_set s (pa\<lparr>pa_voted := True\<rparr>) (wp_participation p)\<rparr>"
    by (auto simp: cast_vote_Inr_iff)
  have tallied: "tallied_weight (wp_tallies p' ! i) \<le> voted_weight p'" if "i < length (wp_tallies p')" for i
  proof -
    have "tallied_weight (wp_tallies p ! i) \<le> voted_weight p"
      using wf that p' by (simp add: poll_wf_def list_all_length)
    then show ?thesis
      using that p' voted_weight_cast_vote [OF ok cast pa]
        tallied_weight_tally [of "wp_tallies p ! i" "vs ! i" "pa_weight pa"]
      by (simp add: nth_tally_all)
  qed
  moreover have "list_all tallies_wf (wp_tallies p')"
    using wf p' by (auto simp: poll_wf_def list_all_length nth_tally_all)
  ultimately show ?thesis
    using wf p' total_weight_cast_vote [OF ok cast] by (simp add: poll_wf_def list_all_length)
qed

lemma poll_wf_new:
  assumes "snapshot_wf s"
  shows "poll_wf (weighted_poll_new i s expiry n)"
proof -
  let ?part = "map (\<lambda>(a, p). (a, \<lparr>pa_weight = p_weight p, pa_voted = False\<rparr>)) (sn_participants s)"
  have ok: "kv_ok ?part" using assms by (simp add: snapshot_wf_def kv_ok_map_snd)
  have "sum_list (map (\<lambda>x. unat (pa_weight (snd x))) ?part) =
          sum_list (map (\<lambda>x. unat (p_weight (snd x))) (sn_participants s))"
    by (simp add: comp_def case_prod_beta)
  then show ?thesis using assms ok
    by (simp add: poll_wf_def weighted_poll_new_def total_weight_def snapshot_wf_def
        kv_of_list_sorted list_all_length tallied_weight_def)
qed

lemma poll_wf_finish: "poll_wf p \<Longrightarrow> poll_finish p h = Inr p' \<Longrightarrow> poll_wf p'"
  by (auto simp: poll_finish_def poll_wf_def total_weight_def voted_weight_def split: if_splits)

lemma poll_wf_quorum_unique:
  assumes "poll_wf p" and "t \<in> set (wp_tallies p)"
    and "wp_quorum p \<le> tally_of t v" and "wp_quorum p \<le> tally_of t w"
  shows "v = w"
proof (rule ccontr)
  assume "v \<noteq> w"
  then have "unat (tally_of t v) + unat (tally_of t w) \<le> tallied_weight t" by (rule tally_of_pair_le)
  moreover have "tallied_weight t \<le> total_weight p"
    using assms(1,2) voted_weight_le_total [of p] by (auto simp: poll_wf_def list_all_iff)
  moreover have "total_weight p < 2 * unat (wp_quorum p)" using assms(1) by (simp add: poll_wf_def)
  ultimately show False using assms(3,4) by (simp add: word_le_nat_alt)
qed

lemma tallies_consensus_iff:
  assumes "poll_wf p" and "t \<in> set (wp_tallies p)"
  shows "tallies_consensus t (wp_quorum p) = Inr (Some v) \<longleftrightarrow> wp_quorum p \<le> tally_of t v"
proof -
  have "tallies_wf t" using assms by (auto simp: poll_wf_def list_all_iff)
  then show ?thesis
    using poll_wf_quorum_unique [OF assms, of v] by (cases v) (auto simp: tallies_consensus_wf)
qed

lemma tallies_consensus_ok:
  "poll_wf p \<Longrightarrow> t \<in> set (wp_tallies p) \<Longrightarrow> \<exists>c. tallies_consensus t q = Inr c"
  by (auto simp: poll_wf_def list_all_iff tallies_consensus_wf)

lemma poll_consensus_iff:
  assumes "poll_wf p"
  shows "poll_consensus p i = Inr (Some v) \<longleftrightarrow>
     unat i < length (wp_tallies p) \<and> wp_quorum p \<le> tally_of (wp_tallies p ! unat i) v"
  by (auto simp: poll_consensus_def tallies_consensus_iff [OF assms])

lemma poll_consensus_cast_vote:
  assumes "poll_wf p" and cast: "cast_vote p h s vs = Inr p'"
    and "poll_consensus p i = Inr (Some v)"
  shows "poll_consensus p' i = Inr (Some v)"
proof -
  have wf': "poll_wf p'" using assms(1,2) by (rule poll_wf_cast_vote)
  have "tally_of (wp_tallies p ! unat i) v \<le> tally_of (wp_tallies p' ! unat i) v"
    using assms by (auto simp: poll_consensus_iff cast_vote_Inr_iff nth_tally_all tally_of_tally
        le_saturating_add1)
  then show ?thesis
    using assms wf' by (auto simp: poll_consensus_iff cast_vote_Inr_iff)
qed

lemma poll_consensus_finish:
  "poll_finish p h = Inr p' \<Longrightarrow> poll_consensus p' i = poll_consensus p i"
  by (auto simp: poll_finish_def poll_consensus_def split: if_splits)

lemma poll_wf_cast_votes: "cast_votes p bs = Inr p' \<Longrightarrow> poll_wf p \<Longrightarrow> poll_wf p'"
  unfolding cast_votes_def by (erule try_fold_invariant) (auto dest: poll_wf_cast_vote)

lemma poll_consensus_cast_votes:
  assumes "poll_wf p" and "cast_votes p bs = Inr p'" and "poll_consensus p i = Inr (Some v)"
  shows "poll_consensus p' i = Inr (Some v) \<and> poll_wf p'"
  using assms(2) unfolding cast_votes_def
proof (rule try_fold_invariant)
  show "poll_consensus p i = Inr (Some v) \<and> poll_wf p" using assms by simp
qed (auto dest: poll_consensus_cast_vote poll_wf_cast_vote)

subsection \<open>Counting ballots\<close>

lemma cast_votes_Nil [simp]: "cast_votes p [] = Inr p"
  by (simp add: cast_votes_def)

lemma cast_votes_Cons [simp]:
  "cast_votes p ((h, s, vs) # bs) = and_then (cast_vote p h s vs) (\<lambda>p'. cast_votes p' bs)"
  by (simp add: cast_votes_def)

lemma cast_vote_frame:
  assumes "cast_vote p h s vs = Inr p'"
  shows "wp_quorum p' = wp_quorum p" "wp_expires_at p' = wp_expires_at p"
    "wp_poll_size p' = wp_poll_size p" "length (wp_tallies p') = length (wp_tallies p)"
    "participant_weight p' = participant_weight p" "has_voted p' a \<longleftrightarrow> has_voted p a \<or> a = s"
    "map_of (wp_participation p') a = None \<longleftrightarrow> map_of (wp_participation p) a = None"
  using assms by (auto simp: cast_vote_Inr_iff participant_weight_def has_voted_def fun_eq_iff
      split: if_splits)

lemma cast_votes_frame:
  "cast_votes p bs = Inr p' \<Longrightarrow>
     wp_quorum p' = wp_quorum p \<and> length (wp_tallies p') = length (wp_tallies p)"
proof (induction bs arbitrary: p)
  case (Cons b bs)
  then show ?case
    by (cases b) (fastforce simp: result_simps dest: cast_vote_frame(1) cast_vote_frame(4))
qed simp

lemma cast_vote_tally:
  assumes "cast_vote p h s vs = Inr p'" and "i < length (wp_tallies p)"
  shows "unat (tally_of (wp_tallies p' ! i) v) =
     min (2 ^ 128 - 1) (unat (tally_of (wp_tallies p ! i) v) +
       (if i < length vs \<and> vs ! i = v then participant_weight p s else 0))"
proof -
  have "unat (tally_of (wp_tallies p ! i) v) < 2 ^ 128"
    using unat_less_width [of "tally_of (wp_tallies p ! i) v"] by simp
  then show ?thesis using assms
    by (auto simp: cast_vote_Inr_iff nth_tally_all tally_of_tally unat_saturating_add
        participant_weight_def)
qed

lemma cast_votes_tally:
  "cast_votes p bs = Inr p' \<Longrightarrow> i < length (wp_tallies p) \<Longrightarrow>
     unat (tally_of (wp_tallies p' ! i) v) =
     min (2 ^ 128 - 1)
       (unat (tally_of (wp_tallies p ! i) v) + spec_weight (participant_weight p) bs i v)"
proof (induction bs arbitrary: p)
  case Nil
  have "unat (tally_of (wp_tallies p ! i) v) < 2 ^ 128"
    using unat_less_width [of "tally_of (wp_tallies p ! i) v"] by simp
  then show ?case using Nil by (simp add: spec_weight_def)
next
  case (Cons b bs)
  obtain h s vs where b: "b = (h, s, vs)" by (cases b)
  with Cons.prems(1) obtain p1 where c: "cast_vote p h s vs = Inr p1" and r: "cast_votes p1 bs = Inr p'"
    by (auto simp: result_simps)
  note f = cast_vote_frame [OF c]
  show ?case
    using Cons.IH [OF r] Cons.prems(2) cast_vote_tally [OF c Cons.prems(2), of v]
    by (simp add: f spec_weight_def b)
qed

lemma cast_votes_senders:
  "cast_votes p bs = Inr p' \<Longrightarrow>
     distinct (map (\<lambda>(h, s, vs). s) bs)
     \<and> (\<forall>(h, s, vs) \<in> set bs. \<not> has_voted p s \<and> h < wp_expires_at p
          \<and> of_nat (length vs) = wp_poll_size p \<and> map_of (wp_participation p) s \<noteq> None)"
proof (induction bs arbitrary: p)
  case Nil
  then show ?case by simp
next
  case (Cons b bs)
  obtain h s vs where b: "b = (h, s, vs)" by (cases b)
  with Cons.prems(1) obtain p1 where c: "cast_vote p h s vs = Inr p1" and r: "cast_votes p1 bs = Inr p'"
    by (auto simp: result_simps)
  note IH = Cons.IH [OF r] and f = cast_vote_frame [OF c]
  have first: "\<not> has_voted p s \<and> h < wp_expires_at p
      \<and> of_nat (length vs) = wp_poll_size p \<and> map_of (wp_participation p) s \<noteq> None"
    using c by (auto simp: cast_vote_Inr_iff has_voted_def)
  have rest: "\<not> has_voted p t \<and> t \<noteq> s \<and> k < wp_expires_at p
      \<and> of_nat (length ws) = wp_poll_size p \<and> map_of (wp_participation p) t \<noteq> None"
    if "(k, t, ws) \<in> set bs" for k t ws
    using IH that f by fastforce
  show ?case using IH first rest b by fastforce
qed

lemma participant_weight_new:
  "kv_ok (sn_participants s) \<Longrightarrow>
     participant_weight (weighted_poll_new i s expiry n) a =
       (case snapshot_find s a of None \<Rightarrow> 0 | Some x \<Rightarrow> unat (p_weight x))"
  by (auto simp: participant_weight_def weighted_poll_new_def kv_of_list_sorted kv_ok_map_snd
      snapshot_find_def map_of_map comp_def split: option.splits)

lemma snapshot_wf_new:
  assumes "mul_ceil_rounds_up mc" and "majority_ok th" and "ps \<noteq> []"
    and "\<And>p. p \<in> set ps \<Longrightarrow> p_weight p \<noteq> 0" and "weight_sum ps < 2 ^ 128"
    and "snapshot_new mc th ps = (Inr s :: ('e, snapshot) result)"
  shows "snapshot_wf s" and "weight_sum ps < 2 * unat (sn_quorum s)"
proof -
  obtain q where q: "snapshot_new mc th ps =
      (Inr \<lparr>sn_quorum = q, sn_participants = kv_of_list (map (\<lambda>p. (p_address p, p)) ps)\<rparr>
         :: ('e, snapshot) result)"
    and maj: "weight_sum ps < 2 * unat q"
    using snapshot_new_spec [OF assms(1-5)] by blast
  have "sum_list (map (\<lambda>x. unat (p_weight (snd x)))
          (kv_of_list (map (\<lambda>p. (p_address p, p)) ps))) \<le> weight_sum ps"
    using sum_list_kv_of_list_le [of "\<lambda>x. unat (p_weight (snd x))" "map (\<lambda>p. (p_address p, p)) ps"]
    by (simp add: weight_sum_def comp_def)
  then show "snapshot_wf s" and "weight_sum ps < 2 * unat (sn_quorum s)"
    using q maj assms(6) by (auto simp: snapshot_wf_def)
qed

section \<open>Properties\<close>

text \<open>
  C25. The tallies of a poll count ballots. After any sequence of accepted ballots on a new
  poll, the tally of a vote on an item is the sum of the snapshot weights of the ballots that
  cast it, capped at the largest 128-bit integer; no participant voted twice, every ballot
  came from a participant, before the expiry, and had one vote per item.
\<close>

theorem poll_tallies_count_ballots:
  assumes "cast_votes (weighted_poll_new pid snap expiry n) ballots = Inr p"
    and "kv_ok (sn_participants snap)" and "i < n"
  shows "unat (tally_of (wp_tallies p ! i) v) =
           min (2 ^ 128 - 1)
             (spec_weight (\<lambda>a. case snapshot_find snap a of None \<Rightarrow> 0 | Some x \<Rightarrow> unat (p_weight x))
                ballots i v)
         \<and> distinct (map (\<lambda>(h, s, vs). s) ballots)
         \<and> list_all (\<lambda>(h, s, vs). snapshot_find snap s \<noteq> None \<and> h < expiry
              \<and> (of_nat (length vs) :: u64) = of_nat n) ballots"
proof -
  let ?p = "weighted_poll_new pid snap expiry n"
  have w: "participant_weight ?p = (\<lambda>a. case snapshot_find snap a of None \<Rightarrow> 0 | Some x \<Rightarrow> unat (p_weight x))"
    using participant_weight_new [OF assms(2)] by (rule ext)
  have t: "i < length (wp_tallies ?p)" "tally_of (wp_tallies ?p ! i) v = 0"
    using assms(3) by (simp_all add: weighted_poll_new_def)
  have part: "map_of (wp_participation ?p) a = None \<longleftrightarrow> snapshot_find snap a = None" for a
    using assms(2) by (simp add: weighted_poll_new_def kv_of_list_sorted kv_ok_map_snd
        snapshot_find_def map_of_map)
  have e: "wp_expires_at ?p = expiry" "wp_poll_size ?p = of_nat n"
    by (simp_all add: weighted_poll_new_def)
  show ?thesis
    using cast_votes_tally [OF assms(1) t(1), of v] cast_votes_senders [OF assms(1)] t(2)
    by (auto simp: w part e list_all_iff)
qed

abbreviation example_snapshot :: snapshot where
  "example_snapshot \<equiv>
     \<lparr>sn_quorum = 2,
      sn_participants =
        [(''a'', \<lparr>p_address = ''a'', p_weight = 1\<rparr>), (''b'', \<lparr>p_address = ''b'', p_weight = 1\<rparr>),
         (''c'', \<lparr>p_address = ''c'', p_weight = 1\<rparr>)]\<rparr>"

abbreviation example_ballots :: "ballot list" where
  "example_ballots \<equiv> [(5, ''b'', [SucceededOnChain]), (7, ''a'', [SucceededOnChain])]"

theorem poll_tallies_count_ballots_witness:
  "\<exists>p. cast_votes (weighted_poll_new 1 example_snapshot 10 1) example_ballots = Inr p
     \<and> unat (tally_of (wp_tallies p ! 0) SucceededOnChain) = 2"
proof -
  obtain p where p: "cast_votes (weighted_poll_new 1 example_snapshot 10 1) example_ballots = Inr p"
    by (simp add: weighted_poll_new_def cast_vote_def kv_of_list_def less_char_def)
  have "kv_ok (sn_participants example_snapshot)" by (simp add: kv_ok_Cons less_char_def)
  from poll_tallies_count_ballots [OF p this, of 0 SucceededOnChain] p show ?thesis
    by (simp add: spec_weight_def snapshot_find_def)
qed

text \<open>With one ballot per sender the weight of a vote is the weight of the set of its voters.\<close>

lemma spec_weight_voters:
  assumes "distinct (map (\<lambda>(h, s, vs). s) ballots)"
  shows "spec_weight wt ballots i v = (\<Sum>a \<in> voters_for ballots i v. wt a)"
proof -
  let ?bs = "filter (\<lambda>(h, s, vs). i < length vs \<and> vs ! i = v) ballots"
  have "spec_weight wt ballots i v = sum_list (map wt (map (\<lambda>(h, s, vs). s) ?bs))"
    unfolding spec_weight_def by (induction ballots) (auto simp: case_prod_beta)
  also have "\<dots> = (\<Sum>a \<in> set (map (\<lambda>(h, s, vs). s) ?bs). wt a)"
    by (rule sum_list_distinct_conv_sum_set) (use assms in \<open>rule distinct_map_filter\<close>)
  finally show ?thesis by (simp add: voters_for_def)
qed

text \<open>
  C11. Consensus means a majority of the participants by weight. If an item of a poll over a snapshot
  taken at a majority threshold, of a total weight within 128 bits, has consensus on a vote, then
  the different participants that cast this vote on the item carry together more than half of the
  weight of the whole snapshot, and no other vote can reach the quorum.
\<close>

theorem consensus_needs_majority:
  assumes "mul_ceil_rounds_up mul_ceil" and "majority_ok th" and "ps \<noteq> []"
    and "\<forall>p \<in> set ps. p_weight p \<noteq> 0" and "weight_sum ps < 2 ^ 128"
    and "snapshot_new mul_ceil th ps = (Inr snap :: (voting_error, snapshot) result)"
    and "cast_votes (weighted_poll_new pid snap expiry n) ballots = Inr p"
    and "poll_consensus p i = Inr (Some v)"
  shows "weight_sum ps <
           2 * (\<Sum>a \<in> voters_for ballots (unat i) v. case snapshot_find snap a of None \<Rightarrow> 0 | Some x \<Rightarrow> unat (p_weight x))
         \<and> (\<forall>a \<in> voters_for ballots (unat i) v. snapshot_find snap a \<noteq> None)
         \<and> (\<forall>w. wp_quorum p \<le> tally_of (wp_tallies p ! unat i) w \<longrightarrow> w = v)"
proof -
  let ?p = "weighted_poll_new pid snap expiry n"
  have snap: "snapshot_wf snap" and q: "weight_sum ps < 2 * unat (sn_quorum snap)"
    using snapshot_wf_new [OF assms(1-3) _ assms(5,6)] assms(4) by blast+
  have "poll_wf ?p" using snap by (rule poll_wf_new)
  with assms(7) have wf: "poll_wf p" by (rule poll_wf_cast_votes)
  have len: "length (wp_tallies p) = n" "wp_quorum p = sn_quorum snap"
    using cast_votes_frame [OF assms(7)] by (simp_all add: weighted_poll_new_def)
  have i: "unat i < n" and t: "sn_quorum snap \<le> tally_of (wp_tallies p ! unat i) v"
    using assms(8) wf len by (simp_all add: poll_consensus_iff)
  have w: "participant_weight ?p = (\<lambda>a. case snapshot_find snap a of None \<Rightarrow> 0 | Some x \<Rightarrow> unat (p_weight x))"
    using participant_weight_new snap unfolding snapshot_wf_def by blast
  have "unat (tally_of (wp_tallies p ! unat i) v) \<le> spec_weight (participant_weight ?p) ballots (unat i) v"
    using cast_votes_tally [OF assms(7), of "unat i" v] i by (simp add: weighted_poll_new_def)
  then have "weight_sum ps < 2 * spec_weight (participant_weight ?p) ballots (unat i) v"
    using q t by (simp add: word_le_nat_alt)
  moreover have "wp_tallies p ! unat i \<in> set (wp_tallies p)" using i len by simp
  moreover have part: "map_of (wp_participation ?p) a = None \<longleftrightarrow> snapshot_find snap a = None" for a
    using snap by (simp add: snapshot_wf_def weighted_poll_new_def kv_of_list_sorted kv_ok_map_snd snapshot_find_def map_of_map)
  then have "\<forall>a \<in> voters_for ballots (unat i) v. snapshot_find snap a \<noteq> None"
    using cast_votes_senders [OF assms(7)] by (fastforce simp: voters_for_def)
  moreover have "distinct (map (\<lambda>(h, s, vs). s) ballots)" using cast_votes_senders [OF assms(7)] by simp
  ultimately show ?thesis
    using poll_wf_quorum_unique [OF wf] t len by (auto simp: spec_weight_voters w)
qed

theorem consensus_needs_majority_witness:
  "\<exists>snap p.
     snapshot_new mul_ceil_std (MajorityThreshold 2 3) (map snd (sn_participants example_snapshot))
       = (Inr snap :: (voting_error, snapshot) result)
     \<and> cast_votes (weighted_poll_new 1 snap 10 1) example_ballots = Inr p
     \<and> poll_consensus p 0 = Inr (Some SucceededOnChain)
     \<and> weight_sum (map snd (sn_participants example_snapshot)) <
         2 * (\<Sum>a \<in> voters_for example_ballots 0 SucceededOnChain.
                case snapshot_find snap a of None \<Rightarrow> 0 | Some x \<Rightarrow> unat (p_weight x))"
proof -
  let ?ps = "map snd (sn_participants example_snapshot)"
  have s: "snapshot_new mul_ceil_std (MajorityThreshold 2 3) ?ps
      = (Inr example_snapshot :: (voting_error, snapshot) result)"
    by (simp add: snapshot_new_def snapshot_total_def saturating_add_def checked_add_def
        mul_ceil_std_def nonempty_uint128_try_from_def kv_of_list_def less_char_def)
  obtain p where p: "cast_votes (weighted_poll_new 1 example_snapshot 10 1) example_ballots = Inr p"
    and c: "poll_consensus p 0 = Inr (Some SucceededOnChain)"
    by (simp add: weighted_poll_new_def cast_vote_def kv_of_list_def less_char_def tally_def
        tallies_default_def vote_iter_def poll_consensus_def vote_parse_def
        saturating_add_def checked_add_def)
  have "majority_ok (MajorityThreshold 2 3)" "weight_sum ?ps < 2 ^ 128"
    by (simp_all add: majority_ok_def weight_sum_def)
  from consensus_needs_majority [OF mul_ceil_std_rounds_up this(1) _ _ this(2) s p c] s p c
  show ?thesis by auto
qed

text \<open>
  Consensus is final. Once an item has consensus, no later ballot, and no closing of the
  poll, changes the result of the item.
\<close>

lemma consensus_final:
  assumes "snapshot_wf snap"
    and "cast_votes (weighted_poll_new pid snap expiry n) before = Inr p"
    and "poll_consensus p i = Inr (Some v)"
    and "cast_votes p after = Inr p'" and "poll_finish p' h = Inr p''"
  shows "poll_consensus p' i = Inr (Some v) \<and> poll_consensus p'' i = Inr (Some v)"
proof -
  have "poll_wf (weighted_poll_new pid snap expiry n)" using assms(1) by (rule poll_wf_new)
  with assms(2) have "poll_wf p" by (rule poll_wf_cast_votes)
  then show ?thesis
    using poll_consensus_cast_votes [OF _ assms(4,3)] poll_consensus_finish [OF assms(5)] by simp
qed

lemma consensus_final_example:
  "\<exists>p p' p''. cast_votes (weighted_poll_new 1 example_snapshot 10 1) example_ballots = Inr p
     \<and> cast_votes p [(9, ''c'', [FailedOnChain])] = Inr p' \<and> poll_finish p' 10 = Inr p''
     \<and> poll_consensus p'' 0 = Inr (Some SucceededOnChain)"
proof -
  obtain p p' p'' where r: "cast_votes (weighted_poll_new 1 example_snapshot 10 1) example_ballots = Inr p"
      "poll_consensus p 0 = Inr (Some SucceededOnChain)"
      "cast_votes p [(9, ''c'', [FailedOnChain])] = Inr p'" "poll_finish p' 10 = Inr p''"
    by (simp add: weighted_poll_new_def cast_vote_def kv_of_list_def less_char_def tally_def
        tallies_default_def vote_iter_def poll_consensus_def vote_parse_def
        saturating_add_def checked_add_def poll_finish_def)
  have "snapshot_wf example_snapshot" by (simp add: snapshot_wf_def kv_ok_Cons less_char_def)
  from consensus_final [OF this r] r show ?thesis by blast
qed

end
