(* ===== verification/Verifier_Set.thy ===== *)
theory Verifier_Set
  imports Router_Api
begin

text \<open>
  Keys, signatures and verifier sets, \<open>contracts/multisig/src/key.rs\<close> and
  \<open>contracts/multisig/src/verifier_set.rs\<close>. The curve libraries are parameters (the record
  \<open>crypto\<close>): parsing of the two kinds of public keys and the verification of signatures, which
  may fail. What a verifier set feeds to the hash function is written out; the length prefix
  has the four bytes of the 32 bit target the contracts are compiled for. The lemmas show on
  which sets it determines the set, and that it ignores the keys of the map of signers.
\<close>

section \<open>Definitions\<close>

subsection \<open>Keys and signatures\<close>

datatype key_type = KeyEcdsa | KeyEd25519

fun key_type_index :: "key_type \<Rightarrow> nat" where
  "key_type_index KeyEcdsa = 0"
| "key_type_index KeyEd25519 = 1"

instantiation key_type :: linorder
begin

definition less_eq_key_type :: "key_type \<Rightarrow> key_type \<Rightarrow> bool" where
  "less_eq_key_type a b \<longleftrightarrow> key_type_index a \<le> key_type_index b"

definition less_key_type :: "key_type \<Rightarrow> key_type \<Rightarrow> bool" where
  "less_key_type a b \<longleftrightarrow> key_type_index a < key_type_index b"

instance
proof
  fix x y :: key_type
  show "x \<le> y \<Longrightarrow> y \<le> x \<Longrightarrow> x = y" by (cases x; cases y) (simp_all add: less_eq_key_type_def)
qed (auto simp: less_eq_key_type_def less_key_type_def)

end

datatype signature = SigEcdsa "u8 list" | SigEcdsaRecoverable "u8 list" | SigEd25519 "u8 list"

datatype public_key = PkEcdsa "u8 list" | PkEd25519 "u8 list"

fun public_key_type :: "public_key \<Rightarrow> key_type" where
  "public_key_type (PkEcdsa _) = KeyEcdsa"
| "public_key_type (PkEd25519 _) = KeyEd25519"

fun signature_type :: "signature \<Rightarrow> key_type" where
  "signature_type (SigEcdsa _) = KeyEcdsa"
| "signature_type (SigEcdsaRecoverable _) = KeyEcdsa"
| "signature_type (SigEd25519 _) = KeyEd25519"

fun public_key_bytes :: "public_key \<Rightarrow> u8 list" where
  "public_key_bytes (PkEcdsa pk) = pk"
| "public_key_bytes (PkEd25519 pk) = pk"

fun signature_bytes :: "signature \<Rightarrow> u8 list" where
  "signature_bytes (SigEcdsa s) = s"
| "signature_bytes (SigEcdsaRecoverable s) = s"
| "signature_bytes (SigEd25519 s) = s"

datatype key_error =
    InvalidPublicKey
  | InvalidSignatureFormat
  | KeyTypeMismatch
  | SignatureVerificationFailed

text \<open>
  The curve libraries: a parsed public key in its normal form, and the outcome of the
  verification of a signature, \<open>None\<close> when the library rejects its input.
\<close>

record crypto =
  cr_sec1_normalize :: "u8 list \<Rightarrow> u8 list option"
  cr_ed25519_normalize :: "u8 list \<Rightarrow> u8 list option"
  cr_secp256k1_verify :: "u8 list \<Rightarrow> u8 list \<Rightarrow> u8 list \<Rightarrow> bool option"
  cr_ed25519_verify :: "u8 list \<Rightarrow> u8 list \<Rightarrow> u8 list \<Rightarrow> bool option"

definition check_ecdsa_format :: "u8 list \<Rightarrow> (key_error, u8 list) result" where
  "check_ecdsa_format pub_key = (if length pub_key \<noteq> 33 then fail InvalidPublicKey else Ok pub_key)"

fun validate_and_normalize_public_key ::
  "crypto \<Rightarrow> key_type \<Rightarrow> u8 list \<Rightarrow> (key_error, u8 list) result" where
  "validate_and_normalize_public_key cr KeyEcdsa pub_key =
     and_then (check_ecdsa_format pub_key) (\<lambda>pk. ok_or InvalidPublicKey (cr_sec1_normalize cr pk))"
| "validate_and_normalize_public_key cr KeyEd25519 pub_key =
     and_then (ensure (length pub_key = 32) InvalidPublicKey) (\<lambda>_.
     ok_or InvalidPublicKey (cr_ed25519_normalize cr pub_key))"

definition public_key_try_from :: "crypto \<Rightarrow> key_type \<Rightarrow> u8 list \<Rightarrow> (key_error, public_key) result" where
  "public_key_try_from cr key_type pub_key =
     and_then (validate_and_normalize_public_key cr key_type pub_key) (\<lambda>pk.
     case key_type of KeyEcdsa \<Rightarrow> Ok (PkEcdsa pk) | KeyEd25519 \<Rightarrow> Ok (PkEd25519 pk))"

definition signature_try_from :: "key_type \<Rightarrow> u8 list \<Rightarrow> (key_error, signature) result" where
  "signature_try_from key_type sig =
     (if key_type = KeyEcdsa \<and> length sig = 65 then Ok (SigEcdsaRecoverable sig)
      else if key_type = KeyEcdsa \<and> length sig = 64 then Ok (SigEcdsa sig)
      else if key_type = KeyEd25519 \<and> length sig = 64 then Ok (SigEd25519 sig)
      else fail InvalidSignatureFormat)"

definition ecdsa_verify :: "crypto \<Rightarrow> u8 list \<Rightarrow> u8 list \<Rightarrow> u8 list \<Rightarrow> (key_error, bool) result" where
  "ecdsa_verify cr msg_hash sig pub_key =
     ok_or SignatureVerificationFailed (cr_secp256k1_verify cr msg_hash sig pub_key)"

definition ed25519_verify :: "crypto \<Rightarrow> u8 list \<Rightarrow> u8 list \<Rightarrow> u8 list \<Rightarrow> (key_error, bool) result" where
  "ed25519_verify cr msg_hash sig pub_key =
     ok_or SignatureVerificationFailed (cr_ed25519_verify cr msg_hash sig pub_key)"

definition signature_verify :: "crypto \<Rightarrow> signature \<Rightarrow> u8 list \<Rightarrow> public_key \<Rightarrow> (key_error, unit) result" where
  "signature_verify cr sig msg pub_key =
     and_then (ensure (signature_type sig = public_key_type pub_key) KeyTypeMismatch) (\<lambda>_.
     and_then (case signature_type sig of
         KeyEcdsa \<Rightarrow> ecdsa_verify cr msg (signature_bytes sig) (public_key_bytes pub_key)
       | KeyEd25519 \<Rightarrow> ed25519_verify cr msg (signature_bytes sig) (public_key_bytes pub_key)) (\<lambda>res.
     if \<not> res then fail SignatureVerificationFailed else Ok ()))"

subsection \<open>Verifier sets\<close>

record signer =
  sg_address :: string
  sg_weight :: u128
  sg_pub_key :: public_key

record verifier_set =
  vs_signers :: "(string, signer) kv"
  vs_threshold :: u128
  vs_created_at :: u64

definition verifier_set_new ::
  "(participant \<times> public_key) list \<Rightarrow> u128 \<Rightarrow> u64 \<Rightarrow> verifier_set" where
  "verifier_set_new participants threshold block_height =
     \<lparr>vs_signers = kv_of_list (map (\<lambda>(p, pub_key).
        (p_address p, \<lparr>sg_address = p_address p, sg_weight = p_weight p, sg_pub_key = pub_key\<rparr>))
        participants),
      vs_threshold = threshold,
      vs_created_at = block_height\<rparr>"

text \<open>The bytes of a word, the most significant first.\<close>

definition to_be_bytes :: "nat \<Rightarrow> 'w::len word \<Rightarrow> u8 list" where
  "to_be_bytes n w = map (\<lambda>i. ucast (drop_bit (8 * (n - 1 - i)) w)) [0..<n]"

definition signer_preimage :: "signer \<Rightarrow> u8 list" where
  "signer_preimage s =
     str_bytes (sg_address s) @ public_key_bytes (sg_pub_key s) @ to_be_bytes 16 (sg_weight s)"

definition verifier_set_preimage :: "verifier_set \<Rightarrow> u8 list" where
  "verifier_set_preimage vs =
     to_be_bytes 4 (word_of_nat (length (vs_signers vs)) :: u32)
     @ concat (map (\<lambda>(_, s). signer_preimage s) (vs_signers vs))
     @ to_be_bytes 16 (vs_threshold vs) @ to_be_bytes 8 (vs_created_at vs)"

definition verifier_set_hash :: "(u8 list \<Rightarrow> u8 list) \<Rightarrow> verifier_set \<Rightarrow> u8 list" where
  "verifier_set_hash keccak256 vs = keccak256 (verifier_set_preimage vs)"

definition verifier_set_id ::
  "(u8 list \<Rightarrow> u8 list) \<Rightarrow> (u8 list \<Rightarrow> string) \<Rightarrow> verifier_set \<Rightarrow> string" where
  "verifier_set_id keccak256 to_hex vs = to_hex (verifier_set_hash keccak256 vs)"

definition verifier_set_pub_keys :: "verifier_set \<Rightarrow> (string, public_key) kv" where
  "verifier_set_pub_keys vs = map (\<lambda>(a, s). (a, sg_pub_key s)) (vs_signers vs)"

definition verifier_set_includes :: "verifier_set \<Rightarrow> string \<Rightarrow> bool" where
  "verifier_set_includes vs signer = (kv_get (vs_signers vs) signer \<noteq> None)"

subsection \<open>Well-formedness\<close>

text \<open>
  Sets that \<open>verifier_set_new\<close> builds: every signer stands under its own address. The second
  condition is that of a service: addresses of one length and keys of one kind and length.
\<close>

definition verifier_set_ok :: "verifier_set \<Rightarrow> bool" where
  "verifier_set_ok vs \<longleftrightarrow>
     kv_ok (vs_signers vs) \<and> list_all (\<lambda>(a, s). sg_address s = a) (vs_signers vs)
     \<and> length (vs_signers vs) < 2 ^ 32"

definition verifier_set_uniform :: "nat \<Rightarrow> nat \<Rightarrow> key_type \<Rightarrow> verifier_set \<Rightarrow> bool" where
  "verifier_set_uniform n k kt vs \<longleftrightarrow>
     list_all (\<lambda>(_, s). length (sg_address s) = n \<and> length (public_key_bytes (sg_pub_key s)) = k
        \<and> public_key_type (sg_pub_key s) = kt) (vs_signers vs)"

section \<open>Lemmas\<close>

subsection \<open>Bytes of words\<close>

lemma length_to_be_bytes [simp]: "length (to_be_bytes n w) = n"
  by (simp add: to_be_bytes_def)

lemma to_be_bytes_inject:
  assumes "LENGTH('w) \<le> 8 * n" and "to_be_bytes n (v :: 'w::len word) = to_be_bytes n w"
  shows "v = w"
proof (rule bit_word_eqI)
  fix b
  assume b: "b < LENGTH('w)"
  let ?i = "n - 1 - b div 8"
  have q: "b div 8 < n" using b assms(1) by linarith
  then have i: "?i < n" and e: "n - 1 - ?i = b div 8" by linarith+
  have "to_be_bytes n v ! ?i = to_be_bytes n w ! ?i" using assms(2) by simp
  then have "(ucast (drop_bit (8 * (b div 8)) v) :: u8) = ucast (drop_bit (8 * (b div 8)) w)"
    using i e by (simp add: to_be_bytes_def)
  then have "bit (ucast (drop_bit (8 * (b div 8)) v) :: u8) (b mod 8)
      = bit (ucast (drop_bit (8 * (b div 8)) w) :: u8) (b mod 8)" by simp
  moreover have "8 * (b div 8) + b mod 8 = b" by simp
  moreover have "b mod 8 < 8" by simp
  ultimately show "bit v b = bit w b"
    by (simp only: bit_unsigned_iff bit_drop_bit_eq o_def) simp
qed

subsection \<open>What is hashed determines the set\<close>

lemma concat_blocks_inject:
  assumes "list_all (\<lambda>b. length b = B) xs" and "list_all (\<lambda>b. length b = B) ys"
    and "length xs = length ys" and "concat xs @ r = concat ys @ r'"
  shows "xs = ys \<and> r = r'"
  using assms(3,1,2,4)
  by (induction xs ys rule: list_induct2) auto

lemma signer_preimage_inject:
  assumes "length (sg_address a) = length (sg_address b)"
    and "length (public_key_bytes (sg_pub_key a)) = length (public_key_bytes (sg_pub_key b))"
    and "public_key_type (sg_pub_key a) = public_key_type (sg_pub_key b)"
    and "signer_preimage a = signer_preimage b"
  shows "a = b"
proof -
  have "length (str_bytes (sg_address a)) = length (str_bytes (sg_address b))"
    using assms(1) by (simp add: str_bytes_def)
  then have "str_bytes (sg_address a) = str_bytes (sg_address b)"
    and k: "public_key_bytes (sg_pub_key a) = public_key_bytes (sg_pub_key b)"
    and w: "to_be_bytes 16 (sg_weight a) = to_be_bytes 16 (sg_weight b)"
    using assms(2,4) by (auto simp: signer_preimage_def)
  then have "sg_address a = sg_address b" by (simp add: str_bytes_inject)
  moreover have "sg_weight a = sg_weight b" using w by (rule to_be_bytes_inject [rotated]) simp
  moreover have "sg_pub_key a = sg_pub_key b"
    using k assms(3) by (cases "sg_pub_key a"; cases "sg_pub_key b") auto
  ultimately show ?thesis by (simp add: signer.equality)
qed

lemma verifier_set_preimage_inject:
  assumes "verifier_set_ok a" and "verifier_set_ok b"
    and "verifier_set_uniform n k kt a" and "verifier_set_uniform n k kt b"
    and "verifier_set_preimage a = verifier_set_preimage b"
  shows "a = b"
proof -
  let ?bl = "\<lambda>vs. map (\<lambda>(_, s). signer_preimage s) (vs_signers vs)"
  have pre: "to_be_bytes 4 (word_of_nat (length (vs_signers a)) :: u32) =
      to_be_bytes 4 (word_of_nat (length (vs_signers b)) :: u32)"
    and rest: "concat (?bl a) @ to_be_bytes 16 (vs_threshold a) @ to_be_bytes 8 (vs_created_at a)
      = concat (?bl b) @ to_be_bytes 16 (vs_threshold b) @ to_be_bytes 8 (vs_created_at b)"
    using assms(5) by (simp_all add: verifier_set_preimage_def)
  from pre have "(word_of_nat (length (vs_signers a)) :: u32) = word_of_nat (length (vs_signers b))"
    by (rule to_be_bytes_inject [rotated]) simp
  then have "unat (word_of_nat (length (vs_signers a)) :: u32) = unat (word_of_nat (length (vs_signers b)) :: u32)"
    by simp
  then have len: "length (vs_signers a) = length (vs_signers b)"
    using assms(1,2) by (simp add: verifier_set_ok_def unat_of_nat)
  have blocks: "list_all (\<lambda>b. length b = n + k + 16) (?bl vs)" if "verifier_set_uniform n k kt vs" for vs
    using that by (auto simp: verifier_set_uniform_def list_all_iff signer_preimage_def str_bytes_def)
  have bl: "?bl a = ?bl b"
    and tail: "to_be_bytes 16 (vs_threshold a) @ to_be_bytes 8 (vs_created_at a)
      = to_be_bytes 16 (vs_threshold b) @ to_be_bytes 8 (vs_created_at b)"
    using concat_blocks_inject [OF blocks [OF assms(3)] blocks [OF assms(4)] _ rest] len by simp_all
  have "vs_threshold a = vs_threshold b"
    using tail by (intro to_be_bytes_inject [of 16 "vs_threshold a"]) simp_all
  moreover have "vs_created_at a = vs_created_at b"
    using tail by (intro to_be_bytes_inject [of 8 "vs_created_at a"]) simp_all
  moreover have "vs_signers a = vs_signers b"
  proof (rule nth_equalityI)
    fix i
    assume i: "i < length (vs_signers a)"
    obtain x p where a: "vs_signers a ! i = (x, p)" by (cases "vs_signers a ! i")
    obtain y q where b: "vs_signers b ! i = (y, q)" by (cases "vs_signers b ! i")
    have "?bl a ! i = ?bl b ! i" using bl by simp
    then have "signer_preimage p = signer_preimage q" using i len a b by simp
    moreover have mem: "(x, p) \<in> set (vs_signers a)" "(y, q) \<in> set (vs_signers b)"
      using i len a b nth_mem by metis+
    ultimately have "p = q"
      using assms(3,4) by (intro signer_preimage_inject) (auto simp: verifier_set_uniform_def list_all_iff)
    moreover have "sg_address p = x" "sg_address q = y"
      using mem assms(1,2) by (auto simp: verifier_set_ok_def list_all_iff)
    ultimately show "vs_signers a ! i = vs_signers b ! i" using a b by simp
  qed (rule len)
  ultimately show ?thesis by (simp add: verifier_set.equality)
qed

lemma verifier_set_preimage_inject_iff:
  "verifier_set_ok a \<Longrightarrow> verifier_set_ok b \<Longrightarrow> verifier_set_uniform n k kt a \<Longrightarrow> verifier_set_uniform n k kt b \<Longrightarrow>
     verifier_set_preimage a = verifier_set_preimage b \<longleftrightarrow> a = b"
  using verifier_set_preimage_inject by blast

text \<open>
  The keys of the map of signers are not hashed, so a set whose signers stand under other
  keys than their addresses has the hash, and the id, of the set it was made from.
\<close>

lemma verifier_set_hash_ignores_keys:
  "map snd (vs_signers a) = map snd (vs_signers b) \<Longrightarrow> vs_threshold a = vs_threshold b \<Longrightarrow>
     vs_created_at a = vs_created_at b \<Longrightarrow> verifier_set_hash h a = verifier_set_hash h b"
proof -
  assume m: "map snd (vs_signers a) = map snd (vs_signers b)"
    and t: "vs_threshold a = vs_threshold b" "vs_created_at a = vs_created_at b"
  have l: "length (vs_signers a) = length (vs_signers b)" using m map_eq_imp_length_eq by blast
  have bl: "map (\<lambda>(_, s). signer_preimage s) xs = map signer_preimage (map snd xs)" for xs :: "(string, signer) kv"
    by (simp add: case_prod_beta)
  show ?thesis unfolding verifier_set_hash_def verifier_set_preimage_def bl m t l ..
qed

lemma length_kv_of_list: "length (kv_of_list xs) \<le> length xs"
  using sum_list_kv_of_list_le [of "\<lambda>_. 1" xs] by (simp add: sum_list_triv)

lemma verifier_set_new_ok:
  "length ps < 2 ^ 32 \<Longrightarrow> verifier_set_ok (verifier_set_new ps t h)"
proof -
  let ?xs = "map (\<lambda>(p, pub_key). (p_address p, \<lparr>sg_address = p_address p, sg_weight = p_weight p, sg_pub_key = pub_key\<rparr>)) ps"
  assume "length ps < 2 ^ 32"
  have "length (kv_of_list ?xs) \<le> length ?xs"
    by (rule length_kv_of_list)
  moreover have "set (kv_of_list xs) \<subseteq> set xs" for xs :: "(string, signer) kv"
    by (rule set_kv_of_list_subset)
  then have "list_all (\<lambda>(a, s). sg_address s = a) (kv_of_list ?xs)"
    by (fastforce simp: list_all_iff)
  ultimately show ?thesis using \<open>length ps < 2 ^ 32\<close> by (simp add: verifier_set_new_def verifier_set_ok_def)
qed

section \<open>Properties\<close>

text \<open>
  C36. Among verifier sets in which every signer stands under its own address, with addresses
  of one length and keys of one kind, the hash identifies the set: up to collisions of the
  hash function, two such sets have one hash exactly if they are equal.
\<close>

theorem verifier_set_hash_identifies:
  assumes "verifier_set_ok a" and "verifier_set_ok b"
    and "verifier_set_uniform n k kt a" and "verifier_set_uniform n k kt b"
    and "inj_on keccak256 {verifier_set_preimage a, verifier_set_preimage b}"
  shows "verifier_set_hash keccak256 a = verifier_set_hash keccak256 b \<longleftrightarrow> a = b"
  using verifier_set_preimage_inject_iff [OF assms(1-4)] assms(5)
  unfolding verifier_set_hash_def inj_on_def by blast

theorem verifier_set_hash_identifies_witness:
  "verifier_set_hash id \<lparr>vs_signers = [(''v1'', \<lparr>sg_address = ''v1'', sg_weight = 5, sg_pub_key = PkEd25519 (replicate 32 1)\<rparr>),
        (''v2'', \<lparr>sg_address = ''v2'', sg_weight = 5, sg_pub_key = PkEd25519 (replicate 32 2)\<rparr>)],
      vs_threshold = 6, vs_created_at = 1\<rparr>
   \<noteq> verifier_set_hash id \<lparr>vs_signers = [(''v1'', \<lparr>sg_address = ''v1'', sg_weight = 5, sg_pub_key = PkEd25519 (replicate 32 1)\<rparr>),
        (''v2'', \<lparr>sg_address = ''v2'', sg_weight = 5, sg_pub_key = PkEd25519 (replicate 32 2)\<rparr>)],
      vs_threshold = 6, vs_created_at = 2\<rparr>"
  (is "verifier_set_hash id ?a \<noteq> verifier_set_hash id ?b")
proof -
  have "kv_ok (vs_signers ?a)" by (simp add: kv_ok_def)
  then have "verifier_set_ok ?a" "verifier_set_ok ?b"
    "verifier_set_uniform 2 32 KeyEd25519 ?a" "verifier_set_uniform 2 32 KeyEd25519 ?b"
    by (simp_all add: verifier_set_ok_def verifier_set_uniform_def)
  then have "verifier_set_hash id ?a = verifier_set_hash id ?b \<longleftrightarrow> ?a = ?b"
    by (rule verifier_set_hash_identifies) simp
  then show ?thesis by simp
qed

end
