(* ===== verification/Voting_Verifier.thy ===== *)
theory Voting_Verifier
  imports Voting Permissions Verifier_Set
begin

text \<open>
  The voting verifier, \<open>contracts/voting-verifier/src\<close>: polls on messages and verifier sets of
  a source chain, the votes of the verifiers, and the verification status that follows. The
  hash function, the curve and address codecs, the multiplication that computes quorums and the
  service registry's answer to the query for active verifiers are parameters; a failed query is
  \<open>None\<close>. The indices of the stored contents by poll are filters of the primary maps, which is
  what the indexed maps maintain.
\<close>

section \<open>Definitions\<close>

subsection \<open>State\<close>

record vv_config =
  vc_service_registry :: string
  vc_service_name :: string
  vc_source_gateway_address :: string
  vc_voting_threshold :: majority_threshold
  vc_block_expiry :: u64
  vc_confirmation_height :: u64
  vc_source_chain :: string
  vc_rewards_contract :: string
  vc_msg_id_format :: message_id_format
  vc_address_format :: address_format

datatype poll = MessagesPoll weighted_poll | ConfirmVerifierSet weighted_poll

fun poll_try_map ::
  "poll \<Rightarrow> (weighted_poll \<Rightarrow> ('e, weighted_poll) result) \<Rightarrow> ('e, poll) result" where
  "poll_try_map (MessagesPoll p) f = and_then (f p) (\<lambda>q. Ok (MessagesPoll q))"
| "poll_try_map (ConfirmVerifierSet p) f = and_then (f p) (\<lambda>q. Ok (ConfirmVerifierSet q))"

fun the_weighted_poll :: "poll \<Rightarrow> weighted_poll" where
  "the_weighted_poll (MessagesPoll p) = p"
| "the_weighted_poll (ConfirmVerifierSet p) = p"

record 'c poll_content =
  pc_content :: 'c
  pc_poll_id :: poll_id
  pc_index_in_poll :: u32

definition poll_content_message :: "message \<Rightarrow> poll_id \<Rightarrow> nat \<Rightarrow> ('e, message poll_content) result" where
  "poll_content_message m i index =
     (if index < 2 ^ 32 then Ok \<lparr>pc_content = m, pc_poll_id = i, pc_index_in_poll = word_of_nat index\<rparr>
      else panic ''usize should convert to u32 successfully'')"

definition poll_content_verifier_set :: "verifier_set \<Rightarrow> poll_id \<Rightarrow> verifier_set poll_content" where
  "poll_content_verifier_set vs i = \<lparr>pc_content = vs, pc_poll_id = i, pc_index_in_poll = 0\<rparr>"

record vv_state =
  vv_config :: "vv_config option"
  vv_perms :: permission_state
  vv_poll_id :: "u64 option"
  vv_polls :: "(poll_id, poll) kv"
  vv_votes :: "(poll_id \<times> string, vote list) kv"
  vv_poll_messages :: "(u8 list, message poll_content) kv"
  vv_poll_verifier_sets :: "(u8 list, verifier_set poll_content) kv"

definition load_message :: "vv_state \<Rightarrow> poll_id \<Rightarrow> u32 \<Rightarrow> ('e, message option) result" where
  "load_message s i index =
     (case filter (\<lambda>(_, c). pc_poll_id c = i \<and> pc_index_in_poll c = index) (vv_poll_messages s) of
        [] \<Rightarrow> Ok None
      | [(_, c)] \<Rightarrow> Ok (Some (pc_content c))
      | _ \<Rightarrow> panic ''More than one message for poll_id and index_in_poll'')"

definition load_messages :: "vv_state \<Rightarrow> poll_id \<Rightarrow> message list" where
  "load_messages s i =
     map (\<lambda>(_, c). pc_content c)
       (sort_key (\<lambda>(h, c). (pc_index_in_poll c, h))
          (filter (\<lambda>(_, c). pc_poll_id c = i) (vv_poll_messages s)))"

definition load_verifier_set :: "vv_state \<Rightarrow> poll_id \<Rightarrow> ('e, verifier_set option) result" where
  "load_verifier_set s i =
     (case filter (\<lambda>(_, c). pc_poll_id c = i) (vv_poll_verifier_sets s) of
        [] \<Rightarrow> Ok None
      | [(_, c)] \<Rightarrow> Ok (Some (pc_content c))
      | _ \<Rightarrow> panic ''More than one verifier_set for poll_id'')"

subsection \<open>Errors, events and the environment\<close>

datatype vv_error =
    VvOverflow
  | VvNonEmpty nonempty_error
  | FailedToBuildSnapshot
  | EmptyMessages
  | SourceChainMismatch string
  | VvInvalidMessageID string
  | PollNotFound
  | VoteError voting_error
  | InvalidSourceAddress
  | InvalidSourceGatewayAddress
  | VvStorageError
  | VvAddressErr address_error
  | VvPermissionErr permission_error

record poll_metadata =
  pm_poll_id :: poll_id
  pm_source_chain :: string
  pm_source_gateway_address :: string
  pm_confirmation_height :: u64
  pm_expires_at :: u64
  pm_participants :: "string list"

record tx_event_confirmation =
  te_message_id :: string
  te_destination_address :: string
  te_destination_chain :: string
  te_source_address :: string
  te_payload_hash :: "u8 list"

datatype vv_event =
    VvInstantiated vv_config
  | MessagesPollStarted "tx_event_confirmation list" poll_metadata
  | VerifierSetPollStarted string verifier_set poll_metadata
  | Voted poll_id string "vote list"
  | QuorumReachedMessage "message option" verification_status poll_id
  | QuorumReachedVerifierSet "verifier_set option" verification_status poll_id
  | PollEnded poll_id string poll_results

datatype vv_out = RecordParticipation (rp_contract: string) (rp_chain: string) (rp_event: string) (rp_verifier: string)

type_synonym vv_response = "(vv_out, vv_event) response"

record vv_env =
  ve_height :: u64
  ve_active_verifiers :: "string \<Rightarrow> string \<Rightarrow> participant list option"
  ve_mul_ceil :: mul_ceil_fn
  ve_codecs :: codecs
  ve_addr_validate :: "string \<Rightarrow> string option"

subsection \<open>Status\<close>

definition load_vv_config :: "vv_state \<Rightarrow> ('e, vv_config) result" where
  "load_vv_config s = expect_some ''failed to load config'' (vv_config s)"

definition voting_completed :: "poll \<Rightarrow> u64 \<Rightarrow> bool" where
  "voting_completed poll cur_block_height =
     (weighted_poll_status (the_weighted_poll poll) cur_block_height \<in> {Poll_Expired, Poll_Finished})"

definition verification_status_of ::
  "vv_state \<Rightarrow> 'c poll_content option \<Rightarrow> 'c \<Rightarrow> u64 \<Rightarrow> ('e, verification_status) result" where
  "verification_status_of s stored_poll_content content cur_block_height =
     (case stored_poll_content of
        None \<Rightarrow> Ok Unknown
      | Some stored \<Rightarrow>
          and_then (assert_or_panic (pc_content stored = content)
            ''invalid invariant: content mismatch with the stored one'') (\<lambda>_.
          and_then (expect_some ''invalid invariant: content's poll not found''
            (kv_get (vv_polls s) (pc_poll_id stored))) (\<lambda>poll.
          and_then (expect_ok ''invalid invariant: message not found in poll''
            (poll_consensus (the_weighted_poll poll) (pc_index_in_poll stored))) (\<lambda>consensus.
          Ok (case consensus of
                Some SucceededOnChain \<Rightarrow> SucceededOnSourceChain
              | Some FailedOnChain \<Rightarrow> FailedOnSourceChain
              | Some NotFound \<Rightarrow> NotFoundOnSourceChain
              | None \<Rightarrow> if voting_completed poll cur_block_height then FailedToVerify else InProgress)))))"

definition message_status ::
  "(u8 list \<Rightarrow> u8 list) \<Rightarrow> vv_state \<Rightarrow> message \<Rightarrow> u64 \<Rightarrow> ('e, verification_status) result" where
  "message_status H s m cur_block_height =
     verification_status_of s (kv_get (vv_poll_messages s) (message_hash H m)) m cur_block_height"

definition messages_status ::
  "(u8 list \<Rightarrow> u8 list) \<Rightarrow> vv_state \<Rightarrow> message list \<Rightarrow> u64
     \<Rightarrow> ('e, (message \<times> verification_status) list) result" where
  "messages_status H s msgs cur_block_height =
     try_map (\<lambda>m. and_then (message_status H s m cur_block_height) (\<lambda>status. Ok (m, status))) msgs"

definition verifier_set_status ::
  "(u8 list \<Rightarrow> u8 list) \<Rightarrow> vv_state \<Rightarrow> verifier_set \<Rightarrow> u64 \<Rightarrow> ('e, verification_status) result" where
  "verifier_set_status H s vs cur_block_height =
     verification_status_of s (kv_get (vv_poll_verifier_sets s) (verifier_set_hash H vs)) vs cur_block_height"

subsection \<open>Starting polls\<close>

definition update_voting_parameters ::
  "vv_state \<Rightarrow> majority_threshold option \<Rightarrow> u64 option \<Rightarrow> u64 option
     \<Rightarrow> (vv_error, vv_state \<times> vv_response) result" where
  "update_voting_parameters s voting_threshold block_expiry confirmation_height =
     and_then (ok_or VvStorageError (vv_config s)) (\<lambda>config.
     Ok (s\<lparr>vv_config := Some (config\<lparr>
            vc_voting_threshold := case_option (vc_voting_threshold config) id voting_threshold,
            vc_block_expiry := case_option (vc_block_expiry config) id block_expiry,
            vc_confirmation_height := case_option (vc_confirmation_height config) id confirmation_height\<rparr>)\<rparr>,
         response_new))"

definition calculate_expiration :: "u64 \<Rightarrow> u64 \<Rightarrow> (vv_error, u64) result" where
  "calculate_expiration block_height block_expiry = ok_or VvOverflow (checked_add block_height block_expiry)"

definition take_snapshot :: "vv_env \<Rightarrow> vv_state \<Rightarrow> string \<Rightarrow> (vv_error, snapshot) result" where
  "take_snapshot env s chain =
     and_then (load_vv_config s) (\<lambda>config.
     and_then (ok_or FailedToBuildSnapshot (ve_active_verifiers env (vc_service_name config) chain)) (\<lambda>participants.
     and_then (map_err VvNonEmpty (nonempty_vec_try_from participants)) (\<lambda>participants.
     snapshot_new (ve_mul_ceil env) (vc_voting_threshold config) participants)))"

definition create_poll ::
  "(weighted_poll \<Rightarrow> poll) \<Rightarrow> vv_state \<Rightarrow> u64 \<Rightarrow> snapshot \<Rightarrow> nat \<Rightarrow> (vv_error, vv_state \<times> poll_id) result" where
  "create_poll kind s expires_at snapshot poll_size =
     and_then (change_context VvStorageError (counter_incr (vv_poll_id s))) (\<lambda>(counter, i).
     Ok (s\<lparr>vv_poll_id := counter,
           vv_polls := kv_set i (kind (weighted_poll_new i snapshot expires_at poll_size)) (vv_polls s)\<rparr>, i))"

definition create_verifier_set_poll ::
  "vv_state \<Rightarrow> u64 \<Rightarrow> snapshot \<Rightarrow> (vv_error, vv_state \<times> poll_id) result" where
  "create_verifier_set_poll s expires_at snapshot = create_poll ConfirmVerifierSet s expires_at snapshot 1"

definition create_messages_poll ::
  "vv_state \<Rightarrow> u64 \<Rightarrow> snapshot \<Rightarrow> nat \<Rightarrow> (vv_error, vv_state \<times> poll_id) result" where
  "create_messages_poll s expires_at snapshot poll_size = create_poll MessagesPoll s expires_at snapshot poll_size"

definition validate_source_chain :: "message \<Rightarrow> string \<Rightarrow> (vv_error, message) result" where
  "validate_source_chain m chain =
     (if source_chain (cc_id m) \<noteq> chain then fail (SourceChainMismatch chain) else Ok m)"

definition validate_source_address :: "codecs \<Rightarrow> message \<Rightarrow> address_format \<Rightarrow> (vv_error, message) result" where
  "validate_source_address cd m format =
     and_then (change_context InvalidSourceAddress (validate_address cd (source_address m) format)) (\<lambda>_. Ok m)"

definition tx_event_confirmation_try_from ::
  "codecs \<Rightarrow> message \<Rightarrow> message_id_format \<Rightarrow> (vv_error, tx_event_confirmation) result" where
  "tx_event_confirmation_try_from cd m format =
     and_then (map_err (\<lambda>_. VvInvalidMessageID (message_id (cc_id m)))
       (verify_msg_id cd (message_id (cc_id m)) format)) (\<lambda>_.
     Ok \<lparr>te_message_id = message_id (cc_id m), te_destination_address = destination_address m,
         te_destination_chain = destination_chain m, te_source_address = source_address m,
         te_payload_hash = payload_hash m\<rparr>)"

definition verifier_set_confirmation_new ::
  "codecs \<Rightarrow> string \<Rightarrow> message_id_format \<Rightarrow> verifier_set \<Rightarrow> (vv_error, string \<times> verifier_set) result" where
  "verifier_set_confirmation_new cd mid format vs =
     and_then (map_err (\<lambda>_. VvInvalidMessageID mid) (verify_msg_id cd mid format)) (\<lambda>_. Ok (mid, vs))"

definition metadata :: "vv_config \<Rightarrow> poll_id \<Rightarrow> u64 \<Rightarrow> string list \<Rightarrow> poll_metadata" where
  "metadata config i expires_at participants =
     \<lparr>pm_poll_id = i, pm_source_chain = vc_source_chain config,
      pm_source_gateway_address = vc_source_gateway_address config,
      pm_confirmation_height = vc_confirmation_height config,
      pm_expires_at = expires_at, pm_participants = participants\<rparr>"

definition verify_verifier_set ::
  "(u8 list \<Rightarrow> u8 list) \<Rightarrow> vv_env \<Rightarrow> vv_state \<Rightarrow> string \<Rightarrow> verifier_set
     \<Rightarrow> (vv_error, vv_state \<times> vv_response) result" where
  "verify_verifier_set H env s mid new_verifier_set =
     and_then (verifier_set_status H s new_verifier_set (ve_height env)) (\<lambda>status.
     if is_confirmed status then Ok (s, response_new)
     else
       and_then (load_vv_config s) (\<lambda>config.
       and_then (take_snapshot env s (vc_source_chain config)) (\<lambda>snapshot.
       and_then (calculate_expiration (ve_height env) (vc_block_expiry config)) (\<lambda>expires_at.
       and_then (create_verifier_set_poll s expires_at snapshot) (\<lambda>(s1, i).
       and_then (verifier_set_confirmation_new (ve_codecs env) mid (vc_msg_id_format config) new_verifier_set) (\<lambda>(mid, vs).
       Ok (s1\<lparr>vv_poll_verifier_sets :=
               kv_set (verifier_set_hash H new_verifier_set) (poll_content_verifier_set new_verifier_set i)
                 (vv_poll_verifier_sets s1)\<rparr>,
           \<lparr>messages = [],
            events = [VerifierSetPollStarted mid vs
              (metadata config i expires_at (snapshot_participants snapshot))]\<rparr>)))))))"

definition needs_verification :: "verification_status \<Rightarrow> bool" where
  "needs_verification status = (status \<in> {NotFoundOnSourceChain, FailedToVerify, Unknown})"

fun save_poll_messages ::
  "(u8 list \<Rightarrow> u8 list) \<Rightarrow> vv_state \<Rightarrow> poll_id \<Rightarrow> nat \<Rightarrow> message list \<Rightarrow> (vv_error, vv_state) result" where
  "save_poll_messages H s i index [] = Ok s"
| "save_poll_messages H s i index (m # ms) =
     and_then (poll_content_message m i index) (\<lambda>c.
     save_poll_messages H (s\<lparr>vv_poll_messages := kv_set (message_hash H m) c (vv_poll_messages s)\<rparr>)
       i (Suc index) ms)"

definition verify_messages ::
  "(u8 list \<Rightarrow> u8 list) \<Rightarrow> vv_env \<Rightarrow> vv_state \<Rightarrow> message list \<Rightarrow> (vv_error, vv_state \<times> vv_response) result" where
  "verify_messages H env s msgs =
     (if msgs = [] then fail EmptyMessages
      else
        and_then (load_vv_config s) (\<lambda>config.
        and_then (try_map (\<lambda>m.
            and_then (validate_source_chain m (vc_source_chain config)) (\<lambda>m.
            and_then (validate_source_address (ve_codecs env) m (vc_address_format config)) (\<lambda>m.
            and_then (message_status H s m (ve_height env)) (\<lambda>status.
            Ok (status, m))))) msgs) (\<lambda>with_status.
        let msgs_to_verify = map snd (filter (\<lambda>(status, _). needs_verification status) with_status) in
        if msgs_to_verify = [] then Ok (s, response_new)
        else
          and_then (take_snapshot env s (vc_source_chain config)) (\<lambda>snapshot.
          and_then (calculate_expiration (ve_height env) (vc_block_expiry config)) (\<lambda>expires_at.
          and_then (create_messages_poll s expires_at snapshot (length msgs_to_verify)) (\<lambda>(s1, i).
          and_then (save_poll_messages H s1 i 0 msgs_to_verify) (\<lambda>s2.
          and_then (try_map (\<lambda>m. tx_event_confirmation_try_from (ve_codecs env) m (vc_msg_id_format config))
              msgs_to_verify) (\<lambda>confirmations.
          Ok (s2, \<lparr>messages = [],
                   events = [MessagesPollStarted confirmations
                     (metadata config i expires_at (snapshot_participants snapshot))]\<rparr>)))))))))"

subsection \<open>Voting\<close>

fun vote_status :: "vote \<Rightarrow> verification_status" where
  "vote_status SucceededOnChain = SucceededOnSourceChain"
| "vote_status FailedOnChain = FailedOnSourceChain"
| "vote_status NotFound = NotFoundOnSourceChain"

definition make_quorum_event ::
  "vv_state \<Rightarrow> vote option \<Rightarrow> u32 \<Rightarrow> poll_id \<Rightarrow> poll \<Rightarrow> (vv_error, vv_event option) result" where
  "make_quorum_event s v index_in_poll i poll =
     (case poll of
        MessagesPoll _ \<Rightarrow>
          and_then (load_message s i index_in_poll) (\<lambda>msg.
          Ok (map_option (\<lambda>v. QuorumReachedMessage msg (vote_status v) i) v))
      | ConfirmVerifierSet _ \<Rightarrow>
          and_then (load_verifier_set s i) (\<lambda>vs.
          Ok (map_option (\<lambda>v. QuorumReachedVerifierSet vs (vote_status v) i) v)))"

definition vv_vote ::
  "vv_env \<Rightarrow> vv_state \<Rightarrow> string \<Rightarrow> poll_id \<Rightarrow> vote list \<Rightarrow> (vv_error, vv_state \<times> vv_response) result" where
  "vv_vote env s sender i votes =
     and_then (ok_or PollNotFound (kv_get (vv_polls s) i)) (\<lambda>poll.
     and_then (poll_results (the_weighted_poll poll)) (\<lambda>results_before_voting.
     and_then (poll_try_map poll (\<lambda>p. map_err VoteError (cast_vote p (ve_height env) sender votes))) (\<lambda>poll.
     let s1 = s\<lparr>vv_polls := kv_set i poll (vv_polls s)\<rparr> in
     and_then (poll_results (the_weighted_poll poll)) (\<lambda>results_after_voting.
     and_then (expect_ok ''failed to substract poll results''
         (results_difference results_after_voting results_before_voting)) (\<lambda>diff.
     and_then (try_map (\<lambda>(index, v).
         and_then (expect_some ''the amount of votes should never overflow u32''
           (if index < 2 ^ 32 then Some (word_of_nat index) else None)) (\<lambda>idx.
         make_quorum_event s1 v idx i poll)) (zip [0..<length diff] diff)) (\<lambda>quorum_events.
     Ok (s1\<lparr>vv_votes := kv_set (i, sender) votes (vv_votes s1)\<rparr>,
         \<lparr>messages = [], events = Voted i sender votes # concat (map (case_option [] (\<lambda>e. [e])) quorum_events)\<rparr>)))))))"

definition poll_votes :: "vv_state \<Rightarrow> poll_id \<Rightarrow> (string, vote list) kv" where
  "poll_votes s i = map (\<lambda>((_, a), vs). (a, vs)) (filter (\<lambda>((j, _), _). j = i) (vv_votes s))"

definition end_poll :: "vv_env \<Rightarrow> vv_state \<Rightarrow> poll_id \<Rightarrow> (vv_error, vv_state \<times> vv_response) result" where
  "end_poll env s i =
     and_then (load_vv_config s) (\<lambda>config.
     and_then (ok_or PollNotFound (kv_get (vv_polls s) i)) (\<lambda>poll.
     and_then (poll_try_map poll (\<lambda>p. map_err VoteError (poll_finish p (ve_height env)))) (\<lambda>poll.
     let s1 = s\<lparr>vv_polls := kv_set i poll (vv_polls s)\<rparr> in
     and_then (weighted_poll_state (the_weighted_poll poll) (kv_get (poll_votes s1 i))) (\<lambda>poll_result.
     Ok (s1, \<lparr>messages = map (\<lambda>a. RecordParticipation (vc_rewards_contract config) (vc_source_chain config)
                                  (show_word i) a) (ps_consensus_participants poll_result),
              events = [PollEnded (ps_poll_id poll_result) (vc_source_chain config) (ps_results poll_result)]\<rparr>)))))"

subsection \<open>Entry points\<close>

datatype vv_msg =
    EndPoll poll_id
  | Vote poll_id "vote list"
  | VvVerifyMessages "message list"
  | VerifyVerifierSet string verifier_set
  | UpdateVotingParameters "majority_threshold option" "u64 option" "u64 option"

fun vv_permissions :: "vv_msg \<Rightarrow> msg_permissions" where
  "vv_permissions (UpdateVotingParameters _ _ _) =
     \<lparr>specific_perms = [], general_perms = [Governance], external_perms = []\<rparr>"
| "vv_permissions _ = \<lparr>specific_perms = [], general_perms = [Any], external_perms = []\<rparr>"

fun vv_dispatch ::
  "(u8 list \<Rightarrow> u8 list) \<Rightarrow> vv_env \<Rightarrow> vv_state \<Rightarrow> string \<Rightarrow> vv_msg \<Rightarrow> (vv_error, vv_state \<times> vv_response) result" where
  "vv_dispatch H env s sender (VvVerifyMessages msgs) = verify_messages H env s msgs"
| "vv_dispatch H env s sender (Vote i votes) = vv_vote env s sender i votes"
| "vv_dispatch H env s sender (EndPoll i) = end_poll env s i"
| "vv_dispatch H env s sender (VerifyVerifierSet mid vs) = verify_verifier_set H env s mid vs"
| "vv_dispatch H env s sender (UpdateVotingParameters th expiry height) =
     update_voting_parameters s th expiry height"

definition vv_execute ::
  "(u8 list \<Rightarrow> u8 list) \<Rightarrow> vv_env \<Rightarrow> vv_state \<Rightarrow> string \<Rightarrow> vv_msg \<Rightarrow> (vv_error, vv_state \<times> vv_response) result" where
  "vv_execute H env s sender msg =
     and_then (map_err VvPermissionErr
       (ensure_permissions (vv_perms s) sender (vv_permissions msg) (\<lambda>_. (Ok False :: (unit, bool) result)))) (\<lambda>_.
     vv_dispatch H env s sender msg)"

definition vv_instantiate ::
  "vv_env \<Rightarrow> string \<Rightarrow> vv_config \<Rightarrow> (vv_error, vv_state \<times> vv_response) result" where
  "vv_instantiate env governance_address msg =
     and_then (map_err VvAddressErr (validate_cosmwasm_address (ve_addr_validate env) governance_address)) (\<lambda>governance.
     and_then (change_context InvalidSourceGatewayAddress
       (validate_address (ve_codecs env) (vc_source_gateway_address msg) (vc_address_format msg))) (\<lambda>_.
     and_then (map_err VvAddressErr (validate_cosmwasm_address (ve_addr_validate env) (vc_service_registry msg))) (\<lambda>registry.
     and_then (map_err VvAddressErr (validate_cosmwasm_address (ve_addr_validate env) (vc_rewards_contract msg))) (\<lambda>rewards.
     let config = msg\<lparr>vc_service_registry := registry, vc_rewards_contract := rewards\<rparr> in
     Ok (\<lparr>vv_config = Some config,
          vv_perms = set_governance governance \<lparr>admin_addr = None, governance_addr = None\<rparr>,
          vv_poll_id = None, vv_polls = [], vv_votes = [], vv_poll_messages = [], vv_poll_verifier_sets = []\<rparr>,
         \<lparr>messages = [], events = [VvInstantiated config]\<rparr>)))))"

subsection \<open>Queries\<close>

definition voting_parameters :: "vv_state \<Rightarrow> (vv_error, majority_threshold \<times> u64 \<times> u64) result" where
  "voting_parameters s =
     and_then (ok_or VvStorageError (vv_config s)) (\<lambda>config.
     Ok (vc_voting_threshold config, vc_block_expiry config, vc_confirmation_height config))"

datatype poll_data = PollDataMessages "message list" | PollDataVerifierSet verifier_set

record poll_response =
  pr_poll :: weighted_poll
  pr_data :: poll_data
  pr_status :: poll_status

definition vv_poll_response :: "vv_state \<Rightarrow> u64 \<Rightarrow> poll_id \<Rightarrow> (vv_error, poll_response) result" where
  "vv_poll_response s current_block_height i =
     and_then (ok_or PollNotFound (kv_get (vv_polls s) i)) (\<lambda>poll.
     and_then (case poll of
         MessagesPoll p \<Rightarrow>
           let msgs = load_messages s i in
           and_then (assert_or_panic (length (wp_tallies p) = length msgs)
             ''data inconsistency for number of messages in poll'') (\<lambda>_.
           Ok (PollDataMessages msgs, weighted_poll_status p current_block_height))
       | ConfirmVerifierSet p \<Rightarrow>
           and_then (load_verifier_set s i) (\<lambda>found.
           and_then (expect_some ''verifier set not found in poll'' found) (\<lambda>vs.
           Ok (PollDataVerifierSet vs, weighted_poll_status p current_block_height)))) (\<lambda>(data, status).
     Ok \<lparr>pr_poll = the_weighted_poll poll, pr_data = data, pr_status = status\<rparr>))"

datatype vv_query_msg =
    QueryPoll poll_id
  | QueryMessagesStatus "message list"
  | QueryVerifierSetStatus verifier_set
  | QueryVotingParameters

datatype vv_query_response =
    RespPoll poll_response
  | RespMessagesStatus "(message \<times> verification_status) list"
  | RespVerifierSetStatus verification_status
  | RespVotingParameters majority_threshold u64 u64

fun vv_query ::
  "(u8 list \<Rightarrow> u8 list) \<Rightarrow> u64 \<Rightarrow> vv_state \<Rightarrow> vv_query_msg \<Rightarrow> (vv_error, vv_query_response) result" where
  "vv_query H height s (QueryPoll i) = and_then (vv_poll_response s height i) (\<lambda>r. Ok (RespPoll r))"
| "vv_query H height s (QueryMessagesStatus msgs) =
     and_then (messages_status H s msgs height) (\<lambda>r. Ok (RespMessagesStatus r))"
| "vv_query H height s (QueryVerifierSetStatus vs) =
     and_then (verifier_set_status H s vs height) (\<lambda>r. Ok (RespVerifierSetStatus r))"
| "vv_query H height s QueryVotingParameters =
     and_then (voting_parameters s) (\<lambda>(th, expiry, depth). Ok (RespVotingParameters th expiry depth))"

subsection \<open>Transactions and reachable states\<close>

text \<open>
  What the types of the source guarantee of a transaction, and what the registry's answer and
  the multiplication guarantee: thresholds are majorities and expiries are not zero, weights are
  not zero and their sum is a 128-bit integer, the multiplication rounds up.
\<close>

definition verifiers_ok :: "participant list \<Rightarrow> bool" where
  "verifiers_ok ps \<longleftrightarrow> list_all (\<lambda>p. p_weight p \<noteq> 0) ps \<and> weight_sum ps < 2 ^ 128"

definition vv_env_ok :: "vv_env \<Rightarrow> bool" where
  "vv_env_ok env \<longleftrightarrow> mul_ceil_rounds_up (ve_mul_ceil env)
     \<and> (\<forall>service chain ps. ve_active_verifiers env service chain = Some ps \<longrightarrow> verifiers_ok ps)"

fun vv_msg_ok :: "vv_msg \<Rightarrow> bool" where
  "vv_msg_ok (UpdateVotingParameters th expiry depth) \<longleftrightarrow>
     case_option True majority_ok th \<and> expiry \<noteq> Some 0"
| "vv_msg_ok _ \<longleftrightarrow> True"

type_synonym vv_call = "vv_env \<times> string \<times> vv_msg"

definition vv_call_ok :: "vv_call \<Rightarrow> bool" where
  "vv_call_ok call = (case call of (env, _, msg) \<Rightarrow> vv_env_ok env \<and> vv_msg_ok msg)"

definition vv_tx :: "(u8 list \<Rightarrow> u8 list) \<Rightarrow> vv_state \<Rightarrow> vv_call \<Rightarrow> (vv_error, vv_state \<times> vv_response) result" where
  "vv_tx H s call = (case call of (env, sender, msg) \<Rightarrow> vv_execute H env s sender msg)"

inductive vv_reachable :: "(u8 list \<Rightarrow> u8 list) \<Rightarrow> vv_state \<Rightarrow> bool" for H where
  vv_init: "vv_instantiate env governance msg = Inr (s, r) \<Longrightarrow> majority_ok (vc_voting_threshold msg)
    \<Longrightarrow> vc_block_expiry msg \<noteq> 0 \<Longrightarrow> vv_reachable H s"
| vv_step: "vv_reachable H s \<Longrightarrow> vv_call_ok call \<Longrightarrow> vv_tx H s call = Inr (s', r) \<Longrightarrow> vv_reachable H s'"

subsection \<open>Invariants\<close>

definition vv_config_inv :: "vv_config option \<Rightarrow> bool" where
  "vv_config_inv c \<longleftrightarrow> (\<exists>config. c = Some config \<and> majority_ok (vc_voting_threshold config)
     \<and> vc_block_expiry config \<noteq> 0)"

fun poll_inv :: "poll_id \<Rightarrow> poll \<Rightarrow> bool" where
  "poll_inv i (MessagesPoll w) \<longleftrightarrow> poll_wf w \<and> wp_poll_id w = i \<and> length (wp_tallies w) \<le> 2 ^ 32"
| "poll_inv i (ConfirmVerifierSet w) \<longleftrightarrow> poll_wf w \<and> wp_poll_id w = i \<and> length (wp_tallies w) = 1"

definition polls_inv :: "u64 option \<Rightarrow> (poll_id, poll) kv \<Rightarrow> bool" where
  "polls_inv counter polls \<longleftrightarrow> kv_ok polls
     \<and> (\<forall>i poll. kv_get polls i = Some poll \<longrightarrow> i \<le> counter_cur counter \<and> poll_inv i poll)"

text \<open>
  A stored content lies under its hash and points to an item of a poll of its kind, and no two
  contents point to the same item.
\<close>

definition contents_inv ::
  "('c \<Rightarrow> u8 list) \<Rightarrow> (weighted_poll \<Rightarrow> poll) \<Rightarrow> (poll_id, poll) kv \<Rightarrow> (u8 list, 'c poll_content) kv \<Rightarrow> bool" where
  "contents_inv hash kind polls contents \<longleftrightarrow> kv_ok contents
     \<and> (\<forall>h c. kv_get contents h = Some c \<longrightarrow> h = hash (pc_content c)
          \<and> (\<exists>w. kv_get polls (pc_poll_id c) = Some (kind w)
                \<and> unat (pc_index_in_poll c) < length (wp_tallies w)))
     \<and> (\<forall>h c h' c'. kv_get contents h = Some c \<longrightarrow> kv_get contents h' = Some c'
          \<longrightarrow> pc_poll_id c = pc_poll_id c' \<longrightarrow> pc_index_in_poll c = pc_index_in_poll c' \<longrightarrow> h = h')"

text \<open>The weight of the recorded votes for a verdict on an item of a poll.\<close>

definition recorded_weight :: "(poll_id \<times> string, vote list) kv \<Rightarrow> poll_id \<Rightarrow> (string \<Rightarrow> nat) \<Rightarrow> nat \<Rightarrow> vote \<Rightarrow> nat" where
  "recorded_weight votes i wt k v =
     sum_list (map (\<lambda>((j, a), vs). if j = i \<and> k < length vs \<and> vs ! k = v then wt a else 0) votes)"

definition votes_inv :: "(poll_id, poll) kv \<Rightarrow> (poll_id \<times> string, vote list) kv \<Rightarrow> bool" where
  "votes_inv polls votes \<longleftrightarrow> kv_ok votes
     \<and> (\<forall>i a. kv_get votes (i, a) \<noteq> None \<longleftrightarrow>
          (\<exists>poll. kv_get polls i = Some poll \<and> has_voted (the_weighted_poll poll) a))
     \<and> (\<forall>i poll k v. kv_get polls i = Some poll \<longrightarrow> k < length (wp_tallies (the_weighted_poll poll)) \<longrightarrow>
          unat (tally_of (wp_tallies (the_weighted_poll poll) ! k) v) =
          min (2 ^ 128 - 1) (recorded_weight votes i (participant_weight (the_weighted_poll poll)) k v))"

definition vv_inv :: "(u8 list \<Rightarrow> u8 list) \<Rightarrow> vv_state \<Rightarrow> bool" where
  "vv_inv H s \<longleftrightarrow> vv_config_inv (vv_config s) \<and> polls_inv (vv_poll_id s) (vv_polls s)
     \<and> contents_inv (message_hash H) MessagesPoll (vv_polls s) (vv_poll_messages s)
     \<and> contents_inv (verifier_set_hash H) ConfirmVerifierSet (vv_polls s) (vv_poll_verifier_sets s)
     \<and> votes_inv (vv_polls s) (vv_votes s)"

text \<open>How polls change: items stay, verdicts and the end of a poll are final.\<close>

definition weighted_evolves :: "weighted_poll \<Rightarrow> weighted_poll \<Rightarrow> bool" where
  "weighted_evolves w w' \<longleftrightarrow> length (wp_tallies w') = length (wp_tallies w)
     \<and> wp_expires_at w' = wp_expires_at w \<and> (wp_finished w \<longrightarrow> wp_finished w')
     \<and> (\<forall>k v. poll_consensus w k = Inr (Some v) \<longrightarrow> poll_consensus w' k = Inr (Some v))"

fun poll_evolves :: "poll \<Rightarrow> poll \<Rightarrow> bool" where
  "poll_evolves (MessagesPoll w) (MessagesPoll w') = weighted_evolves w w'"
| "poll_evolves (ConfirmVerifierSet w) (ConfirmVerifierSet w') = weighted_evolves w w'"
| "poll_evolves _ _ = False"

definition polls_evolve :: "(poll_id, poll) kv \<Rightarrow> (poll_id, poll) kv \<Rightarrow> bool" where
  "polls_evolve polls polls' \<longleftrightarrow>
     (\<forall>i poll. kv_get polls i = Some poll \<longrightarrow> (\<exists>poll'. kv_get polls' i = Some poll' \<and> poll_evolves poll poll'))"

text \<open>What one transaction may do to the state: contents whose verdict is confirmed stay,
  and no content is replaced by another.\<close>

definition contents_kept ::
  "(poll_id, poll) kv \<Rightarrow> (u8 list, 'c poll_content) kv \<Rightarrow> (u8 list, 'c poll_content) kv \<Rightarrow> bool" where
  "contents_kept ps cs cs' \<longleftrightarrow>
     (\<forall>h c p v. kv_get cs h = Some c \<longrightarrow> kv_get ps (pc_poll_id c) = Some p \<longrightarrow>
        poll_consensus (the_weighted_poll p) (pc_index_in_poll c) = Inr (Some v) \<longrightarrow> v \<noteq> NotFound \<longrightarrow>
        kv_get cs' h = Some c)"

definition contents_fixed :: "(u8 list, 'c poll_content) kv \<Rightarrow> (u8 list, 'c poll_content) kv \<Rightarrow> bool" where
  "contents_fixed cs cs' \<longleftrightarrow>
     (\<forall>h c. kv_get cs h = Some c \<longrightarrow> (\<exists>c'. kv_get cs' h = Some c' \<and> pc_content c' = pc_content c))"

definition vv_extends :: "vv_state \<Rightarrow> vv_state \<Rightarrow> bool" where
  "vv_extends s s' \<longleftrightarrow> polls_evolve (vv_polls s) (vv_polls s')
     \<and> contents_kept (vv_polls s) (vv_poll_messages s) (vv_poll_messages s')
     \<and> contents_kept (vv_polls s) (vv_poll_verifier_sets s) (vv_poll_verifier_sets s')
     \<and> contents_fixed (vv_poll_messages s) (vv_poll_messages s')
     \<and> contents_fixed (vv_poll_verifier_sets s) (vv_poll_verifier_sets s')"

text \<open>The messages of a batch with their status, the first stage of \<open>verify_messages\<close>.\<close>

definition batch_status ::
  "(u8 list \<Rightarrow> u8 list) \<Rightarrow> vv_env \<Rightarrow> vv_state \<Rightarrow> vv_config \<Rightarrow> message list
     \<Rightarrow> (vv_error, (verification_status \<times> message) list) result" where
  "batch_status H env s config msgs = try_map (\<lambda>m.
     and_then (validate_source_chain m (vc_source_chain config)) (\<lambda>m.
     and_then (validate_source_address (ve_codecs env) m (vc_address_format config)) (\<lambda>m.
     and_then (message_status H s m (ve_height env)) (\<lambda>status. Ok (status, m))))) msgs"

text \<open>No other content is stored under the hash of what a call asks to verify.\<close>

fun vv_no_collision :: "(u8 list \<Rightarrow> u8 list) \<Rightarrow> vv_state \<Rightarrow> vv_msg \<Rightarrow> bool" where
  "vv_no_collision H s (VvVerifyMessages msgs) \<longleftrightarrow> length msgs \<le> 2 ^ 32
     \<and> list_all (\<lambda>m. case kv_get (vv_poll_messages s) (message_hash H m) of None \<Rightarrow> True
                     | Some c \<Rightarrow> pc_content c = m) msgs"
| "vv_no_collision H s (VerifyVerifierSet mid vs) \<longleftrightarrow>
     (case kv_get (vv_poll_verifier_sets s) (verifier_set_hash H vs) of None \<Rightarrow> True | Some c \<Rightarrow> pc_content c = vs)"
| "vv_no_collision H s _ \<longleftrightarrow> True"

section \<open>Lemmas\<close>

subsection \<open>Evolution of polls\<close>

lemma weighted_evolves_refl [simp]: "weighted_evolves w w"
  by (simp add: weighted_evolves_def)

lemma weighted_evolves_trans: "weighted_evolves a b \<Longrightarrow> weighted_evolves b c \<Longrightarrow> weighted_evolves a c"
  by (auto simp: weighted_evolves_def)

lemma weighted_evolves_cast:
  "poll_wf w \<Longrightarrow> cast_vote w h a vs = Inr w' \<Longrightarrow> weighted_evolves w w'"
  by (auto simp: weighted_evolves_def cast_vote_frame poll_consensus_cast_vote) (auto simp: cast_vote_Inr_iff)

lemma weighted_evolves_finish: "poll_finish w h = Inr w' \<Longrightarrow> weighted_evolves w w'"
  by (auto simp: weighted_evolves_def poll_consensus_finish) (auto simp: poll_finish_def split: if_splits)

lemma poll_evolves_iff:
  "poll_evolves (MessagesPoll w) p \<longleftrightarrow> (\<exists>w'. p = MessagesPoll w' \<and> weighted_evolves w w')"
  "poll_evolves (ConfirmVerifierSet w) p \<longleftrightarrow> (\<exists>w'. p = ConfirmVerifierSet w' \<and> weighted_evolves w w')"
  by (cases p; auto)+

lemma poll_evolves_refl [simp]: "poll_evolves p p"
  by (cases p) auto

lemma poll_evolves_trans: "poll_evolves a b \<Longrightarrow> poll_evolves b c \<Longrightarrow> poll_evolves a c"
  by (cases a; auto simp: poll_evolves_iff) (metis weighted_evolves_trans)+

lemma poll_evolves_weighted: "poll_evolves p p' \<Longrightarrow> weighted_evolves (the_weighted_poll p) (the_weighted_poll p')"
  by (cases p) (auto simp: poll_evolves_iff)

lemma polls_evolve_refl [simp]: "polls_evolve ps ps"
  by (auto simp: polls_evolve_def)

lemma polls_evolve_trans: "polls_evolve a b \<Longrightarrow> polls_evolve b c \<Longrightarrow> polls_evolve a c"
  unfolding polls_evolve_def by (meson poll_evolves_trans)

lemma polls_evolve_new: "kv_get ps i = None \<Longrightarrow> polls_evolve ps (kv_set i p ps)"
  by (auto simp: polls_evolve_def)

lemma polls_evolve_update:
  "kv_get ps i = Some p \<Longrightarrow> poll_evolves p p' \<Longrightarrow> polls_evolve ps (kv_set i p' ps)"
  by (auto simp: polls_evolve_def)

lemma poll_try_map_Inr_iff [result_simps]:
  "poll_try_map p f = Inr p' \<longleftrightarrow>
     (\<exists>w'. f (the_weighted_poll p) = Inr w'
        \<and> p' = (case p of MessagesPoll _ \<Rightarrow> MessagesPoll w' | ConfirmVerifierSet _ \<Rightarrow> ConfirmVerifierSet w'))"
  by (cases p) (auto simp: result_simps)

lemma poll_inv_wf: "poll_inv i p \<Longrightarrow> poll_wf (the_weighted_poll p) \<and> wp_poll_id (the_weighted_poll p) = i"
  by (cases p) auto

subsection \<open>Preservation by components\<close>

lemma polls_inv_get: "polls_inv c ps \<Longrightarrow> kv_get ps i = Some p \<Longrightarrow> i \<le> counter_cur c \<and> poll_inv i p"
  by (simp add: polls_inv_def)

lemma polls_inv_update:
  "polls_inv c ps \<Longrightarrow> kv_get ps i = Some p \<Longrightarrow> poll_inv i p' \<Longrightarrow> polls_inv c (kv_set i p' ps)"
  by (auto simp: polls_inv_def)

lemma counter_incr_fresh:
  assumes "counter_incr c = Inr (c', i)" and "polls_inv c ps"
  shows "c' = Some i \<and> kv_get ps i = None \<and> counter_cur c < i"
proof -
  from assms(1) have c': "c' = Some i" and i: "checked_add (counter_cur c) 1 = Some i"
    by (auto simp: counter_incr_def result_simps)
  then have "counter_cur c < i" using checked_add_unat [OF i] by (simp add: word_less_nat_alt)
  moreover have "kv_get ps i = None"
    using assms(2) \<open>counter_cur c < i\<close> by (meson polls_inv_get leD not_Some_eq)
  ultimately show ?thesis using c' by simp
qed

lemma polls_inv_new:
  assumes "counter_incr c = Inr (c', i)" and "polls_inv c ps" and "poll_inv i p"
  shows "polls_inv c' (kv_set i p ps)"
  using assms counter_incr_fresh [OF assms(1,2)]
  by (fastforce simp: polls_inv_def counter_cur_def)

lemma contents_inv_get:
  assumes "contents_inv hash kind ps cs" and "kv_get cs h = Some c"
  shows "h = hash (pc_content c)"
    and "\<exists>w. kv_get ps (pc_poll_id c) = Some (kind w) \<and> unat (pc_index_in_poll c) < length (wp_tallies w)"
  using assms unfolding contents_inv_def by blast+

lemma contents_inv_evolve:
  assumes "contents_inv hash kind ps cs" and "polls_evolve ps ps'"
    and "kind = MessagesPoll \<or> kind = ConfirmVerifierSet"
  shows "contents_inv hash kind ps' cs"
proof -
  have "\<exists>w'. kv_get ps' i = Some (kind w') \<and> k < length (wp_tallies w')"
    if "kv_get ps i = Some (kind w)" and "k < length (wp_tallies w)" for i w k
    using assms(2,3) that by (fastforce simp: polls_evolve_def poll_evolves_iff weighted_evolves_def)
  then show ?thesis using assms(1) unfolding contents_inv_def by metis
qed

lemma contents_inv_set:
  assumes "contents_inv hash kind ps cs" and "kv_get ps (pc_poll_id c) = Some (kind w)"
    and "unat (pc_index_in_poll c) < length (wp_tallies w)"
    and "\<And>h d. kv_get cs h = Some d \<Longrightarrow> pc_poll_id d = pc_poll_id c \<Longrightarrow> pc_index_in_poll d \<noteq> pc_index_in_poll c"
  shows "contents_inv hash kind ps (kv_set (hash (pc_content c)) c cs)"
  using assms unfolding contents_inv_def by (auto split: if_splits) metis

lemma recorded_weight_set:
  assumes "kv_get votes (i, a) = None"
  shows "recorded_weight (kv_set (i, a) vs votes) j wt k v =
    recorded_weight votes j wt k v + (if j = i \<and> k < length vs \<and> vs ! k = v then wt a else 0)"
  using assms by (auto simp: recorded_weight_def sum_list_kv_set_new)

lemma recorded_weight_none:
  assumes "\<And>a. kv_get votes (i, a) = None"
  shows "recorded_weight votes i wt k v = 0"
proof -
  have "fst (fst x) \<noteq> i" if "x \<in> set votes" for x
    using assms [of "snd (fst x)"] that by (force simp: map_of_eq_None_iff)
  then show ?thesis by (auto simp: recorded_weight_def sum_list_eq_0_iff)
qed

lemma votes_inv_none: "votes_inv ps votes \<Longrightarrow> kv_get ps i = None \<Longrightarrow> kv_get votes (i, a) = None"
  unfolding votes_inv_def by (metis option.distinct(1))

lemma has_voted_new [simp]: "\<not> has_voted (weighted_poll_new i sn e n) a"
proof -
  have "\<not> pa_voted x" if "(a, x) \<in> set (wp_participation (weighted_poll_new i sn e n))" for x
    using that set_kv_of_list_subset by (fastforce simp: weighted_poll_new_def)
  then show ?thesis by (auto simp: has_voted_def dest: map_of_SomeD)
qed

lemma votes_inv_new:
  assumes "votes_inv ps votes" and "kv_get ps i = None"
    and "the_weighted_poll p = weighted_poll_new i sn e n"
  shows "votes_inv (kv_set i p ps) votes"
proof -
  have none: "kv_get votes (i, a) = None" for a using assms(1,2) by (rule votes_inv_none)
  show ?thesis
    using assms none recorded_weight_none [of votes i, OF none]
    unfolding votes_inv_def by (auto simp: weighted_poll_new_def [THEN arg_cong [of _ _ wp_tallies]])
qed

lemma votes_inv_finish:
  assumes "votes_inv ps votes" and "kv_get ps i = Some p"
    and "poll_finish (the_weighted_poll p) h = Inr w" and "the_weighted_poll p' = w"
  shows "votes_inv (kv_set i p' ps) votes"
proof -
  have "wp_tallies w = wp_tallies (the_weighted_poll p)"
    "participant_weight w = participant_weight (the_weighted_poll p)"
    "has_voted w = has_voted (the_weighted_poll p)"
    using assms(3) by (auto simp: poll_finish_def participant_weight_def has_voted_def fun_eq_iff split: if_splits)
  then show ?thesis using assms(1,2,4) unfolding votes_inv_def by auto
qed

lemma votes_inv_cast:
  assumes inv: "votes_inv ps votes" and p: "kv_get ps i = Some p"
    and cast: "cast_vote (the_weighted_poll p) h a vs = Inr w" and p': "the_weighted_poll p' = w"
  shows "votes_inv (kv_set i p' ps) (kv_set (i, a) vs votes)"
proof -
  have "\<not> has_voted (the_weighted_poll p) a" using cast by (auto simp: cast_vote_Inr_iff has_voted_def)
  then have none: "kv_get votes (i, a) = None"
    using inv p unfolding votes_inv_def by (metis option.inject)
  have tally: "unat (tally_of (wp_tallies w ! k) v) =
      min (2 ^ 128 - 1) (recorded_weight (kv_set (i, a) vs votes) i (participant_weight w) k v)"
    if "k < length (wp_tallies w)" for k v
  proof -
    have k: "k < length (wp_tallies (the_weighted_poll p))" using that cast by (simp add: cast_vote_frame)
    then have "unat (tally_of (wp_tallies (the_weighted_poll p) ! k) v) =
        min (2 ^ 128 - 1) (recorded_weight votes i (participant_weight (the_weighted_poll p)) k v)"
      using inv p unfolding votes_inv_def by blast
    then show ?thesis
      by (simp add: cast_vote_tally [OF cast k] recorded_weight_set [OF none] cast_vote_frame [OF cast])
  qed
  show ?thesis
    using inv p p' none tally unfolding votes_inv_def
    by (auto simp: recorded_weight_set cast_vote_frame [OF cast])
qed

subsection \<open>Snapshots and new polls\<close>

lemma take_snapshot_wf:
  assumes "take_snapshot env s chain = Inr sn" and "vv_env_ok env" and "vv_config_inv (vv_config s)"
  shows "snapshot_wf sn"
proof -
  from assms(1) obtain config ps where ps: "ve_active_verifiers env (vc_service_name config) chain = Some ps"
    and "ps \<noteq> []" and "vv_config s = Some config"
    and sn: "snapshot_new (ve_mul_ceil env) (vc_voting_threshold config) ps = (Inr sn :: (vv_error, snapshot) result)"
    by (auto simp: take_snapshot_def load_vv_config_def nonempty_vec_try_from_def result_simps split: if_splits)
  then show ?thesis
    using snapshot_wf_new(1) [OF _ _ \<open>ps \<noteq> []\<close> _ _ sn] assms(2,3)
    by (auto simp: vv_env_ok_def vv_config_inv_def verifiers_ok_def list_all_iff)
qed

lemma vv_inv_create_poll:
  assumes "create_poll kind s e sn n = Inr (s1, i)" and inv: "vv_inv H s" and "snapshot_wf sn"
    and kind: "kind = MessagesPoll \<and> n \<le> 2 ^ 32 \<or> kind = ConfirmVerifierSet \<and> n = 1"
  shows "vv_inv H s1" and "polls_evolve (vv_polls s) (vv_polls s1)"
    and "kv_get (vv_polls s) i = None" and "kv_get (vv_polls s1) i = Some (kind (weighted_poll_new i sn e n))"
    and "s1 = s\<lparr>vv_poll_id := Some i, vv_polls := kv_set i (kind (weighted_poll_new i sn e n)) (vv_polls s)\<rparr>"
proof -
  let ?p = "kind (weighted_poll_new i sn e n)"
  from assms(1) obtain c' where c': "counter_incr (vv_poll_id s) = Inr (c', i)"
    and s1: "s1 = s\<lparr>vv_poll_id := c', vv_polls := kv_set i ?p (vv_polls s)\<rparr>"
    by (auto simp: create_poll_def result_simps)
  have polls: "polls_inv (vv_poll_id s) (vv_polls s)" using inv by (simp add: vv_inv_def)
  note fresh = counter_incr_fresh [OF c' polls]
  show s1': "s1 = s\<lparr>vv_poll_id := Some i, vv_polls := kv_set i ?p (vv_polls s)\<rparr>" using s1 fresh by simp
  show none: "kv_get (vv_polls s) i = None" using fresh by simp
  show evolve: "polls_evolve (vv_polls s) (vv_polls s1)" using s1 none by (simp add: polls_evolve_new)
  show "kv_get (vv_polls s1) i = Some ?p" using s1 by simp
  have "poll_inv i ?p"
    using poll_wf_new [OF assms(3), of i e n] kind by (auto simp: weighted_poll_new_def)
  moreover have "the_weighted_poll ?p = weighted_poll_new i sn e n" using kind by auto
  ultimately show "vv_inv H s1"
    using inv s1 polls_inv_new [OF c' polls] votes_inv_new [OF _ none] evolve
    by (auto simp: vv_inv_def intro: contents_inv_evolve)
qed

subsection \<open>Storing contents\<close>

lemma save_poll_messages_bound:
  "save_poll_messages H s i k ms = Inr s' \<Longrightarrow> ms \<noteq> [] \<Longrightarrow> k + length ms \<le> 2 ^ 32"
proof (induction ms arbitrary: s k)
  case (Cons m ms)
  then obtain s1 where "k < 2 ^ 32" and "save_poll_messages H s1 i (Suc k) ms = Inr s'"
    by (auto simp: poll_content_message_def result_simps split: if_splits)
  then show ?case using Cons.IH [of s1 "Suc k"] by (cases "ms = []") auto
qed simp

lemma vv_inv_save_message:
  assumes "vv_inv H s" and "kv_get (vv_polls s) i = Some (MessagesPoll w)"
    and "k < length (wp_tallies w)" and "k < 2 ^ 32"
    and "\<And>h d. kv_get (vv_poll_messages s) h = Some d \<Longrightarrow> pc_poll_id d = i \<Longrightarrow> unat (pc_index_in_poll d) < k"
  shows "vv_inv H (s\<lparr>vv_poll_messages := kv_set (message_hash H m)
    \<lparr>pc_content = m, pc_poll_id = i, pc_index_in_poll = word_of_nat k\<rparr> (vv_poll_messages s)\<rparr>)"
proof -
  let ?c = "\<lparr>pc_content = m, pc_poll_id = i, pc_index_in_poll = word_of_nat k\<rparr>"
  have k: "unat (word_of_nat k :: u32) = k" using assms(4) by (simp add: unat_of_nat)
  have "contents_inv (message_hash H) MessagesPoll (vv_polls s)
      (kv_set (message_hash H (pc_content ?c)) ?c (vv_poll_messages s))"
    by (rule contents_inv_set [where w = w]) (use assms k in \<open>fastforce simp: vv_inv_def\<close>)+
  then show ?thesis using assms(1) by (simp add: vv_inv_def)
qed

lemma save_poll_messages_spec:
  assumes "save_poll_messages H s i k ms = Inr s'" and "vv_inv H s"
    and "kv_get (vv_polls s) i = Some (MessagesPoll w)" and "k + length ms \<le> length (wp_tallies w)"
    and "\<And>h d. kv_get (vv_poll_messages s) h = Some d \<Longrightarrow> pc_poll_id d = i \<Longrightarrow> unat (pc_index_in_poll d) < k"
  shows "vv_inv H s' \<and> s' = s\<lparr>vv_poll_messages := vv_poll_messages s'\<rparr>
    \<and> (\<forall>h. h \<notin> message_hash H ` set ms \<longrightarrow> kv_get (vv_poll_messages s') h = kv_get (vv_poll_messages s) h)
    \<and> (\<forall>h \<in> message_hash H ` set ms. \<exists>c. kv_get (vv_poll_messages s') h = Some c \<and> pc_poll_id c = i
          \<and> pc_content c \<in> set ms)"
  using assms
proof (induction ms arbitrary: s k)
  case Nil
  then show ?case by simp
next
  case (Cons m ms)
  let ?c = "\<lparr>pc_content = m, pc_poll_id = i, pc_index_in_poll = word_of_nat k\<rparr> :: message poll_content"
  let ?s = "s\<lparr>vv_poll_messages := kv_set (message_hash H m) ?c (vv_poll_messages s)\<rparr>"
  from Cons.prems(1) have k: "k < 2 ^ 32" and save: "save_poll_messages H ?s i (Suc k) ms = Inr s'"
    by (auto simp: poll_content_message_def result_simps split: if_splits)
  have "vv_inv H ?s"
    by (rule vv_inv_save_message [OF Cons.prems(2,3) _ k Cons.prems(5)]) (use Cons.prems(4) in auto)
  have k': "unat (word_of_nat k :: u32) = k" using k by (simp add: unat_of_nat)
  have below: "unat (pc_index_in_poll d) < Suc k"
    if "kv_get (vv_poll_messages ?s) h = Some d" and "pc_poll_id d = i" for h d
    using that k' Cons.prems(5) [of h d] by (cases "h = message_hash H m") auto
  have IH: "vv_inv H s' \<and> s' = ?s\<lparr>vv_poll_messages := vv_poll_messages s'\<rparr>
    \<and> (\<forall>h. h \<notin> message_hash H ` set ms \<longrightarrow> kv_get (vv_poll_messages s') h = kv_get (vv_poll_messages ?s) h)
    \<and> (\<forall>h \<in> message_hash H ` set ms. \<exists>c. kv_get (vv_poll_messages s') h = Some c \<and> pc_poll_id c = i
          \<and> pc_content c \<in> set ms)"
    by (rule Cons.IH [OF save \<open>vv_inv H ?s\<close> _ _ below]) (use Cons.prems(3,4) in simp_all)
  have "\<exists>c. kv_get (vv_poll_messages s') h = Some c \<and> pc_poll_id c = i \<and> pc_content c \<in> set (m # ms)"
    if "h \<in> message_hash H ` set (m # ms)" for h
  proof (cases "h \<in> message_hash H ` set ms")
    case True
    then show ?thesis using IH by (metis list.set_intros(2))
  next
    case False
    then show ?thesis using that IH by simp
  qed
  then show ?case using IH by simp
qed

lemma vv_inv_save_verifier_set:
  assumes "vv_inv H s" and "kv_get (vv_polls s) i = Some (ConfirmVerifierSet w)"
    and "length (wp_tallies w) = 1"
    and "\<And>h d. kv_get (vv_poll_verifier_sets s) h = Some d \<Longrightarrow> pc_poll_id d \<noteq> i"
  shows "vv_inv H (s\<lparr>vv_poll_verifier_sets := kv_set (verifier_set_hash H vs)
    (poll_content_verifier_set vs i) (vv_poll_verifier_sets s)\<rparr>)"
proof -
  let ?c = "poll_content_verifier_set vs i"
  have "contents_inv (verifier_set_hash H) ConfirmVerifierSet (vv_polls s)
      (kv_set (verifier_set_hash H (pc_content ?c)) ?c (vv_poll_verifier_sets s))"
    by (rule contents_inv_set [where w = w])
      (use assms in \<open>auto simp: vv_inv_def poll_content_verifier_set_def\<close>)
  then show ?thesis using assms(1) by (simp add: vv_inv_def poll_content_verifier_set_def)
qed

lemma contents_inv_poll:
  "contents_inv hash kind ps cs \<Longrightarrow> kv_get ps i = None \<Longrightarrow> kv_get cs h = Some d \<Longrightarrow> pc_poll_id d \<noteq> i"
  unfolding contents_inv_def by (metis option.distinct(1))

subsection \<open>Status\<close>

lemma status_of_consensus:
  "(case r of Some SucceededOnChain \<Rightarrow> SucceededOnSourceChain | Some FailedOnChain \<Rightarrow> FailedOnSourceChain
      | Some NotFound \<Rightarrow> NotFoundOnSourceChain | None \<Rightarrow> st) =
   (case r of Some v \<Rightarrow> vote_status v | None \<Rightarrow> st)"
  by (auto split: option.splits vote.splits)

lemma verification_status_of_Inr:
  "verification_status_of s stored m h = Inr st \<longleftrightarrow>
     stored = None \<and> st = Unknown
     \<or> (\<exists>c p r. stored = Some c \<and> pc_content c = m \<and> kv_get (vv_polls s) (pc_poll_id c) = Some p
          \<and> poll_consensus (the_weighted_poll p) (pc_index_in_poll c) = Inr r
          \<and> st = (case r of Some v \<Rightarrow> vote_status v
                  | None \<Rightarrow> if voting_completed p h then FailedToVerify else InProgress))"
  by (cases stored) (auto simp: verification_status_of_def result_simps status_of_consensus)

lemma vote_status_cases [simp]:
  "vote_status v = SucceededOnSourceChain \<longleftrightarrow> v = SucceededOnChain"
  "vote_status v = FailedOnSourceChain \<longleftrightarrow> v = FailedOnChain"
  "is_confirmed (vote_status v) \<longleftrightarrow> v \<noteq> NotFound"
  "needs_verification (vote_status v) \<longleftrightarrow> v = NotFound"
  by (cases v; simp add: is_confirmed_def needs_verification_def)+

lemma is_confirmed_simps [simp]:
  "is_confirmed SucceededOnSourceChain" "is_confirmed FailedOnSourceChain"
  "\<not> is_confirmed NotFoundOnSourceChain" "\<not> is_confirmed FailedToVerify"
  "\<not> is_confirmed InProgress" "\<not> is_confirmed Unknown"
  by (simp_all add: is_confirmed_def)

lemma needs_verification_iff: "needs_verification st \<longleftrightarrow> \<not> is_confirmed st \<and> st \<noteq> InProgress"
  by (cases st) (simp_all add: needs_verification_def is_confirmed_def)

lemma status_confirmed:
  assumes "verification_status_of s stored m h = Inr st" and "is_confirmed st"
  obtains c p v where "stored = Some c" "pc_content c = m" "kv_get (vv_polls s) (pc_poll_id c) = Some p"
    "poll_consensus (the_weighted_poll p) (pc_index_in_poll c) = Inr (Some v)" "v \<noteq> NotFound" "st = vote_status v"
  using assms by (auto simp: verification_status_of_Inr split: option.splits if_splits)

lemma verification_status_of_None [simp]: "verification_status_of s None m h = Inr Unknown"
  by (simp add: verification_status_of_def)

subsection \<open>Preservation by operations\<close>

lemma contents_kept_refl [simp]: "contents_kept ps cs cs"
  by (simp add: contents_kept_def)

lemma contents_fixed_refl [simp]: "contents_fixed cs cs"
  by (simp add: contents_fixed_def)

lemma contents_fixed_trans: "contents_fixed a b \<Longrightarrow> contents_fixed b c \<Longrightarrow> contents_fixed a c"
  unfolding contents_fixed_def by metis

lemma contents_fixed_set:
  assumes "verification_status_of s (kv_get cs h) m height = Inr st" and "pc_content d = m"
  shows "contents_fixed cs (kv_set h d cs)"
  using assms by (auto simp: contents_fixed_def verification_status_of_Inr)

lemma vv_extends_refl [simp]: "vv_extends s s"
  by (simp add: vv_extends_def)

lemma contents_kept_trans:
  assumes "contents_kept ps a b" and "contents_kept ps' b c" and "polls_evolve ps ps'"
  shows "contents_kept ps a c"
  using assms poll_evolves_weighted
  unfolding contents_kept_def polls_evolve_def weighted_evolves_def by meson

lemma vv_extends_trans: "vv_extends a b \<Longrightarrow> vv_extends b c \<Longrightarrow> vv_extends a c"
  unfolding vv_extends_def by (meson contents_kept_trans contents_fixed_trans polls_evolve_trans)

lemma contents_kept_set:
  assumes "\<And>c p v. kv_get cs h = Some c \<Longrightarrow> kv_get ps (pc_poll_id c) = Some p \<Longrightarrow>
    poll_consensus (the_weighted_poll p) (pc_index_in_poll c) = Inr (Some v) \<Longrightarrow> v = NotFound"
  shows "contents_kept ps cs (kv_set h d cs)"
  using assms by (auto simp: contents_kept_def)

lemma confirmed_content_status:
  assumes "verification_status_of s (kv_get cs h) m height = Inr st" and "\<not> is_confirmed st"
    and "kv_get cs h = Some c" and "kv_get (vv_polls s) (pc_poll_id c) = Some p"
    and "poll_consensus (the_weighted_poll p) (pc_index_in_poll c) = Inr (Some v)"
  shows "v = NotFound"
  using assms by (auto simp: verification_status_of_Inr)

lemma verify_verifier_set_step:
  assumes run: "verify_verifier_set H env s mid vs = Inr (s', r)" and inv: "vv_inv H s" and env: "vv_env_ok env"
  shows "vv_inv H s' \<and> vv_extends s s'"
proof (cases "s' = s")
  case False
  from run obtain st where st: "verifier_set_status H s vs (ve_height env) = (Inr st :: (vv_error, _) result)"
    unfolding verify_verifier_set_def by (auto simp: result_simps)
  with run False obtain sn e s1 i and config :: vv_config where nc: "\<not> is_confirmed st"
    and sn: "take_snapshot env s (vc_source_chain config) = Inr sn"
    and s1: "create_poll ConfirmVerifierSet s e sn 1 = Inr (s1, i)"
    and s': "s' = s1\<lparr>vv_poll_verifier_sets := kv_set (verifier_set_hash H vs)
      (poll_content_verifier_set vs i) (vv_poll_verifier_sets s1)\<rparr>"
    unfolding verify_verifier_set_def
    by (auto simp: result_simps create_verifier_set_poll_def split: if_splits)
  have wf: "snapshot_wf sn" using sn env inv by (auto simp: vv_inv_def intro: take_snapshot_wf)
  have "ConfirmVerifierSet = MessagesPoll \<and> (1 :: nat) \<le> 2 ^ 32 \<or> ConfirmVerifierSet = ConfirmVerifierSet \<and> (1 :: nat) = 1"
    by simp
  note new = vv_inv_create_poll [OF s1 inv wf this]
  have contents: "contents_inv (verifier_set_hash H) ConfirmVerifierSet (vv_polls s) (vv_poll_verifier_sets s)"
    using inv by (simp add: vv_inv_def)
  have "pc_poll_id d \<noteq> i" if "kv_get (vv_poll_verifier_sets s1) h = Some d" for h d
    using contents_inv_poll [OF contents new(3), of h d] that new(5) by simp
  then have "vv_inv H s'"
    unfolding s' using vv_inv_save_verifier_set [OF new(1,4)] by (simp add: weighted_poll_new_def)
  moreover have "contents_kept (vv_polls s) (vv_poll_verifier_sets s) (vv_poll_verifier_sets s')"
    using st nc new(5) unfolding s' verifier_set_status_def
    by (auto intro!: contents_kept_set dest: confirmed_content_status)
  moreover have "contents_fixed (vv_poll_verifier_sets s) (vv_poll_verifier_sets s')"
    using st new(5) unfolding s' verifier_set_status_def
    by (auto intro!: contents_fixed_set simp: poll_content_verifier_set_def)
  ultimately show ?thesis using new(2,5) s' by (simp add: vv_extends_def)
qed (use inv in simp)

lemma validate_source_chain_Inr [result_simps]:
  "validate_source_chain m c = Inr m' \<longleftrightarrow> m' = m \<and> source_chain (cc_id m) = c"
  by (auto simp: validate_source_chain_def)

lemma validate_source_address_Inr: "validate_source_address cd m f = Inr m' \<Longrightarrow> m' = m"
  by (auto simp: validate_source_address_def result_simps)

lemma batch_status_Inr:
  assumes "batch_status H env s config msgs = Inr ws"
  shows "map snd ws = msgs"
    and "(st, m) \<in> set ws \<Longrightarrow> message_status H s m (ve_height env) = (Inr st :: (vv_error, _) result)"
proof -
  from assms have all: "list_all2 (\<lambda>m w. snd w = m \<and>
      message_status H s m (ve_height env) = (Inr (fst w) :: (vv_error, _) result)) msgs ws"
    unfolding batch_status_def try_map_Inr_iff
    by (rule list_all2_mono) (auto simp: result_simps dest!: validate_source_address_Inr)
  have "map snd ws = map id msgs" using all by (rule list_all2_map_eq) simp
  then show "map snd ws = msgs" by simp
  show "message_status H s m (ve_height env) = (Inr st :: (vv_error, _) result)" if "(st, m) \<in> set ws"
    using list_all2_right_in [OF all that] by auto
qed

lemma verify_messages_Inr:
  assumes "verify_messages H env s msgs = Inr (s', r)"
  obtains config ws where "vv_config s = Some config" "batch_status H env s config msgs = Inr ws"
    "filter (\<lambda>(st, _). needs_verification st) ws = []" "s' = s"
  | config ws sn e s1 i where "vv_config s = Some config" "batch_status H env s config msgs = Inr ws"
    "filter (\<lambda>(st, _). needs_verification st) ws \<noteq> []"
    "take_snapshot env s (vc_source_chain config) = Inr sn"
    "checked_add (ve_height env) (vc_block_expiry config) = Some e"
    "create_poll MessagesPoll s e sn (length (filter (\<lambda>(st, _). needs_verification st) ws)) = Inr (s1, i)"
    "save_poll_messages H s1 i 0 (map snd (filter (\<lambda>(st, _). needs_verification st) ws)) = Inr s'"
proof -
  from assms obtain config ws where c: "vv_config s = Some config" "batch_status H env s config msgs = Inr ws"
    unfolding verify_messages_def batch_status_def [symmetric] load_vv_config_def
    by (auto simp: result_simps split: if_splits)
  show thesis
  proof (cases "filter (\<lambda>(st, _). needs_verification st) ws = []")
    case True
    then have "s' = s" using assms c
      unfolding verify_messages_def batch_status_def [symmetric] load_vv_config_def
      by (simp split: if_splits)
    with c True show thesis by (rule that(1))
  next
    case False
    with assms c obtain sn e s1 i where
      "take_snapshot env s (vc_source_chain config) = Inr sn"
      "checked_add (ve_height env) (vc_block_expiry config) = Some e"
      "create_poll MessagesPoll s e sn (length (filter (\<lambda>(st, _). needs_verification st) ws)) = Inr (s1, i)"
      "save_poll_messages H s1 i 0 (map snd (filter (\<lambda>(st, _). needs_verification st) ws)) = Inr s'"
      unfolding verify_messages_def batch_status_def [symmetric] load_vv_config_def
        calculate_expiration_def create_messages_poll_def
      by (auto simp: result_simps Let_def split: if_splits)
    with c False show thesis by (rule that(2))
  qed
qed

lemma verify_messages_poll:
  assumes run: "verify_messages H env s msgs = Inr (s', r)" and inv: "vv_inv H s" and env: "vv_env_ok env"
  obtains "s' = s"
      "\<And>m. m \<in> set msgs \<Longrightarrow> \<exists>st. message_status H s m (ve_height env) = (Inr st :: (vv_error, _) result)
         \<and> \<not> needs_verification st"
  | config e sn i s1 ms where "vv_config s = Some config"
      "checked_add (ve_height env) (vc_block_expiry config) = Some e" "snapshot_wf sn"
      "s1 = s\<lparr>vv_poll_id := Some i,
              vv_polls := kv_set i (MessagesPoll (weighted_poll_new i sn e (length ms))) (vv_polls s)\<rparr>"
      "kv_get (vv_polls s) i = None" "vv_inv H s'"
      "s' = s1\<lparr>vv_poll_messages := vv_poll_messages s'\<rparr>"
      "\<And>h. h \<notin> message_hash H ` set ms \<Longrightarrow> kv_get (vv_poll_messages s') h = kv_get (vv_poll_messages s) h"
      "\<And>m. m \<in> set ms \<Longrightarrow> \<exists>c. kv_get (vv_poll_messages s') (message_hash H m) = Some c \<and> pc_poll_id c = i
          \<and> pc_content c \<in> set ms"
      "\<And>m. m \<in> set msgs \<Longrightarrow> \<exists>st. message_status H s m (ve_height env) = (Inr st :: (vv_error, _) result)
         \<and> (if needs_verification st then m \<in> set ms else m \<notin> set ms)"
      "set ms \<subseteq> set msgs"
  using run
proof (cases rule: verify_messages_Inr)
  case (1 config ws)
  have "\<exists>st. message_status H s m (ve_height env) = (Inr st :: (vv_error, _) result) \<and> \<not> needs_verification st"
    if "m \<in> set msgs" for m
  proof -
    from that obtain st where "(st, m) \<in> set ws" using batch_status_Inr(1) [OF 1(2)] by fastforce
    then show ?thesis using batch_status_Inr(2) [OF 1(2)] 1(3) by (fastforce simp: filter_empty_conv)
  qed
  then show ?thesis using that(1) 1(4) by blast
next
  case (2 config ws sn e s1 i)
  let ?ms = "map snd (filter (\<lambda>(st, _). needs_verification st) ws)"
  have wf: "snapshot_wf sn" using 2(4) env inv by (auto simp: vv_inv_def intro: take_snapshot_wf)
  have "length ?ms \<le> 2 ^ 32" using save_poll_messages_bound [OF 2(7)] 2(3) by simp
  then have size: "MessagesPoll = MessagesPoll \<and> length ?ms \<le> 2 ^ 32 \<or> MessagesPoll = ConfirmVerifierSet \<and> length ?ms = 1"
    by simp
  have "create_poll MessagesPoll s e sn (length ?ms) = Inr (s1, i)" using 2(6) by simp
  note new = vv_inv_create_poll [OF this inv wf size]
  have contents: "contents_inv (message_hash H) MessagesPoll (vv_polls s) (vv_poll_messages s)"
    using inv by (simp add: vv_inv_def)
  have "unat (pc_index_in_poll d) < 0" if "kv_get (vv_poll_messages s1) h = Some d" "pc_poll_id d = i" for h d
    using contents_inv_poll [OF contents new(3), of h d] that new(5) by simp
  from save_poll_messages_spec [OF 2(7) new(1,4) _ this]
  have saved: "vv_inv H s'" "s' = s1\<lparr>vv_poll_messages := vv_poll_messages s'\<rparr>"
    "\<forall>h. h \<notin> message_hash H ` set ?ms \<longrightarrow> kv_get (vv_poll_messages s') h = kv_get (vv_poll_messages s1) h"
    "\<forall>h \<in> message_hash H ` set ?ms. \<exists>c. kv_get (vv_poll_messages s') h = Some c \<and> pc_poll_id c = i
       \<and> pc_content c \<in> set ?ms"
    by (simp_all add: weighted_poll_new_def)
  show ?thesis
  proof (rule that(2) [of config e sn s1 i ?ms])
    fix m
    assume "m \<in> set msgs"
    then obtain st where st: "(st, m) \<in> set ws" using batch_status_Inr(1) [OF 2(2)] by fastforce
    then have "message_status H s m (ve_height env) = (Inr st :: (vv_error, _) result)"
      using batch_status_Inr(2) [OF 2(2)] by simp
    moreover have "m \<in> set ?ms \<longleftrightarrow> needs_verification st"
    proof
      assume "m \<in> set ?ms"
      then obtain st' where "(st', m) \<in> set ws" "needs_verification st'" by auto
      then show "needs_verification st" using batch_status_Inr(2) [OF 2(2)] calculation by fastforce
    qed (use st in force)
    ultimately show "\<exists>st. message_status H s m (ve_height env) = (Inr st :: (vv_error, _) result)
         \<and> (if needs_verification st then m \<in> set ?ms else m \<notin> set ?ms)" by auto
  next
    show "set ?ms \<subseteq> set msgs" using batch_status_Inr(1) [OF 2(2)] by force
  next
    fix h
    assume "h \<notin> message_hash H ` set ?ms"
    then show "kv_get (vv_poll_messages s') h = kv_get (vv_poll_messages s) h" using saved(3) new(5) by simp
  next
    fix m
    assume "m \<in> set ?ms"
    then show "\<exists>c. kv_get (vv_poll_messages s') (message_hash H m) = Some c \<and> pc_poll_id c = i
       \<and> pc_content c \<in> set ?ms" using saved(4) by blast
  qed (use 2(1,5) wf new(3,5) saved(1,2) in auto)
qed

lemma verify_messages_step:
  assumes run: "verify_messages H env s msgs = Inr (s', r)" and inv: "vv_inv H s" and env: "vv_env_ok env"
  shows "vv_inv H s' \<and> vv_extends s s'"
  using assms
proof (cases rule: verify_messages_poll)
  case 1
  then show ?thesis using inv by simp
next
  case (2 config e sn i s1 ms)
  have "v = NotFound" if m: "m \<in> set ms" and "kv_get (vv_poll_messages s) (message_hash H m) = Some c"
    "kv_get (vv_polls s) (pc_poll_id c) = Some p"
    "poll_consensus (the_weighted_poll p) (pc_index_in_poll c) = Inr (Some v)" for m c p v
  proof -
    obtain st where "message_status H s m (ve_height env) = (Inr st :: (vv_error, _) result)"
      and "needs_verification st" using 2(10) [of m] 2(11) m by (auto split: if_splits)
    then show ?thesis
      using confirmed_content_status [OF _ _ that(2-4)]
      unfolding message_status_def needs_verification_iff by blast
  qed
  then have "contents_kept (vv_polls s) (vv_poll_messages s) (vv_poll_messages s')"
    unfolding contents_kept_def using 2(8) by (metis (no_types, lifting) imageE)
  moreover have "\<exists>c'. kv_get (vv_poll_messages s') h = Some c' \<and> pc_content c' = pc_content c"
    if c: "kv_get (vv_poll_messages s) h = Some c" for h c
  proof (cases "h \<in> message_hash H ` set ms")
    case True
    then obtain c' where c': "kv_get (vv_poll_messages s') h = Some c'" "pc_content c' \<in> set ms" using 2(9) by blast
    then have h: "h = message_hash H (pc_content c')"
      using 2(6) contents_inv_get(1) unfolding vv_inv_def by blast
    obtain st where "message_status H s (pc_content c') (ve_height env) = (Inr st :: (vv_error, _) result)"
      using 2(10,11) c'(2) by blast
    then have "pc_content c' = pc_content c" using c h by (auto simp: message_status_def verification_status_of_Inr)
    then show ?thesis using c' by blast
  qed (use c 2(8) in auto)
  then have "contents_fixed (vv_poll_messages s) (vv_poll_messages s')" by (simp add: contents_fixed_def)
  moreover have "vv_polls s' = kv_set i (MessagesPoll (weighted_poll_new i sn e (length ms))) (vv_polls s)"
    "vv_poll_verifier_sets s' = vv_poll_verifier_sets s"
    using arg_cong [OF 2(7), of vv_polls] arg_cong [OF 2(7), of vv_poll_verifier_sets] 2(4) by simp_all
  ultimately show ?thesis using 2(5,6) by (simp add: vv_extends_def polls_evolve_new)
qed

lemma poll_update_step:
  assumes inv: "vv_inv H s" and p: "kv_get (vv_polls s) i = Some p"
    and w: "weighted_evolves (the_weighted_poll p) w" "poll_wf w" "wp_poll_id w = i"
    and p': "p' = (case p of MessagesPoll _ \<Rightarrow> MessagesPoll w | ConfirmVerifierSet _ \<Rightarrow> ConfirmVerifierSet w)"
    and votes: "votes_inv (kv_set i p' (vv_polls s)) votes"
  shows "vv_inv H (s\<lparr>vv_polls := kv_set i p' (vv_polls s), vv_votes := votes\<rparr>)
    \<and> vv_extends s (s\<lparr>vv_polls := kv_set i p' (vv_polls s), vv_votes := votes\<rparr>)"
proof -
  have polls: "polls_inv (vv_poll_id s) (vv_polls s)" using inv by (simp add: vv_inv_def)
  have ev: "poll_evolves p p'" using w(1) p' by (cases p) auto
  have "poll_inv i p'"
    using polls_inv_get [OF polls p] w p' by (cases p) (auto simp: weighted_evolves_def)
  then show ?thesis
    using inv polls_evolve_update [OF p ev] polls_inv_update [OF polls p] votes
    by (auto simp: vv_inv_def vv_extends_def intro: contents_inv_evolve)
qed

lemma cast_vote_id: "cast_vote w h a vs = Inr w' \<Longrightarrow> wp_poll_id w' = wp_poll_id w \<and> wp_finished w' = wp_finished w"
  by (auto simp: cast_vote_Inr_iff)

lemma poll_finish_id: "poll_finish w h = Inr w' \<Longrightarrow> wp_poll_id w' = wp_poll_id w"
  by (auto simp: poll_finish_def split: if_splits)

lemma vv_vote_Inr:
  assumes "vv_vote env s a i vs = Inr (s', r)"
  obtains p w p' where "kv_get (vv_polls s) i = Some p" "cast_vote (the_weighted_poll p) (ve_height env) a vs = Inr w"
    "p' = (case p of MessagesPoll _ \<Rightarrow> MessagesPoll w | ConfirmVerifierSet _ \<Rightarrow> ConfirmVerifierSet w)"
    "s' = s\<lparr>vv_polls := kv_set i p' (vv_polls s), vv_votes := kv_set (i, a) vs (vv_votes s)\<rparr>"
  using assms unfolding vv_vote_def by (auto simp: result_simps Let_def)

lemma end_poll_Inr:
  assumes "end_poll env s i = Inr (s', r)"
  obtains config p w p' where "vv_config s = Some config" "kv_get (vv_polls s) i = Some p"
    "poll_finish (the_weighted_poll p) (ve_height env) = Inr w"
    "p' = (case p of MessagesPoll _ \<Rightarrow> MessagesPoll w | ConfirmVerifierSet _ \<Rightarrow> ConfirmVerifierSet w)"
    "s' = s\<lparr>vv_polls := kv_set i p' (vv_polls s)\<rparr>"
  using assms unfolding end_poll_def load_vv_config_def by (auto simp: result_simps Let_def)

lemma vv_vote_step:
  assumes "vv_vote env s a i vs = Inr (s', r)" and inv: "vv_inv H s"
  shows "vv_inv H s' \<and> vv_extends s s'"
  using assms(1)
proof (cases rule: vv_vote_Inr)
  case (1 p w p')
  have wf: "poll_wf (the_weighted_poll p)" "wp_poll_id (the_weighted_poll p) = i"
    using inv 1(1) polls_inv_get poll_inv_wf unfolding vv_inv_def by blast+
  have votes: "votes_inv (vv_polls s) (vv_votes s)" using inv by (simp add: vv_inv_def)
  have p': "the_weighted_poll p' = w" using 1(3) by (cases p) auto
  show ?thesis
    unfolding 1(4)
    by (rule poll_update_step [OF inv 1(1) weighted_evolves_cast [OF wf(1) 1(2)] poll_wf_cast_vote [OF wf(1) 1(2)] _ 1(3)
          votes_inv_cast [OF votes 1(1,2) p']]) (use cast_vote_id [OF 1(2)] wf in simp)
qed

lemma end_poll_step:
  assumes "end_poll env s i = Inr (s', r)" and inv: "vv_inv H s"
  shows "vv_inv H s' \<and> vv_extends s s'"
  using assms(1)
proof (cases rule: end_poll_Inr)
  case (1 config p w p')
  have wf: "poll_wf (the_weighted_poll p)" "wp_poll_id (the_weighted_poll p) = i"
    using inv 1(2) polls_inv_get poll_inv_wf unfolding vv_inv_def by blast+
  have votes: "votes_inv (vv_polls s) (vv_votes s)" using inv by (simp add: vv_inv_def)
  have p': "the_weighted_poll p' = w" using 1(4) by (cases p) auto
  have "s' = s\<lparr>vv_polls := kv_set i p' (vv_polls s), vv_votes := vv_votes s\<rparr>" using 1(5) by simp
  then show ?thesis
    using poll_update_step [OF inv 1(2) weighted_evolves_finish [OF 1(3)] poll_wf_finish [OF wf(1) 1(3)] _ 1(4)
          votes_inv_finish [OF votes 1(2,3) p']] poll_finish_id [OF 1(3)] wf by simp
qed

lemma update_voting_parameters_step:
  assumes "update_voting_parameters s th expiry depth = Inr (s', r)" and "vv_inv H s"
    and "vv_msg_ok (UpdateVotingParameters th expiry depth)"
  shows "vv_inv H s' \<and> vv_extends s s'"
proof -
  from assms(1) obtain config where config: "vv_config s = Some config" and s': "s' = s\<lparr>vv_config := Some (config\<lparr>
      vc_voting_threshold := case_option (vc_voting_threshold config) id th,
      vc_block_expiry := case_option (vc_block_expiry config) id expiry,
      vc_confirmation_height := case_option (vc_confirmation_height config) id depth\<rparr>)\<rparr>"
    by (auto simp: update_voting_parameters_def result_simps)
  have "vv_config_inv (vv_config s')"
    using assms(2,3) config unfolding s' vv_inv_def vv_config_inv_def by (cases th; cases expiry) auto
  then show ?thesis using assms(2) unfolding s' by (simp add: vv_inv_def vv_extends_def)
qed

lemma vv_tx_step:
  assumes "vv_tx H s call = Inr (s', r)" and "vv_inv H s" and "vv_call_ok call"
  shows "vv_inv H s' \<and> vv_extends s s'"
proof -
  obtain env sender msg where call: "call = (env, sender, msg)" by (cases call)
  with assms have run: "vv_dispatch H env s sender msg = Inr (s', r)" and env: "vv_env_ok env" and msg: "vv_msg_ok msg"
    by (auto simp: vv_tx_def vv_execute_def vv_call_ok_def result_simps)
  show ?thesis
  proof (cases msg)
    case (UpdateVotingParameters th expiry depth)
    then show ?thesis using run msg update_voting_parameters_step [OF _ assms(2)] by simp
  qed (use run env assms(2) in \<open>auto dest: end_poll_step vv_vote_step verify_messages_step verify_verifier_set_step\<close>)
qed

text \<open>The verifier as a contract: its invariant holds in every reachable state.\<close>

interpretation vv: contract_machine "vv_tx H" "vv_inv H" vv_call_ok for H
  by unfold_locales (simp add: vv_tx_step)

lemma vv_instantiate_inv:
  "vv_instantiate env governance msg = Inr (s, r) \<Longrightarrow> majority_ok (vc_voting_threshold msg)
     \<Longrightarrow> vc_block_expiry msg \<noteq> 0 \<Longrightarrow> vv_inv H s"
  by (auto simp: vv_instantiate_def result_simps Let_def vv_inv_def vv_config_inv_def polls_inv_def
      contents_inv_def votes_inv_def)

lemma vv_reachable_inv: "vv_reachable H s \<Longrightarrow> vv_inv H s"
  by (induction rule: vv_reachable.induct) (auto intro: vv_instantiate_inv dest: vv_tx_step)

lemma vv_run_extends: "vv_inv H s \<Longrightarrow> list_all vv_call_ok calls \<Longrightarrow> vv_extends s (run_txs (vv_tx H) s calls)"
  by (rule vv.run_rel) (auto intro: vv_extends_trans dest: vv_tx_step)

subsection \<open>Calls that end\<close>

lemma kv_get_poll_votes: "kv_get (poll_votes s i) a = kv_get (vv_votes s) (i, a)"
proof -
  have "map_of (map (\<lambda>((_, a), vs). (a, vs)) (filter (\<lambda>((j, _), _). j = i) votes)) a = map_of votes (i, a)"
    for votes :: "(poll_id \<times> string, vote list) kv"
    by (induction votes) auto
  then show ?thesis by (simp add: poll_votes_def)
qed

lemma poll_results_ok:
  "poll_wf w \<Longrightarrow> \<exists>rs. poll_results w = (Inr rs :: ('a, _) result) \<and> length rs = length (wp_tallies w)"
proof -
  assume wf: "poll_wf w"
  then have "\<forall>t \<in> set (wp_tallies w). \<exists>c. tallies_consensus t (wp_quorum w) = (Inr c :: ('a, _) result)"
    by (meson tallies_consensus_ok)
  then obtain f where "\<forall>t \<in> set (wp_tallies w). tallies_consensus t (wp_quorum w) = (Inr (f t) :: ('a, _) result)"
    by metis
  then have "poll_results w = (Inr (map f (wp_tallies w)) :: ('a, _) result)"
    unfolding poll_results_def by (intro try_map_all_ok) simp
  then show ?thesis by auto
qed

lemma end_poll_spec:
  assumes inv: "vv_inv H s" and run: "end_poll env s i = Inr (s', r)"
  obtains config p results where "vv_config s = Some config" "kv_get (vv_polls s) i = Some p"
    "poll_results (the_weighted_poll p) = (Inr results :: (vv_error, _) result)"
    "wp_expires_at (the_weighted_poll p) \<le> ve_height env"
    "messages r = map (RecordParticipation (vc_rewards_contract config) (vc_source_chain config) (show_word i))
       (filter (\<lambda>a. case kv_get (vv_votes s) (i, a) of None \<Rightarrow> False | Some vs \<Rightarrow> voted_consensus vs results)
          (map fst (wp_participation (the_weighted_poll p))))"
proof -
  from run obtain config p w where c: "vv_config s = Some config" "kv_get (vv_polls s) i = Some p"
    and w: "poll_finish (the_weighted_poll p) (ve_height env) = Inr w"
    by (rule end_poll_Inr)
  then have fin: "wp_expires_at (the_weighted_poll p) \<le> ve_height env" "w = (the_weighted_poll p)\<lparr>wp_finished := True\<rparr>"
    by (auto simp: poll_finish_def split: if_splits)
  obtain p' where p': "poll_try_map p (\<lambda>p. map_err VoteError (poll_finish p (ve_height env))) = Inr p'"
    and w': "the_weighted_poll p' = w"
    using w by (cases p) auto
  obtain results where res: "poll_results w = (Inr results :: (vv_error, _) result)"
    using run c p' w' unfolding end_poll_def load_vv_config_def weighted_poll_state_def
    by (auto simp: result_simps Let_def poll_results_def)
  have r: "messages r = map (RecordParticipation (vc_rewards_contract config) (vc_source_chain config) (show_word i))
       (filter (\<lambda>a. case kv_get (poll_votes s i) a of None \<Rightarrow> False | Some vs \<Rightarrow> voted_consensus vs results)
          (map fst (wp_participation w)))"
    using run c p' w' res unfolding end_poll_def load_vv_config_def weighted_poll_state_def poll_results_def
    by (auto simp: result_simps Let_def poll_votes_def)
  show thesis
    by (rule that [OF c]) (use fin res r in \<open>simp_all add: poll_results_def kv_get_poll_votes\<close>)
qed

lemma poll_finished_extends:
  assumes "vv_extends s s'" and "kv_get (vv_polls s) i = Some p" and "wp_finished (the_weighted_poll p)"
  shows "\<exists>q. kv_get (vv_polls s') i = Some q \<and> wp_finished (the_weighted_poll q)"
proof -
  from assms(1,2) obtain q where "kv_get (vv_polls s') i = Some q" "poll_evolves p q"
    unfolding vv_extends_def polls_evolve_def by blast
  then show ?thesis using poll_evolves_weighted [of p q] assms(3) by (auto simp: weighted_evolves_def)
qed

lemma end_poll_again:
  assumes "vv_config s = Some config" "kv_get (vv_polls s) i = Some p" "wp_finished (the_weighted_poll p)"
  shows "end_poll env s i = fail (VoteError PollNotInProgress)"
  using assms by (cases p) (simp_all add: end_poll_def load_vv_config_def poll_finish_def)

subsection \<open>New polls\<close>

lemma new_poll_open:
  assumes "checked_add h expiry = Some e" and "expiry \<noteq> 0"
  shows "\<not> voting_completed (MessagesPoll (weighted_poll_new i sn e n)) h"
proof -
  have "h < e" using checked_add_unat [OF assms(1)] assms(2) by (simp add: word_less_nat_alt unat_gt_0)
  then show ?thesis by (simp add: voting_completed_def weighted_poll_status_def weighted_poll_new_def)
qed

lemma new_poll_consensus:
  assumes "snapshot_wf sn" and "unat k < n"
  shows "poll_consensus (weighted_poll_new i sn e n) k = Inr None"
proof -
  have "sn_quorum sn \<noteq> 0" using assms(1) by (auto simp: snapshot_wf_def)
  then show ?thesis
    using assms(2) by (simp add: poll_consensus_def weighted_poll_new_def tallies_consensus_wf)
qed

subsection \<open>Panics\<close>

lemma is_panic_load_vv_config: "vv_inv H s \<Longrightarrow> \<not> is_panic (load_vv_config s)"
  by (auto simp: load_vv_config_def vv_inv_def vv_config_inv_def)

lemma is_panic_status:
  assumes "contents_inv hash kind (vv_polls s) cs" and "kind = MessagesPoll \<or> kind = ConfirmVerifierSet"
    and "polls_inv (vv_poll_id s) (vv_polls s)"
    and "case kv_get cs (hash m) of None \<Rightarrow> True | Some c \<Rightarrow> pc_content c = m"
  shows "\<not> is_panic (verification_status_of s (kv_get cs (hash m)) m h)"
proof (cases "kv_get cs (hash m)")
  case (Some c)
  obtain w where w: "kv_get (vv_polls s) (pc_poll_id c) = Some (kind w)" "unat (pc_index_in_poll c) < length (wp_tallies w)"
    using contents_inv_get(2) [OF assms(1) Some] by blast
  have "poll_wf w" using poll_inv_wf polls_inv_get [OF assms(3) w(1)] assms(2) by fastforce
  then obtain r where "poll_consensus w (pc_index_in_poll c) = Inr r"
    using tallies_consensus_ok w(2) unfolding poll_consensus_def by (metis nth_mem)
  then show ?thesis using Some w assms(2,4) by (auto simp: verification_status_of_def)
qed (simp add: verification_status_of_def)

lemma is_panic_take_snapshot:
  assumes "vv_inv H s" and "vv_env_ok env"
  shows "\<not> is_panic (take_snapshot env s chain)"
proof -
  have "\<not> is_panic (snapshot_new (ve_mul_ceil env) (vc_voting_threshold config) ps :: (vv_error, snapshot) result)"
    if "vv_config s = Some config" and "ve_active_verifiers env (vc_service_name config) chain = Some ps" and "ps \<noteq> []"
    for config ps
  proof -
    have "\<exists>q. snapshot_new (ve_mul_ceil env) (vc_voting_threshold config) ps =
       (Inr \<lparr>sn_quorum = q, sn_participants = kv_of_list (map (\<lambda>p. (p_address p, p)) ps)\<rparr> :: (vv_error, snapshot) result)
       \<and> weight_sum ps < 2 * unat q \<and> unat q \<le> weight_sum ps"
      using assms that
      by (intro snapshot_new_spec) (auto simp: vv_inv_def vv_config_inv_def vv_env_ok_def verifiers_ok_def list_all_iff)
    then show ?thesis by auto
  qed
  then show ?thesis using is_panic_load_vv_config [OF assms(1)]
    by (auto simp: take_snapshot_def load_vv_config_def nonempty_vec_try_from_def result_simps split: if_splits)
qed

lemma is_panic_save_poll_messages: "k + length ms \<le> 2 ^ 32 \<Longrightarrow> \<not> is_panic (save_poll_messages H s i k ms)"
  by (induction ms arbitrary: s k) (auto simp: poll_content_message_def)

lemma is_panic_verify_verifier_set:
  assumes inv: "vv_inv H s" and "vv_env_ok env" and "vv_no_collision H s (VerifyVerifierSet mid vs)"
  shows "\<not> is_panic (verify_verifier_set H env s mid vs)"
proof -
  have "\<not> is_panic (verifier_set_status H s vs (ve_height env) :: (vv_error, _) result)"
    unfolding verifier_set_status_def
    by (rule is_panic_status) (use assms in \<open>auto simp: vv_inv_def\<close>)
  then show ?thesis
    using is_panic_load_vv_config [OF inv] is_panic_take_snapshot [OF inv assms(2)]
    by (auto simp: verify_verifier_set_def calculate_expiration_def create_verifier_set_poll_def create_poll_def
        counter_incr_def verifier_set_confirmation_new_def)
qed

lemma is_panic_batch_status:
  assumes inv: "vv_inv H s" and "vv_no_collision H s (VvVerifyMessages msgs)"
  shows "\<not> is_panic (batch_status H env s config msgs)"
proof -
  have "\<not> is_panic (message_status H s m (ve_height env) :: (vv_error, _) result)" if "m \<in> set msgs" for m
    unfolding message_status_def
    by (rule is_panic_status) (use assms that in \<open>auto simp: vv_inv_def list_all_iff\<close>)
  then show ?thesis
    unfolding batch_status_def
    by (auto simp: validate_source_chain_def validate_source_address_def result_simps dest!: is_panic_try_map
        split: if_splits)
qed

lemma is_panic_verify_messages:
  assumes inv: "vv_inv H s" and env: "vv_env_ok env" and "vv_no_collision H s (VvVerifyMessages msgs)"
  shows "\<not> is_panic (verify_messages H env s msgs)"
proof -
  have "\<not> is_panic (save_poll_messages H s1 i 0 (map snd (filter (\<lambda>(st, _). needs_verification st) ws)))"
    if "batch_status H env s config msgs = Inr ws" for ws s1 i config
  proof (rule is_panic_save_poll_messages)
    have "length ws = length msgs" using batch_status_Inr(1) [OF that] by auto
    then show "0 + length (map snd (filter (\<lambda>(st, _). needs_verification st) ws)) \<le> 2 ^ 32"
      using assms(3) length_filter_le [of "\<lambda>(st, _). needs_verification st" ws] by simp
  qed
  then show ?thesis
    using is_panic_load_vv_config [OF inv] is_panic_take_snapshot [OF inv env] is_panic_batch_status [OF inv assms(3)]
    unfolding verify_messages_def batch_status_def [symmetric]
    by (auto simp: Let_def calculate_expiration_def create_messages_poll_def create_poll_def
        counter_incr_def tx_event_confirmation_try_from_def dest!: is_panic_try_map)
qed

lemma is_panic_load_message:
  assumes "contents_inv hash MessagesPoll ps (vv_poll_messages s)"
  shows "\<not> is_panic (load_message s i k)"
proof -
  have "length (filter (\<lambda>(_, c). pc_poll_id c = i \<and> pc_index_in_poll c = k) (vv_poll_messages s)) \<le> 1"
  proof (rule length_filter_unique)
    show "distinct (map fst (vv_poll_messages s))" using assms by (simp add: contents_inv_def kv_ok_distinct)
  qed (use assms in \<open>auto simp: contents_inv_def kv_ok_get_iff\<close>)
  then show ?thesis
    by (auto simp: load_message_def split: list.splits)
qed

lemma is_panic_load_verifier_set:
  assumes "contents_inv hash ConfirmVerifierSet ps (vv_poll_verifier_sets s)" and "polls_inv c ps"
  shows "\<not> is_panic (load_verifier_set s i)"
proof -
  have zero: "pc_index_in_poll d = 0" if "kv_get (vv_poll_verifier_sets s) h = Some d" for h d
    using contents_inv_get(2) [OF assms(1) that] polls_inv_get [OF assms(2)] by (fastforce simp: unat_eq_0)
  have "length (filter (\<lambda>(_, c). pc_poll_id c = i) (vv_poll_verifier_sets s)) \<le> 1"
  proof (rule length_filter_unique)
    show "distinct (map fst (vv_poll_verifier_sets s))" using assms by (simp add: contents_inv_def kv_ok_distinct)
  qed (use assms(1) zero in \<open>auto simp: contents_inv_def kv_ok_get_iff\<close>)
  then show ?thesis
    by (auto simp: load_verifier_set_def split: list.splits)
qed

lemma is_panic_cast_vote [simp]: "\<not> is_panic (cast_vote w h a vs)"
  by (simp add: cast_vote_def)

lemma is_panic_poll_finish [simp]: "\<not> is_panic (poll_finish w h)"
  by (simp add: poll_finish_def)

lemma is_panic_poll_try_map [simp]: "is_panic (poll_try_map p f) \<longleftrightarrow> is_panic (f (the_weighted_poll p))"
  by (cases p) auto

lemma is_panic_poll_results: "poll_wf w \<Longrightarrow> \<not> is_panic (poll_results w :: ('a, _) result)"
proof -
  assume "poll_wf w"
  then obtain rs where "poll_results w = (Inr rs :: ('a, _) result)" using poll_results_ok by blast
  then show ?thesis by simp
qed

lemma is_panic_make_quorum_event:
  assumes "contents_inv h1 MessagesPoll ps (vv_poll_messages s)" "contents_inv h2 ConfirmVerifierSet ps (vv_poll_verifier_sets s)"
    and "polls_inv c ps"
  shows "\<not> is_panic (make_quorum_event s v k i p)"
  using is_panic_load_message [OF assms(1)] is_panic_load_verifier_set [OF assms(2,3)]
  by (cases p) (simp_all add: make_quorum_event_def)

lemma is_panic_vv_vote:
  assumes inv: "vv_inv H s"
  shows "\<not> is_panic (vv_vote env s a i vs)"
proof -
  have "\<not> is_panic (vv_vote env s a i vs)" if p: "kv_get (vv_polls s) i = Some p" for p
  proof -
    have pi: "poll_inv i p" using inv p polls_inv_get unfolding vv_inv_def by blast
    then have wf: "poll_wf (the_weighted_poll p)" by (simp add: poll_inv_wf)
    have size: "length (wp_tallies (the_weighted_poll p)) \<le> 2 ^ 32" using pi by (cases p) auto
    obtain rb where rb: "poll_results (the_weighted_poll p) = (Inr rb :: (vv_error, _) result)"
      "length rb = length (wp_tallies (the_weighted_poll p))"
      using poll_results_ok [OF wf] by blast
    have "\<not> is_panic (poll_results w :: (vv_error, _) result)
        \<and> (\<forall>ra. poll_results w = (Inr ra :: (vv_error, _) result) \<longrightarrow> length ra = length rb)"
      if cast: "cast_vote (the_weighted_poll p) (ve_height env) a vs = Inr w" for w
    proof -
      obtain ra where "poll_results w = (Inr ra :: (vv_error, _) result)" "length ra = length (wp_tallies w)"
        using poll_results_ok [OF poll_wf_cast_vote [OF wf cast]] by blast
      then show ?thesis using rb(2) by (simp add: cast_vote_frame [OF cast])
    qed
    moreover have "\<not> is_panic (make_quorum_event (s\<lparr>vv_polls := ps\<rparr>) v k i q)" for ps v k q
      using inv by (intro is_panic_make_quorum_event [where ps = "vv_polls s"]) (auto simp: vv_inv_def)
    ultimately show ?thesis
      using p rb size
      by (auto simp: vv_vote_def Let_def result_simps results_difference_def dest!: is_panic_try_map
          split: poll.splits elim!: in_set_zipE)
  qed
  then show ?thesis by (cases "kv_get (vv_polls s) i") (auto simp: vv_vote_def)
qed

lemma is_panic_end_poll:
  assumes inv: "vv_inv H s"
  shows "\<not> is_panic (end_poll env s i)"
proof -
  have "\<not> is_panic (weighted_poll_state w f :: (vv_error, _) result)" if "poll_wf w" for w f
    using is_panic_poll_results [OF that] by (simp add: weighted_poll_state_def poll_results_def)
  moreover have "poll_wf (the_weighted_poll p')" if "kv_get (vv_polls s) i = Some p"
    and "poll_try_map p (\<lambda>p. map_err VoteError (poll_finish p (ve_height env))) = Inr p'" for p p'
  proof -
    have "poll_wf (the_weighted_poll p)" using inv that(1) polls_inv_get poll_inv_wf unfolding vv_inv_def by blast
    then show ?thesis using that(2) poll_wf_finish by (cases p) (auto simp: result_simps)
  qed
  ultimately show ?thesis
    using is_panic_load_vv_config [OF inv] by (auto simp: end_poll_def Let_def result_simps)
qed

lemma status_of_final:
  assumes "verification_status_of s (kv_get cs h) c height = Inr st" and "is_confirmed st"
    and "polls_evolve (vv_polls s) (vv_polls s')" and "contents_kept (vv_polls s) cs cs'"
  shows "verification_status_of s' (kv_get cs' h) c height' = Inr st"
  using assms(1,2)
proof (cases rule: status_confirmed)
  case (1 d p v)
  then obtain p' where p': "kv_get (vv_polls s') (pc_poll_id d) = Some p'"
    and "poll_consensus (the_weighted_poll p') (pc_index_in_poll d) = Inr (Some v)"
    using assms(3) poll_evolves_weighted unfolding polls_evolve_def weighted_evolves_def by metis
  moreover have "kv_get cs' h = Some d" using 1 assms(4) unfolding contents_kept_def by blast
  ultimately show ?thesis using 1 by (auto simp: verification_status_of_Inr)
qed

subsection \<open>Votes behind a success\<close>

definition majority_voted :: "(u8 list \<Rightarrow> u8 list) \<Rightarrow> vv_state \<Rightarrow> message \<Rightarrow> bool" where
  "majority_voted H s m \<longleftrightarrow> (\<exists>i k w. kv_get (vv_poll_messages s) (message_hash H m) =
        Some \<lparr>pc_content = m, pc_poll_id = i, pc_index_in_poll = k\<rparr>
    \<and> kv_get (vv_polls s) i = Some (MessagesPoll w)
    \<and> total_weight w < 2 * recorded_weight (vv_votes s) i (participant_weight w) (unat k) SucceededOnChain)"

lemma succeeded_votes:
  assumes "vv_reachable H s" and "message_status H s m height = (Inr SucceededOnSourceChain :: (vv_error, _) result)"
  shows "majority_voted H s m"
proof -
  have inv: "vv_inv H s" using assms(1) by (rule vv_reachable_inv)
  obtain c p where c: "kv_get (vv_poll_messages s) (message_hash H m) = Some c" "pc_content c = m"
    and p: "kv_get (vv_polls s) (pc_poll_id c) = Some p"
    and v: "poll_consensus (the_weighted_poll p) (pc_index_in_poll c) = Inr (Some SucceededOnChain)"
    using assms(2) unfolding message_status_def
    by (auto simp: eq_commute [of SucceededOnSourceChain] elim!: status_confirmed)
  from inv c(1) obtain w where w: "p = MessagesPoll w"
    using p unfolding vv_inv_def contents_inv_def by (metis option.inject)
  have wf: "poll_wf w" using inv p w polls_inv_get poll_inv_wf unfolding vv_inv_def by fastforce
  from v w have k: "unat (pc_index_in_poll c) < length (wp_tallies w)"
    and q: "wp_quorum w \<le> tally_of (wp_tallies w ! unat (pc_index_in_poll c)) SucceededOnChain"
    by (simp_all add: poll_consensus_iff [OF wf])
  have "unat (tally_of (wp_tallies w ! unat (pc_index_in_poll c)) SucceededOnChain) \<le>
      recorded_weight (vv_votes s) (pc_poll_id c) (participant_weight w) (unat (pc_index_in_poll c)) SucceededOnChain"
    using inv p w k unfolding vv_inv_def votes_inv_def by fastforce
  moreover have "total_weight w < 2 * unat (wp_quorum w)" using wf by (simp add: poll_wf_def)
  ultimately have "total_weight w < 2 * recorded_weight (vv_votes s) (pc_poll_id c) (participant_weight w)
      (unat (pc_index_in_poll c)) SucceededOnChain" using q by (simp add: word_le_nat_alt)
  then show ?thesis unfolding majority_voted_def
    using c p w by (intro exI [of _ "pc_poll_id c"] exI [of _ "pc_index_in_poll c"]) auto
qed

section \<open>Example\<close>

text \<open>
  A run that the witnesses below use: three verifiers of weight one, a message whose poll the
  votes of two of them decide, and the end of the poll.
\<close>

definition vv_ex_codecs :: codecs where
  "vv_ex_codecs = \<lparr>hex_decode = hex_decode_std, hex_encode = hex_encode_std, b58_decode = (\<lambda>_. None),
     b58_encode = (\<lambda>_. []), bech32m_checked = (\<lambda>_. None), eip55_ok = (\<lambda>_. True),
     sui_ok = (\<lambda>_. False), stellar_ok = (\<lambda>_. False)\<rparr>"

abbreviation vv_ex_config :: vv_config where
  "vv_ex_config \<equiv> \<lparr>vc_service_registry = ''registry'', vc_service_name = ''validators'',
     vc_source_gateway_address = ''gateway'', vc_voting_threshold = MajorityThreshold 2 3, vc_block_expiry = 10,
     vc_confirmation_height = 1, vc_source_chain = ''eth'', vc_rewards_contract = ''rewards'',
     vc_msg_id_format = HexTxHashAndEventIndexFormat, vc_address_format = Eip55\<rparr>"

abbreviation vv_ex_env :: "u64 \<Rightarrow> vv_env" where
  "vv_ex_env h \<equiv> \<lparr>ve_height = h,
     ve_active_verifiers = (\<lambda>_ _. Some [\<lparr>p_address = ''a'', p_weight = 1\<rparr>, \<lparr>p_address = ''b'', p_weight = 1\<rparr>,
       \<lparr>p_address = ''c'', p_weight = 1\<rparr>]),
     ve_mul_ceil = mul_ceil_std, ve_codecs = vv_ex_codecs, ve_addr_validate = Some\<rparr>"

definition vv_ex_id :: string where
  "vv_ex_id = ''0x'' @ hex_encode_std (replicate 32 171) @ ''-17''"

definition vv_ex_message :: message where
  "vv_ex_message = \<lparr>cc_id = CrossChainId ''eth'' vv_ex_id, source_address = ''alice'',
     destination_chain = ''avax'', destination_address = ''bob'', payload_hash = replicate 32 0\<rparr>"

abbreviation vv_ex_poll :: "u128 \<Rightarrow> bool \<Rightarrow> bool \<Rightarrow> bool \<Rightarrow> weighted_poll" where
  "vv_ex_poll t a b finished \<equiv> \<lparr>wp_poll_id = 1, wp_quorum = 2, wp_expires_at = 20, wp_poll_size = 1,
     wp_tallies = [[(''FailedOnChain'', 0), (''NotFound'', 0), (''SucceededOnChain'', t)]], wp_finished = finished,
     wp_participation = [(''a'', \<lparr>pa_weight = 1, pa_voted = a\<rparr>), (''b'', \<lparr>pa_weight = 1, pa_voted = b\<rparr>),
       (''c'', \<lparr>pa_weight = 1, pa_voted = False\<rparr>)]\<rparr>"

abbreviation vv_ex_init :: vv_state where
  "vv_ex_init \<equiv> \<lparr>vv_config = Some vv_ex_config,
     vv_perms = \<lparr>admin_addr = None, governance_addr = Some ''gov''\<rparr>,
     vv_poll_id = None, vv_polls = [], vv_votes = [], vv_poll_messages = [], vv_poll_verifier_sets = []\<rparr>"

abbreviation vv_ex_state ::
  "(u8 list \<Rightarrow> u8 list) \<Rightarrow> weighted_poll \<Rightarrow> (poll_id \<times> string, vote list) kv \<Rightarrow> vv_state" where
  "vv_ex_state H p votes \<equiv> vv_ex_init\<lparr>vv_poll_id := Some 1, vv_polls := [(1, MessagesPoll p)], vv_votes := votes,
     vv_poll_messages := [(message_hash H vv_ex_message,
       \<lparr>pc_content = vv_ex_message, pc_poll_id = 1, pc_index_in_poll = 0\<rparr>)]\<rparr>"

lemma vv_ex_message_simps [simp]:
  "cc_id vv_ex_message = CrossChainId ''eth'' vv_ex_id" "source_address vv_ex_message = ''alice''"
  "destination_chain vv_ex_message = ''avax''" "destination_address vv_ex_message = ''bob''"
  "payload_hash vv_ex_message = replicate 32 0"
  by (simp_all add: vv_ex_message_def)

lemma vv_ex_address_ok [simp]: "validate_address vv_ex_codecs a Eip55 = Inr ()"
  by (simp add: vv_ex_codecs_def ensure_def)

lemma vv_ex_id_ok [simp]: "verify_msg_id vv_ex_codecs vv_ex_id HexTxHashAndEventIndexFormat = Inr ()"
proof -
  have "show_word (17 :: u64) = ''17''" by code_simp
  then have "hex_event_from_str hex_decode_std vv_ex_id = Inr (HexTxHashAndEventIndex (replicate 32 171) 17)"
    by (simp only: std_hex.hex_event_from_str_iff) (simp add: vv_ex_id_def)
  then show ?thesis by (simp add: vv_ex_codecs_def)
qed

lemma vv_ex_instantiated:
  "vv_instantiate (vv_ex_env 1) ''gov'' vv_ex_config =
     Inr (vv_ex_init, \<lparr>messages = [], events = [VvInstantiated vv_ex_config]\<rparr>)"
  by (simp add: vv_instantiate_def validate_cosmwasm_address_def set_governance_def Let_def
      del: validate_address.simps)

lemma vv_ex_snapshot:
  "take_snapshot (vv_ex_env h) (vv_ex_init) c = Inr \<lparr>sn_quorum = 2, sn_participants =
     [(''a'', \<lparr>p_address = ''a'', p_weight = 1\<rparr>), (''b'', \<lparr>p_address = ''b'', p_weight = 1\<rparr>),
      (''c'', \<lparr>p_address = ''c'', p_weight = 1\<rparr>)]\<rparr>"
  by (simp add: take_snapshot_def load_vv_config_def nonempty_vec_try_from_def snapshot_new_def snapshot_total_def
      saturating_add_def checked_add_def mul_ceil_std_def nonempty_uint128_try_from_def kv_of_list_def less_char_def)

lemmas vv_eval = vv_tx_def vv_execute_def ensure_permissions_def general_check_def

lemma vv_ex_verify:
  "vv_tx H vv_ex_init (vv_ex_env 10, ''u'', VvVerifyMessages [vv_ex_message]) =
     Inr (vv_ex_state H (vv_ex_poll 0 False False False) [],
       \<lparr>messages = [], events = [MessagesPollStarted
          [\<lparr>te_message_id = vv_ex_id, te_destination_address = ''bob'', te_destination_chain = ''avax'',
            te_source_address = ''alice'', te_payload_hash = replicate 32 0\<rparr>]
          (metadata vv_ex_config 1 20 [''a'', ''b'', ''c''])]\<rparr>)"
  by (simp add: vv_eval verify_messages_def load_vv_config_def validate_source_chain_def validate_source_address_def
      message_status_def needs_verification_def vv_ex_snapshot calculate_expiration_def checked_add_def
      create_messages_poll_def create_poll_def counter_incr_def counter_cur_def poll_content_message_def
      weighted_poll_new_def tallies_default_def vote_iter_def kv_of_list_def less_char_def
      tx_event_confirmation_try_from_def snapshot_participants_def del: verify_msg_id.simps validate_address.simps)

lemma vv_ex_vote_a:
  "vv_tx H (vv_ex_state H (vv_ex_poll 0 False False False) []) (vv_ex_env 11, ''a'', Vote 1 [SucceededOnChain]) =
     Inr (vv_ex_state H (vv_ex_poll 1 True False False) [((1, ''a''), [SucceededOnChain])],
       \<lparr>messages = [], events = [Voted 1 ''a'' [SucceededOnChain]]\<rparr>)"
  by (simp add: vv_eval vv_vote_def poll_results_def cast_vote_def tally_def saturating_add_def checked_add_def
      results_difference_def make_quorum_event_def load_message_def Let_def less_char_def word_le_nat_alt)

lemma vv_ex_vote_b:
  "vv_tx H (vv_ex_state H (vv_ex_poll 1 True False False) [((1, ''a''), [SucceededOnChain])])
       (vv_ex_env 12, ''b'', Vote 1 [SucceededOnChain]) =
     Inr (vv_ex_state H (vv_ex_poll 2 True True False)
           [((1, ''a''), [SucceededOnChain]), ((1, ''b''), [SucceededOnChain])],
       \<lparr>messages = [], events = [Voted 1 ''b'' [SucceededOnChain],
          QuorumReachedMessage (Some vv_ex_message) SucceededOnSourceChain 1]\<rparr>)"
  by (simp add: vv_eval vv_vote_def poll_results_def cast_vote_def tally_def saturating_add_def checked_add_def
      results_difference_def make_quorum_event_def load_message_def Let_def less_char_def word_le_nat_alt vote_parse_def
      less_prod_def)

lemma vv_ex_end:
  "vv_tx H (vv_ex_state H (vv_ex_poll 2 True True False) [((1, ''a''), [SucceededOnChain]), ((1, ''b''), [SucceededOnChain])])
       (vv_ex_env 20, ''u'', EndPoll 1) =
     Inr (vv_ex_state H (vv_ex_poll 2 True True True) [((1, ''a''), [SucceededOnChain]), ((1, ''b''), [SucceededOnChain])],
       \<lparr>messages = [RecordParticipation ''rewards'' ''eth'' ''1'' ''a'', RecordParticipation ''rewards'' ''eth'' ''1'' ''b''],
        events = [PollEnded 1 ''eth'' [Some SucceededOnChain]]\<rparr>)"
proof -
  have "show_word (1 :: u64) = ''1''" by code_simp
  then show ?thesis
    by (simp add: vv_eval end_poll_def load_vv_config_def poll_finish_def weighted_poll_state_def poll_votes_def
        voted_consensus_def vote_parse_def Let_def word_le_nat_alt)
qed

lemma vv_ex_env_ok: "vv_env_ok (vv_ex_env h)"
  by (simp add: vv_env_ok_def mul_ceil_std_rounds_up verifiers_ok_def weight_sum_def)

lemma vv_ex_reachable:
  "vv_reachable H vv_ex_init"
  "vv_reachable H (vv_ex_state H (vv_ex_poll 0 False False False) [])"
  "vv_reachable H (vv_ex_state H (vv_ex_poll 2 True True False)
     [((1, ''a''), [SucceededOnChain]), ((1, ''b''), [SucceededOnChain])])"
proof -
  show init: "vv_reachable H vv_ex_init"
    by (rule vv_init [OF vv_ex_instantiated]) (simp_all add: majority_ok_def)
  show started: "vv_reachable H (vv_ex_state H (vv_ex_poll 0 False False False) [])"
    by (rule vv_step [OF init _ vv_ex_verify]) (simp add: vv_call_ok_def vv_ex_env_ok)
  show "vv_reachable H (vv_ex_state H (vv_ex_poll 2 True True False)
     [((1, ''a''), [SucceededOnChain]), ((1, ''b''), [SucceededOnChain])])"
    by (rule vv_step [OF vv_step [OF started _ vv_ex_vote_a] _ vv_ex_vote_b])
      (simp_all add: vv_call_ok_def vv_ex_env_ok)
qed

lemma vv_ex_status:
  "message_status H (vv_ex_state H (vv_ex_poll 2 True True b)
     [((1, ''a''), [SucceededOnChain]), ((1, ''b''), [SucceededOnChain])]) vv_ex_message h =
   (Inr SucceededOnSourceChain :: (vv_error, _) result)"
  by (simp add: message_status_def verification_status_of_def assert_or_panic_def poll_consensus_def vote_parse_def
      word_le_nat_alt)

text \<open>Two verifier sets with the same hash: their signer stands under different addresses.\<close>

abbreviation vv_ex_set :: "string \<Rightarrow> verifier_set" where
  "vv_ex_set a \<equiv> \<lparr>vs_signers = [(a, \<lparr>sg_address = ''x'', sg_weight = 1, sg_pub_key = PkEcdsa []\<rparr>)],
     vs_threshold = 1, vs_created_at = 1\<rparr>"

lemma vv_ex_verify_set:
  "vv_tx H vv_ex_init (vv_ex_env 10, u, VerifyVerifierSet vv_ex_id (vv_ex_set a)) =
     Inr (vv_ex_init\<lparr>vv_poll_id := Some 1, vv_polls := [(1, ConfirmVerifierSet (vv_ex_poll 0 False False False))],
            vv_poll_verifier_sets := [(verifier_set_hash H (vv_ex_set a),
              \<lparr>pc_content = vv_ex_set a, pc_poll_id = 1, pc_index_in_poll = 0\<rparr>)]\<rparr>,
       \<lparr>messages = [], events = [VerifierSetPollStarted vv_ex_id (vv_ex_set a)
          (metadata vv_ex_config 1 20 [''a'', ''b'', ''c''])]\<rparr>)"
  by (simp add: vv_eval verify_verifier_set_def verifier_set_status_def load_vv_config_def vv_ex_snapshot
      calculate_expiration_def checked_add_def create_verifier_set_poll_def create_poll_def counter_incr_def counter_cur_def
      poll_content_verifier_set_def weighted_poll_new_def tallies_default_def vote_iter_def kv_of_list_def less_char_def
      verifier_set_confirmation_new_def snapshot_participants_def del: verify_msg_id.simps)

lemma vv_ex_set_reachable:
  "vv_reachable H (commit vv_ex_init (vv_tx H vv_ex_init (vv_ex_env 10, u, VerifyVerifierSet vv_ex_id (vv_ex_set a))))"
  unfolding vv_ex_verify_set commit_Inr
  by (rule vv_step [OF vv_ex_reachable(1) _ vv_ex_verify_set]) (simp add: vv_call_ok_def vv_ex_env_ok)

section \<open>Properties\<close>

text \<open>
  C12. A verdict is final. Once the verifier reports that a message, or a verifier set, succeeded
  or failed on the source chain, it reports the same verdict at every later block height, after
  any transactions of any senders. The hash function may even have collisions.
\<close>

theorem confirmed_status_final:
  assumes "vv_reachable H s" and "list_all vv_call_ok calls" and "is_confirmed st"
  shows "(message_status H s m height = (Inr st :: (vv_error, _) result) \<longrightarrow>
      message_status H (run_txs (vv_tx H) s calls) m height' = (Inr st :: (vv_error, _) result))
    \<and> (verifier_set_status H s vs height = (Inr st :: (vv_error, _) result) \<longrightarrow>
      verifier_set_status H (run_txs (vv_tx H) s calls) vs height' = (Inr st :: (vv_error, _) result))"
proof -
  have "vv_extends s (run_txs (vv_tx H) s calls)"
    using vv_reachable_inv [OF assms(1)] assms(2) by (rule vv_run_extends)
  then show ?thesis
    by (auto simp: vv_extends_def message_status_def verifier_set_status_def
        intro: status_of_final [OF _ assms(3)])
qed

theorem confirmed_status_final_witness:
  "message_status (\<lambda>x. x) (run_txs (vv_tx (\<lambda>x. x)) (vv_ex_state (\<lambda>x. x) (vv_ex_poll 2 True True False)
       [((1, ''a''), [SucceededOnChain]), ((1, ''b''), [SucceededOnChain])])
     [(vv_ex_env 13, ''c'', Vote 1 [FailedOnChain]), (vv_ex_env 20, ''u'', EndPoll 1)]) vv_ex_message 30 =
   (Inr SucceededOnSourceChain :: (vv_error, _) result)"
proof -
  have "list_all vv_call_ok [(vv_ex_env 13, ''c'', Vote 1 [FailedOnChain]), (vv_ex_env 20, ''u'', EndPoll 1)]"
    by (simp add: vv_call_ok_def vv_ex_env_ok)
  then show ?thesis
    by (rule confirmed_status_final [OF vv_ex_reachable(3) _ is_confirmed_simps(1), THEN conjunct1, THEN mp,
          OF _ vv_ex_status])
qed

text \<open>
  C3. A message is reported as succeeded on the source chain only if it is stored with a poll
  whose participants recorded votes for its success that carry more than half of the weight of
  all participants of the poll.
\<close>

theorem success_needs_votes:
  assumes "vv_reachable H s" and "message_status H s m height = (Inr SucceededOnSourceChain :: (vv_error, _) result)"
  shows "\<exists>i k w. kv_get (vv_poll_messages s) (message_hash H m) =
        Some \<lparr>pc_content = m, pc_poll_id = i, pc_index_in_poll = k\<rparr>
    \<and> kv_get (vv_polls s) i = Some (MessagesPoll w)
    \<and> total_weight w < 2 * recorded_weight (vv_votes s) i (participant_weight w) (unat k) SucceededOnChain"
  using succeeded_votes [OF assms] unfolding majority_voted_def .

theorem success_needs_votes_witness:
  "\<exists>i k w. kv_get (vv_polls (vv_ex_state (\<lambda>x. x) (vv_ex_poll 2 True True False)
       [((1, ''a''), [SucceededOnChain]), ((1, ''b''), [SucceededOnChain])])) i = Some (MessagesPoll w)
     \<and> total_weight w < 2 * recorded_weight [((1, ''a''), [SucceededOnChain]), ((1, ''b''), [SucceededOnChain])]
         i (participant_weight w) k SucceededOnChain"
  using success_needs_votes [OF vv_ex_reachable(3) vv_ex_status, where H = "\<lambda>x. x"] by force

lemma distinct_count_list: "distinct xs \<Longrightarrow> count_list xs x = (if x \<in> set xs then 1 else 0)"
  by (induction xs) auto

text \<open>
  C31. When a poll is ended, the voting period is over, and the participation records that are sent
  are exactly the ones for the participants whose recorded votes agree with every verdict of the
  poll: each of them gets one record for this poll and chain, at the rewards contract, and nobody
  else does. The poll is never ended again, whatever transactions follow.
\<close>

theorem poll_rewards_exact:
  assumes "vv_reachable H s" and "vv_tx H s (env, sender, EndPoll i) = Inr (s', r)" and "vv_env_ok env"
    and "list_all vv_call_ok calls"
  shows "(\<exists>config p results. vv_config s = Some config \<and> kv_get (vv_polls s) i = Some p
      \<and> poll_results (the_weighted_poll p) = (Inr results :: (vv_error, _) result)
      \<and> wp_expires_at (the_weighted_poll p) \<le> ve_height env
      \<and> (\<forall>contract chain event a. count_list (messages r) (RecordParticipation contract chain event a) =
           (if contract = vc_rewards_contract config \<and> chain = vc_source_chain config \<and> event = show_word i
              \<and> (\<exists>vs. kv_get (vv_votes s) (i, a) = Some vs \<and> voted_consensus vs results) then 1 else 0)))
    \<and> vv_tx H (run_txs (vv_tx H) s' calls) (env', sender', EndPoll i) = fail (VoteError PollNotInProgress)"
proof
  have inv: "vv_inv H s" using assms(1) by (rule vv_reachable_inv)
  have run: "end_poll env s i = Inr (s', r)" using assms(2) by (simp add: vv_tx_def vv_execute_def)
  from inv run obtain config p results where c: "vv_config s = Some config" "kv_get (vv_polls s) i = Some p"
    "poll_results (the_weighted_poll p) = (Inr results :: (vv_error, _) result)"
    "wp_expires_at (the_weighted_poll p) \<le> ve_height env"
    and r: "messages r = map (RecordParticipation (vc_rewards_contract config) (vc_source_chain config) (show_word i))
       (filter (\<lambda>a. case kv_get (vv_votes s) (i, a) of None \<Rightarrow> False | Some vs \<Rightarrow> voted_consensus vs results)
          (map fst (wp_participation (the_weighted_poll p))))"
    by (rule end_poll_spec)
  have "poll_wf (the_weighted_poll p)" using inv c(2) polls_inv_get poll_inv_wf unfolding vv_inv_def by blast
  then have "distinct (map fst (wp_participation (the_weighted_poll p)))" by (simp add: poll_wf_def kv_ok_distinct)
  then have "distinct (messages r)" unfolding r by (simp add: distinct_map inj_on_def)
  moreover have "a \<in> fst ` set (wp_participation (the_weighted_poll p))" if "kv_get (vv_votes s) (i, a) = Some vs" for a vs
  proof -
    have "has_voted (the_weighted_poll p) a"
      using inv that c(2) unfolding vv_inv_def votes_inv_def by (metis option.discI option.inject)
    then show ?thesis by (force simp: has_voted_def dest: map_of_SomeD)
  qed
  then have "set (messages r) = RecordParticipation (vc_rewards_contract config) (vc_source_chain config) (show_word i)
          ` {a. \<exists>vs. kv_get (vv_votes s) (i, a) = Some vs \<and> voted_consensus vs results}"
    unfolding r by (fastforce split: option.splits)
  ultimately have "\<forall>contract chain event a. count_list (messages r) (RecordParticipation contract chain event a) =
      (if contract = vc_rewards_contract config \<and> chain = vc_source_chain config \<and> event = show_word i
         \<and> (\<exists>vs. kv_get (vv_votes s) (i, a) = Some vs \<and> voted_consensus vs results) then 1 else 0)"
    by (auto simp: distinct_count_list)
  then show "\<exists>config p results. vv_config s = Some config \<and> kv_get (vv_polls s) i = Some p
      \<and> poll_results (the_weighted_poll p) = (Inr results :: (vv_error, _) result)
      \<and> wp_expires_at (the_weighted_poll p) \<le> ve_height env
      \<and> (\<forall>contract chain event a. count_list (messages r) (RecordParticipation contract chain event a) =
           (if contract = vc_rewards_contract config \<and> chain = vc_source_chain config \<and> event = show_word i
              \<and> (\<exists>vs. kv_get (vv_votes s) (i, a) = Some vs \<and> voted_consensus vs results) then 1 else 0))"
    using c by blast
  have inv': "vv_inv H s'" using end_poll_step [OF run inv] by simp
  from run obtain p' where p': "kv_get (vv_polls s') i = Some p'" "wp_finished (the_weighted_poll p')"
    by (rule end_poll_Inr) (auto simp: poll_finish_def split: if_splits poll.splits)
  let ?s = "run_txs (vv_tx H) s' calls"
  have "vv_inv H ?s" using inv' assms(4) by (rule vv.run_inv)
  then obtain config' where "vv_config ?s = Some config'" by (auto simp: vv_inv_def vv_config_inv_def)
  moreover obtain q where "kv_get (vv_polls ?s) i = Some q" "wp_finished (the_weighted_poll q)"
    using poll_finished_extends [OF vv_run_extends [OF inv' assms(4)] p'] by blast
  ultimately show "vv_tx H ?s (env', sender', EndPoll i) = fail (VoteError PollNotInProgress)"
    by (simp add: vv_tx_def vv_execute_def end_poll_again)
qed

theorem poll_rewards_exact_witness:
  "\<exists>s' r. vv_tx (\<lambda>x. x) (vv_ex_state (\<lambda>x. x) (vv_ex_poll 2 True True False)
         [((1, ''a''), [SucceededOnChain]), ((1, ''b''), [SucceededOnChain])]) (vv_ex_env 20, ''u'', EndPoll 1) = Inr (s', r)
     \<and> length (messages r) = 2
     \<and> vv_tx (\<lambda>x. x) (run_txs (vv_tx (\<lambda>x. x)) s' []) (vv_ex_env 30, ''u'', EndPoll 1) = fail (VoteError PollNotInProgress)"
  by (intro exI conjI, rule vv_ex_end, simp,
      rule poll_rewards_exact [OF vv_ex_reachable(3) vv_ex_end vv_ex_env_ok, THEN conjunct2], simp)

text \<open>
  Verification makes progress. After a successful call of \<open>VerifyMessages\<close> every message of
  the batch has a verdict or is being voted on: none is left unknown, not found or expired.
\<close>

lemma verification_starts:
  assumes "vv_reachable H s" and "vv_env_ok env"
    and "vv_tx H s (env, sender, VvVerifyMessages msgs) = Inr (s', r)"
    and "inj_on (message_hash H) (set msgs)" and "m \<in> set msgs"
  shows "\<exists>st. message_status H s' m (ve_height env) = (Inr st :: (vv_error, _) result)
    \<and> (st = InProgress \<or> is_confirmed st)"
proof -
  have inv: "vv_inv H s" using assms(1) by (rule vv_reachable_inv)
  have run: "verify_messages H env s msgs = Inr (s', r)" using assms(3) by (simp add: vv_tx_def vv_execute_def)
  from run inv assms(2) show ?thesis
  proof (cases rule: verify_messages_poll)
    case 1
    then show ?thesis using assms(5) by (auto simp: needs_verification_iff)
  next
    case (2 config e sn i s1 ms)
    have polls: "vv_polls s' = kv_set i (MessagesPoll (weighted_poll_new i sn e (length ms))) (vv_polls s)"
      using arg_cong [OF 2(7), of vv_polls] 2(4) by simp
    show ?thesis
    proof (cases "m \<in> set ms")
      case True
      then obtain c where c: "kv_get (vv_poll_messages s') (message_hash H m) = Some c" "pc_poll_id c = i"
        "pc_content c \<in> set ms" using 2(9) by blast
      have contents: "contents_inv (message_hash H) MessagesPoll (vv_polls s') (vv_poll_messages s')"
        using 2(6) by (simp add: vv_inv_def)
      have "message_hash H (pc_content c) = message_hash H m" using contents_inv_get(1) [OF contents c(1)] by simp
      then have "pc_content c = m" using inj_onD [OF assms(4)] c(3) 2(11) assms(5) by blast
      moreover have "unat (pc_index_in_poll c) < length ms"
        using contents_inv_get(2) [OF contents c(1)] c(2) polls by (simp add: weighted_poll_new_def)
      moreover have "vc_block_expiry config \<noteq> 0" using inv 2(1) by (simp add: vv_inv_def vv_config_inv_def)
      ultimately have "message_status H s' m (ve_height env) = (Inr InProgress :: (vv_error, _) result)"
        using c(1,2) polls new_poll_consensus [OF 2(3)] new_poll_open [OF 2(2)]
        by (simp add: message_status_def verification_status_of_def assert_or_panic_def)
      then show ?thesis by simp
    next
      case False
      obtain st where st: "message_status H s m (ve_height env) = (Inr st :: (vv_error, _) result)"
        "\<not> needs_verification st" using 2(10) [OF assms(5)] False by (auto split: if_splits)
      have "message_hash H m \<notin> message_hash H ` set ms"
        using inj_on_image_mem_iff [OF assms(4,5) 2(11)] False by blast
      then have "kv_get (vv_poll_messages s') (message_hash H m) = kv_get (vv_poll_messages s) (message_hash H m)"
        using 2(8) by blast
      moreover have "kv_get (vv_polls s') j = Some p" if "kv_get (vv_polls s) j = Some p" for j p
        using that 2(5) polls by auto
      ultimately have "message_status H s' m (ve_height env) = (Inr st :: (vv_error, _) result)"
        using st unfolding message_status_def verification_status_of_Inr by metis
      then show ?thesis using st(2) by (auto simp: needs_verification_iff)
    qed
  qed
qed

lemma verification_starts_example:
  "\<exists>s' r st. vv_tx (\<lambda>x. x) vv_ex_init (vv_ex_env 10, ''u'', VvVerifyMessages [vv_ex_message]) = Inr (s', r)
     \<and> message_status (\<lambda>x. x) s' vv_ex_message 10 = (Inr st :: (vv_error, _) result)
     \<and> st \<in> {InProgress, SucceededOnSourceChain, FailedOnSourceChain}"
proof -
  have "inj_on (message_hash (\<lambda>x. x)) (set [vv_ex_message])" by simp
  from verification_starts [OF vv_ex_reachable(1) vv_ex_env_ok vv_ex_verify this, of vv_ex_message]
  obtain st where st: "message_status (\<lambda>x. x) (vv_ex_state (\<lambda>x. x) (vv_ex_poll 0 False False False) []) vv_ex_message 10 =
      (Inr st :: (vv_error, _) result)" "st = InProgress \<or> is_confirmed st" by auto
  then have "st \<in> {InProgress, SucceededOnSourceChain, FailedOnSourceChain}" by (cases st) auto
  with st(1) show ?thesis using vv_ex_verify by blast
qed

text \<open>
  C32. The verifier does not panic: in a reachable state every call returns normally or with an
  error, as long as the message or verifier set to verify does not collide with another stored
  under the same hash and a batch has at most \<open>2^32\<close> messages.
\<close>

theorem vv_never_panics:
  assumes "vv_reachable H s" and "vv_call_ok (env, sender, msg)" and "vv_no_collision H s msg"
  shows "\<not> is_panic (vv_tx H s (env, sender, msg))"
proof -
  have inv: "vv_inv H s" using assms(1) by (rule vv_reachable_inv)
  have env: "vv_env_ok env" using assms(2) by (simp add: vv_call_ok_def)
  have "\<not> is_panic (vv_dispatch H env s sender msg)"
  proof (cases msg)
    case (VvVerifyMessages msgs)
    then show ?thesis using assms(3) is_panic_verify_messages [OF inv env] by simp
  next
    case (VerifyVerifierSet mid vs)
    then show ?thesis using assms(3) is_panic_verify_verifier_set [OF inv env] by simp
  qed (use inv in \<open>simp_all add: is_panic_vv_vote is_panic_end_poll update_voting_parameters_def\<close>)
  then show ?thesis
    by (simp add: vv_tx_def vv_execute_def ensure_permissions_def is_panic_specific_check)
qed

theorem vv_never_panics_witness:
  "\<not> is_panic (vv_tx (\<lambda>x. x) (vv_ex_state (\<lambda>x. x) (vv_ex_poll 0 False False False) [])
     (vv_ex_env 30, ''u'', VvVerifyMessages [vv_ex_message]))"
  by (rule vv_never_panics [OF vv_ex_reachable(2)]) (simp_all add: vv_call_ok_def vv_ex_env_ok)

text \<open>
  C38. A stored verifier set cannot be displaced. If a set is stored under the hash of another
  one, the status query of the other set and every attempt to verify it panic, then and after
  any transactions. Since the hash leaves out the addresses under which the signers stand, two
  sets that differ only there have the same hash: who first has the wrong one verified blocks
  the right one for good.
\<close>

theorem verifier_set_blocked:
  assumes "vv_reachable H s" and "list_all vv_call_ok calls"
    and "kv_get (vv_poll_verifier_sets s) (verifier_set_hash H vs) = Some c" and "pc_content c \<noteq> vs"
  shows "is_panic (verifier_set_status H (run_txs (vv_tx H) s calls) vs height :: (vv_error, _) result)
    \<and> is_panic (vv_tx H (run_txs (vv_tx H) s calls) (env, sender, VerifyVerifierSet mid vs))"
proof -
  obtain c' where "kv_get (vv_poll_verifier_sets (run_txs (vv_tx H) s calls)) (verifier_set_hash H vs) = Some c'"
    and "pc_content c' = pc_content c"
    using vv_run_extends [OF vv_reachable_inv [OF assms(1)] assms(2)] assms(3)
    unfolding vv_extends_def contents_fixed_def by blast
  then have "is_panic (verifier_set_status H (run_txs (vv_tx H) s calls) vs h :: (vv_error, _) result)" for h
    using assms(4) by (simp add: verifier_set_status_def verification_status_of_def)
  then show ?thesis by (simp add: vv_tx_def vv_execute_def verify_verifier_set_def)
qed

theorem verifier_set_blocked_witness:
  "is_panic (verifier_set_status (\<lambda>x. x) (run_txs (vv_tx (\<lambda>x. x)) vv_ex_init
     [(vv_ex_env 10, ''attacker'', VerifyVerifierSet vv_ex_id (vv_ex_set ''y'')), (vv_ex_env 20, ''u'', EndPoll 1)])
     (vv_ex_set ''x'') 30 :: (vv_error, _) result)"
proof -
  let ?s = "commit vv_ex_init (vv_tx (\<lambda>x. x) vv_ex_init (vv_ex_env 10, ''attacker'', VerifyVerifierSet vv_ex_id (vv_ex_set ''y'')))"
  have "verifier_set_hash (\<lambda>x. x) (vv_ex_set ''x'') = verifier_set_hash (\<lambda>x. x) (vv_ex_set ''y'')"
    by (rule verifier_set_hash_ignores_keys) simp_all
  moreover have "kv_get (vv_poll_verifier_sets ?s) (verifier_set_hash (\<lambda>x. x) (vv_ex_set ''y'')) =
      Some \<lparr>pc_content = vv_ex_set ''y'', pc_poll_id = 1, pc_index_in_poll = 0\<rparr>"
    using vv_ex_verify_set by simp
  ultimately show ?thesis
    using verifier_set_blocked [where H = "\<lambda>x. x" and vs = "vv_ex_set ''x''"
        and calls = "[(vv_ex_env 20, ''u'', EndPoll 1)]", OF vv_ex_set_reachable]
    by (simp add: vv_call_ok_def vv_ex_env_ok)
qed

end
