(* ===== verification/Gateway.thy ===== *)
theory Gateway
  imports Router Voting_Verifier
begin

text \<open>
  The gateway of an external chain, \<open>contracts/gateway/src\<close>: it has messages of its chain
  verified, hands the verified ones to the router, and stores the messages that the router sends
  to its chain. The status query to its verifier is an argument, \<open>None\<close> if the query fails; the
  locale \<open>verifier_client\<close> states what the gateway relies on, and the voting verifier's own query
  interprets it.
\<close>

section \<open>Definitions\<close>

subsection \<open>State\<close>

record gw_config =
  gc_verifier :: string
  gc_router :: string

record gw_state =
  gw_config :: "gw_config option"
  gw_perms :: permission_state
  gw_outgoing :: "(cross_chain_id, message) kv"

datatype gw_state_error =
    MissingConfig
  | MessageMismatch cross_chain_id
  | GwMessageNotFound cross_chain_id

datatype gw_error =
    DuplicateMessageIds
  | MessageStatus
  | GwVerifyMessages
  | RouteOutgoingMessages
  | RouteIncomingMessages
  | OutgoingMessages
  | SaveOutgoingMessage
  | GwExecute
  | GwPermissionErr permission_error
  | GwAddressErr address_error

definition gw_load_config :: "gw_state \<Rightarrow> (gw_state_error, gw_config) result" where
  "gw_load_config s = ok_or MissingConfig (gw_config s)"

definition load_outgoing_message :: "gw_state \<Rightarrow> cross_chain_id \<Rightarrow> (gw_state_error, message) result" where
  "load_outgoing_message s i = ok_or (GwMessageNotFound i) (kv_get (gw_outgoing s) i)"

definition save_outgoing_message ::
  "(u8 list \<Rightarrow> u8 list) \<Rightarrow> gw_state \<Rightarrow> cross_chain_id \<Rightarrow> message \<Rightarrow> (gw_state_error, gw_state) result" where
  "save_outgoing_message H s i msg =
     (case kv_get (gw_outgoing s) i of
        Some existing \<Rightarrow>
          if message_hash H msg \<noteq> message_hash H existing then fail (MessageMismatch (cc_id msg)) else Ok s
      | None \<Rightarrow> Ok (s\<lparr>gw_outgoing := kv_set i msg (gw_outgoing s)\<rparr>))"

datatype gw_event =
    Verifying message
  | AlreadyVerified message
  | AlreadyRejected message
  | GwRouting message
  | UnfitForRouting message

datatype gw_out =
    ToVerifier (gv_contract: string) (gv_msgs: "message list")
  | ToRouter (gr_contract: string) (gr_msgs: "message list")

type_synonym gw_response = "(gw_out, gw_event) response"

subsection \<open>Messages by status\<close>

definition check_for_duplicates :: "message list \<Rightarrow> (gw_error, message list) result" where
  "check_for_duplicates msgs =
     (if duplicates (map cc_id msgs) \<noteq> [] then fail DuplicateMessageIds else Ok msgs)"

text \<open>The statuses in the order of their declaration, by which the groups are sorted.\<close>

definition status_order :: "verification_status list" where
  "status_order = [SucceededOnSourceChain, FailedOnSourceChain, NotFoundOnSourceChain, FailedToVerify, InProgress, Unknown]"

definition group_by_status ::
  "(message \<times> verification_status) list \<Rightarrow> (verification_status \<times> message list) list" where
  "group_by_status msgs_with_status =
     map (\<lambda>st. (st, map fst (filter (\<lambda>(_, s). s = st) msgs_with_status)))
       (filter (\<lambda>st. st \<in> snd ` set msgs_with_status) status_order)"

fun filter_verifiable_messages :: "verification_status \<Rightarrow> message list \<Rightarrow> message list" where
  "filter_verifiable_messages Unknown msgs = msgs"
| "filter_verifiable_messages NotFoundOnSourceChain msgs = msgs"
| "filter_verifiable_messages FailedToVerify msgs = msgs"
| "filter_verifiable_messages _ msgs = []"

fun into_verify_events :: "verification_status \<Rightarrow> message list \<Rightarrow> gw_event list" where
  "into_verify_events SucceededOnSourceChain msgs = map AlreadyVerified msgs"
| "into_verify_events FailedOnSourceChain msgs = map AlreadyRejected msgs"
| "into_verify_events _ msgs = map Verifying msgs"

definition filter_routable_messages :: "verification_status \<Rightarrow> message list \<Rightarrow> message list" where
  "filter_routable_messages status msgs = (if status = SucceededOnSourceChain then msgs else [])"

fun into_route_events :: "verification_status \<Rightarrow> message list \<Rightarrow> gw_event list" where
  "into_route_events SucceededOnSourceChain msgs = map GwRouting msgs"
| "into_route_events _ msgs = map UnfitForRouting msgs"

definition flat_unzip :: "('a list \<times> 'b list) list \<Rightarrow> 'a list \<times> 'b list" where
  "flat_unzip x = (concat (map fst x), concat (map snd x))"

definition gw_verify ::
  "string \<Rightarrow> (verification_status \<times> message list) list \<Rightarrow> gw_out option \<times> gw_event list" where
  "gw_verify verifier msgs_by_status =
     (let (msgs, events) = flat_unzip (map (\<lambda>(status, msgs).
        (filter_verifiable_messages status msgs, into_verify_events status msgs)) msgs_by_status)
      in (map_option (ToVerifier verifier) (to_none_if_empty msgs), events))"

definition gw_route ::
  "string \<Rightarrow> (verification_status \<times> message list) list \<Rightarrow> gw_out option \<times> gw_event list" where
  "gw_route router msgs_by_status =
     (let (msgs, events) = flat_unzip (map (\<lambda>(status, msgs).
        (filter_routable_messages status msgs, into_route_events status msgs)) msgs_by_status)
      in (map_option (ToRouter router) (to_none_if_empty msgs), events))"

text \<open>The query for the status of messages, which is not sent for an empty list.\<close>

type_synonym status_query = "message list \<Rightarrow> (message \<times> verification_status) list option"

definition client_messages_status ::
  "status_query \<Rightarrow> message list \<Rightarrow> (gw_error, (message \<times> verification_status) list) result" where
  "client_messages_status query msgs =
     (case msgs of [] \<Rightarrow> Ok [] | _ \<Rightarrow> ok_or MessageStatus (query msgs))"

definition gw_apply ::
  "status_query \<Rightarrow> message list
     \<Rightarrow> ((verification_status \<times> message list) list \<Rightarrow> gw_out option \<times> gw_event list)
     \<Rightarrow> (gw_error, gw_response) result" where
  "gw_apply query msgs action =
     and_then (check_for_duplicates msgs) (\<lambda>msgs.
     and_then (client_messages_status query msgs) (\<lambda>msgs_with_status.
     let (msg, events) = action (group_by_status msgs_with_status) in
     Ok \<lparr>messages = (case msg of None \<Rightarrow> [] | Some m \<Rightarrow> [m]), events = events\<rparr>))"

subsection \<open>Operations\<close>

definition gw_verify_messages ::
  "status_query \<Rightarrow> string \<Rightarrow> message list \<Rightarrow> (gw_error, gw_response) result" where
  "gw_verify_messages query verifier msgs = gw_apply query msgs (gw_verify verifier)"

definition route_incoming_messages ::
  "status_query \<Rightarrow> string \<Rightarrow> message list \<Rightarrow> (gw_error, gw_response) result" where
  "route_incoming_messages query router msgs = gw_apply query msgs (gw_route router)"

definition route_outgoing_messages ::
  "(u8 list \<Rightarrow> u8 list) \<Rightarrow> gw_state \<Rightarrow> message list \<Rightarrow> (gw_error, gw_state \<times> gw_response) result" where
  "route_outgoing_messages H s verified =
     and_then (check_for_duplicates verified) (\<lambda>msgs.
     and_then (try_fold (\<lambda>s msg. change_context SaveOutgoingMessage
       (save_outgoing_message H s (cc_id msg) msg)) s msgs) (\<lambda>s1.
     Ok (s1, \<lparr>messages = [], events = map GwRouting msgs\<rparr>)))"

subsection \<open>Entry points\<close>

datatype gw_msg = GwVerify "message list" | GwRoute "message list"

fun gw_permissions :: "gw_msg \<Rightarrow> msg_permissions" where
  "gw_permissions (GwVerify _) = \<lparr>specific_perms = [], general_perms = [Any], external_perms = []\<rparr>"
| "gw_permissions (GwRoute _) = \<lparr>specific_perms = [], general_perms = [Any], external_perms = []\<rparr>"

definition gw_execute ::
  "(u8 list \<Rightarrow> u8 list) \<Rightarrow> status_query \<Rightarrow> gw_state \<Rightarrow> string \<Rightarrow> gw_msg
     \<Rightarrow> (gw_error, gw_state \<times> gw_response) result" where
  "gw_execute H query s sender msg =
     and_then (change_context GwExecute (gw_load_config s)) (\<lambda>config.
     and_then (map_err GwPermissionErr
       (ensure_permissions (gw_perms s) sender (gw_permissions msg) (\<lambda>_. (Ok False :: (unit, bool) result)))) (\<lambda>_.
     case msg of
       GwVerify msgs \<Rightarrow>
         and_then (change_context GwVerifyMessages (gw_verify_messages query (gc_verifier config) msgs)) (\<lambda>r. Ok (s, r))
     | GwRoute msgs \<Rightarrow>
         if sender = gc_router config
         then change_context RouteOutgoingMessages (route_outgoing_messages H s msgs)
         else and_then (change_context RouteIncomingMessages
                (route_incoming_messages query (gc_router config) msgs)) (\<lambda>r. Ok (s, r))))"

definition gw_instantiate ::
  "(string \<Rightarrow> string option) \<Rightarrow> string \<Rightarrow> string \<Rightarrow> (gw_error, gw_state \<times> gw_response) result" where
  "gw_instantiate addr_validate verifier_address router_address =
     and_then (map_err GwAddressErr (validate_cosmwasm_address addr_validate router_address)) (\<lambda>router.
     and_then (map_err GwAddressErr (validate_cosmwasm_address addr_validate verifier_address)) (\<lambda>verifier.
     Ok (\<lparr>gw_config = Some \<lparr>gc_verifier = verifier, gc_router = router\<rparr>,
          gw_perms = \<lparr>admin_addr = None, governance_addr = None\<rparr>, gw_outgoing = []\<rparr>, response_new)))"

text \<open>The query reports the errors of all ids that are not found, in their order.\<close>

fun accumulate_errs ::
  "gw_state_error failure list + message list \<Rightarrow> (gw_state_error, message) result
     \<Rightarrow> gw_state_error failure list + message list" where
  "accumulate_errs (Inr msgs) (Inr msg) = Inr (msgs @ [msg])"
| "accumulate_errs (Inl report) (Inr _) = Inl report"
| "accumulate_errs (Inr _) (Inl e) = Inl [e]"
| "accumulate_errs (Inl report) (Inl e) = Inl (report @ [e])"

definition outgoing_messages :: "gw_state \<Rightarrow> cross_chain_id list \<Rightarrow> gw_state_error failure list + message list" where
  "outgoing_messages s ids = foldl accumulate_errs (Inr []) (map (load_outgoing_message s) ids)"

subsection \<open>Transactions and reachable states\<close>

type_synonym gw_call = "status_query \<times> string \<times> gw_msg"

definition gw_tx :: "(u8 list \<Rightarrow> u8 list) \<Rightarrow> gw_state \<Rightarrow> gw_call \<Rightarrow> (gw_error, gw_state \<times> gw_response) result" where
  "gw_tx H s call = (case call of (query, sender, msg) \<Rightarrow> gw_execute H query s sender msg)"

inductive gw_reachable :: "(u8 list \<Rightarrow> u8 list) \<Rightarrow> gw_state \<Rightarrow> bool" for H where
  gw_init: "gw_instantiate addr_validate verifier router = Inr (s, r) \<Longrightarrow> gw_reachable H s"
| gw_step: "gw_reachable H s \<Longrightarrow> gw_tx H s call = Inr (s', r) \<Longrightarrow> gw_reachable H s'"

definition gw_inv :: "gw_state \<Rightarrow> bool" where
  "gw_inv s \<longleftrightarrow> gw_config s \<noteq> None \<and> kv_ok (gw_outgoing s)
     \<and> (\<forall>i m. kv_get (gw_outgoing s) i = Some m \<longrightarrow> cc_id m = i)"

definition gw_extends :: "gw_state \<Rightarrow> gw_state \<Rightarrow> bool" where
  "gw_extends s s' \<longleftrightarrow> gw_config s' = gw_config s
     \<and> (\<forall>i m. kv_get (gw_outgoing s) i = Some m \<longrightarrow> kv_get (gw_outgoing s') i = Some m)"

text \<open>The status query as the voting verifier answers it.\<close>

definition vv_status_query :: "(u8 list \<Rightarrow> u8 list) \<Rightarrow> vv_state \<Rightarrow> u64 \<Rightarrow> status_query" where
  "vv_status_query H s height msgs =
     (case vv_query H height s (QueryMessagesStatus msgs) of Inr (RespMessagesStatus r) \<Rightarrow> Some r | _ \<Rightarrow> None)"

section \<open>Lemmas\<close>

subsection \<open>Groups\<close>

lemma filter_pair_empty: "st \<notin> snd ` set rs \<Longrightarrow> filter (\<lambda>(_, s). s = st) rs = []"
  by (force simp: filter_empty_conv)

lemma concat_groups:
  "concat (map (\<lambda>x. f (fst x) (snd x)) (group_by_status rs)) =
     concat (map (\<lambda>st. if st \<in> snd ` set rs then f st (map fst (filter (\<lambda>(_, s). s = st) rs)) else []) status_order)"
  by (simp add: group_by_status_def status_order_def)

lemma routable_group:
  "concat (map (\<lambda>x. filter_routable_messages (fst x) (snd x)) (group_by_status rs)) =
     map fst (filter (\<lambda>(_, s). s = SucceededOnSourceChain) rs)"
  unfolding concat_groups by (simp add: status_order_def filter_routable_messages_def filter_pair_empty)

lemma verifiable_group:
  "concat (map (\<lambda>x. filter_verifiable_messages (fst x) (snd x)) (group_by_status rs)) =
     concat (map (\<lambda>st. map fst (filter (\<lambda>(_, s). s = st) rs)) [NotFoundOnSourceChain, FailedToVerify, Unknown])"
  by (simp add: concat_groups status_order_def filter_pair_empty)

lemma check_for_duplicates_Inr [result_simps]:
  "check_for_duplicates ms = Inr ms' \<longleftrightarrow> ms' = ms \<and> distinct (map cc_id ms)"
  by (auto simp: check_for_duplicates_def duplicates_Nil_iff)

subsection \<open>The client of a verifier\<close>

text \<open>What the gateway relies on: the answer has one status for every message, in order.\<close>

locale verifier_client =
  fixes query :: "message list \<Rightarrow> (message \<times> verification_status) list option"
  assumes one_status_each: "query ms = Some rs \<Longrightarrow> map fst rs = ms"
begin

lemma status_answer:
  "client_messages_status query ms = Inr rs \<Longrightarrow> map fst rs = ms \<and> (ms \<noteq> [] \<longrightarrow> query ms = Some rs)"
  by (cases ms) (auto simp: client_messages_status_def result_simps dest: one_status_each)

lemma routed_messages:
  assumes "route_incoming_messages query router ms = Inr r"
  obtains rs where "map fst rs = ms" "ms \<noteq> [] \<longrightarrow> query ms = Some rs" "distinct (map cc_id ms)"
    "messages r = (let out = map fst (filter (\<lambda>(_, s). s = SucceededOnSourceChain) rs)
                   in if out = [] then [] else [ToRouter router out])"
proof -
  from assms obtain rs where rs: "client_messages_status query ms = Inr rs" and d: "distinct (map cc_id ms)"
    and r: "messages r = (case fst (gw_route router (group_by_status rs)) of None \<Rightarrow> [] | Some m \<Rightarrow> [m])"
    by (auto simp: route_incoming_messages_def gw_apply_def result_simps case_prod_beta Let_def)
  have "fst (gw_route router (group_by_status rs)) =
      map_option (ToRouter router) (to_none_if_empty (map fst (filter (\<lambda>(_, s). s = SucceededOnSourceChain) rs)))"
    using routable_group [of rs] by (simp add: gw_route_def flat_unzip_def comp_def case_prod_beta)
  then show thesis using that [of rs] status_answer [OF rs] d r by (simp add: to_none_if_empty_def Let_def)
qed

lemma verified_messages:
  assumes "gw_verify_messages query verifier ms = Inr r"
  obtains rs where "map fst rs = ms" "ms \<noteq> [] \<longrightarrow> query ms = Some rs" "distinct (map cc_id ms)"
    "messages r = (let out = concat (map (\<lambda>st. map fst (filter (\<lambda>(_, s). s = st) rs))
                     [NotFoundOnSourceChain, FailedToVerify, Unknown])
                   in if out = [] then [] else [ToVerifier verifier out])"
proof -
  from assms obtain rs where rs: "client_messages_status query ms = Inr rs" and d: "distinct (map cc_id ms)"
    and r: "messages r = (case fst (gw_verify verifier (group_by_status rs)) of None \<Rightarrow> [] | Some m \<Rightarrow> [m])"
    by (auto simp: gw_verify_messages_def gw_apply_def result_simps case_prod_beta Let_def)
  have "fst (gw_verify verifier (group_by_status rs)) = map_option (ToVerifier verifier) (to_none_if_empty
      (concat (map (\<lambda>st. map fst (filter (\<lambda>(_, s). s = st) rs)) [NotFoundOnSourceChain, FailedToVerify, Unknown])))"
    using verifiable_group [of rs] by (simp add: gw_verify_def flat_unzip_def comp_def case_prod_beta)
  then show thesis using that [of rs] status_answer [OF rs] d r by (simp add: to_none_if_empty_def Let_def)
qed

end

lemma vv_status_query_Some:
  assumes "vv_status_query H s h ms = Some rs"
  shows "map fst rs = ms" and "(m, st) \<in> set rs \<Longrightarrow> message_status H s m h = (Inr st :: (vv_error, _) result)"
proof -
  from assms have "messages_status H s ms h = (Inr rs :: (vv_error, _) result)"
    unfolding vv_status_query_def by (auto simp: result_simps split: sum.splits vv_query_response.splits)
  then have all: "list_all2 (\<lambda>m r. fst r = m \<and> message_status H s m h = (Inr (snd r) :: (vv_error, _) result)) ms rs"
    unfolding messages_status_def try_map_Inr_iff
    by (rule list_all2_mono) (auto simp: result_simps)
  have "map fst rs = map id ms" using all by (rule list_all2_map_eq) simp
  then show "map fst rs = ms" by simp
  show "message_status H s m h = (Inr st :: (vv_error, _) result)" if "(m, st) \<in> set rs"
    using list_all2_right_in [OF all that] by auto
qed

interpretation vvq: verifier_client "vv_status_query H s h" for H s h
  by unfold_locales (rule vv_status_query_Some(1))

subsection \<open>Outgoing messages\<close>

lemma save_outgoing_message_Inr:
  assumes "save_outgoing_message H s (cc_id m) m = Inr s'" and "gw_inv s"
  shows "gw_inv s' \<and> gw_extends s s'
    \<and> (\<exists>m'. kv_get (gw_outgoing s') (cc_id m) = Some m' \<and> message_hash H m' = message_hash H m)"
  using assms by (auto simp: save_outgoing_message_def gw_inv_def gw_extends_def split: option.splits if_splits)

lemma gw_extends_refl [simp]: "gw_extends s s"
  by (simp add: gw_extends_def)

lemma gw_extends_trans: "gw_extends a b \<Longrightarrow> gw_extends b c \<Longrightarrow> gw_extends a c"
  by (simp add: gw_extends_def)

lemma save_outgoing_messages_Inr:
  assumes "try_fold (\<lambda>s m. change_context SaveOutgoingMessage (save_outgoing_message H s (cc_id m) m)) s ms = Inr s'"
    and "gw_inv s"
  shows "gw_inv s' \<and> gw_extends s s'
    \<and> (\<forall>m \<in> set ms. \<exists>m'. kv_get (gw_outgoing s') (cc_id m) = Some m' \<and> message_hash H m' = message_hash H m)"
  using assms
proof (induction ms arbitrary: s)
  case (Cons m ms)
  then obtain s1 where s1: "save_outgoing_message H s (cc_id m) m = Inr s1"
    and rest: "try_fold (\<lambda>s m. change_context SaveOutgoingMessage (save_outgoing_message H s (cc_id m) m)) s1 ms = Inr s'"
    by (auto simp: result_simps)
  have "gw_inv s1" "gw_extends s s1"
    and m: "\<exists>m'. kv_get (gw_outgoing s1) (cc_id m) = Some m' \<and> message_hash H m' = message_hash H m"
    using save_outgoing_message_Inr [OF s1 Cons.prems(2)] by simp_all
  then show ?case using Cons.IH [OF rest] gw_extends_trans unfolding gw_extends_def by fastforce
qed simp

lemma outgoing_messages_eq:
  "outgoing_messages s ids =
     (if \<forall>i \<in> set ids. kv_get (gw_outgoing s) i \<noteq> None then Inr (map (\<lambda>i. the (kv_get (gw_outgoing s) i)) ids)
      else Inl (map (\<lambda>i. Err (GwMessageNotFound i)) (filter (\<lambda>i. kv_get (gw_outgoing s) i = None) ids)))"
proof (induction ids rule: rev_induct)
  case (snoc i ids)
  then show ?case
    by (cases "kv_get (gw_outgoing s) i")
      (auto simp: outgoing_messages_def load_outgoing_message_def filter_empty_conv)
qed (simp add: outgoing_messages_def)

lemma gw_tx_step:
  assumes "gw_tx H s call = Inr (s', r)" and inv: "gw_inv s"
  shows "gw_inv s' \<and> gw_extends s s'"
proof -
  obtain query sender msg where call: "call = (query, sender, msg)" by (cases call)
  show ?thesis
  proof (cases "s' = s")
    case False
    then obtain ms where "route_outgoing_messages H s ms = Inr (s', r)"
      using assms(1) call by (cases msg) (auto simp: gw_tx_def gw_execute_def result_simps split: if_splits)
    then show ?thesis
      using save_outgoing_messages_Inr [OF _ inv] by (auto simp: route_outgoing_messages_def result_simps)
  qed (use inv in simp)
qed

interpretation gw: contract_machine "gw_tx H" gw_inv "\<lambda>_. True" for H
  by unfold_locales (simp add: gw_tx_step)

lemma gw_reachable_inv: "gw_reachable H s \<Longrightarrow> gw_inv s"
proof (induction rule: gw_reachable.induct)
  case (gw_init addr_validate verifier router s r)
  then show ?case by (auto simp: gw_instantiate_def result_simps gw_inv_def)
qed (simp add: gw_tx_step)

lemma gw_run_extends: "gw_inv s \<Longrightarrow> gw_extends s (run_txs (gw_tx H) s calls)"
  by (rule gw.run_rel) (auto simp: list_all_iff intro: gw_extends_trans dest: gw_tx_step)

subsection \<open>Routing and verifying through the voting verifier\<close>

lemma filter_by_answer:
  assumes "vv_status_query H s h ms = Some rs"
  shows "map fst (filter (\<lambda>(_, st). st = st') rs) =
    filter (\<lambda>m. message_status H s m h = (Inr st' :: (vv_error, _) result)) ms"
proof -
  have "map fst (filter (\<lambda>r. message_status H s (fst r) h = (Inr st' :: (vv_error, _) result)) rs) =
      filter (\<lambda>m. message_status H s m h = (Inr st' :: (vv_error, _) result)) (map fst rs)"
    by (simp add: filter_map comp_def)
  moreover have "filter (\<lambda>(_, st). st = st') rs =
      filter (\<lambda>r. message_status H s (fst r) h = (Inr st' :: (vv_error, _) result)) rs"
    using vv_status_query_Some(2) [OF assms] by (intro filter_cong) auto
  ultimately show ?thesis by (simp add: vv_status_query_Some(1) [OF assms])
qed

lemma route_through_verifier:
  assumes "route_incoming_messages (vv_status_query H s h) router ms = Inr r"
  shows "distinct (map cc_id ms)"
    and "messages r = (let out = filter (\<lambda>m. message_status H s m h =
           (Inr SucceededOnSourceChain :: (vv_error, _) result)) ms in if out = [] then [] else [ToRouter router out])"
proof -
  from assms obtain rs where rs: "map fst rs = ms" "ms \<noteq> [] \<longrightarrow> vv_status_query H s h ms = Some rs"
    and "distinct (map cc_id ms)"
    and r: "messages r = (let out = map fst (filter (\<lambda>(_, s). s = SucceededOnSourceChain) rs)
                   in if out = [] then [] else [ToRouter router out])"
    by (rule vvq.routed_messages)
  then show "distinct (map cc_id ms)" by simp
  show "messages r = (let out = filter (\<lambda>m. message_status H s m h =
      (Inr SucceededOnSourceChain :: (vv_error, _) result)) ms in if out = [] then [] else [ToRouter router out])"
    using rs r by (cases "ms = []") (simp_all add: filter_by_answer)
qed

lemma verify_through_verifier:
  assumes "gw_verify_messages (vv_status_query H s h) verifier ms = Inr r"
  shows "distinct (map cc_id ms)"
    and "messages r = (let out = concat (map (\<lambda>st. filter (\<lambda>m. message_status H s m h = (Inr st :: (vv_error, _) result)) ms)
           [NotFoundOnSourceChain, FailedToVerify, Unknown]) in if out = [] then [] else [ToVerifier verifier out])"
proof -
  from assms obtain rs where rs: "map fst rs = ms" "ms \<noteq> [] \<longrightarrow> vv_status_query H s h ms = Some rs"
    and "distinct (map cc_id ms)"
    and r: "messages r = (let out = concat (map (\<lambda>st. map fst (filter (\<lambda>(_, s). s = st) rs))
                     [NotFoundOnSourceChain, FailedToVerify, Unknown])
                   in if out = [] then [] else [ToVerifier verifier out])"
    by (rule vvq.verified_messages)
  then show "distinct (map cc_id ms)" by simp
  show "messages r = (let out = concat (map (\<lambda>st. filter (\<lambda>m. message_status H s m h = (Inr st :: (vv_error, _) result)) ms)
      [NotFoundOnSourceChain, FailedToVerify, Unknown]) in if out = [] then [] else [ToVerifier verifier out])"
    using rs r by (cases "ms = []") (simp_all add: filter_by_answer)
qed

section \<open>Example\<close>

abbreviation gw_ex_state :: "(cross_chain_id, message) kv \<Rightarrow> gw_state" where
  "gw_ex_state out \<equiv> \<lparr>gw_config = Some \<lparr>gc_verifier = ''verifier'', gc_router = ''router''\<rparr>,
     gw_perms = \<lparr>admin_addr = None, governance_addr = None\<rparr>, gw_outgoing = out\<rparr>"

lemma gw_ex_reachable: "gw_reachable H (gw_ex_state [])"
  by (rule gw_init [of Some "''verifier''" "''router''" _ response_new])
    (simp add: gw_instantiate_def validate_cosmwasm_address_def)

lemma gw_ex_outgoing:
  "gw_tx H (gw_ex_state []) (query, ''router'', GwRoute [vv_ex_message]) =
     Inr (gw_ex_state [(cc_id vv_ex_message, vv_ex_message)], \<lparr>messages = [], events = [GwRouting vv_ex_message]\<rparr>)"
  by (simp add: gw_tx_def gw_execute_def gw_load_config_def route_outgoing_messages_def check_for_duplicates_def
      duplicates_def save_outgoing_message_def)

section \<open>Properties\<close>

text \<open>
  C19. What leaves the gateway towards the router is exactly what the voting verifier reports as
  succeeded: a batch of messages from anyone but the router is accepted only without duplicate
  ids, leaves the stored messages alone, and sends at most one message, to the router, with the
  succeeded messages of the batch in their order.
\<close>

theorem incoming_exact:
  assumes "gw_tx H s (vv_status_query H vvs height, sender, GwRoute msgs) = Inr (s', r)"
    and "gw_config s = Some config" and "sender \<noteq> gc_router config"
  shows "s' = s \<and> distinct (map cc_id msgs)
    \<and> messages r = (let out = filter (\<lambda>m. message_status H vvs m height =
           (Inr SucceededOnSourceChain :: (vv_error, _) result)) msgs
        in if out = [] then [] else [ToRouter (gc_router config) out])"
proof -
  from assms have "s' = s" and run: "route_incoming_messages (vv_status_query H vvs height) (gc_router config) msgs = Inr r"
    by (auto simp: gw_tx_def gw_execute_def gw_load_config_def result_simps)
  then show ?thesis using route_through_verifier [OF run] by blast
qed

theorem incoming_exact_witness:
  "\<exists>s' r. gw_tx (\<lambda>x. x) (gw_ex_state []) (vv_status_query (\<lambda>x. x) (vv_ex_state (\<lambda>x. x) (vv_ex_poll 2 True True False)
        [((1, ''a''), [SucceededOnChain]), ((1, ''b''), [SucceededOnChain])]) 12, ''relayer'', GwRoute [vv_ex_message]) = Inr (s', r)
     \<and> messages r = [ToRouter ''router'' [vv_ex_message]]"
proof -
  let ?vvs = "vv_ex_state (\<lambda>x. x) (vv_ex_poll 2 True True False) [((1, ''a''), [SucceededOnChain]), ((1, ''b''), [SucceededOnChain])]"
  let ?call = "(vv_status_query (\<lambda>x. x) ?vvs 12, ''relayer'', GwRoute [vv_ex_message])"
  have "vv_status_query (\<lambda>x. x) ?vvs 12 [vv_ex_message] = Some [(vv_ex_message, SucceededOnSourceChain)]"
    using vv_ex_status [of "\<lambda>x. x" False 12] by (simp add: vv_status_query_def messages_status_def)
  then have "is_ok (gw_tx (\<lambda>x. x) (gw_ex_state []) ?call)"
    by (simp add: gw_tx_def gw_execute_def gw_load_config_def route_incoming_messages_def gw_apply_def
        check_for_duplicates_def duplicates_def client_messages_status_def case_prod_beta)
  then obtain s' r where run: "gw_tx (\<lambda>x. x) (gw_ex_state []) ?call = Inr (s', r)" by (auto simp: is_ok_iff)
  moreover have "messages r = [ToRouter ''router'' [vv_ex_message]]"
    using incoming_exact [OF run] vv_ex_status [of "\<lambda>x. x" False 12] by simp
  ultimately show ?thesis by blast
qed

text \<open>
  The gateway delivers what the router sends. Once the router's batch is accepted, every
  message of it can be queried by its id, with the contents that the hash commits to, after any
  further transactions; the query reports exactly the ids that it does not find, and stored
  messages are never changed or dropped.
\<close>

lemma outgoing_delivered:
  assumes "gw_reachable H s" and "gw_config s = Some config"
    and "gw_tx H s (query, gc_router config, GwRoute msgs) = Inr (s', r)"
  shows "(\<exists>stored. outgoing_messages (run_txs (gw_tx H) s' calls) (map cc_id msgs) = Inr stored
        \<and> map (message_hash H) stored = map (message_hash H) msgs \<and> map cc_id stored = map cc_id msgs)
    \<and> (outgoing_messages s' ids = Inr ms \<longrightarrow> outgoing_messages (run_txs (gw_tx H) s' calls) ids = Inr ms)
    \<and> (outgoing_messages s' ids = Inl es \<longrightarrow>
         es = map (\<lambda>i. Err (GwMessageNotFound i)) (filter (\<lambda>i. kv_get (gw_outgoing s') i = None) ids))"
proof -
  have inv: "gw_inv s" using assms(1) by (rule gw_reachable_inv)
  then have inv': "gw_inv s'" using gw_tx_step [OF assms(3)] by simp
  let ?s = "run_txs (gw_tx H) s' calls"
  have ext: "gw_extends s' ?s" using inv' by (rule gw_run_extends)
  from assms(2,3) have "route_outgoing_messages H s msgs = Inr (s', r)"
    by (auto simp: gw_tx_def gw_execute_def gw_load_config_def result_simps)
  then have saved: "\<forall>m \<in> set msgs. \<exists>m'. kv_get (gw_outgoing ?s) (cc_id m) = Some m' \<and> message_hash H m' = message_hash H m"
    using save_outgoing_messages_Inr [OF _ inv] ext by (fastforce simp: route_outgoing_messages_def result_simps gw_extends_def)
  have "gw_inv ?s" by (rule gw.run_inv [OF inv']) (simp add: list_all_iff)
  let ?stored = "map (\<lambda>i. the (kv_get (gw_outgoing ?s) i)) (map cc_id msgs)"
  have "outgoing_messages ?s (map cc_id msgs) = Inr ?stored"
    using saved by (auto simp: outgoing_messages_eq)
  moreover have "map (message_hash H) ?stored = map (message_hash H) msgs" "map cc_id ?stored = map cc_id msgs"
    using saved \<open>gw_inv ?s\<close> by (auto simp: gw_inv_def)
  moreover have "outgoing_messages ?s ids = Inr ms" if "outgoing_messages s' ids = Inr ms"
    using that ext by (fastforce simp: outgoing_messages_eq gw_extends_def split: if_splits)
  moreover have "es = map (\<lambda>i. Err (GwMessageNotFound i)) (filter (\<lambda>i. kv_get (gw_outgoing s') i = None) ids)"
    if "outgoing_messages s' ids = Inl es"
    using that by (auto simp: outgoing_messages_eq split: if_splits)
  ultimately show ?thesis by blast
qed

lemma outgoing_delivered_example:
  "\<exists>stored. outgoing_messages (run_txs (gw_tx (\<lambda>x. x)) (gw_ex_state [(cc_id vv_ex_message, vv_ex_message)])
       [(\<lambda>_. None, ''relayer'', GwRoute [vv_ex_message])]) [cc_id vv_ex_message] = Inr stored
     \<and> map cc_id stored = [cc_id vv_ex_message]"
proof -
  let ?config = "\<lparr>gc_verifier = ''verifier'', gc_router = ''router''\<rparr>"
  have "gw_tx (\<lambda>x. x) (gw_ex_state []) (\<lambda>_. None, gc_router ?config, GwRoute [vv_ex_message]) =
      Inr (gw_ex_state [(cc_id vv_ex_message, vv_ex_message)], \<lparr>messages = [], events = [GwRouting vv_ex_message]\<rparr>)"
    using gw_ex_outgoing by simp
  from outgoing_delivered [where calls = "[(\<lambda>_. None, ''relayer'', GwRoute [vv_ex_message])]",
      OF gw_ex_reachable _ this, THEN conjunct1]
  show ?thesis by auto
qed

end
