(* ===== verification/Service_Registry.thy ===== *)
theory Service_Registry
  imports Voting_Verifier "HOL-Library.Multiset"
begin

text \<open>
  The service registry, \<open>contracts/service-registry/src\<close> with \<open>packages/service-registry-api/src\<close>:
  services, the verifiers that bond stake for them and that governance authorizes, the chains
  the verifiers support, and the query for the active verifiers of a chain from which the voting
  verifier and the prover take their snapshots. The coordinator's answer whether a verifier may
  unbond, the addition of days to a timestamp (\<open>cosmwasm_std::Timestamp::plus_days\<close>, \<open>None\<close> if it
  panics), the hash function and the validation of addresses are parameters. The standard
  library's \<open>select_nth_unstable_by\<close> leaves the order on both sides of the selected element open,
  so it is an argument too, with its documented contract \<open>selects\<close> as a hypothesis.
\<close>

section \<open>Definitions\<close>

subsection \<open>State\<close>

type_synonym u16 = "16 word"

record service =
  sv_name :: string
  sv_coordinator_contract :: string
  sv_min_num_verifiers :: u16
  sv_max_num_verifiers :: "u16 option"
  sv_min_verifier_bond :: u128
  sv_bond_denom :: string
  sv_unbonding_period_days :: u16
  sv_description :: string

datatype bonding_state =
    Bonded u128
  | RequestedUnbonding u128
  | Unbonding u128 u64
  | Unbonded

datatype authorization_state = NotAuthorized | Authorized | Jailed

record sr_verifier =
  vf_address :: string
  vf_bonding_state :: bonding_state
  vf_authorization_state :: authorization_state
  vf_service_name :: string

record weighted_verifier =
  verifier_info :: sr_verifier
  wv_weight :: u128

definition participant_of_verifier :: "weighted_verifier \<Rightarrow> participant" where
  "participant_of_verifier v = \<lparr>p_address = vf_address (verifier_info v), p_weight = wv_weight v\<rparr>"

record updated_service_params =
  up_min_num_verifiers :: "u16 option"
  up_max_num_verifiers :: "u16 option option"
  up_min_verifier_bond :: "u128 option"
  up_unbonding_period_days :: "u16 option"

record service_params_override =
  ov_min_num_verifiers :: "u16 option"
  ov_max_num_verifiers :: "u16 option option"

record sr_state =
  sr_perms :: permission_state
  sr_services :: "(string, service) kv"
  sr_overrides :: "(string \<times> string, service_params_override) kv"
  sr_authorized_count :: "(string, u16) kv"
  sr_verifiers :: "(string \<times> string, sr_verifier) kv"
  sr_per_chain :: "(string \<times> string \<times> string, unit) kv"

datatype sr_error =
    SrStd
  | SrOverflow
  | SrNonEmpty nonempty_error
  | AuthorizedVerifiersIntegerOverflow
  | VerifierLimitExceeded
  | MaxVerifiersSetBelowCurrent u16 u16
  | ServiceAlreadyExists
  | ServiceNotFound
  | ServiceOverrideNotFound
  | SrWrongDenom
  | VerifierNotFound
  | InvalidBondingState bonding_state
  | NoFundsToBond
  | NotEnoughVerifiers
  | VerifierJailed
  | FailedToUnbondVerifier
  | SrStorageError
  | SrAddressErr address_error
  | SrPermissionErr permission_error

datatype sr_event =
    ChainsSupportRegistered string string "string list"
  | ChainsSupportDeregistered string string "string list"

datatype sr_out = StakeSend (stake_to: string) (stake_denom: string) (stake_amount: u128)

type_synonym sr_response = "(sr_out, sr_event) response"

record sr_env =
  se_height :: u64
  se_time :: u64
  se_funds :: "(string \<times> u128) list"
  se_addr_validate :: "string \<Rightarrow> string option"
  se_ready_to_unbond :: "string \<Rightarrow> string \<Rightarrow> bool option"
  se_plus_days :: "u64 \<Rightarrow> u64 \<Rightarrow> u64 option"

definition VERIFIER_WEIGHT :: u128 where
  "VERIFIER_WEIGHT = nonempty_uint128_one"

definition state_service :: "sr_state \<Rightarrow> string \<Rightarrow> string option \<Rightarrow> (sr_error, service) result" where
  "state_service s service_name chain =
     and_then (ok_or ServiceNotFound (kv_get (sr_services s) service_name)) (\<lambda>service.
     Ok (case Option.bind chain (\<lambda>chain. kv_get (sr_overrides s) (service_name, chain)) of
           Some params_override \<Rightarrow>
             service\<lparr>sv_min_num_verifiers := case_option (sv_min_num_verifiers service) id (ov_min_num_verifiers params_override),
                     sv_max_num_verifiers := case_option (sv_max_num_verifiers service) id (ov_max_num_verifiers params_override)\<rparr>
         | None \<Rightarrow> service))"

definition save_new_service :: "sr_state \<Rightarrow> string \<Rightarrow> service \<Rightarrow> (sr_error, sr_state) result" where
  "save_new_service s service_name service =
     and_then (case kv_get (sr_authorized_count s) service_name of
         None \<Rightarrow> Ok (s\<lparr>sr_authorized_count := kv_set service_name 0 (sr_authorized_count s)\<rparr>)
       | Some _ \<Rightarrow> fail SrStorageError) (\<lambda>s1.
     case kv_get (sr_services s1) service_name of
       None \<Rightarrow> Ok (s1\<lparr>sr_services := kv_set service_name service (sr_services s1)\<rparr>)
     | Some _ \<Rightarrow> fail ServiceAlreadyExists)"

definition has_service :: "sr_state \<Rightarrow> string \<Rightarrow> bool" where
  "has_service s service_name = (kv_get (sr_services s) service_name \<noteq> None)"

definition number_of_authorized_verifiers :: "sr_state \<Rightarrow> string \<Rightarrow> (sr_error, u16) result" where
  "number_of_authorized_verifiers s service_name = ok_or ServiceNotFound (kv_get (sr_authorized_count s) service_name)"

definition state_update_service :: "sr_state \<Rightarrow> string \<Rightarrow> updated_service_params \<Rightarrow> (sr_error, sr_state) result" where
  "state_update_service s service_name params =
     and_then (case up_max_num_verifiers params of
         Some (Some limit) \<Rightarrow>
           and_then (number_of_authorized_verifiers s service_name) (\<lambda>current_authorized.
           ensure (current_authorized \<le> limit) (MaxVerifiersSetBelowCurrent limit current_authorized))
       | _ \<Rightarrow> Ok ()) (\<lambda>_.
     and_then (ok_or ServiceNotFound (kv_get (sr_services s) service_name)) (\<lambda>service.
     Ok (s\<lparr>sr_services := kv_set service_name
       (service\<lparr>sv_min_num_verifiers := case_option (sv_min_num_verifiers service) id (up_min_num_verifiers params),
                sv_max_num_verifiers := case_option (sv_max_num_verifiers service) id (up_max_num_verifiers params),
                sv_min_verifier_bond := case_option (sv_min_verifier_bond service) id (up_min_verifier_bond params),
                sv_unbonding_period_days := case_option (sv_unbonding_period_days service) id (up_unbonding_period_days params)\<rparr>)
       (sr_services s)\<rparr>)))"

definition save_service_override ::
  "sr_state \<Rightarrow> string \<Rightarrow> string \<Rightarrow> service_params_override \<Rightarrow> (sr_error, sr_state) result" where
  "save_service_override s service_name chain params =
     (if \<not> has_service s service_name then fail ServiceNotFound
      else Ok (s\<lparr>sr_overrides := kv_set (service_name, chain) params (sr_overrides s)\<rparr>))"

definition remove_service_override :: "sr_state \<Rightarrow> string \<Rightarrow> string \<Rightarrow> (sr_error, sr_state) result" where
  "remove_service_override s service_name chain =
     (if kv_get (sr_overrides s) (service_name, chain) = None then fail ServiceOverrideNotFound
      else Ok (s\<lparr>sr_overrides := kv_del (service_name, chain) (sr_overrides s)\<rparr>))"

definition may_load_service_params_override :: "sr_state \<Rightarrow> string \<Rightarrow> string \<Rightarrow> service_params_override option" where
  "may_load_service_params_override s service_name chain = kv_get (sr_overrides s) (service_name, chain)"

subsection \<open>Authorization\<close>

text \<open>The changes of the number of authorized verifiers are 16-bit signed integers.\<close>

definition checked_add_i16 :: "int \<Rightarrow> int \<Rightarrow> int option" where
  "checked_add_i16 a b = (if - 32768 \<le> a + b \<and> a + b \<le> 32767 then Some (a + b) else None)"

definition checked_add_signed :: "u16 \<Rightarrow> int \<Rightarrow> u16 option" where
  "checked_add_signed a b = (let c = int (unat a) + b in if 0 \<le> c \<and> c < 2 ^ 16 then Some (of_int c) else None)"

fun calculate_auth_verifier_count_change :: "authorization_state option \<Rightarrow> authorization_state \<Rightarrow> int" where
  "calculate_auth_verifier_count_change (Some Authorized) Authorized = 0"
| "calculate_auth_verifier_count_change (Some Authorized) _ = - 1"
| "calculate_auth_verifier_count_change _ Authorized = 1"
| "calculate_auth_verifier_count_change _ _ = 0"

definition apply_authorized_count_change :: "sr_state \<Rightarrow> string \<Rightarrow> int \<Rightarrow> (sr_error, sr_state) result" where
  "apply_authorized_count_change s service_name change =
     (if change = 0 then Ok s
      else change_context SrStorageError
        (and_then (ok_or ServiceNotFound (kv_get (sr_authorized_count s) service_name)) (\<lambda>current.
         and_then (ok_or AuthorizedVerifiersIntegerOverflow (checked_add_signed current change)) (\<lambda>count.
         Ok (s\<lparr>sr_authorized_count := kv_set service_name count (sr_authorized_count s)\<rparr>)))))"

definition authorize_one ::
  "string \<Rightarrow> authorization_state \<Rightarrow> sr_state \<times> int \<Rightarrow> string \<Rightarrow> (sr_error, sr_state \<times> int) result" where
  "authorize_one service_name auth_state x verifier_addr =
     (let (s, count_change) = x; existing = kv_get (sr_verifiers s) (service_name, verifier_addr) in
      change_context SrStorageError
        (and_then (ok_or AuthorizedVerifiersIntegerOverflow (checked_add_i16 count_change
            (calculate_auth_verifier_count_change (map_option vf_authorization_state existing) auth_state))) (\<lambda>count_change.
         let new_verifier = (case existing of
               Some verifier \<Rightarrow> verifier\<lparr>vf_authorization_state := auth_state\<rparr>
             | None \<Rightarrow> \<lparr>vf_address = verifier_addr, vf_bonding_state = Unbonded, vf_authorization_state = auth_state,
                        vf_service_name = service_name\<rparr>)
         in Ok (s\<lparr>sr_verifiers := kv_set (service_name, verifier_addr) new_verifier (sr_verifiers s)\<rparr>, count_change))))"

definition state_update_authorization ::
  "sr_state \<Rightarrow> string \<Rightarrow> authorization_state \<Rightarrow> string list \<Rightarrow> (sr_error, sr_state) result" where
  "state_update_authorization s service_name auth_state verifiers =
     and_then (try_fold (authorize_one service_name auth_state) (s, 0) verifiers) (\<lambda>(s1, change).
     apply_authorized_count_change s1 service_name change)"

subsection \<open>Bonding\<close>

definition state_bond_verifier :: "sr_verifier \<Rightarrow> u128 option \<Rightarrow> (sr_error, sr_verifier) result" where
  "state_bond_verifier verifier to_add =
     (let top_up = (\<lambda>amount.
        and_then (ok_or SrOverflow (checked_add amount (case_option 0 id to_add))) (\<lambda>total.
        map_err SrNonEmpty (nonempty_uint128_try_from total))) in
      and_then (case vf_bonding_state verifier of
          Bonded amount \<Rightarrow> top_up amount
        | RequestedUnbonding amount \<Rightarrow> top_up amount
        | Unbonding amount _ \<Rightarrow> top_up amount
        | Unbonded \<Rightarrow> ok_or NoFundsToBond to_add) (\<lambda>amount.
      Ok (verifier\<lparr>vf_bonding_state := Bonded amount\<rparr>)))"

definition state_unbond_verifier :: "sr_verifier \<Rightarrow> bool \<Rightarrow> u64 \<Rightarrow> (sr_error, sr_verifier) result" where
  "state_unbond_verifier verifier can_unbond time =
     (if vf_authorization_state verifier = Jailed then fail VerifierJailed
      else
        let next = (\<lambda>amount. Ok (verifier\<lparr>vf_bonding_state :=
              if can_unbond then Unbonding amount time else RequestedUnbonding amount\<rparr>)) in
        case vf_bonding_state verifier of
          Bonded amount \<Rightarrow> next amount
        | RequestedUnbonding amount \<Rightarrow> next amount
        | st \<Rightarrow> fail (InvalidBondingState st))"

definition claim_verifier_stake ::
  "sr_env \<Rightarrow> sr_verifier \<Rightarrow> u64 \<Rightarrow> (sr_error, sr_verifier \<times> u128) result" where
  "claim_verifier_stake env verifier unbonding_period_days =
     (if vf_authorization_state verifier = Jailed then fail VerifierJailed
      else case vf_bonding_state verifier of
        Unbonding amount unbonded_at \<Rightarrow>
          and_then (expect_some ''attempt to add with overflow'' (se_plus_days env unbonded_at unbonding_period_days)) (\<lambda>claimable_at.
          if claimable_at \<le> se_time env then Ok (verifier\<lparr>vf_bonding_state := Unbonded\<rparr>, amount)
          else fail (InvalidBondingState (Unbonding amount unbonded_at)))
      | st \<Rightarrow> fail (InvalidBondingState st))"

definition state_register_chains_support ::
  "sr_state \<Rightarrow> string \<Rightarrow> string list \<Rightarrow> string \<Rightarrow> sr_state" where
  "state_register_chains_support s service_name chain_names verifier =
     s\<lparr>sr_per_chain := foldl (\<lambda>m chain. kv_set (service_name, chain, verifier) () m) (sr_per_chain s) chain_names\<rparr>"

definition state_deregister_chains_support ::
  "sr_state \<Rightarrow> string \<Rightarrow> string list \<Rightarrow> string \<Rightarrow> sr_state" where
  "state_deregister_chains_support s service_name chain_names verifier =
     s\<lparr>sr_per_chain := foldl (\<lambda>m chain. kv_del (service_name, chain, verifier) m) (sr_per_chain s) chain_names\<rparr>"

subsection \<open>Operations\<close>

definition register_service :: "sr_state \<Rightarrow> service \<Rightarrow> (sr_error, sr_state \<times> sr_response) result" where
  "register_service s service = and_then (save_new_service s (sv_name service) service) (\<lambda>s1. Ok (s1, response_new))"

definition ensure_service_exists :: "sr_state \<Rightarrow> string \<Rightarrow> (sr_error, unit) result" where
  "ensure_service_exists s service_name = ensure (has_service s service_name) ServiceNotFound"

definition ensure_authorization_max_limit_respected :: "sr_state \<Rightarrow> string \<Rightarrow> (sr_error, unit) result" where
  "ensure_authorization_max_limit_respected s service_name =
     and_then (state_service s service_name None) (\<lambda>service.
     case sv_max_num_verifiers service of
       None \<Rightarrow> Ok ()
     | Some max_limit \<Rightarrow>
         and_then (number_of_authorized_verifiers s service_name) (\<lambda>count.
         ensure (count \<le> max_limit) VerifierLimitExceeded))"

definition update_verifier_authorization_status ::
  "sr_state \<Rightarrow> string list \<Rightarrow> string \<Rightarrow> authorization_state \<Rightarrow> (sr_error, sr_state \<times> sr_response) result" where
  "update_verifier_authorization_status s verifiers service_name auth_state =
     and_then (ensure_service_exists s service_name) (\<lambda>_.
     and_then (state_update_authorization s service_name auth_state verifiers) (\<lambda>s1.
     and_then (if auth_state = Authorized then ensure_authorization_max_limit_respected s1 service_name else Ok ()) (\<lambda>_.
     Ok (s1, response_new))))"

definition update_service :: "sr_state \<Rightarrow> string \<Rightarrow> updated_service_params \<Rightarrow> (sr_error, sr_state \<times> sr_response) result" where
  "update_service s service_name params =
     and_then (state_update_service s service_name params) (\<lambda>s1. Ok (s1, response_new))"

definition override_service_params ::
  "sr_state \<Rightarrow> string \<Rightarrow> string \<Rightarrow> service_params_override \<Rightarrow> (sr_error, sr_state \<times> sr_response) result" where
  "override_service_params s service_name chain params =
     and_then (save_service_override s service_name chain params) (\<lambda>s1. Ok (s1, response_new))"

definition remove_service_params_override :: "sr_state \<Rightarrow> string \<Rightarrow> string \<Rightarrow> (sr_error, sr_state \<times> sr_response) result" where
  "remove_service_params_override s service_name chain =
     and_then (remove_service_override s service_name chain) (\<lambda>s1. Ok (s1, response_new))"

definition bond_funds :: "service \<Rightarrow> (string \<times> u128) list \<Rightarrow> (sr_error, u128 option) result" where
  "bond_funds service funds =
     (if funds = [] then Ok None
      else
        and_then (ok_or SrWrongDenom (find (\<lambda>coin. fst coin = sv_bond_denom service) funds)) (\<lambda>coin.
        and_then (map_err SrNonEmpty (nonempty_uint128_try_from (snd coin))) (\<lambda>amount. Ok (Some amount))))"

definition bond_verifier :: "sr_env \<Rightarrow> sr_state \<Rightarrow> string \<Rightarrow> string \<Rightarrow> (sr_error, sr_state \<times> sr_response) result" where
  "bond_verifier env s sender service_name =
     and_then (state_service s service_name None) (\<lambda>service.
     and_then (bond_funds service (se_funds env)) (\<lambda>bond.
     and_then (case kv_get (sr_verifiers s) (service_name, sender) of
         Some verifier \<Rightarrow> state_bond_verifier verifier bond
       | None \<Rightarrow> and_then (ok_or NoFundsToBond bond) (\<lambda>amount.
           Ok \<lparr>vf_address = sender, vf_bonding_state = Bonded amount, vf_authorization_state = NotAuthorized,
               vf_service_name = service_name\<rparr>)) (\<lambda>verifier.
     Ok (s\<lparr>sr_verifiers := kv_set (service_name, sender) verifier (sr_verifiers s)\<rparr>, response_new))))"

definition register_chains_support ::
  "sr_state \<Rightarrow> string \<Rightarrow> string \<Rightarrow> string list \<Rightarrow> (sr_error, sr_state \<times> sr_response) result" where
  "register_chains_support s sender service_name chain_names =
     and_then (ensure_service_exists s service_name) (\<lambda>_.
     Ok (state_register_chains_support s service_name chain_names sender,
         \<lparr>messages = [], events = [ChainsSupportRegistered sender service_name chain_names]\<rparr>))"

definition deregister_chains_support ::
  "sr_state \<Rightarrow> string \<Rightarrow> string \<Rightarrow> string list \<Rightarrow> (sr_error, sr_state \<times> sr_response) result" where
  "deregister_chains_support s sender service_name chain_names =
     and_then (ensure_service_exists s service_name) (\<lambda>_.
     Ok (state_deregister_chains_support s service_name chain_names sender,
         \<lparr>messages = [], events = [ChainsSupportDeregistered sender service_name chain_names]\<rparr>))"

definition unbond_verifier :: "sr_env \<Rightarrow> sr_state \<Rightarrow> string \<Rightarrow> string \<Rightarrow> (sr_error, sr_state \<times> sr_response) result" where
  "unbond_verifier env s sender service_name =
     and_then (state_service s service_name None) (\<lambda>service.
     and_then (ok_or VerifierNotFound (kv_get (sr_verifiers s) (service_name, sender))) (\<lambda>verifier.
     and_then (ok_or FailedToUnbondVerifier
       (se_ready_to_unbond env (sv_coordinator_contract service) (vf_address verifier))) (\<lambda>ready_to_unbond.
     and_then (state_unbond_verifier verifier ready_to_unbond (se_time env)) (\<lambda>verifier.
     Ok (s\<lparr>sr_verifiers := kv_set (service_name, sender) verifier (sr_verifiers s)\<rparr>, response_new)))))"

definition claim_stake :: "sr_env \<Rightarrow> sr_state \<Rightarrow> string \<Rightarrow> string \<Rightarrow> (sr_error, sr_state \<times> sr_response) result" where
  "claim_stake env s sender service_name =
     and_then (state_service s service_name None) (\<lambda>service.
     and_then (ok_or VerifierNotFound (kv_get (sr_verifiers s) (service_name, sender))) (\<lambda>verifier.
     and_then (claim_verifier_stake env verifier (ucast (sv_unbonding_period_days service))) (\<lambda>(verifier, released_bond).
     Ok (s\<lparr>sr_verifiers := kv_set (service_name, sender) verifier (sr_verifiers s)\<rparr>,
         \<lparr>messages = [StakeSend sender (sv_bond_denom service) released_bond], events = []\<rparr>))))"

subsection \<open>Entry points\<close>

datatype sr_msg =
    RegisterService service
  | UpdateService string updated_service_params
  | OverrideServiceParams string string service_params_override
  | RemoveServiceParamsOverride string string
  | AuthorizeVerifiers "string list" string
  | UnauthorizeVerifiers "string list" string
  | JailVerifiers "string list" string
  | RegisterChainSupport string "string list"
  | DeregisterChainSupport string "string list"
  | BondVerifier string
  | UnbondVerifier string
  | ClaimStake string

fun sr_permissions :: "sr_msg \<Rightarrow> msg_permissions" where
  "sr_permissions (RegisterChainSupport _ _) = \<lparr>specific_perms = [''verifier''], general_perms = [], external_perms = []\<rparr>"
| "sr_permissions (DeregisterChainSupport _ _) = \<lparr>specific_perms = [''verifier''], general_perms = [], external_perms = []\<rparr>"
| "sr_permissions (BondVerifier _) = \<lparr>specific_perms = [], general_perms = [Any], external_perms = []\<rparr>"
| "sr_permissions (UnbondVerifier _) = \<lparr>specific_perms = [], general_perms = [Any], external_perms = []\<rparr>"
| "sr_permissions (ClaimStake _) = \<lparr>specific_perms = [], general_perms = [Any], external_perms = []\<rparr>"
| "sr_permissions _ = \<lparr>specific_perms = [], general_perms = [Governance], external_perms = []\<rparr>"

definition match_verifier_of :: "sr_state \<Rightarrow> string \<Rightarrow> string \<Rightarrow> (permission_error, bool) result" where
  "match_verifier_of s sender_addr service_name =
     (case kv_get (sr_verifiers s) (service_name, sender_addr) of
        None \<Rightarrow> and_then (change_context Unauthorized (state_service s service_name None)) (\<lambda>_. fail Unauthorized)
      | Some verifier \<Rightarrow> Ok (vf_address verifier = sender_addr))"

fun match_verifier :: "sr_state \<Rightarrow> string \<Rightarrow> sr_msg \<Rightarrow> (permission_error, bool) result" where
  "match_verifier s sender_addr (RegisterChainSupport service_name _) = match_verifier_of s sender_addr service_name"
| "match_verifier s sender_addr (DeregisterChainSupport service_name _) = match_verifier_of s sender_addr service_name"
| "match_verifier s sender_addr _ = fail WrongVariant"

fun sr_dispatch :: "sr_env \<Rightarrow> sr_state \<Rightarrow> string \<Rightarrow> sr_msg \<Rightarrow> (sr_error, sr_state \<times> sr_response) result" where
  "sr_dispatch env s sender (RegisterService service) =
     and_then (ok_or SrStd (se_addr_validate env (sv_coordinator_contract service))) (\<lambda>coordinator.
     register_service s (service\<lparr>sv_coordinator_contract := coordinator\<rparr>))"
| "sr_dispatch env s sender (UpdateService service_name params) = update_service s service_name params"
| "sr_dispatch env s sender (OverrideServiceParams service_name chain params) = override_service_params s service_name chain params"
| "sr_dispatch env s sender (RemoveServiceParamsOverride service_name chain) = remove_service_params_override s service_name chain"
| "sr_dispatch env s sender (AuthorizeVerifiers verifiers service_name) =
     and_then (map_err SrAddressErr (try_map (validate_cosmwasm_address (se_addr_validate env)) verifiers)) (\<lambda>verifiers.
     update_verifier_authorization_status s verifiers service_name Authorized)"
| "sr_dispatch env s sender (UnauthorizeVerifiers verifiers service_name) =
     and_then (map_err SrAddressErr (try_map (validate_cosmwasm_address (se_addr_validate env)) verifiers)) (\<lambda>verifiers.
     update_verifier_authorization_status s verifiers service_name NotAuthorized)"
| "sr_dispatch env s sender (JailVerifiers verifiers service_name) =
     and_then (map_err SrAddressErr (try_map (validate_cosmwasm_address (se_addr_validate env)) verifiers)) (\<lambda>verifiers.
     update_verifier_authorization_status s verifiers service_name Jailed)"
| "sr_dispatch env s sender (RegisterChainSupport service_name chain_names) = register_chains_support s sender service_name chain_names"
| "sr_dispatch env s sender (DeregisterChainSupport service_name chain_names) = deregister_chains_support s sender service_name chain_names"
| "sr_dispatch env s sender (BondVerifier service_name) = bond_verifier env s sender service_name"
| "sr_dispatch env s sender (UnbondVerifier service_name) = unbond_verifier env s sender service_name"
| "sr_dispatch env s sender (ClaimStake service_name) = claim_stake env s sender service_name"

definition sr_execute :: "sr_env \<Rightarrow> sr_state \<Rightarrow> string \<Rightarrow> sr_msg \<Rightarrow> (sr_error, sr_state \<times> sr_response) result" where
  "sr_execute env s sender msg =
     and_then (map_err SrPermissionErr
       (ensure_permissions (sr_perms s) sender (sr_permissions msg) (\<lambda>_. match_verifier s sender msg))) (\<lambda>_.
     sr_dispatch env s sender msg)"

definition sr_instantiate :: "sr_env \<Rightarrow> string \<Rightarrow> (sr_error, sr_state \<times> sr_response) result" where
  "sr_instantiate env governance_account =
     and_then (map_err SrAddressErr (validate_cosmwasm_address (se_addr_validate env) governance_account)) (\<lambda>governance.
     Ok (\<lparr>sr_perms = set_governance governance \<lparr>admin_addr = None, governance_addr = None\<rparr>,
          sr_services = [], sr_overrides = [], sr_authorized_count = [], sr_verifiers = [], sr_per_chain = []\<rparr>, response_new))"

subsection \<open>Queries\<close>

text \<open>
  The selection of the \<open>n\<close>-th element of a list by an order: it permutes the list such that no
  element before the \<open>n\<close>-th is above it and no element after it is below.
\<close>

type_synonym 'a select_fn = "('a \<Rightarrow> 'a \<Rightarrow> bool) \<Rightarrow> nat \<Rightarrow> 'a list \<Rightarrow> 'a list"

definition selects :: "'a select_fn \<Rightarrow> bool" where
  "selects sel \<longleftrightarrow> (\<forall>le n xs. n < length xs \<longrightarrow> (\<forall>x y. le x y \<or> le y x) \<longrightarrow> (\<forall>x y z. le x y \<longrightarrow> le y z \<longrightarrow> le x z) \<longrightarrow>
     mset (sel le n xs) = mset xs
     \<and> (\<forall>i < n. le (sel le n xs ! i) (sel le n xs ! n))
     \<and> (\<forall>i < length xs. n < i \<longrightarrow> le (sel le n xs ! n) (sel le n xs ! i)))"

definition hash_address_with_seed :: "(u8 list \<Rightarrow> u8 list) \<Rightarrow> string \<Rightarrow> u64 \<Rightarrow> u8 list" where
  "hash_address_with_seed H address seed = H (str_bytes address @ to_be_bytes 8 seed)"

definition by_falling_weight :: "weighted_verifier \<Rightarrow> weighted_verifier \<Rightarrow> bool" where
  "by_falling_weight a b \<longleftrightarrow> wv_weight b \<le> wv_weight a"

definition by_weight_then_hash ::
  "(u8 list \<Rightarrow> u8 list) \<Rightarrow> u128 \<Rightarrow> u64 \<Rightarrow> weighted_verifier \<Rightarrow> weighted_verifier \<Rightarrow> bool" where
  "by_weight_then_hash H cutoff_weight block_height a b \<longleftrightarrow> wv_weight b < wv_weight a
     \<or> wv_weight b = wv_weight a
       \<and> (wv_weight a = cutoff_weight \<longrightarrow>
            hash_address_with_seed H (vf_address (verifier_info a)) block_height
            \<le> hash_address_with_seed H (vf_address (verifier_info b)) block_height)"

definition select_top_verifiers ::
  "weighted_verifier select_fn \<Rightarrow> (u8 list \<Rightarrow> u8 list) \<Rightarrow> weighted_verifier list \<Rightarrow> u16 \<Rightarrow> u64 \<Rightarrow> weighted_verifier list" where
  "select_top_verifiers sel H verifiers max_verifiers block_height =
     (if length verifiers \<le> unat max_verifiers then verifiers
      else
        let cutoff_idx = unat max_verifiers - 1;
            verifiers = sel by_falling_weight cutoff_idx verifiers;
            cutoff_weight = wv_weight (verifiers ! cutoff_idx);
            verifiers = sel (by_weight_then_hash H cutoff_weight block_height) cutoff_idx verifiers
        in take (unat max_verifiers) verifiers)"

definition bonded_enough :: "u128 \<Rightarrow> bonding_state \<Rightarrow> bool" where
  "bonded_enough min_bond st \<longleftrightarrow> (case st of Bonded amount \<Rightarrow> min_bond \<le> amount | _ \<Rightarrow> False)"

definition eligible_verifiers :: "sr_state \<Rightarrow> service \<Rightarrow> string \<Rightarrow> string \<Rightarrow> weighted_verifier list" where
  "eligible_verifiers s service service_name chain_name =
     map (\<lambda>verifier. \<lparr>verifier_info = verifier, wv_weight = VERIFIER_WEIGHT\<rparr>)
       (filter (\<lambda>verifier. vf_authorization_state verifier = Authorized)
         (filter (\<lambda>verifier. bonded_enough (sv_min_verifier_bond service) (vf_bonding_state verifier))
           (List.map_filter (\<lambda>verifier_addr. kv_get (sr_verifiers s) (service_name, verifier_addr))
             (map (\<lambda>((_, _, a), _). a) (filter (\<lambda>((n, c, _), _). n = service_name \<and> c = chain_name) (sr_per_chain s))))))"

definition active_verifiers ::
  "weighted_verifier select_fn \<Rightarrow> (u8 list \<Rightarrow> u8 list) \<Rightarrow> u64 \<Rightarrow> sr_state \<Rightarrow> string \<Rightarrow> string
     \<Rightarrow> (sr_error, weighted_verifier list) result" where
  "active_verifiers sel H block_height s service_name chain_name =
     and_then (state_service s service_name (Some chain_name)) (\<lambda>service.
     let verifiers = eligible_verifiers s service service_name chain_name in
     if length verifiers < unat (sv_min_num_verifiers service) then fail NotEnoughVerifiers
     else Ok (case sv_max_num_verifiers service of
            Some max_verifiers \<Rightarrow> select_top_verifiers sel H verifiers max_verifiers block_height
          | None \<Rightarrow> verifiers))"

text \<open>
  The index by verifier address is iterated in the order of the stored primary keys, in which the
  chain name carries its length in front: shorter chain names come first.
\<close>

record verifier_details =
  vd_verifier :: sr_verifier
  vd_weight :: u128
  vd_supported_chains :: "string list"

definition query_verifier :: "(string \<Rightarrow> string option) \<Rightarrow> sr_state \<Rightarrow> string \<Rightarrow> string \<Rightarrow> (sr_error, verifier_details) result" where
  "query_verifier addr_validate s service_name verifier =
     and_then (map_err SrAddressErr (validate_cosmwasm_address addr_validate verifier)) (\<lambda>verifier_addr.
     and_then (ok_or VerifierNotFound (kv_get (sr_verifiers s) (service_name, verifier_addr))) (\<lambda>verifier.
     Ok \<lparr>vd_verifier = verifier, vd_weight = VERIFIER_WEIGHT,
         vd_supported_chains = sort_key length (map (\<lambda>((_, c, _), _). c)
           (filter (\<lambda>((n, _, a), _). n = service_name \<and> a = verifier_addr) (sr_per_chain s)))\<rparr>))"

definition query_service :: "sr_state \<Rightarrow> string \<Rightarrow> string option \<Rightarrow> (sr_error, service) result" where
  "query_service s service_name chain_name = state_service s service_name chain_name"

definition query_service_params_override :: "sr_state \<Rightarrow> string \<Rightarrow> string \<Rightarrow> service_params_override option" where
  "query_service_params_override s service_name chain_name = may_load_service_params_override s service_name chain_name"


subsection \<open>Transactions and reachable states\<close>

type_synonym sr_call = "sr_env \<times> string \<times> sr_msg"

definition sr_tx :: "sr_state \<Rightarrow> sr_call \<Rightarrow> (sr_error, sr_state \<times> sr_response) result" where
  "sr_tx s call = (case call of (env, sender, msg) \<Rightarrow> sr_execute env s sender msg)"

text \<open>The minimum bonds in messages are of the type of nonempty integers.\<close>

fun sr_msg_ok :: "sr_msg \<Rightarrow> bool" where
  "sr_msg_ok (RegisterService service) \<longleftrightarrow> sv_min_verifier_bond service \<noteq> 0"
| "sr_msg_ok (UpdateService _ params) \<longleftrightarrow> up_min_verifier_bond params \<noteq> Some 0"
| "sr_msg_ok _ \<longleftrightarrow> True"

definition sr_call_ok :: "sr_call \<Rightarrow> bool" where
  "sr_call_ok call = (case call of (_, _, msg) \<Rightarrow> sr_msg_ok msg)"

inductive sr_reachable :: "sr_state \<Rightarrow> bool" where
  sr_init: "sr_instantiate env governance = Inr (s, r) \<Longrightarrow> sr_reachable s"
| sr_step: "sr_reachable s \<Longrightarrow> sr_call_ok call \<Longrightarrow> sr_tx s call = Inr (s', r) \<Longrightarrow> sr_reachable s'"

subsection \<open>Specification\<close>

text \<open>The stake that a verifier has in its bonding state, and the stake of all services that bond a denomination.\<close>

fun stake_of :: "bonding_state \<Rightarrow> nat" where
  "stake_of (Bonded amount) = unat amount"
| "stake_of (RequestedUnbonding amount) = unat amount"
| "stake_of (Unbonding amount _) = unat amount"
| "stake_of Unbonded = 0"

definition stake :: "sr_state \<Rightarrow> string \<Rightarrow> string \<Rightarrow> nat" where
  "stake s n a = (case kv_get (sr_verifiers s) (n, a) of Some v \<Rightarrow> stake_of (vf_bonding_state v) | None \<Rightarrow> 0)"

definition has_denom :: "(string, service) kv \<Rightarrow> string \<Rightarrow> string \<Rightarrow> bool" where
  "has_denom services d n \<longleftrightarrow> (case kv_get services n of Some sv \<Rightarrow> sv_bond_denom sv = d | None \<Rightarrow> False)"

definition stake_in :: "(string, service) kv \<Rightarrow> string \<Rightarrow> (string \<times> string) \<times> sr_verifier \<Rightarrow> nat" where
  "stake_in services d x = (case x of ((n, _), v) \<Rightarrow> if has_denom services d n then stake_of (vf_bonding_state v) else 0)"

definition denom_stake :: "sr_state \<Rightarrow> string \<Rightarrow> nat" where
  "denom_stake s d = sum_list (map (stake_in (sr_services s) d) (sr_verifiers s))"

definition funds_in :: "sr_env \<Rightarrow> string \<Rightarrow> nat" where
  "funds_in env d = sum_list (map (\<lambda>(d', amount). if d' = d then unat amount else 0) (se_funds env))"

definition paid_out :: "sr_response \<Rightarrow> string \<Rightarrow> nat" where
  "paid_out r d = sum_list (map (\<lambda>m. if stake_denom m = d then unat (stake_amount m) else 0) (messages r))"

text \<open>
  The balance of the contract in one denomination over a sequence of calls. A call that fails
  returns its funds. The result is \<open>None\<close> if the balance does not cover a payment.
\<close>

fun sr_balance :: "string \<Rightarrow> sr_state \<Rightarrow> nat \<Rightarrow> sr_call list \<Rightarrow> nat option" where
  "sr_balance d s b [] = Some b"
| "sr_balance d s b (call # calls) = (case sr_tx s call of
     Inl _ \<Rightarrow> sr_balance d s b calls
   | Inr (s', r) \<Rightarrow>
       let b' = b + funds_in (fst call) d in
       if b' < paid_out r d then None else sr_balance d s' (b' - paid_out r d) calls)"

text \<open>
  What a call bonds for a verifier of a service, what it pays to it, and both over the calls
  that succeed in a sequence.
\<close>

definition bonded_by :: "sr_state \<Rightarrow> sr_call \<Rightarrow> string \<Rightarrow> string \<Rightarrow> nat" where
  "bonded_by s call n a = (case call of (env, sender, msg) \<Rightarrow>
     if msg = BondVerifier n \<and> sender = a
     then (case Option.bind (kv_get (sr_services s) n) (\<lambda>sv. find (\<lambda>coin. fst coin = sv_bond_denom sv) (se_funds env)) of
             Some coin \<Rightarrow> unat (snd coin) | None \<Rightarrow> 0)
     else 0)"

definition claimed_by :: "sr_call \<Rightarrow> sr_response \<Rightarrow> string \<Rightarrow> string \<Rightarrow> nat" where
  "claimed_by call r n a = (case call of (_, _, msg) \<Rightarrow>
     if msg = ClaimStake n then sum_list (map (\<lambda>m. if stake_to m = a then unat (stake_amount m) else 0) (messages r)) else 0)"

fun sr_account :: "string \<Rightarrow> string \<Rightarrow> sr_state \<Rightarrow> sr_call list \<Rightarrow> nat \<times> nat" where
  "sr_account n a s [] = (0, 0)"
| "sr_account n a s (call # calls) = (case sr_tx s call of
     Inl _ \<Rightarrow> sr_account n a s calls
   | Inr (s', r) \<Rightarrow>
       let (bonded, claimed) = sr_account n a s' calls in (bonded_by s call n a + bonded, claimed_by call r n a + claimed))"

definition auth_one :: "string \<Rightarrow> (string \<times> string) \<times> sr_verifier \<Rightarrow> nat" where
  "auth_one n x = (case x of ((n', _), v) \<Rightarrow> if n' = n \<and> vf_authorization_state v = Authorized then 1 else 0)"

definition auth_number :: "sr_state \<Rightarrow> string \<Rightarrow> nat" where
  "auth_number s n = sum_list (map (auth_one n) (sr_verifiers s))"

definition authorized_set :: "sr_state \<Rightarrow> string \<Rightarrow> string set" where
  "authorized_set s n = {a. \<exists>v. kv_get (sr_verifiers s) (n, a) = Some v \<and> vf_authorization_state v = Authorized}"

definition authorization :: "sr_state \<Rightarrow> string \<Rightarrow> string \<Rightarrow> authorization_state" where
  "authorization s n a = (case kv_get (sr_verifiers s) (n, a) of Some v \<Rightarrow> vf_authorization_state v | None \<Rightarrow> NotAuthorized)"

definition eligible :: "sr_state \<Rightarrow> service \<Rightarrow> string \<Rightarrow> string \<Rightarrow> sr_verifier \<Rightarrow> bool" where
  "eligible s sv n c v \<longleftrightarrow> kv_get (sr_per_chain s) (n, c, vf_address v) = Some ()
     \<and> kv_get (sr_verifiers s) (n, vf_address v) = Some v \<and> vf_authorization_state v = Authorized
     \<and> bonded_enough (sv_min_verifier_bond sv) (vf_bonding_state v)"

definition verifier_ok :: "sr_state \<Rightarrow> string \<Rightarrow> string \<Rightarrow> sr_verifier \<Rightarrow> bool" where
  "verifier_ok s n a v \<longleftrightarrow> vf_address v = a \<and> vf_service_name v = n \<and> has_service s n
     \<and> (vf_bonding_state v = Unbonded \<or> 0 < stake_of (vf_bonding_state v))"

definition service_ok :: "sr_state \<Rightarrow> string \<Rightarrow> service \<Rightarrow> bool" where
  "service_ok s n sv \<longleftrightarrow> sv_name sv = n \<and> sv_min_verifier_bond sv \<noteq> 0
     \<and> (\<forall>limit. sv_max_num_verifiers sv = Some limit \<longrightarrow> auth_number s n \<le> unat limit)
     \<and> (\<exists>count. kv_get (sr_authorized_count s) n = Some count \<and> unat count = auth_number s n)"

definition sr_store_ok :: "sr_state \<Rightarrow> bool" where
  "sr_store_ok s \<longleftrightarrow> kv_ok (sr_services s) \<and> kv_ok (sr_authorized_count s) \<and> kv_ok (sr_verifiers s) \<and> kv_ok (sr_per_chain s)"

definition sr_inv :: "sr_state \<Rightarrow> bool" where
  "sr_inv s \<longleftrightarrow> sr_store_ok s
     \<and> (\<forall>n a v. kv_get (sr_verifiers s) (n, a) = Some v \<longrightarrow> verifier_ok s n a v)
     \<and> (\<forall>n sv. kv_get (sr_services s) n = Some sv \<longrightarrow> service_ok s n sv)"

section \<open>Lemmas\<close>

subsection \<open>Sums over the verifiers\<close>

lemma denom_stake_set:
  assumes "kv_ok (sr_verifiers s)"
  shows "denom_stake (s\<lparr>sr_verifiers := kv_set (n, a) v (sr_verifiers s)\<rparr>) d + (if has_denom (sr_services s) d n then stake s n a else 0)
    = denom_stake s d + (if has_denom (sr_services s) d n then stake_of (vf_bonding_state v) else 0)"
  using sum_list_kv_upd [OF assms, of "stake_in (sr_services s) d" "(n, a)" v]
  by (auto simp: denom_stake_def stake_in_def stake_def split: option.splits if_splits)

lemma auth_number_set:
  assumes "kv_ok (sr_verifiers s)"
  shows "auth_number (s\<lparr>sr_verifiers := kv_set (n, a) v (sr_verifiers s)\<rparr>) m
      + (if m = n \<and> a \<in> authorized_set s n then 1 else 0)
    = auth_number s m + (if m = n \<and> vf_authorization_state v = Authorized then 1 else 0)"
  using sum_list_kv_upd [OF assms, of "auth_one m" "(n, a)" v]
  by (auto simp: auth_number_def auth_one_def authorized_set_def split: option.splits if_splits)

lemma sum_auth_one:
  "sum_list (map (auth_one n) xs) = length (filter (\<lambda>((n', _), v). n' = n \<and> vf_authorization_state v = Authorized) xs)"
  by (induction xs) (auto simp: auth_one_def split: if_splits)

lemma auth_number_card:
  assumes "kv_ok (sr_verifiers s)"
  shows "auth_number s n = card (authorized_set s n)" and "finite (authorized_set s n)"
proof -
  let ?xs = "filter (\<lambda>((n', _), v). n' = n \<and> vf_authorization_state v = Authorized) (sr_verifiers s)"
  have 1: "auth_number s n = length ?xs"
    by (simp add: auth_number_def sum_auth_one)
  have keys: "distinct (map fst ?xs)" using kv_ok_distinct [OF assms] by (simp add: distinct_map_filter)
  then have d: "distinct (map (snd \<circ> fst) ?xs)"
    by (auto simp: distinct_map inj_on_def)
  have s: "set (map (snd \<circ> fst) ?xs) = authorized_set s n"
    using assms by (force simp: authorized_set_def kv_ok_get_iff)
  show "auth_number s n = card (authorized_set s n)"
    using 1 distinct_card [OF d] s by simp
  show "finite (authorized_set s n)" using s by (metis List.finite_set)
qed


lemma auth_number_frame [simp]:
  "auth_number (s\<lparr>sr_services := a\<rparr>) = auth_number s" "auth_number (s\<lparr>sr_authorized_count := c\<rparr>) = auth_number s"
  "auth_number (s\<lparr>sr_overrides := b\<rparr>) = auth_number s" "auth_number (s\<lparr>sr_per_chain := e\<rparr>) = auth_number s"
  by (simp_all add: auth_number_def fun_eq_iff)

lemma denom_stake_frame [simp]:
  "denom_stake (s\<lparr>sr_authorized_count := c\<rparr>) = denom_stake s"
  "denom_stake (s\<lparr>sr_overrides := b\<rparr>) = denom_stake s" "denom_stake (s\<lparr>sr_per_chain := e\<rparr>) = denom_stake s"
  by (simp_all add: denom_stake_def fun_eq_iff)

lemma denom_stake_services:
  assumes "sr_inv s" and "\<And>n d. has_service s n \<Longrightarrow> has_denom services d n = has_denom (sr_services s) d n"
  shows "denom_stake (s\<lparr>sr_services := services\<rparr>) d = denom_stake s d"
proof -
  have "stake_in services d x = stake_in (sr_services s) d x" if "x \<in> set (sr_verifiers s)" for x
  proof -
    obtain n a v where x: "x = ((n, a), v)" by (metis surj_pair)
    then have "kv_get (sr_verifiers s) (n, a) = Some v"
      using that assms(1) by (simp add: sr_inv_def sr_store_ok_def kv_ok_get_iff)
    then have "has_service s n" using assms(1) by (auto simp: sr_inv_def verifier_ok_def)
    then show ?thesis by (simp add: x stake_in_def assms(2))
  qed
  then show ?thesis by (simp add: denom_stake_def cong: map_cong)
qed

lemma sr_inv_store: "sr_inv s \<Longrightarrow> kv_ok (sr_verifiers s)"
  by (simp add: sr_inv_def sr_store_ok_def)

lemma sr_inv_verifier: "sr_inv s \<Longrightarrow> kv_get (sr_verifiers s) (n, a) = Some v \<Longrightarrow> verifier_ok s n a v"
  by (simp add: sr_inv_def)

lemma sr_inv_service: "sr_inv s \<Longrightarrow> kv_get (sr_services s) n = Some sv \<Longrightarrow> service_ok s n sv"
  by (simp add: sr_inv_def)

lemma stake_Some: "kv_get (sr_verifiers s) (n, a) = Some v \<Longrightarrow> stake s n a = stake_of (vf_bonding_state v)"
  by (simp add: stake_def)

subsection \<open>Preservation of the invariant\<close>

lemma sr_inv_frame:
  "sr_inv s \<Longrightarrow> sr_inv (s\<lparr>sr_overrides := b\<rparr>)"
  "sr_inv s \<Longrightarrow> kv_ok e \<Longrightarrow> sr_inv (s\<lparr>sr_per_chain := e\<rparr>)"
  by (simp_all add: sr_inv_def sr_store_ok_def verifier_ok_def service_ok_def has_service_def)

lemma sr_inv_set_verifier:
  assumes "sr_inv s" and "verifier_ok s n a v" and "vf_authorization_state v = Authorized \<longleftrightarrow> a \<in> authorized_set s n"
  shows "sr_inv (s\<lparr>sr_verifiers := kv_set (n, a) v (sr_verifiers s)\<rparr>)"
proof -
  let ?s = "s\<lparr>sr_verifiers := kv_set (n, a) v (sr_verifiers s)\<rparr>"
  have auth: "auth_number ?s m = auth_number s m" for m
    using auth_number_set [OF sr_inv_store [OF assms(1)], of n a v m] assms(3) by (auto split: if_splits)
  have "service_ok ?s m sv = service_ok s m sv" for m sv by (simp add: service_ok_def auth)
  moreover have "verifier_ok ?s m b w = verifier_ok s m b w" for m b w by (simp add: verifier_ok_def has_service_def)
  ultimately show ?thesis using assms(1,2) by (auto simp: sr_inv_def sr_store_ok_def)
qed

subsection \<open>Authorization\<close>

definition with_authorization :: "string \<Rightarrow> authorization_state \<Rightarrow> string \<Rightarrow> sr_verifier option \<Rightarrow> sr_verifier" where
  "with_authorization n st a existing = (case existing of
     Some v \<Rightarrow> v\<lparr>vf_authorization_state := st\<rparr>
   | None \<Rightarrow> \<lparr>vf_address = a, vf_bonding_state = Unbonded, vf_authorization_state = st, vf_service_name = n\<rparr>)"

text \<open>What a batch of authorizations makes of the verifiers, with the change of their number.\<close>

definition authorizes :: "string \<Rightarrow> authorization_state \<Rightarrow> string set \<Rightarrow> sr_state \<Rightarrow> sr_state \<Rightarrow> int \<Rightarrow> bool" where
  "authorizes n st vs s s' change \<longleftrightarrow> (\<exists>V. s' = s\<lparr>sr_verifiers := V\<rparr> \<and> kv_ok V)
     \<and> (\<forall>m a. kv_get (sr_verifiers s') (m, a) = (if m = n \<and> a \<in> vs
            then Some (with_authorization n st a (kv_get (sr_verifiers s) (m, a))) else kv_get (sr_verifiers s) (m, a)))
     \<and> (\<forall>m. int (auth_number s' m) = int (auth_number s m) + (if m = n then change else 0))
     \<and> (\<forall>d. denom_stake s' d = denom_stake s d)
     \<and> (st \<noteq> Authorized \<longrightarrow> change \<le> 0)"

lemma with_authorization_twice:
  "with_authorization n st a (Some (with_authorization n st a x)) = with_authorization n st a x"
  by (cases x) (simp_all add: with_authorization_def)

lemma with_authorization_simps [simp]:
  "vf_authorization_state (with_authorization n st a x) = st"
  "stake_of (vf_bonding_state (with_authorization n st a x)) = (case x of Some v \<Rightarrow> stake_of (vf_bonding_state v) | None \<Rightarrow> 0)"
  by (cases x; simp add: with_authorization_def)+

lemma count_change_eq:
  "calculate_auth_verifier_count_change (map_option vf_authorization_state x) st
     = (if st = Authorized then 1 else 0) - (if map_option vf_authorization_state x = Some Authorized then 1 else 0)"
  by (cases x; cases st; simp; rename_tac v; case_tac "vf_authorization_state v"; simp)

lemma authorizes_one:
  assumes "authorize_one n st (s, k) a = Inr (s', k')" and "kv_ok (sr_verifiers s)"
  shows "authorizes n st {a} s s' (k' - k)"
proof -
  let ?old = "kv_get (sr_verifiers s) (n, a)"
  have s': "s' = s\<lparr>sr_verifiers := kv_set (n, a) (with_authorization n st a ?old) (sr_verifiers s)\<rparr>"
    and k': "k' = k + calculate_auth_verifier_count_change (map_option vf_authorization_state ?old) st"
    using assms(1) by (auto simp: authorize_one_def Let_def with_authorization_def checked_add_i16_def result_simps split: if_splits)
  have "map_option vf_authorization_state ?old = Some Authorized \<longleftrightarrow> a \<in> authorized_set s n"
    by (auto simp: authorized_set_def)
  then have "int (auth_number s' m) = int (auth_number s m) + (if m = n then k' - k else 0)" for m
    using auth_number_set [OF assms(2), of n a "with_authorization n st a ?old" m]
    by (auto simp: s' k' count_change_eq split: if_splits)
  moreover have "denom_stake s' d = denom_stake s d" for d
    using denom_stake_set [OF assms(2), of n a "with_authorization n st a ?old" d]
    by (auto simp: s' stake_def split: if_splits)
  moreover have "st \<noteq> Authorized \<longrightarrow> k' - k \<le> 0" by (simp add: k' count_change_eq)
  ultimately show ?thesis using assms(2) by (auto simp: authorizes_def s')
qed

lemma authorizes_trans:
  assumes "authorizes n st A s s' k" and "authorizes n st B s' s'' k'"
  shows "authorizes n st (A \<union> B) s s'' (k + k')"
proof -
  have "\<exists>V. s'' = s\<lparr>sr_verifiers := V\<rparr> \<and> kv_ok V" using assms by (auto simp: authorizes_def)
  moreover have "kv_get (sr_verifiers s'') (m, a) = (if m = n \<and> a \<in> A \<union> B
      then Some (with_authorization n st a (kv_get (sr_verifiers s) (m, a))) else kv_get (sr_verifiers s) (m, a))" for m a
    using assms unfolding authorizes_def by (cases "a \<in> A"; cases "a \<in> B") (simp_all add: with_authorization_twice)
  moreover have "st \<noteq> Authorized \<longrightarrow> k + k' \<le> 0" using assms by (auto simp: authorizes_def)
  moreover have "int (auth_number s'' m) = int (auth_number s m) + (if m = n then k + k' else 0)"
    and "denom_stake s'' d = denom_stake s d" for m d
    using assms by (simp_all add: authorizes_def)
  ultimately show ?thesis unfolding authorizes_def by blast
qed

lemma authorizes_fold:
  assumes "try_fold (authorize_one n st) (s, k) vs = Inr (s', k')" and "kv_ok (sr_verifiers s)"
  shows "authorizes n st (set vs) s s' (k' - k)"
  using assms
proof (induction vs arbitrary: s k)
  case Nil
  then show ?case by (auto simp: authorizes_def intro!: exI [of _ "sr_verifiers s"])
next
  case (Cons a vs)
  from Cons.prems(1) obtain s1 k1 where one: "authorize_one n st (s, k) a = Inr (s1, k1)"
    and rest: "try_fold (authorize_one n st) (s1, k1) vs = Inr (s', k')"
    by (auto simp: result_simps)
  have a: "authorizes n st {a} s s1 (k1 - k)" using one Cons.prems(2) by (rule authorizes_one)
  then have "kv_ok (sr_verifiers s1)" by (auto simp: authorizes_def)
  with rest have "authorizes n st (set vs) s1 s' (k' - k1)" by (rule Cons.IH)
  from authorizes_trans [OF a this] show ?case by simp
qed


lemma sr_inv_authorizes:
  assumes "sr_inv s" and "authorizes n st vs s s1 change" and "kv_get (sr_services s) n = Some sv" and "kv_ok C"
    and "\<And>m. m \<noteq> n \<Longrightarrow> kv_get C m = kv_get (sr_authorized_count s) m"
    and "kv_get C n = Some cnt" and "int (unat cnt) = int (auth_number s n) + change"
    and "\<And>limit. sv_max_num_verifiers sv = Some limit \<Longrightarrow> st = Authorized \<Longrightarrow> cnt \<le> limit"
  shows "sr_inv (s1\<lparr>sr_authorized_count := C\<rparr>)"
proof -
  obtain V where s1: "s1 = s\<lparr>sr_verifiers := V\<rparr>" and V: "kv_ok V" using assms(2) by (auto simp: authorizes_def)
  have get: "kv_get V (m, a) = (if m = n \<and> a \<in> vs
      then Some (with_authorization n st a (kv_get (sr_verifiers s) (m, a))) else kv_get (sr_verifiers s) (m, a))" for m a
    using assms(2) by (simp add: authorizes_def s1)
  have auth: "int (auth_number s1 m) = int (auth_number s m) + (if m = n then change else 0)"
    and down: "st \<noteq> Authorized \<Longrightarrow> change \<le> 0" for m
    using assms(2) by (simp_all add: authorizes_def)
  have "int (auth_number s1 n) = int (unat cnt)" by (simp only: auth [of n] assms(7) simp_thms if_True)
  then have count: "auth_number s1 n = unat cnt" by (simp only: of_nat_eq_iff)
  have fewer: "unat cnt \<le> auth_number s n" if "st \<noteq> Authorized"
    using auth [of n] down that by (simp flip: count)
  have other: "auth_number s1 m = auth_number s m" if "m \<noteq> n" for m using auth [of m] that by simp
  have "verifier_ok (s1\<lparr>sr_authorized_count := C\<rparr>) m a v" if "kv_get V (m, a) = Some v" for m a v
    using that sr_inv_verifier [OF assms(1), of m a] assms(3)
    by (auto simp: get verifier_ok_def has_service_def s1 with_authorization_def split: if_splits option.splits)
  moreover have "service_ok (s1\<lparr>sr_authorized_count := C\<rparr>) m sv'" if "kv_get (sr_services s) m = Some sv'" for m sv'
  proof (cases "m = n")
    case True
    have ok: "service_ok s n sv" using assms(1,3) by (rule sr_inv_service)
    have "unat cnt \<le> unat limit" if "sv_max_num_verifiers sv = Some limit" for limit
      using that ok fewer assms(8) [of limit] by (cases "st = Authorized") (auto simp: service_ok_def word_le_nat_alt intro: order_trans [OF fewer])
    then show ?thesis using True ok that assms(3,6) by (simp add: service_ok_def count)
  next
    case False
    then show ?thesis using sr_inv_service [OF assms(1) that] by (simp add: service_ok_def other assms(5))
  qed
  ultimately show ?thesis using assms(1,4) V by (simp add: sr_inv_def sr_store_ok_def s1)
qed

lemma update_authorization_Inr:
  assumes "update_verifier_authorization_status s vs n st = Inr (s', r)"
  obtains s1 change where "authorizes n st (set vs) s s1 change \<or> \<not> kv_ok (sr_verifiers s)" "has_service s n"
    "apply_authorized_count_change s1 n change = Inr s'" "r = response_new"
    "st = Authorized \<longrightarrow> ensure_authorization_max_limit_respected s' n = (Inr () :: (sr_error, _) result)"
proof -
  from assms obtain s1 change where "try_fold (authorize_one n st) (s, 0) vs = Inr (s1, change)"
    "apply_authorized_count_change s1 n change = Inr s'" "has_service s n" "r = response_new"
    "(if st = Authorized then ensure_authorization_max_limit_respected s' n else Ok ()) = (Inr () :: (sr_error, _) result)"
    by (auto simp: update_verifier_authorization_status_def ensure_service_exists_def state_update_authorization_def result_simps)
  then show ?thesis using that [of s1 change] authorizes_fold [of n st s 0 vs s1 change] by (cases "st = Authorized") auto
qed

lemma int_unat_of_int: "0 \<le> x \<Longrightarrow> x < 2 ^ 16 \<Longrightarrow> int (unat (of_int x :: u16)) = x"
  by (simp add: unsigned_of_int take_bit_int_eq_self)

lemma apply_count_Inr:
  assumes "apply_authorized_count_change s n change = Inr s'" and "kv_get (sr_authorized_count s) n = Some c"
    and "kv_ok (sr_authorized_count s)"
  obtains C c' where "s' = s\<lparr>sr_authorized_count := C\<rparr>" "kv_ok C" "kv_get C n = Some c'" "int (unat c') = int (unat c) + change"
    "\<forall>m. m \<noteq> n \<longrightarrow> kv_get C m = kv_get (sr_authorized_count s) m"
proof (cases "change = 0")
  case True
  then show ?thesis using assms that [of "sr_authorized_count s" c] by (simp add: apply_authorized_count_change_def)
next
  case False
  define c' where "c' = (of_int (int (unat c) + change) :: u16)"
  have "s' = s\<lparr>sr_authorized_count := kv_set n c' (sr_authorized_count s)\<rparr>"
    and "0 \<le> int (unat c) + change" "int (unat c) + change < 2 ^ 16"
    using assms(1,2) False
    by (auto simp: apply_authorized_count_change_def checked_add_signed_def Let_def c'_def result_simps split: if_splits)
  moreover from this(2,3) have "int (unat c') = int (unat c) + change" unfolding c'_def by (rule int_unat_of_int)
  ultimately show ?thesis
    using assms(3) by (intro that [of "kv_set n c' (sr_authorized_count s)" c']) auto
qed

lemma update_authorization_step:
  assumes "sr_inv s" and "update_verifier_authorization_status s vs n st = Inr (s', r)"
  obtains s1 change C where "authorizes n st (set vs) s s1 change" "s' = s1\<lparr>sr_authorized_count := C\<rparr>" "r = response_new" "sr_inv s'"
proof -
  from assms(2) obtain s1 change where a: "authorizes n st (set vs) s s1 change \<or> \<not> kv_ok (sr_verifiers s)"
    and n: "has_service s n" and counted: "apply_authorized_count_change s1 n change = Inr s'" and r: "r = response_new"
    and limit: "st = Authorized \<longrightarrow> ensure_authorization_max_limit_respected s' n = (Inr () :: (sr_error, _) result)"
    by (rule update_authorization_Inr)
  from a sr_inv_store [OF assms(1)] have a: "authorizes n st (set vs) s s1 change" by blast
  then obtain V where s1: "s1 = s\<lparr>sr_verifiers := V\<rparr>" by (auto simp: authorizes_def)
  from n obtain sv where sv: "kv_get (sr_services s) n = Some sv" by (auto simp: has_service_def)
  with sr_inv_service [OF assms(1) sv] obtain c where c: "kv_get (sr_authorized_count s) n = Some c" "unat c = auth_number s n"
    by (auto simp: service_ok_def)
  have c1: "kv_get (sr_authorized_count s1) n = Some c" "kv_ok (sr_authorized_count s1)"
    using c(1) assms(1) by (simp_all add: s1 sr_inv_def sr_store_ok_def)
  obtain C c' where s': "s' = s1\<lparr>sr_authorized_count := C\<rparr>" and C: "kv_ok C" "kv_get C n = Some c'"
    "int (unat c') = int (unat c) + change" "\<forall>m. m \<noteq> n \<longrightarrow> kv_get C m = kv_get (sr_authorized_count s1) m"
    by (rule apply_count_Inr [OF counted c1])
  have "c' \<le> lim" if "sv_max_num_verifiers sv = Some lim" "st = Authorized" for lim
    using limit that sv C(2)
    by (simp add: ensure_authorization_max_limit_respected_def state_service_def number_of_authorized_verifiers_def s' s1 result_simps)
  then have "sr_inv s'"
    unfolding s' using C c(2) by (intro sr_inv_authorizes [OF assms(1) a sv C(1) _ C(2)]) (simp_all add: s1)
  then show ?thesis using that a s' r by blast
qed


subsection \<open>Effects of the operations\<close>

definition services_kept :: "sr_state \<Rightarrow> sr_state \<Rightarrow> bool" where
  "services_kept s s' \<longleftrightarrow> (\<forall>n sv. kv_get (sr_services s) n = Some sv \<longrightarrow> (\<exists>sv'. kv_get (sr_services s') n = Some sv'
     \<and> sv_bond_denom sv' = sv_bond_denom sv \<and> sv_coordinator_contract sv' = sv_coordinator_contract sv))"

text \<open>
  What every call does to the stakes: it pays no more than the stakes shrink by or than it
  brings in, and a verifier starts to unbond only in an own call of \<open>UnbondVerifier\<close> that the
  coordinator allows.
\<close>

definition starts_unbonding :: "sr_state \<Rightarrow> sr_call \<Rightarrow> string \<Rightarrow> string \<Rightarrow> u64 \<Rightarrow> bool" where
  "starts_unbonding s call n a t \<longleftrightarrow> (case call of (env, sender, msg) \<Rightarrow>
     msg = UnbondVerifier n \<and> sender = a \<and> se_time env = t
     \<and> (\<exists>sv. kv_get (sr_services s) n = Some sv \<and> se_ready_to_unbond env (sv_coordinator_contract sv) a = Some True))"

definition unbonding_since :: "sr_state \<Rightarrow> string \<Rightarrow> string \<Rightarrow> u64 \<Rightarrow> bool" where
  "unbonding_since s n a t \<longleftrightarrow> (\<exists>v amount. kv_get (sr_verifiers s) (n, a) = Some v \<and> vf_bonding_state v = Unbonding amount t)"

definition sr_effect :: "sr_state \<Rightarrow> sr_call \<Rightarrow> sr_state \<Rightarrow> sr_response \<Rightarrow> bool" where
  "sr_effect s call s' r \<longleftrightarrow> sr_inv s' \<and> services_kept s s'
     \<and> (\<forall>d. denom_stake s' d + paid_out r d \<le> denom_stake s d + funds_in (fst call) d)
     \<and> (\<forall>n a t. unbonding_since s' n a t \<longrightarrow> unbonding_since s n a t \<or> starts_unbonding s call n a t)"

lemma services_kept_same: "sr_services s' = sr_services s \<Longrightarrow> services_kept s s'"
  by (simp add: services_kept_def)

lemma paid_out_simps [simp]: "paid_out response_new d = 0" "paid_out \<lparr>messages = [], events = e\<rparr> d = 0"
  by (simp_all add: paid_out_def response_new_def)

lemma sr_effect_frame:
  assumes "sr_inv s'" and "sr_services s' = sr_services s" and "sr_verifiers s' = sr_verifiers s" and "messages r = []"
  shows "sr_effect s call s' r"
  using assms by (simp add: sr_effect_def services_kept_same unbonding_since_def denom_stake_def paid_out_def)

lemma sr_effect_verifier:
  assumes "sr_inv s" and "s' = s\<lparr>sr_verifiers := kv_set (n, a) v (sr_verifiers s)\<rparr>" and "verifier_ok s n a v"
    and "vf_authorization_state v = Authorized \<longleftrightarrow> a \<in> authorized_set s n"
    and "kv_get (sr_services s) n = Some sv"
    and "stake_of (vf_bonding_state v) + paid_out r (sv_bond_denom sv) \<le> stake s n a + funds_in (fst call) (sv_bond_denom sv)"
    and "\<And>d. d \<noteq> sv_bond_denom sv \<Longrightarrow> paid_out r d = 0"
    and "\<And>amount t. vf_bonding_state v = Unbonding amount t \<Longrightarrow> unbonding_since s n a t \<or> starts_unbonding s call n a t"
  shows "sr_effect s call s' r"
proof -
  have "sr_inv s'" unfolding assms(2) using assms(1,3,4) by (rule sr_inv_set_verifier)
  moreover have "services_kept s s'" by (rule services_kept_same) (simp add: assms(2))
  moreover have "denom_stake s' d + paid_out r d \<le> denom_stake s d + funds_in (fst call) d" for d
    using denom_stake_set [OF sr_inv_store [OF assms(1)], of n a v d] assms(5-7)
    by (cases "d = sv_bond_denom sv") (auto simp: assms(2) has_denom_def)
  moreover have "unbonding_since s m b t \<or> starts_unbonding s call m b t" if "unbonding_since s' m b t" for m b t
    using that assms(8) by (auto simp: unbonding_since_def assms(2) split: if_splits)
  ultimately show ?thesis by (simp add: sr_effect_def)
qed

lemma bond_funds_Inr:
  assumes "bond_funds sv funds = Inr bond" and "funds = se_funds env"
  shows "bond = None \<or> (\<exists>amount. bond = Some amount \<and> amount \<noteq> 0 \<and> unat amount \<le> funds_in env (sv_bond_denom sv))"
proof -
  have le: "unat amount \<le> sum_list (map (\<lambda>(d', amount). if d' = d then unat amount else 0) coins)"
    if "(d, amount) \<in> set coins" for d amount and coins :: "(string \<times> u128) list"
    using that by (induction coins) auto
  show ?thesis
  proof (cases "funds = []")
    case True
    then show ?thesis using assms(1) by (simp add: bond_funds_def)
  next
    case False
    then obtain coin where coin: "find (\<lambda>coin. fst coin = sv_bond_denom sv) funds = Some coin" "snd coin \<noteq> 0" "bond = Some (snd coin)"
      using assms(1) by (auto simp: bond_funds_def nonempty_uint128_try_from_def result_simps split: if_splits)
    then have "coin \<in> set funds" and d: "fst coin = sv_bond_denom sv" by (auto simp: find_Some_iff)
    with le [of "fst coin" "snd coin" funds] show ?thesis using coin(2,3) assms(2) by (cases coin) (simp add: funds_in_def)
  qed
qed


lemma state_service_None: "state_service s n None = Inr sv \<longleftrightarrow> kv_get (sr_services s) n = Some sv"
  by (auto simp: state_service_def result_simps)

lemma state_bond_verifier_Inr:
  assumes "state_bond_verifier v bond = Inr v'" and "bond \<noteq> Some 0"
  shows "\<exists>amount. v' = v\<lparr>vf_bonding_state := Bonded amount\<rparr> \<and> amount \<noteq> 0
    \<and> unat amount = stake_of (vf_bonding_state v) + (case bond of Some b \<Rightarrow> unat b | None \<Rightarrow> 0)"
proof -
  have add: "\<exists>amount. v' = v\<lparr>vf_bonding_state := Bonded amount\<rparr> \<and> amount \<noteq> 0 \<and> unat amount = unat a + (case bond of Some b \<Rightarrow> unat b | None \<Rightarrow> 0)"
    if "checked_add a (case_option 0 id bond) = Some total'" "total' \<noteq> 0" "v' = v\<lparr>vf_bonding_state := Bonded total'\<rparr>" for a total'
    using that checked_add_unat [OF that(1)] by (auto split: option.splits)
  show ?thesis
    using assms add
    by (cases "vf_bonding_state v") (auto simp: state_bond_verifier_def nonempty_uint128_try_from_def Let_def result_simps split: if_splits)
qed

definition bonded_to :: "sr_state \<Rightarrow> string \<Rightarrow> string \<Rightarrow> u128 option \<Rightarrow> sr_verifier \<Rightarrow> bool" where
  "bonded_to s a n bond v \<longleftrightarrow> (case kv_get (sr_verifiers s) (n, a) of
     Some v0 \<Rightarrow> state_bond_verifier v0 bond = Inr v
   | None \<Rightarrow> \<exists>amount. bond = Some amount \<and> v = \<lparr>vf_address = a, vf_bonding_state = Bonded amount,
       vf_authorization_state = NotAuthorized, vf_service_name = n\<rparr>)"

lemma bond_verifier_Inr:
  assumes "bond_verifier env s sender n = Inr (s', r)"
  obtains sv bond v where "kv_get (sr_services s) n = Some sv" "bond_funds sv (se_funds env) = Inr bond" "bonded_to s sender n bond v"
    "s' = s\<lparr>sr_verifiers := kv_set (n, sender) v (sr_verifiers s)\<rparr>" "r = response_new"
  using assms
  by (cases "kv_get (sr_verifiers s) (n, sender)") (auto simp: bond_verifier_def state_service_None bonded_to_def result_simps)

lemma bond_verifier_step:
  assumes "sr_inv s" and "bond_verifier env s sender n = Inr (s', r)"
  shows "sr_effect s (env, sender, BondVerifier n) s' r"
proof -
  from assms(2) obtain sv bond v where sv: "kv_get (sr_services s) n = Some sv" and bond: "bond_funds sv (se_funds env) = Inr bond"
    and v: "bonded_to s sender n bond v"
    and s': "s' = s\<lparr>sr_verifiers := kv_set (n, sender) v (sr_verifiers s)\<rparr>" and r: "r = response_new"
    by (rule bond_verifier_Inr)
  from bond_funds_Inr [OF bond refl] have b0: "bond \<noteq> Some 0"
    and le: "(case bond of Some b \<Rightarrow> unat b | None \<Rightarrow> 0) \<le> funds_in env (sv_bond_denom sv)" by auto
  have n: "has_service s n" by (simp add: has_service_def sv)
  show ?thesis
  proof (cases "kv_get (sr_verifiers s) (n, sender)")
    case None
    with v obtain amount where "bond = Some amount" and
      v: "v = \<lparr>vf_address = sender, vf_bonding_state = Bonded amount, vf_authorization_state = NotAuthorized, vf_service_name = n\<rparr>"
      by (auto simp: bonded_to_def)
    with b0 le None n show ?thesis
      by (intro sr_effect_verifier [OF assms(1) s' _ _ sv])
        (auto simp: verifier_ok_def authorized_set_def stake_def r unat_gt_0)
  next
    case (Some v0)
    with v have "state_bond_verifier v0 bond = Inr v" by (simp add: bonded_to_def)
    from state_bond_verifier_Inr [OF this b0] obtain amount where v: "v = v0\<lparr>vf_bonding_state := Bonded amount\<rparr>"
      "amount \<noteq> 0" "unat amount = stake_of (vf_bonding_state v0) + (case bond of Some b \<Rightarrow> unat b | None \<Rightarrow> 0)" by blast
    from v(2) have "0 < unat amount" by (simp add: unat_gt_0)
    with v(1,3) le sr_inv_verifier [OF assms(1) Some] Some show ?thesis
      by (intro sr_effect_verifier [OF assms(1) s' _ _ sv])
        (auto simp: verifier_ok_def authorized_set_def stake_def r unat_gt_0)
  qed
qed

lemma unbond_verifier_step:
  assumes "sr_inv s" and "unbond_verifier env s sender n = Inr (s', r)"
  shows "sr_effect s (env, sender, UnbondVerifier n) s' r"
proof -
  from assms(2) obtain sv v0 ready v where sv: "kv_get (sr_services s) n = Some sv" and v0: "kv_get (sr_verifiers s) (n, sender) = Some v0"
    and ready: "se_ready_to_unbond env (sv_coordinator_contract sv) (vf_address v0) = Some ready"
    and v: "state_unbond_verifier v0 ready (se_time env) = Inr v"
    and s': "s' = s\<lparr>sr_verifiers := kv_set (n, sender) v (sr_verifiers s)\<rparr>" and r: "r = response_new"
    by (auto simp: unbond_verifier_def state_service_None result_simps)
  have ok: "verifier_ok s n sender v0" using assms(1) v0 by (rule sr_inv_verifier)
  obtain amount where amount: "stake_of (vf_bonding_state v0) = unat amount"
    "v = v0\<lparr>vf_bonding_state := if ready then Unbonding amount (se_time env) else RequestedUnbonding amount\<rparr>"
    "vf_bonding_state v0 \<noteq> Unbonded"
    using v by (cases "vf_bonding_state v0") (auto simp: state_unbond_verifier_def Let_def split: if_splits)
  show ?thesis
    using ok amount v0 ready sv
    by (intro sr_effect_verifier [OF assms(1) s' _ _ sv])
      (auto simp: verifier_ok_def authorized_set_def stake_def r starts_unbonding_def split: if_splits)
qed

lemma claim_stake_Inr:
  assumes "claim_stake env s sender n = Inr (s', r)"
  obtains sv v amount t t' where "kv_get (sr_services s) n = Some sv" "kv_get (sr_verifiers s) (n, sender) = Some v"
    "vf_bonding_state v = Unbonding amount t" "se_plus_days env t (ucast (sv_unbonding_period_days sv)) = Some t'" "t' \<le> se_time env"
    "vf_authorization_state v \<noteq> Jailed"
    "s' = s\<lparr>sr_verifiers := kv_set (n, sender) (v\<lparr>vf_bonding_state := Unbonded\<rparr>) (sr_verifiers s)\<rparr>"
    "r = \<lparr>messages = [StakeSend sender (sv_bond_denom sv) amount], events = []\<rparr>"
proof -
  from assms obtain sv v v' amount where *: "kv_get (sr_services s) n = Some sv" "kv_get (sr_verifiers s) (n, sender) = Some v"
    "claim_verifier_stake env v (ucast (sv_unbonding_period_days sv)) = Inr (v', amount)"
    "s' = s\<lparr>sr_verifiers := kv_set (n, sender) v' (sr_verifiers s)\<rparr>"
    "r = \<lparr>messages = [StakeSend sender (sv_bond_denom sv) amount], events = []\<rparr>"
    by (auto simp: claim_stake_def state_service_None result_simps)
  from *(3) obtain t t' where "vf_bonding_state v = Unbonding amount t" "vf_authorization_state v \<noteq> Jailed"
    "se_plus_days env t (ucast (sv_unbonding_period_days sv)) = Some t'" "t' \<le> se_time env" "v' = v\<lparr>vf_bonding_state := Unbonded\<rparr>"
    by (auto simp: claim_verifier_stake_def result_simps split: if_splits bonding_state.splits)
  with * that show ?thesis by blast
qed

lemma claim_stake_step:
  assumes "sr_inv s" and "claim_stake env s sender n = Inr (s', r)"
  shows "sr_effect s (env, sender, ClaimStake n) s' r"
proof -
  from assms(2) obtain sv v amount t t' where sv: "kv_get (sr_services s) n = Some sv"
    and v: "kv_get (sr_verifiers s) (n, sender) = Some v" "vf_bonding_state v = Unbonding amount t"
    and s': "s' = s\<lparr>sr_verifiers := kv_set (n, sender) (v\<lparr>vf_bonding_state := Unbonded\<rparr>) (sr_verifiers s)\<rparr>"
    and r: "r = \<lparr>messages = [StakeSend sender (sv_bond_denom sv) amount], events = []\<rparr>"
    by (rule claim_stake_Inr)
  show ?thesis
    using sr_inv_verifier [OF assms(1) v(1)] v
    by (intro sr_effect_verifier [OF assms(1) s' _ _ sv])
      (auto simp: verifier_ok_def authorized_set_def stake_def r paid_out_def)
qed


lemma register_service_step:
  assumes "sr_inv s" and "register_service s sv = Inr (s', r)" and "sv_min_verifier_bond sv \<noteq> 0"
  shows "sr_effect s call s' r"
proof -
  let ?n = "sv_name sv" and ?c = "sr_authorized_count s"
  from assms(2) have new: "kv_get (sr_services s) ?n = None" and r: "r = response_new"
    and s': "s' = s\<lparr>sr_authorized_count := kv_set ?n 0 ?c, sr_services := kv_set ?n sv (sr_services s)\<rparr>"
    by (auto simp: register_service_def save_new_service_def result_simps split: option.splits)
  have "authorized_set s ?n = {}"
    using sr_inv_verifier [OF assms(1), of ?n] new by (auto simp: authorized_set_def verifier_ok_def has_service_def)
  then have none: "auth_number s ?n = 0" using auth_number_card [OF sr_inv_store [OF assms(1)], of ?n] by simp
  have "verifier_ok s' m a v" if "kv_get (sr_verifiers s) (m, a) = Some v" for m a v
    using sr_inv_verifier [OF assms(1) that] by (simp add: verifier_ok_def has_service_def s')
  moreover have "service_ok s' m sv'" if "kv_get (sr_services s') m = Some sv'" for m sv'
    using that sr_inv_service [OF assms(1), of m] none assms(3) by (auto simp: s' service_ok_def split: if_splits)
  ultimately have "sr_inv s'" using assms(1) by (simp add: sr_inv_def sr_store_ok_def s')
  moreover have "services_kept s s'" using new by (auto simp: services_kept_def s')
  moreover have "denom_stake s' d = denom_stake s d" for d
  proof -
    have "denom_stake s' d = denom_stake (s\<lparr>sr_services := kv_set ?n sv (sr_services s)\<rparr>) d" by (simp add: denom_stake_def s')
    also have "\<dots> = denom_stake s d"
      using new by (intro denom_stake_services [OF assms(1)]) (auto simp: has_service_def has_denom_def)
    finally show ?thesis .
  qed
  ultimately show ?thesis by (simp add: sr_effect_def r) (simp add: unbonding_since_def s')
qed

lemma update_service_step:
  assumes "sr_inv s" and "update_service s n params = Inr (s', r)" and "up_min_verifier_bond params \<noteq> Some 0"
  shows "sr_effect s call s' r"
proof -
  from assms(2) obtain sv sv' where sv: "kv_get (sr_services s) n = Some sv" and r: "r = response_new"
    and s': "s' = s\<lparr>sr_services := kv_set n sv' (sr_services s)\<rparr>"
    and same: "sv_name sv' = sv_name sv" "sv_bond_denom sv' = sv_bond_denom sv"
      "sv_coordinator_contract sv' = sv_coordinator_contract sv"
    and bond: "sv_min_verifier_bond sv' = case_option (sv_min_verifier_bond sv) id (up_min_verifier_bond params)"
    and max_new: "sv_max_num_verifiers sv' = case_option (sv_max_num_verifiers sv) id (up_max_num_verifiers params)"
    by (auto simp: update_service_def state_update_service_def result_simps)
  have ok: "service_ok s n sv" using assms(1) sv by (rule sr_inv_service)
  have limit: "auth_number s n \<le> unat lim" if "up_max_num_verifiers params = Some (Some lim)" for lim
    using assms(2) that ok
    by (auto simp: update_service_def state_update_service_def number_of_authorized_verifiers_def service_ok_def word_le_nat_alt result_simps)
  have "service_ok s' n sv'"
    using ok same(1) assms(3) limit by (auto simp: service_ok_def s' bond max_new split: option.splits)
  then have "service_ok s' m sv1" if "kv_get (sr_services s') m = Some sv1" for m sv1
    using that sr_inv_service [OF assms(1), of m] by (cases "m = n") (auto simp: s' service_ok_def)
  moreover have "verifier_ok s' m a v" if "kv_get (sr_verifiers s) (m, a) = Some v" for m a v
    using sr_inv_verifier [OF assms(1) that] by (simp add: verifier_ok_def has_service_def s')
  ultimately have "sr_inv s'" using assms(1) by (simp add: sr_inv_def sr_store_ok_def s')
  moreover have "services_kept s s'" using sv same by (auto simp: services_kept_def s')
  moreover have "denom_stake s' d = denom_stake s d" for d
    unfolding s' using sv same(2) by (intro denom_stake_services [OF assms(1)]) (simp add: has_denom_def)
  ultimately show ?thesis by (simp add: sr_effect_def r) (simp add: unbonding_since_def s')
qed

lemma authorization_effect:
  assumes "sr_inv s" and "update_verifier_authorization_status s vs n st = Inr (s', r)"
  shows "sr_effect s call s' r"
proof -
  obtain s1 change C where a: "authorizes n st (set vs) s s1 change" and s': "s' = s1\<lparr>sr_authorized_count := C\<rparr>"
    and r: "r = response_new" and inv: "sr_inv s'"
    by (rule update_authorization_step [OF assms])
  obtain V where s1: "s1 = s\<lparr>sr_verifiers := V\<rparr>" using a by (auto simp: authorizes_def)
  have "denom_stake s' d = denom_stake s d" for d using a by (simp add: s' authorizes_def)
  moreover have "services_kept s s'" by (rule services_kept_same) (simp add: s' s1)
  moreover have "unbonding_since s m b t" if "unbonding_since s' m b t" for m b t
    using that a by (auto simp: unbonding_since_def s' authorizes_def with_authorization_def split: if_splits option.splits)
  ultimately show ?thesis using inv by (simp add: sr_effect_def r)
qed

lemma sr_dispatch_step:
  assumes "sr_inv s" and "sr_dispatch env s sender msg = Inr (s', r)" and "sr_msg_ok msg"
  shows "sr_effect s (env, sender, msg) s' r"
proof (cases msg)
  case (RegisterService sv)
  then show ?thesis using assms by (auto simp: result_simps intro!: register_service_step)
next
  case (UpdateService n params)
  then show ?thesis using assms by (auto intro: update_service_step)
next
  case (OverrideServiceParams n c params)
  then show ?thesis using assms
    by (auto simp: override_service_params_def save_service_override_def response_new_def result_simps
        intro!: sr_effect_frame sr_inv_frame split: if_splits)
next
  case (RemoveServiceParamsOverride n c)
  then show ?thesis using assms
    by (auto simp: remove_service_params_override_def remove_service_override_def response_new_def result_simps
        intro!: sr_effect_frame sr_inv_frame split: if_splits)
next
  case (RegisterChainSupport n cs)
  then show ?thesis using assms
    by (auto simp: register_chains_support_def state_register_chains_support_def result_simps sr_inv_def [of s] sr_store_ok_def
        intro!: sr_effect_frame sr_inv_frame(2) [OF assms(1)] kv_ok_foldl_set)
next
  case (DeregisterChainSupport n cs)
  then show ?thesis using assms
    by (auto simp: deregister_chains_support_def state_deregister_chains_support_def result_simps sr_inv_def [of s] sr_store_ok_def
        intro!: sr_effect_frame sr_inv_frame(2) [OF assms(1)] kv_ok_foldl_del)
qed (use assms in \<open>auto simp: result_simps intro: authorization_effect bond_verifier_step unbond_verifier_step claim_stake_step\<close>)

lemma sr_tx_step:
  assumes "sr_inv s" and "sr_tx s call = Inr (s', r)" and "sr_call_ok call"
  shows "sr_effect s call s' r"
  using assms by (cases call) (auto simp: sr_tx_def sr_execute_def sr_call_ok_def result_simps intro: sr_dispatch_step)

interpretation src: contract_machine sr_tx sr_inv sr_call_ok
  by unfold_locales (auto dest: sr_tx_step simp: sr_effect_def)

lemma sr_reachable_inv: "sr_reachable s \<Longrightarrow> sr_inv s"
proof (induction rule: sr_reachable.induct)
  case (sr_init env governance s r)
  then show ?case by (auto simp: sr_instantiate_def result_simps sr_inv_def sr_store_ok_def)
qed (rule src.exec_inv)


subsection \<open>Runs\<close>

lemma sr_balance_covers:
  assumes "sr_inv s" and "list_all sr_call_ok calls" and "denom_stake s d \<le> b"
  shows "\<exists>b'. sr_balance d s b calls = Some b' \<and> denom_stake (run_txs sr_tx s calls) d \<le> b'"
  using assms
proof (induction calls arbitrary: s b)
  case (Cons call calls)
  show ?case
  proof (cases "sr_tx s call")
    case (Inl e)
    then show ?thesis using Cons.IH [OF Cons.prems(1) _ Cons.prems(3)] Cons.prems(2) by simp
  next
    case (Inr x)
    then obtain s' r where tx: "sr_tx s call = Inr (s', r)" by (cases x) simp
    then have e: "sr_effect s call s' r" using Cons.prems(1,2) by (auto intro: sr_tx_step)
    then have "denom_stake s' d + paid_out r d \<le> denom_stake s d + funds_in (fst call) d" by (simp add: sr_effect_def)
    with Cons.prems(3) have "denom_stake s' d + paid_out r d \<le> b + funds_in (fst call) d" by linarith
    then show ?thesis
      using Cons.IH [of s' "b + funds_in (fst call) d - paid_out r d"] e Cons.prems(2) tx by (auto simp: sr_effect_def Let_def)
  qed
qed simp

lemma stake_set:
  "stake (s\<lparr>sr_verifiers := kv_set (n, a) v (sr_verifiers s)\<rparr>) m b =
     (if m = n \<and> b = a then stake_of (vf_bonding_state v) else stake s m b)"
  by (simp add: stake_def)

lemma bond_verifier_account:
  assumes "bond_verifier env s sender n = Inr (s', r)"
  shows "stake s' m a = stake s m a + bonded_by s (env, sender, BondVerifier n) m a"
proof -
  from assms obtain sv bond v where sv: "kv_get (sr_services s) n = Some sv" and bond: "bond_funds sv (se_funds env) = Inr bond"
    and v: "bonded_to s sender n bond v"
    and s': "s' = s\<lparr>sr_verifiers := kv_set (n, sender) v (sr_verifiers s)\<rparr>"
    by (rule bond_verifier_Inr)
  have b: "bonded_by s (env, sender, BondVerifier n) n sender = (case bond of Some b \<Rightarrow> unat b | None \<Rightarrow> 0)"
    using bond sv by (auto simp: bonded_by_def bond_funds_def nonempty_uint128_try_from_def result_simps split: if_splits)
  have "stake_of (vf_bonding_state v) = stake s n sender + (case bond of Some b \<Rightarrow> unat b | None \<Rightarrow> 0)"
  proof (cases "kv_get (sr_verifiers s) (n, sender)")
    case None
    then show ?thesis using v by (auto simp: stake_def bonded_to_def)
  next
    case (Some v0)
    with v have "state_bond_verifier v0 bond = Inr v" by (simp add: bonded_to_def)
    moreover from bond_funds_Inr [OF bond refl] have "bond \<noteq> Some 0" by auto
    ultimately show ?thesis using state_bond_verifier_Inr Some by (fastforce simp: stake_def)
  qed
  then show ?thesis using b by (auto simp: s' stake_set bonded_by_def)
qed

lemma claim_stake_account:
  assumes "claim_stake env s sender n = Inr (s', r)"
  shows "stake s' m a + claimed_by (env, sender, ClaimStake n) r m a = stake s m a"
proof -
  from assms obtain sv v amount t t' where "kv_get (sr_services s) n = Some sv" and
    v: "kv_get (sr_verifiers s) (n, sender) = Some v" "vf_bonding_state v = Unbonding amount t"
    and s': "s' = s\<lparr>sr_verifiers := kv_set (n, sender) (v\<lparr>vf_bonding_state := Unbonded\<rparr>) (sr_verifiers s)\<rparr>"
    and r: "r = \<lparr>messages = [StakeSend sender (sv_bond_denom sv) amount], events = []\<rparr>"
    by (rule claim_stake_Inr)
  show ?thesis using v by (auto simp: s' r stake_set claimed_by_def stake_def)
qed

lemma unbond_verifier_account:
  assumes "unbond_verifier env s sender n = Inr (s', r)"
  shows "stake s' m a = stake s m a"
proof -
  from assms obtain v0 ready v where v0: "kv_get (sr_verifiers s) (n, sender) = Some v0"
    and v: "state_unbond_verifier v0 ready (se_time env) = Inr v"
    and s': "s' = s\<lparr>sr_verifiers := kv_set (n, sender) v (sr_verifiers s)\<rparr>"
    by (auto simp: unbond_verifier_def result_simps)
  have "stake_of (vf_bonding_state v) = stake_of (vf_bonding_state v0)"
    using v by (cases "vf_bonding_state v0") (auto simp: state_unbond_verifier_def Let_def split: if_splits)
  then show ?thesis using v0 by (simp add: s' stake_set stake_def)
qed

lemma authorization_account:
  assumes "sr_inv s" and "update_verifier_authorization_status s vs n st = Inr (s', r)"
  shows "stake s' m a = stake s m a"
proof -
  obtain s1 change C where "authorizes n st (set vs) s s1 change" and "s' = s1\<lparr>sr_authorized_count := C\<rparr>"
    by (rule update_authorization_step [OF assms])
  then show ?thesis by (simp add: stake_def authorizes_def)
qed

lemma stake_frame [simp]:
  "stake (s\<lparr>sr_services := x\<rparr>) = stake s" "stake (s\<lparr>sr_authorized_count := c\<rparr>) = stake s"
  "stake (s\<lparr>sr_overrides := b\<rparr>) = stake s" "stake (s\<lparr>sr_per_chain := e\<rparr>) = stake s"
  by (simp_all add: stake_def fun_eq_iff)

text \<open>The operations that touch no verifier.\<close>

lemmas no_verifier_defs = register_service_def save_new_service_def update_service_def state_update_service_def
  override_service_params_def save_service_override_def remove_service_params_override_def remove_service_override_def
  register_chains_support_def state_register_chains_support_def deregister_chains_support_def state_deregister_chains_support_def

lemma sr_tx_account:
  assumes "sr_inv s" and "sr_tx s call = Inr (s', r)"
  shows "stake s' n a + claimed_by call r n a = stake s n a + bonded_by s call n a"
proof -
  obtain env sender msg where call: "call = (env, sender, msg)" by (cases call)
  with assms(2) have d: "sr_dispatch env s sender msg = Inr (s', r)" by (auto simp: sr_tx_def sr_execute_def result_simps)
  show ?thesis
  proof (cases msg)
    case (BondVerifier m)
    then show ?thesis using d bond_verifier_account [of env s sender m s' r n a] by (simp add: call claimed_by_def)
  next
    case (ClaimStake m)
    then show ?thesis using d claim_stake_account [of env s sender m s' r n a] by (simp add: call bonded_by_def)
  next
    case (UnbondVerifier m)
    then show ?thesis using d unbond_verifier_account [of env s sender m s' r n a] by (simp add: call bonded_by_def claimed_by_def)
  qed (use d assms(1) in \<open>auto simp: call bonded_by_def claimed_by_def result_simps no_verifier_defs
      split: if_splits option.splits intro: authorization_account\<close>)
qed

lemma sr_run_account:
  assumes "sr_inv s" and "list_all sr_call_ok calls" and "sr_account n a s calls = (bonded, claimed)"
  shows "stake (run_txs sr_tx s calls) n a + claimed = stake s n a + bonded"
  using assms
proof (induction calls arbitrary: s bonded claimed)
  case (Cons call calls)
  show ?case
  proof (cases "sr_tx s call")
    case (Inl e)
    then show ?thesis using Cons.IH [OF Cons.prems(1)] Cons.prems(2,3) by simp
  next
    case (Inr x)
    then obtain s' r where tx: "sr_tx s call = Inr (s', r)" by (cases x) simp
    obtain i k where ik: "sr_account n a s' calls = (i, k)" by fastforce
    have "sr_inv s'" using Cons.prems(1,2) tx by (auto intro: src.exec_inv)
    with Cons.IH [OF this _ ik] Cons.prems(2,3) sr_tx_account [OF Cons.prems(1) tx, of n a] show ?thesis
      by (simp add: tx ik Let_def)
  qed
qed simp


lemma run_unbonding:
  assumes "sr_inv s" and "list_all sr_call_ok calls" and "unbonding_since (run_txs sr_tx s calls) n a t"
  shows "unbonding_since s n a t
    \<or> (\<exists>pre call post. calls = pre @ call # post \<and> is_ok (sr_tx (run_txs sr_tx s pre) call)
        \<and> starts_unbonding (run_txs sr_tx s pre) call n a t)"
  using assms
proof (induction calls arbitrary: s)
  case (Cons call calls)
  let ?s = "commit s (sr_tx s call)"
  have "sr_inv ?s" using Cons.prems(1,2) by (auto intro: src.commit_inv)
  from Cons.IH [OF this] Cons.prems(2,3) consider (now) "unbonding_since ?s n a t"
    | (later) pre c post where "calls = pre @ c # post" "is_ok (sr_tx (run_txs sr_tx ?s pre) c)" "starts_unbonding (run_txs sr_tx ?s pre) c n a t"
    by auto
  then show ?case
  proof cases
    case now
    show ?thesis
    proof (cases "sr_tx s call")
      case (Inl e)
      then show ?thesis using now by simp
    next
      case (Inr x)
      then obtain s' r where tx: "sr_tx s call = Inr (s', r)" by (cases x) simp
      then have "sr_effect s call s' r" using Cons.prems(1,2) by (auto intro: sr_tx_step)
      then have "unbonding_since s n a t \<or> starts_unbonding s call n a t" using now tx by (simp add: sr_effect_def)
      then show ?thesis using tx by (metis append_Nil is_ok.simps(2) run_txs_simps(1))
    qed
  next
    case later
    then have "call # calls = (call # pre) @ c # post" and "run_txs sr_tx s (call # pre) = run_txs sr_tx ?s pre" by simp_all
    with later(2,3) show ?thesis by metis
  qed
qed simp

lemma sr_tx_Inr:
  assumes "sr_tx s (env, sender, msg) = Inr (s', r)"
  shows "sr_dispatch env s sender msg = Inr (s', r)"
  using assms by (auto simp: sr_tx_def sr_execute_def result_simps)

subsection \<open>Authority\<close>

lemma authorization_set:
  "authorization (s\<lparr>sr_verifiers := kv_set (n, a) v (sr_verifiers s)\<rparr>) m b =
     (if m = n \<and> b = a then vf_authorization_state v else authorization s m b)"
  by (simp add: authorization_def)

lemma authorization_frame [simp]:
  "authorization (s\<lparr>sr_services := x\<rparr>) = authorization s" "authorization (s\<lparr>sr_authorized_count := c\<rparr>) = authorization s"
  "authorization (s\<lparr>sr_overrides := b\<rparr>) = authorization s" "authorization (s\<lparr>sr_per_chain := e\<rparr>) = authorization s"
  by (simp_all add: authorization_def fun_eq_iff)

lemma authorized_set_iff: "a \<in> authorized_set s n \<longleftrightarrow> authorization s n a = Authorized"
  by (auto simp: authorized_set_def authorization_def split: option.splits)

lemma bond_verifier_authorization:
  assumes "bond_verifier env s sender n = Inr (s', r)"
  shows "authorization s' m a = authorization s m a"
proof -
  from assms obtain sv bond v where "kv_get (sr_services s) n = Some sv" "bond_funds sv (se_funds env) = Inr bond"
    and v: "bonded_to s sender n bond v" and s': "s' = s\<lparr>sr_verifiers := kv_set (n, sender) v (sr_verifiers s)\<rparr>"
    by (rule bond_verifier_Inr)
  have "vf_authorization_state v = authorization s n sender"
    using v by (auto simp: bonded_to_def authorization_def state_bond_verifier_def Let_def result_simps split: option.splits)
  then show ?thesis by (simp add: s' authorization_set)
qed

lemma unbond_verifier_authorization:
  assumes "unbond_verifier env s sender n = Inr (s', r)"
  shows "authorization s' m a = authorization s m a"
  using assms
  by (auto simp: unbond_verifier_def state_unbond_verifier_def Let_def result_simps authorization_set authorization_def
      split: option.splits if_splits bonding_state.splits)

lemma claim_stake_authorization:
  assumes "claim_stake env s sender n = Inr (s', r)"
  shows "authorization s' m a = authorization s m a"
  using assms
  by (auto simp: claim_stake_def claim_verifier_stake_def result_simps authorization_set authorization_def
      split: option.splits if_splits bonding_state.splits)

lemma sr_tx_authorization:
  assumes "sr_tx s (env, sender, msg) = Inr (s', r)" and "authorization s' n a \<noteq> authorization s n a"
  shows "holds_permission (sr_perms s) sender Governance"
proof (rule ccontr)
  assume "\<not> holds_permission (sr_perms s) sender Governance"
  with assms(1) have "sr_permissions msg \<noteq> \<lparr>specific_perms = [], general_perms = [Governance], external_perms = []\<rparr>"
    by (auto simp: sr_tx_def sr_execute_def result_simps)
  with sr_tx_Inr [OF assms(1)] assms(2) show False
    by (cases msg) (auto simp: no_verifier_defs result_simps bond_verifier_authorization unbond_verifier_authorization claim_stake_authorization)
qed

subsection \<open>Active verifiers\<close>

lemma selectsD:
  assumes "selects sel" and "n < length xs" and "\<And>x y. le x y \<or> le y x" and "\<And>x y z. le x y \<Longrightarrow> le y z \<Longrightarrow> le x z"
  shows "mset (sel le n xs) = mset xs" and "\<And>i. i < n \<Longrightarrow> le (sel le n xs ! i) (sel le n xs ! n)"
    and "\<And>i. n < i \<Longrightarrow> i < length xs \<Longrightarrow> le (sel le n xs ! n) (sel le n xs ! i)"
  using assms unfolding selects_def by blast+

lemma by_falling_weight_order:
  "by_falling_weight x y \<or> by_falling_weight y x"
  "by_falling_weight x y \<Longrightarrow> by_falling_weight y z \<Longrightarrow> by_falling_weight x z"
  by (auto simp: by_falling_weight_def)

lemma by_weight_then_hash_order:
  "by_weight_then_hash H k h x y \<or> by_weight_then_hash H k h y x"
  "by_weight_then_hash H k h x y \<Longrightarrow> by_weight_then_hash H k h y z \<Longrightarrow> by_weight_then_hash H k h x z"
  "by_weight_then_hash H k h x x"
  by (auto simp: by_weight_then_hash_def)

text \<open>Verifiers of equal weight are selected by the hashes of their addresses.\<close>

lemma select_top_verifiers_spec:
  assumes "selects sel" and "\<And>v. v \<in> set vs \<Longrightarrow> wv_weight v = k"
  obtains rest where "mset vs = mset (select_top_verifiers sel H vs m h) + mset rest"
    "length (select_top_verifiers sel H vs m h) = min (unat m) (length vs)"
    "\<forall>v \<in> set (select_top_verifiers sel H vs m h). \<forall>w \<in> set rest.
       hash_address_with_seed H (vf_address (verifier_info v)) h \<le> hash_address_with_seed H (vf_address (verifier_info w)) h"
proof (cases "length vs \<le> unat m")
  case True
  then show ?thesis using that [of "[]"] by (simp add: select_top_verifiers_def)
next
  case False
  define cut where "cut = unat m - 1"
  define ys where "ys = sel by_falling_weight cut vs"
  define zs where "zs = sel (by_weight_then_hash H (wv_weight (ys ! cut)) h) cut ys"
  let ?le = "by_weight_then_hash H (wv_weight (ys ! cut)) h"
  have cut: "cut < length vs" using False by (simp add: cut_def)
  have ys: "mset ys = mset vs" unfolding ys_def by (rule selectsD [OF assms(1) cut by_falling_weight_order])
  then have cut': "cut < length ys" using cut mset_eq_length by metis
  have zs: "mset zs = mset ys" "\<And>i. i < cut \<Longrightarrow> ?le (zs ! i) (zs ! cut)"
    "\<And>i. cut < i \<Longrightarrow> i < length ys \<Longrightarrow> ?le (zs ! cut) (zs ! i)"
    unfolding zs_def
    by (rule selectsD [where le = ?le, OF assms(1) cut'], rule by_weight_then_hash_order(1), erule (1) by_weight_then_hash_order(2), assumption?, assumption?)+
  have len: "length zs = length vs" and sets: "set zs = set vs" "set ys = set vs"
    using mset_eq_length [OF ys] mset_eq_length [OF zs(1)] mset_eq_setD [OF ys] mset_eq_setD [OF zs(1)] by simp_all
  have top: "select_top_verifiers sel H vs m h = take (unat m) zs"
    using False by (simp add: select_top_verifiers_def Let_def zs_def ys_def cut_def)
  have "wv_weight (ys ! cut) = k" using cut' sets assms(2) nth_mem by blast
  then have hash: "hash_address_with_seed H (vf_address (verifier_info v)) h \<le> hash_address_with_seed H (vf_address (verifier_info w)) h"
    if "?le v w" "v \<in> set zs" "w \<in> set zs" for v w
    using that assms(2) sets by (simp add: by_weight_then_hash_def)
  have le: "?le (zs ! i) (zs ! j)" if "i < unat m" "unat m \<le> j" "j < length zs" for i j
  proof -
    have "?le (zs ! i) (zs ! cut)" using that(1) zs(2) [of i] by_weight_then_hash_order(3) by (cases "i = cut") (auto simp: cut_def)
    moreover have "?le (zs ! cut) (zs ! j)" using that len mset_eq_length [OF ys] by (intro zs(3)) (auto simp: cut_def)
    ultimately show ?thesis by (rule by_weight_then_hash_order(2))
  qed
  have "hash_address_with_seed H (vf_address (verifier_info v)) h \<le> hash_address_with_seed H (vf_address (verifier_info w)) h"
    if "v \<in> set (take (unat m) zs)" "w \<in> set (drop (unat m) zs)" for v w
  proof -
    from that obtain i j where "i < unat m" "i < length zs" "v = zs ! i" "j < length zs - unat m" "w = zs ! (unat m + j)"
      by (auto simp: in_set_conv_nth)
    then show ?thesis using le [of i "unat m + j"] by (intro hash) auto
  qed
  moreover have "mset vs = mset (take (unat m) zs) + mset (drop (unat m) zs)"
    using ys zs(1) by (metis append_take_drop_id mset_append)
  ultimately show ?thesis using that [of "drop (unat m) zs"] len by (simp add: top min.commute)
qed

lemma eligible_verifiers_spec:
  fixes s sv n c
  defines "vs \<equiv> eligible_verifiers s sv n c"
  assumes "sr_inv s"
  shows "verifier_info ` set vs = {v. eligible s sv n c v}"
    and "distinct (map (vf_address \<circ> verifier_info) vs)"
    and "\<And>v. v \<in> set vs \<Longrightarrow> wv_weight v = VERIFIER_WEIGHT"
    and "(vf_address \<circ> verifier_info) ` set vs \<subseteq> authorized_set s n"
proof -
  let ?addrs = "map (\<lambda>((_, _, a), _). a) (filter (\<lambda>((m, d, _), _). m = n \<and> d = c) (sr_per_chain s))"
  let ?get = "\<lambda>a. kv_get (sr_verifiers s) (n, a)"
  have "distinct (map fst (filter (\<lambda>((m, d, _), _). m = n \<and> d = c) (sr_per_chain s)))"
    using assms(2) by (intro distinct_map_filter kv_ok_distinct) (simp add: sr_inv_def sr_store_ok_def)
  then have addrs: "distinct ?addrs" by (auto simp: distinct_map inj_on_def)
  have in_addrs: "a \<in> set ?addrs \<longleftrightarrow> kv_get (sr_per_chain s) (n, c, a) = Some ()" for a
    using assms(2) by (force simp: sr_inv_def sr_store_ok_def kv_ok_get_iff)
  have get: "?get a = Some v \<Longrightarrow> vf_address v = a" for a v using sr_inv_verifier [OF assms(2)] by (auto simp: verifier_ok_def)
  have found: "map vf_address (List.map_filter ?get as) = filter (\<lambda>a. ?get a \<noteq> None) as" for as
    using get by (induction as) (auto simp: List.map_filter_simps split: option.splits)
  have "distinct (map vf_address (List.map_filter ?get ?addrs))" using addrs by (simp only: found distinct_filter)
  then show "distinct (map (vf_address \<circ> verifier_info) vs)"
    by (simp add: vs_def eligible_verifiers_def comp_def distinct_map_filter)
  have "v \<in> set (List.map_filter ?get as) \<longleftrightarrow> vf_address v \<in> set as \<and> ?get (vf_address v) = Some v" for v as
    by (induction as) (auto simp: List.map_filter_simps dest: get split: option.splits)
  then have "v \<in> set (List.map_filter ?get ?addrs) \<longleftrightarrow> kv_get (sr_per_chain s) (n, c, vf_address v) = Some () \<and> ?get (vf_address v) = Some v" for v
    by (simp only: in_addrs)
  moreover have "verifier_info ` set vs = {v \<in> set (List.map_filter ?get ?addrs).
      bonded_enough (sv_min_verifier_bond sv) (vf_bonding_state v) \<and> vf_authorization_state v = Authorized}"
    unfolding vs_def eligible_verifiers_def by (simp add: image_image)
  ultimately show "verifier_info ` set vs = {v. eligible s sv n c v}"
    unfolding eligible_def by blast
  then show "(vf_address \<circ> verifier_info) ` set vs \<subseteq> authorized_set s n"
    by (force simp: eligible_def authorized_set_def)
  show "\<And>v. v \<in> set vs \<Longrightarrow> wv_weight v = VERIFIER_WEIGHT"
    by (auto simp: vs_def eligible_verifiers_def)
qed


lemma length_eligible_verifiers:
  assumes "sr_inv s"
  shows "length (eligible_verifiers s sv n c) = card {v. eligible s sv n c v}"
proof -
  note e = eligible_verifiers_spec [where sv = sv and n = n and c = c, OF assms]
  have "distinct (map verifier_info (eligible_verifiers s sv n c))" using e(2) by (auto simp: distinct_map dest: inj_on_imageI2)
  then show ?thesis using e(1) by (metis distinct_card length_map set_map)
qed

lemma active_verifiers_spec:
  assumes "sr_inv s" and "selects sel" and "state_service s n (Some c) = Inr sv"
    and "unat (sv_min_num_verifiers sv) \<le> card {v. eligible s sv n c v}"
  shows "\<exists>vs. active_verifiers sel H h s n c = Inr vs
    \<and> distinct (map (vf_address \<circ> verifier_info) vs) \<and> verifier_info ` set vs \<subseteq> {v. eligible s sv n c v}
    \<and> (\<forall>v \<in> set vs. wv_weight v = VERIFIER_WEIGHT)
    \<and> length vs = (case sv_max_num_verifiers sv of None \<Rightarrow> card {v. eligible s sv n c v} | Some m \<Rightarrow> min (unat m) (card {v. eligible s sv n c v}))
    \<and> (\<forall>v \<in> verifier_info ` set vs. \<forall>w. eligible s sv n c w \<longrightarrow> w \<in> verifier_info ` set vs
         \<or> hash_address_with_seed H (vf_address v) h \<le> hash_address_with_seed H (vf_address w) h)"
proof -
  let ?vs = "eligible_verifiers s sv n c"
  note e = eligible_verifiers_spec [where sv = sv and n = n and c = c, OF assms(1)]
  have len: "length ?vs = card {v. eligible s sv n c v}" using assms(1) by (rule length_eligible_verifiers)
  show ?thesis
  proof (cases "sv_max_num_verifiers sv")
    case None
    then have "active_verifiers sel H h s n c = Inr ?vs" using assms(3,4) len by (simp add: active_verifiers_def Let_def)
    then show ?thesis using e len None by auto
  next
    case (Some m)
    let ?top = "select_top_verifiers sel H ?vs m h"
    have a: "active_verifiers sel H h s n c = Inr ?top" using assms(3,4) len Some by (simp add: active_verifiers_def Let_def)
    obtain rest where m: "mset ?vs = mset ?top + mset rest" and l: "length ?top = min (unat m) (length ?vs)"
      and h: "\<forall>v \<in> set ?top. \<forall>w \<in> set rest.
         hash_address_with_seed H (vf_address (verifier_info v)) h \<le> hash_address_with_seed H (vf_address (verifier_info w)) h"
      by (rule select_top_verifiers_spec [OF assms(2) e(3)])
    have s: "set ?vs = set ?top \<union> set rest" using m by (metis mset_append set_append set_mset_mset)
    have "mset (map (vf_address \<circ> verifier_info) ?vs) = mset (map (vf_address \<circ> verifier_info) (?top @ rest))"
      using m by simp
    then have "distinct (map (vf_address \<circ> verifier_info) (?top @ rest))" using e(2) mset_eq_imp_distinct_iff by blast
    then have d: "distinct (map (vf_address \<circ> verifier_info) ?top)" by simp
    have "w \<in> verifier_info ` set ?top \<or> hash_address_with_seed H (vf_address (verifier_info v)) h \<le> hash_address_with_seed H (vf_address w) h"
      if "v \<in> set ?top" "eligible s sv n c w" for v w
    proof -
      from that(2) e(1) have "w \<in> verifier_info ` set ?top \<or> w \<in> verifier_info ` set rest" by (auto simp: s)
      then show ?thesis using h that(1) by auto
    qed
    moreover have "verifier_info ` set ?top \<subseteq> {v. eligible s sv n c v}" using e(1) s by auto
    moreover have "\<forall>v \<in> set ?top. wv_weight v = VERIFIER_WEIGHT" using e(3) s by auto
    ultimately show ?thesis using a d l len Some by auto
  qed
qed

lemma weight_sum_ones:
  "(\<forall>v \<in> set vs. wv_weight v = VERIFIER_WEIGHT) \<Longrightarrow> weight_sum (map participant_of_verifier vs) = length vs"
  by (induction vs) (auto simp: weight_sum_def participant_of_verifier_def VERIFIER_WEIGHT_def nonempty_uint128_one_def)

lemma authorized_below: "sr_inv s \<Longrightarrow> has_service s n \<Longrightarrow> card (authorized_set s n) < 2 ^ 16"
proof -
  assume inv: "sr_inv s" and "has_service s n"
  then obtain sv where "service_ok s n sv" using sr_inv_service [OF inv] by (auto simp: has_service_def)
  then obtain c :: u16 where "unat c = auth_number s n" by (auto simp: service_ok_def)
  then show ?thesis using auth_number_card [OF sr_inv_store [OF inv], of n] unat_less_width [of c] by simp
qed

lemma active_weights_ok:
  assumes "sr_inv s" and "has_service s n" and "(vf_address \<circ> verifier_info) ` set vs \<subseteq> authorized_set s n"
    and "distinct (map (vf_address \<circ> verifier_info) vs)" and "\<forall>v \<in> set vs. wv_weight v = VERIFIER_WEIGHT"
  shows "verifiers_ok (map participant_of_verifier vs)"
proof -
  have "length vs = card ((vf_address \<circ> verifier_info) ` set vs)" using assms(4) by (metis distinct_card length_map set_map)
  also have "\<dots> \<le> card (authorized_set s n)"
    using assms(3) auth_number_card(2) [OF sr_inv_store [OF assms(1)]] by (rule card_mono [rotated])
  finally have "length vs < 2 ^ 128" using authorized_below [OF assms(1,2)] by simp
  then show ?thesis using assms(5) weight_sum_ones [OF assms(5)]
    by (simp add: verifiers_ok_def list_all_iff participant_of_verifier_def VERIFIER_WEIGHT_def nonempty_uint128_one_def)
qed

section \<open>Example\<close>

text \<open>Selection by sorting.\<close>

fun insert_by :: "('a \<Rightarrow> 'a \<Rightarrow> bool) \<Rightarrow> 'a \<Rightarrow> 'a list \<Rightarrow> 'a list" where
  "insert_by le x [] = [x]"
| "insert_by le x (y # ys) = (if le x y then x # y # ys else y # insert_by le x ys)"

definition sort_by :: "'a select_fn" where
  "sort_by le n xs = foldr (insert_by le) xs []"

lemma mset_insert_by: "mset (insert_by le x xs) = add_mset x (mset xs)"
  by (induction xs) auto

lemma sorted_insert_by:
  assumes "\<And>x y. le x y \<or> le y x" and "\<And>x y z. le x y \<Longrightarrow> le y z \<Longrightarrow> le x z"
  shows "sorted_wrt le xs \<Longrightarrow> sorted_wrt le (insert_by le x xs)"
proof (induction xs)
  case (Cons y ys)
  have "set (insert_by le x ys) = insert x (set ys)" using mset_insert_by [of le x ys] by (metis set_mset_add_mset_insert set_mset_mset)
  then show ?case using Cons assms by auto
qed simp

lemma selects_sort_by: "selects sort_by"
  unfolding selects_def
proof (intro allI impI)
  fix le :: "'a \<Rightarrow> 'a \<Rightarrow> bool" and n and xs :: "'a list"
  assume n: "n < length xs" and le: "\<forall>x y. le x y \<or> le y x" "\<forall>x y z. le x y \<longrightarrow> le y z \<longrightarrow> le x z"
  have m: "mset (sort_by le n xs) = mset xs" unfolding sort_by_def by (induction xs) (auto simp: mset_insert_by)
  have "sorted_wrt le (sort_by le n xs)"
    unfolding sort_by_def by (induction xs) (simp_all add: sorted_insert_by [OF le(1) [rule_format] le(2) [rule_format]])
  then show "mset (sort_by le n xs) = mset xs \<and> (\<forall>i < n. le (sort_by le n xs ! i) (sort_by le n xs ! n))
      \<and> (\<forall>i < length xs. n < i \<longrightarrow> le (sort_by le n xs ! n) (sort_by le n xs ! i))"
    using m n mset_eq_length [OF m] by (simp add: sorted_wrt_iff_nth_less)
qed

text \<open>
  A service with two verifiers. A day is written as one unit of time. The first verifier
  unbonds and claims its stake.
\<close>

abbreviation sr_ex_env :: "u64 \<Rightarrow> (string \<times> u128) list \<Rightarrow> sr_env" where
  "sr_ex_env time funds \<equiv> \<lparr>se_height = 7, se_time = time, se_funds = funds, se_addr_validate = Some,
     se_ready_to_unbond = (\<lambda>_ _. Some True), se_plus_days = checked_add\<rparr>"

abbreviation sr_ex_init :: sr_state where
  "sr_ex_init \<equiv> \<lparr>sr_perms = \<lparr>admin_addr = None, governance_addr = Some ''gov''\<rparr>, sr_services = [], sr_overrides = [],
     sr_authorized_count = [], sr_verifiers = [], sr_per_chain = []\<rparr>"

abbreviation sr_ex_service :: service where
  "sr_ex_service \<equiv> \<lparr>sv_name = ''svc'', sv_coordinator_contract = ''coord'', sv_min_num_verifiers = 1, sv_max_num_verifiers = Some 2,
     sv_min_verifier_bond = 10, sv_bond_denom = ''axl'', sv_unbonding_period_days = 3, sv_description = ''verifiers''\<rparr>"

abbreviation sr_ex_verifier :: "string \<Rightarrow> bonding_state \<Rightarrow> authorization_state \<Rightarrow> sr_verifier" where
  "sr_ex_verifier a bond st \<equiv> \<lparr>vf_address = a, vf_bonding_state = bond, vf_authorization_state = st, vf_service_name = ''svc''\<rparr>"

abbreviation sr_ex_bonded :: "bonding_state \<Rightarrow> authorization_state \<Rightarrow> u16 \<Rightarrow> (string \<times> string \<times> string, unit) kv
    \<Rightarrow> (string \<times> string, service_params_override) kv \<Rightarrow> sr_state" where
  "sr_ex_bonded bond st n chain_names overrides \<equiv> sr_ex_init\<lparr>sr_services := [(''svc'', sr_ex_service)], sr_authorized_count := [(''svc'', n)],
     sr_verifiers := [((''svc'', ''a''), sr_ex_verifier ''a'' bond st), ((''svc'', ''b''), sr_ex_verifier ''b'' (Bonded 20) st)],
     sr_per_chain := chain_names, sr_overrides := overrides\<rparr>"

abbreviation sr_ex_override :: service_params_override where
  "sr_ex_override \<equiv> \<lparr>ov_min_num_verifiers = None, ov_max_num_verifiers = Some (Some 1)\<rparr>"

definition sr_ex_calls :: "sr_call list" where
  "sr_ex_calls = [(sr_ex_env 0 [], ''gov'', RegisterService sr_ex_service), (sr_ex_env 0 [(''axl'', 100)], ''a'', BondVerifier ''svc''),
     (sr_ex_env 0 [(''axl'', 20)], ''b'', BondVerifier ''svc'')]"

lemmas sr_eval = sr_tx_def sr_execute_def ensure_permissions_def general_check_def sender_role_def Let_def
  validate_cosmwasm_address_def state_service_def bond_verifier_def bond_funds_def nonempty_uint128_try_from_def
  register_service_def save_new_service_def update_verifier_authorization_status_def ensure_service_exists_def
  has_service_def ensure_def state_update_authorization_def authorize_one_def checked_add_i16_def
  apply_authorized_count_change_def checked_add_signed_def ensure_authorization_max_limit_respected_def
  number_of_authorized_verifiers_def match_verifier_of_def register_chains_support_def state_register_chains_support_def
  override_service_params_def save_service_override_def unbond_verifier_def state_unbond_verifier_def
  claim_stake_def claim_verifier_stake_def checked_add_def

lemma sr_ex_instantiate: "sr_instantiate (sr_ex_env 0 []) ''gov'' = Inr (sr_ex_init, response_new)"
  by (simp add: sr_instantiate_def validate_cosmwasm_address_def set_governance_def)

lemma sr_ex_run: "run_txs sr_tx sr_ex_init sr_ex_calls = sr_ex_bonded (Bonded 100) NotAuthorized 0 [] []"
  by (simp add: sr_ex_calls_def sr_eval)

lemma sr_ex_authorize:
  "sr_tx (sr_ex_bonded (Bonded 100) NotAuthorized 0 [] []) (sr_ex_env 0 [], ''gov'', AuthorizeVerifiers [''a'', ''b''] ''svc'') =
     Inr (sr_ex_bonded (Bonded 100) Authorized 2 [] [], response_new)"
  by (simp add: sr_eval)

lemma sr_ex_support:
  "\<exists>r. sr_tx (sr_ex_bonded (Bonded 100) Authorized 2 [] []) (sr_ex_env 0 [], ''a'', RegisterChainSupport ''svc'' [''eth'']) =
     Inr (sr_ex_bonded (Bonded 100) Authorized 2 [((''svc'', ''eth'', ''a''), ())] [], r)"
  "\<exists>r. sr_tx (sr_ex_bonded (Bonded 100) Authorized 2 [((''svc'', ''eth'', ''a''), ())] []) (sr_ex_env 0 [], ''b'', RegisterChainSupport ''svc'' [''eth'']) =
     Inr (sr_ex_bonded (Bonded 100) Authorized 2 [((''svc'', ''eth'', ''a''), ()), ((''svc'', ''eth'', ''b''), ())] [], r)"
  by (simp_all add: sr_eval)

lemma sr_ex_overridden:
  "sr_tx (sr_ex_bonded (Bonded 100) Authorized 2 [((''svc'', ''eth'', ''a''), ()), ((''svc'', ''eth'', ''b''), ())] [])
     (sr_ex_env 0 [], ''gov'', OverrideServiceParams ''svc'' ''eth'' sr_ex_override) =
     Inr (sr_ex_bonded (Bonded 100) Authorized 2 [((''svc'', ''eth'', ''a''), ()), ((''svc'', ''eth'', ''b''), ())]
       [((''svc'', ''eth''), sr_ex_override)], response_new)"
  by (simp add: sr_eval)

lemma sr_ex_unbond:
  "sr_tx (sr_ex_bonded (Bonded 100) NotAuthorized 0 [] []) (sr_ex_env 5 [], ''a'', UnbondVerifier ''svc'') =
     Inr (sr_ex_bonded (Unbonding 100 5) NotAuthorized 0 [] [], response_new)"
  by (simp add: sr_eval)

lemma sr_ex_claim:
  "sr_tx (sr_ex_bonded (Unbonding 100 5) NotAuthorized 0 [] []) (sr_ex_env 8 [], ''a'', ClaimStake ''svc'') =
     Inr (sr_ex_bonded Unbonded NotAuthorized 0 [] [], \<lparr>messages = [StakeSend ''a'' ''axl'' 100], events = []\<rparr>)"
  by (simp add: sr_eval)

lemma sr_reachable_run: "sr_reachable s \<Longrightarrow> list_all sr_call_ok calls \<Longrightarrow> sr_reachable (run_txs sr_tx s calls)"
proof (induction calls arbitrary: s)
  case (Cons call calls)
  have "sr_reachable (commit s (sr_tx s call))"
    using Cons.prems by (cases "sr_tx s call") (auto intro: sr_step)
  then show ?case using Cons by simp
qed simp

lemma sr_ex_calls_ok: "list_all sr_call_ok sr_ex_calls"
  by (simp add: sr_ex_calls_def sr_call_ok_def)

lemma sr_ex_reachable:
  "sr_reachable (sr_ex_bonded (Bonded 100) NotAuthorized 0 [] [])"
  "sr_reachable (sr_ex_bonded (Bonded 100) Authorized 2 [((''svc'', ''eth'', ''a''), ()), ((''svc'', ''eth'', ''b''), ())]
     [((''svc'', ''eth''), sr_ex_override)])"
proof -
  have ok: "sr_call_ok (env, a, AuthorizeVerifiers vs n)" "sr_call_ok (env, a, RegisterChainSupport n cs)"
    "sr_call_ok (env, a, OverrideServiceParams n c params)" for env a vs n cs c params by (simp_all add: sr_call_ok_def)
  have "sr_reachable sr_ex_init" using sr_ex_instantiate by (rule sr_init)
  from sr_reachable_run [OF this sr_ex_calls_ok] show 1: "sr_reachable (sr_ex_bonded (Bonded 100) NotAuthorized 0 [] [])"
    by (simp only: sr_ex_run)
  have 2: "sr_reachable (sr_ex_bonded (Bonded 100) Authorized 2 [] [])" using sr_step [OF 1 ok(1) sr_ex_authorize] .
  from sr_ex_support(1) obtain r where "sr_tx (sr_ex_bonded (Bonded 100) Authorized 2 [] []) (sr_ex_env 0 [], ''a'', RegisterChainSupport ''svc'' [''eth'']) =
     Inr (sr_ex_bonded (Bonded 100) Authorized 2 [((''svc'', ''eth'', ''a''), ())] [], r)" ..
  from sr_step [OF 2 ok(2) this] have 3: "sr_reachable (sr_ex_bonded (Bonded 100) Authorized 2 [((''svc'', ''eth'', ''a''), ())] [])" .
  from sr_ex_support(2) obtain r where "sr_tx (sr_ex_bonded (Bonded 100) Authorized 2 [((''svc'', ''eth'', ''a''), ())] [])
     (sr_ex_env 0 [], ''b'', RegisterChainSupport ''svc'' [''eth'']) =
     Inr (sr_ex_bonded (Bonded 100) Authorized 2 [((''svc'', ''eth'', ''a''), ()), ((''svc'', ''eth'', ''b''), ())] [], r)" ..
  from sr_step [OF sr_step [OF 3 ok(2) this] ok(3) sr_ex_overridden]
  show "sr_reachable (sr_ex_bonded (Bonded 100) Authorized 2 [((''svc'', ''eth'', ''a''), ()), ((''svc'', ''eth'', ''b''), ())]
     [((''svc'', ''eth''), sr_ex_override)])" .
qed

section \<open>Properties\<close>

text \<open>
  C6. Over any sequence of calls from the instantiation the balance of the contract in every
  denomination covers the payments of all calls, and in the end the stakes of all verifiers of the
  services that bond this denomination. The stake of every verifier is exactly what it has bonded
  less what it was paid.
\<close>

theorem stakes_covered:
  assumes "sr_instantiate env governance = Inr (s, r)" and "list_all sr_call_ok calls"
  shows "(\<exists>b. sr_balance d s 0 calls = Some b \<and> denom_stake (run_txs sr_tx s calls) d \<le> b)
    \<and> stake (run_txs sr_tx s calls) n a + snd (sr_account n a s calls) = fst (sr_account n a s calls)"
proof -
  have s: "sr_verifiers s = []" using assms(1) by (auto simp: sr_instantiate_def result_simps)
  have inv: "sr_inv s" using assms(1) by (intro sr_reachable_inv sr_init)
  have "stake s n a = 0" "denom_stake s d \<le> 0" by (simp_all add: stake_def denom_stake_def s)
  then show ?thesis
    using sr_balance_covers [OF inv assms(2), of d 0] sr_run_account [OF inv assms(2) prod.collapse [symmetric], of n a] by simp
qed

theorem stakes_covered_witness:
  "\<exists>b. sr_balance ''axl'' sr_ex_init 0 sr_ex_calls = Some b \<and> denom_stake (run_txs sr_tx sr_ex_init sr_ex_calls) ''axl'' = 120 \<and> 120 \<le> b
     \<and> stake (run_txs sr_tx sr_ex_init sr_ex_calls) ''svc'' ''a'' + snd (sr_account ''svc'' ''a'' sr_ex_init sr_ex_calls)
       = fst (sr_account ''svc'' ''a'' sr_ex_init sr_ex_calls)"
proof -
  have "denom_stake (run_txs sr_tx sr_ex_init sr_ex_calls) ''axl'' = 120"
    unfolding sr_ex_run by (simp add: denom_stake_def stake_in_def has_denom_def)
  then show ?thesis
    using stakes_covered [OF sr_ex_instantiate sr_ex_calls_ok, of "''axl''" "''svc''" "''a''"] by auto
qed

text \<open>
  C16. A bonded verifier of a reachable state that later claims its stake has in between
  called \<open>UnbondVerifier\<close> itself at a time at which the coordinator of the service answered that
  it is ready to unbond, and the unbonding period of the service has passed since. It is not
  jailed, and it is paid its whole stake.
\<close>

theorem stake_locked:
  assumes "sr_reachable s" and "kv_get (sr_verifiers s) (n, a) = Some v" and "vf_bonding_state v = Bonded amount"
    and "list_all sr_call_ok calls" and "sr_tx (run_txs sr_tx s calls) (env, a, ClaimStake n) = Inr (s', r)"
  shows "\<exists>pre env' post sv sv' t' paid. calls = pre @ (env', a, UnbondVerifier n) # post
    \<and> is_ok (sr_tx (run_txs sr_tx s pre) (env', a, UnbondVerifier n))
    \<and> kv_get (sr_services (run_txs sr_tx s pre)) n = Some sv \<and> se_ready_to_unbond env' (sv_coordinator_contract sv) a = Some True
    \<and> kv_get (sr_services (run_txs sr_tx s calls)) n = Some sv'
    \<and> se_plus_days env (se_time env') (ucast (sv_unbonding_period_days sv')) = Some t' \<and> t' \<le> se_time env
    \<and> authorization (run_txs sr_tx s calls) n a \<noteq> Jailed
    \<and> messages r = [StakeSend a (sv_bond_denom sv') paid] \<and> unat paid = stake (run_txs sr_tx s calls) n a \<and> stake s' n a = 0"
proof -
  have inv: "sr_inv s" using assms(1) by (rule sr_reachable_inv)
  let ?s = "run_txs sr_tx s calls"
  have "claim_stake env ?s a n = Inr (s', r)" using sr_tx_Inr [OF assms(5)] by simp
  then obtain sv' w paid t t' where sv': "kv_get (sr_services ?s) n = Some sv'" and w: "kv_get (sr_verifiers ?s) (n, a) = Some w"
      "vf_bonding_state w = Unbonding paid t"
    and t': "se_plus_days env t (ucast (sv_unbonding_period_days sv')) = Some t'" "t' \<le> se_time env"
    and jail: "vf_authorization_state w \<noteq> Jailed"
    and s': "s' = ?s\<lparr>sr_verifiers := kv_set (n, a) (w\<lparr>vf_bonding_state := Unbonded\<rparr>) (sr_verifiers ?s)\<rparr>"
    and r: "r = \<lparr>messages = [StakeSend a (sv_bond_denom sv') paid], events = []\<rparr>"
    by (rule claim_stake_Inr)
  have "unbonding_since ?s n a t" using w by (simp add: unbonding_since_def)
  moreover have "\<not> unbonding_since s n a t" using assms(2,3) by (simp add: unbonding_since_def)
  ultimately obtain pre call post where calls: "calls = pre @ call # post" "is_ok (sr_tx (run_txs sr_tx s pre) call)"
    and start: "starts_unbonding (run_txs sr_tx s pre) call n a t"
    using run_unbonding [OF inv assms(4)] by blast
  from start obtain env' sv where "call = (env', a, UnbondVerifier n)" "se_time env' = t" "kv_get (sr_services (run_txs sr_tx s pre)) n = Some sv"
    "se_ready_to_unbond env' (sv_coordinator_contract sv) a = Some True"
    by (auto simp: starts_unbonding_def split: prod.splits)
  moreover have "authorization ?s n a \<noteq> Jailed" "unat paid = stake ?s n a" "stake s' n a = 0"
    using w jail by (simp_all add: authorization_def stake_def s')
  moreover have "messages r = [StakeSend a (sv_bond_denom sv') paid]" by (simp add: r)
  ultimately show ?thesis using calls sv' t' by blast
qed

theorem stake_locked_witness:
  "\<exists>pre env' post. [(sr_ex_env 5 [], ''a'', UnbondVerifier ''svc'')] = pre @ (env', ''a'', UnbondVerifier ''svc'') # post
     \<and> se_ready_to_unbond env' ''coord'' ''a'' = Some True"
proof -
  let ?s = "sr_ex_bonded (Bonded 100) NotAuthorized 0 [] []" and ?calls = "[(sr_ex_env 5 [], ''a'', UnbondVerifier ''svc'')]"
  have run: "run_txs sr_tx ?s ?calls = sr_ex_bonded (Unbonding 100 5) NotAuthorized 0 [] []"
    using sr_ex_unbond by simp
  have ok: "list_all sr_call_ok ?calls" by (simp add: sr_call_ok_def)
  have v: "kv_get (sr_verifiers ?s) (''svc'', ''a'') = Some (sr_ex_verifier ''a'' (Bonded 100) NotAuthorized)"
    "vf_bonding_state (sr_ex_verifier ''a'' (Bonded 100) NotAuthorized) = Bonded 100" by simp_all
  from stake_locked [OF sr_ex_reachable(1) v ok sr_ex_claim [folded run]] show ?thesis
    by (auto simp: Cons_eq_append_conv)
qed

text \<open>
  C27. In every reachable state the stored count of authorized verifiers of a registered service
  is their number, it fits in 16 bits and does not exceed the maximum of the service, and only a
  call of governance changes the authorization of a verifier.
\<close>

theorem authorization_controlled:
  assumes "sr_reachable s" and "kv_get (sr_services s) n = Some sv"
  shows "number_of_authorized_verifiers s n = Inr (of_nat (card {a. authorization s n a = Authorized}))
    \<and> card {a. authorization s n a = Authorized} < 2 ^ 16
    \<and> (\<forall>limit. sv_max_num_verifiers sv = Some limit \<longrightarrow> card {a. authorization s n a = Authorized} \<le> unat limit)
    \<and> (\<forall>env sender msg s' r a. sr_tx s (env, sender, msg) = Inr (s', r) \<longrightarrow> authorization s' n a \<noteq> authorization s n a
         \<longrightarrow> holds_permission (sr_perms s) sender Governance)"
proof -
  have inv: "sr_inv s" using assms(1) by (rule sr_reachable_inv)
  have card: "auth_number s n = card {a. authorization s n a = Authorized}"
    using auth_number_card [OF sr_inv_store [OF inv], of n] by (simp flip: authorized_set_iff)
  obtain c where c: "kv_get (sr_authorized_count s) n = Some c" "unat c = auth_number s n"
    and limit: "\<forall>limit. sv_max_num_verifiers sv = Some limit \<longrightarrow> auth_number s n \<le> unat limit"
    using sr_inv_service [OF inv assms(2)] by (auto simp: service_ok_def)
  have "c = of_nat (auth_number s n)" unfolding c(2) [symmetric] by simp
  moreover have "auth_number s n < 2 ^ 16" using c(2) unat_less_width [of c] by simp
  ultimately show ?thesis
    using c(1) limit sr_tx_authorization by (simp add: number_of_authorized_verifiers_def card)
qed

theorem authorization_controlled_witness:
  "number_of_authorized_verifiers (sr_ex_bonded (Bonded 100) NotAuthorized 0 [] []) ''svc''
     = Inr (of_nat (card {a. authorization (sr_ex_bonded (Bonded 100) NotAuthorized 0 [] []) ''svc'' a = Authorized}))
   \<and> holds_permission (sr_perms (sr_ex_bonded (Bonded 100) NotAuthorized 0 [] [])) ''gov'' Governance"
proof -
  let ?s = "sr_ex_bonded (Bonded 100) NotAuthorized 0 [] []"
  have sv: "kv_get (sr_services ?s) ''svc'' = Some sr_ex_service" by simp
  note c = authorization_controlled [OF sr_ex_reachable(1) sv]
  have "authorization (sr_ex_bonded (Bonded 100) Authorized 2 [] []) ''svc'' ''a'' \<noteq> authorization ?s ''svc'' ''a''"
    by (simp add: authorization_def)
  with c sr_ex_authorize show ?thesis by blast
qed

text \<open>
  C26. Eligible for a chain are the verifiers of the service that support the chain, are
  authorized and have the minimum bonded. If fewer of them exist than the service, with the
  parameters overridden for the chain, demands, the query for the active verifiers fails.
  Otherwise it returns all of them, or as many as the maximum allows, without repetition, those
  that are left out not having a smaller hash of address and block height than those returned.
  The participants built from the answer have positive weights and a total weight that does not
  overflow, which is what the voting verifier relies on for its snapshots.
\<close>

theorem active_verifiers_exact:
  assumes "sr_reachable s" and "selects sel" and "state_service s n (Some c) = Inr sv"
  shows "if card {v. eligible s sv n c v} < unat (sv_min_num_verifiers sv)
    then active_verifiers sel H h s n c = Inl (Err NotEnoughVerifiers)
    else \<exists>vs. active_verifiers sel H h s n c = Inr vs
      \<and> distinct (map (vf_address \<circ> verifier_info) vs) \<and> verifier_info ` set vs \<subseteq> {v. eligible s sv n c v}
      \<and> length vs = (case sv_max_num_verifiers sv of
          None \<Rightarrow> card {v. eligible s sv n c v} | Some m \<Rightarrow> min (unat m) (card {v. eligible s sv n c v}))
      \<and> (\<forall>v \<in> verifier_info ` set vs. \<forall>w. eligible s sv n c w \<longrightarrow> w \<in> verifier_info ` set vs
           \<or> hash_address_with_seed H (vf_address v) h \<le> hash_address_with_seed H (vf_address w) h)
      \<and> verifiers_ok (map participant_of_verifier vs)"
proof -
  have inv: "sr_inv s" using assms(1) by (rule sr_reachable_inv)
  have n: "has_service s n" using assms(3) by (auto simp: state_service_def has_service_def result_simps)
  have len: "length (eligible_verifiers s sv n c) = card {v. eligible s sv n c v}" by (rule length_eligible_verifiers [OF inv])
  show ?thesis
  proof (cases "card {v. eligible s sv n c v} < unat (sv_min_num_verifiers sv)")
    case True
    then show ?thesis using assms(3) len by (simp add: active_verifiers_def Let_def)
  next
    case False
    then obtain vs where vs: "active_verifiers sel H h s n c = Inr vs" "distinct (map (vf_address \<circ> verifier_info) vs)"
      "verifier_info ` set vs \<subseteq> {v. eligible s sv n c v}" "\<forall>v \<in> set vs. wv_weight v = VERIFIER_WEIGHT"
      and rest: "length vs = (case sv_max_num_verifiers sv of
          None \<Rightarrow> card {v. eligible s sv n c v} | Some m \<Rightarrow> min (unat m) (card {v. eligible s sv n c v}))"
        "\<forall>v \<in> verifier_info ` set vs. \<forall>w. eligible s sv n c w \<longrightarrow> w \<in> verifier_info ` set vs
           \<or> hash_address_with_seed H (vf_address v) h \<le> hash_address_with_seed H (vf_address w) h"
      using active_verifiers_spec [OF inv assms(2,3), where H = H and h = h] by (simp only: not_less) blast
    have "(vf_address \<circ> verifier_info) ` set vs \<subseteq> authorized_set s n"
      using vs(3) by (force simp: eligible_def authorized_set_def)
    from active_weights_ok [OF inv n this vs(2,4)] vs rest False show ?thesis by auto
  qed
qed

theorem active_verifiers_exact_witness:
  "\<exists>v. active_verifiers sort_by (take 1) 7 (sr_ex_bonded (Bonded 100) Authorized 2
       [((''svc'', ''eth'', ''a''), ()), ((''svc'', ''eth'', ''b''), ())] [((''svc'', ''eth''), sr_ex_override)]) ''svc'' ''eth'' = Inr [v]
     \<and> vf_address (verifier_info v) \<in> {''a'', ''b''} \<and> verifiers_ok [participant_of_verifier v]"
proof -
  let ?s = "sr_ex_bonded (Bonded 100) Authorized 2 [((''svc'', ''eth'', ''a''), ()), ((''svc'', ''eth'', ''b''), ())]
     [((''svc'', ''eth''), sr_ex_override)]"
  let ?sv = "sr_ex_service\<lparr>sv_max_num_verifiers := Some 1\<rparr>"
  let ?a = "sr_ex_verifier ''a'' (Bonded 100) Authorized" and ?b = "sr_ex_verifier ''b'' (Bonded 20) Authorized"
  have sv: "state_service ?s ''svc'' (Some ''eth'') = Inr ?sv" by (simp add: state_service_def)
  have e: "{v. eligible ?s ?sv ''svc'' ''eth'' v} = {?a, ?b}"
    by (auto simp: eligible_def bonded_enough_def word_le_nat_alt split: if_splits)
  have card: "card {?a, ?b} = 2" by simp
  from active_verifiers_exact [OF sr_ex_reachable(2) selects_sort_by sv, of "take 1" 7]
  obtain vs where vs: "active_verifiers sort_by (take 1) 7 ?s ''svc'' ''eth'' = Inr vs" "verifier_info ` set vs \<subseteq> {?a, ?b}"
    "length vs = 1" "verifiers_ok (map participant_of_verifier vs)"
    unfolding e card by auto
  then obtain v where "vs = [v]" by (auto simp: length_Suc_conv)
  with vs show ?thesis by auto
qed

end
