(* ===== verification/Network.thy ===== *)
theory Network
  imports Gateway Service_Registry
begin

text \<open>
  The contracts of the preceding theories put together: one router, one service registry, and
  for every connected chain a voting verifier and a gateway. A transaction of the network is a
  call of one contract from outside together with the calls that the contracts make in turn,
  the queries included, as they are wired up in \<open>integration-tests/src\<close>: the gateway asks its
  verifier for the status of messages and sends to the router or the verifier, the verifier asks
  the registry for the active verifiers, and the router sends to the gateways. If one of the calls
  fails the whole transaction is reverted.
\<close>

section \<open>Definitions\<close>

record net_params =
  np_hash :: "u8 list \<Rightarrow> u8 list"
  np_select :: "weighted_verifier select_fn"
  np_mul_ceil :: mul_ceil_fn
  np_codecs :: codecs
  np_addr_validate :: "string \<Rightarrow> string option"
  np_is_chain_registered :: "string \<Rightarrow> bool option"

record network =
  nt_router_address :: string
  nt_router :: router_state
  nt_registry :: sr_state
  nt_verifiers :: "(string, vv_state) kv"
  nt_gateways :: "(string, gw_state) kv"

text \<open>The answers to the queries that the contracts make.\<close>

definition net_active_verifiers :: "net_params \<Rightarrow> network \<Rightarrow> u64 \<Rightarrow> string \<Rightarrow> string \<Rightarrow> participant list option" where
  "net_active_verifiers P net height service chain =
     (case active_verifiers (np_select P) (np_hash P) height (nt_registry net) service chain of
        Inr vs \<Rightarrow> Some (map participant_of_verifier vs) | Inl _ \<Rightarrow> None)"

definition net_vv_env :: "net_params \<Rightarrow> network \<Rightarrow> u64 \<Rightarrow> vv_env" where
  "net_vv_env P net height = \<lparr>ve_height = height, ve_active_verifiers = net_active_verifiers P net height,
     ve_mul_ceil = np_mul_ceil P, ve_codecs = np_codecs P, ve_addr_validate = np_addr_validate P\<rparr>"

definition net_router_env :: "net_params \<Rightarrow> router_env" where
  "net_router_env P = \<lparr>re_addr_validate = np_addr_validate P, re_is_chain_registered = np_is_chain_registered P,
     re_codecs = np_codecs P\<rparr>"

definition gateway_verifier :: "network \<Rightarrow> gw_state \<Rightarrow> vv_state option" where
  "gateway_verifier net gs = Option.bind (gw_config gs) (\<lambda>config. kv_get (nt_verifiers net) (gc_verifier config))"

definition net_status :: "net_params \<Rightarrow> network \<Rightarrow> u64 \<Rightarrow> gw_state \<Rightarrow> status_query" where
  "net_status P net height gs =
     (case gateway_verifier net gs of Some vvs \<Rightarrow> vv_status_query (np_hash P) vvs height | None \<Rightarrow> (\<lambda>_. None))"

text \<open>
  The calls between contracts. A message of the router to a contract outside of the network, such
  as the axelarnet gateway, changes nothing in it.
\<close>

definition call_verifier :: "net_params \<Rightarrow> u64 \<Rightarrow> network \<Rightarrow> string \<Rightarrow> string \<Rightarrow> vv_msg \<Rightarrow> network option" where
  "call_verifier P height net v sender msg =
     (case kv_get (nt_verifiers net) v of
        None \<Rightarrow> None
      | Some vvs \<Rightarrow>
          (case vv_tx (np_hash P) vvs (net_vv_env P net height, sender, msg) of
             Inr (vvs', _) \<Rightarrow> Some (net\<lparr>nt_verifiers := kv_set v vvs' (nt_verifiers net)\<rparr>)
           | Inl _ \<Rightarrow> None))"

fun deliver :: "net_params \<Rightarrow> u64 \<Rightarrow> network \<Rightarrow> router_out list \<Rightarrow> network option" where
  "deliver P height net [] = Some net"
| "deliver P height net (GatewayRouteMessages g msgs # outs) =
     (case kv_get (nt_gateways net) g of
        None \<Rightarrow> deliver P height net outs
      | Some gs \<Rightarrow>
          (case gw_tx (np_hash P) gs (net_status P net height gs, nt_router_address net, GwRoute msgs) of
             Inr (gs', _) \<Rightarrow> deliver P height (net\<lparr>nt_gateways := kv_set g gs' (nt_gateways net)\<rparr>) outs
           | Inl _ \<Rightarrow> None))"

definition call_router :: "net_params \<Rightarrow> u64 \<Rightarrow> network \<Rightarrow> string \<Rightarrow> router_msg from_proxy \<Rightarrow> network option" where
  "call_router P height net sender msg =
     (case router_tx (nt_router net) (net_router_env P, sender, msg) of
        Inr (rt, r) \<Rightarrow> deliver P height (net\<lparr>nt_router := rt\<rparr>) (messages r)
      | Inl _ \<Rightarrow> None)"

fun forward :: "net_params \<Rightarrow> u64 \<Rightarrow> string \<Rightarrow> network \<Rightarrow> gw_out list \<Rightarrow> network option" where
  "forward P height g net [] = Some net"
| "forward P height g net (ToVerifier v msgs # outs) =
     Option.bind (call_verifier P height net v g (VvVerifyMessages msgs)) (\<lambda>net. forward P height g net outs)"
| "forward P height g net (ToRouter _ msgs # outs) =
     Option.bind (call_router P height net g (Direct (RouteMessages msgs))) (\<lambda>net. forward P height g net outs)"

definition call_gateway :: "net_params \<Rightarrow> u64 \<Rightarrow> network \<Rightarrow> string \<Rightarrow> string \<Rightarrow> gw_msg \<Rightarrow> network option" where
  "call_gateway P height net g sender msg =
     (case kv_get (nt_gateways net) g of
        None \<Rightarrow> None
      | Some gs \<Rightarrow>
          (case gw_tx (np_hash P) gs (net_status P net height gs, sender, msg) of
             Inr (gs', r) \<Rightarrow> forward P height g (net\<lparr>nt_gateways := kv_set g gs' (nt_gateways net)\<rparr>) (messages r)
           | Inl _ \<Rightarrow> None))"

datatype net_call =
    CallRegistry sr_env string sr_msg
  | CallVerifier string u64 string vv_msg
  | CallRouter u64 string "router_msg from_proxy"
  | CallGateway string u64 string gw_msg

fun net_tx :: "net_params \<Rightarrow> network \<Rightarrow> net_call \<Rightarrow> network option" where
  "net_tx P net (CallRegistry env sender msg) =
     (case sr_tx (nt_registry net) (env, sender, msg) of Inr (s, _) \<Rightarrow> Some (net\<lparr>nt_registry := s\<rparr>) | Inl _ \<Rightarrow> None)"
| "net_tx P net (CallVerifier v height sender msg) = call_verifier P height net v sender msg"
| "net_tx P net (CallRouter height sender msg) = call_router P height net sender msg"
| "net_tx P net (CallGateway g height sender msg) = call_gateway P height net g sender msg"

text \<open>
  Calls from outside come from accounts and contracts that are neither the router nor a gateway
  of the network. Every contract starts with its instantiation; the gateways are instantiated
  with the address of the router.
\<close>

definition outside :: "network \<Rightarrow> string \<Rightarrow> bool" where
  "outside net a \<longleftrightarrow> a \<noteq> nt_router_address net \<and> kv_get (nt_gateways net) a = None"

fun net_call_ok :: "network \<Rightarrow> net_call \<Rightarrow> bool" where
  "net_call_ok net (CallRegistry env sender msg) \<longleftrightarrow> outside net sender \<and> sr_msg_ok msg"
| "net_call_ok net (CallVerifier v height sender msg) \<longleftrightarrow> outside net sender \<and> vv_msg_ok msg"
| "net_call_ok net (CallRouter height sender msg) \<longleftrightarrow> outside net sender"
| "net_call_ok net (CallGateway g height sender msg) \<longleftrightarrow> outside net sender"

inductive net_reachable :: "net_params \<Rightarrow> network \<Rightarrow> bool" for P where
  net_init: "router_instantiate (net_router_env P) admin governance axelarnet_gateway coordinator = Inr (rt, r) \<Longrightarrow>
    sr_instantiate env governance' = Inr (sr, r') \<Longrightarrow>
    net_reachable P \<lparr>nt_router_address = a, nt_router = rt, nt_registry = sr, nt_verifiers = [], nt_gateways = []\<rparr>"
| net_verifier: "net_reachable P net \<Longrightarrow> kv_get (nt_verifiers net) v = None \<Longrightarrow>
    vv_instantiate env governance config = Inr (vvs, r) \<Longrightarrow> majority_ok (vc_voting_threshold config) \<Longrightarrow> vc_block_expiry config \<noteq> 0 \<Longrightarrow>
    net_reachable P (net\<lparr>nt_verifiers := kv_set v vvs (nt_verifiers net)\<rparr>)"
| net_gateway: "net_reachable P net \<Longrightarrow> kv_get (nt_gateways net) g = None \<Longrightarrow> g \<noteq> nt_router_address net \<Longrightarrow>
    gw_instantiate Some v (nt_router_address net) = Inr (gs, r) \<Longrightarrow>
    net_reachable P (net\<lparr>nt_gateways := kv_set g gs (nt_gateways net)\<rparr>)"
| net_step: "net_reachable P net \<Longrightarrow> net_call_ok net call \<Longrightarrow> net_tx P net call = Some net' \<Longrightarrow> net_reachable P net'"

definition net_params_ok :: "net_params \<Rightarrow> bool" where
  "net_params_ok P \<longleftrightarrow> selects (np_select P) \<and> mul_ceil_rounds_up (np_mul_ceil P)"

definition net_inv :: "net_params \<Rightarrow> network \<Rightarrow> bool" where
  "net_inv P net \<longleftrightarrow> router_reachable (nt_router net) \<and> sr_reachable (nt_registry net)
     \<and> (\<forall>v vvs. kv_get (nt_verifiers net) v = Some vvs \<longrightarrow> vv_reachable (np_hash P) vvs)
     \<and> (\<forall>g gs. kv_get (nt_gateways net) g = Some gs \<longrightarrow> gw_reachable (np_hash P) gs
          \<and> map_option gc_router (gw_config gs) = Some (nt_router_address net))"

section \<open>Lemmas\<close>

subsection \<open>Answers of the registry\<close>

lemma active_verifiers_ok:
  assumes "sr_reachable s" and "selects sel" and "active_verifiers sel H h s n c = Inr vs"
  shows "verifiers_ok (map participant_of_verifier vs)"
proof -
  have inv: "sr_inv s" using assms(1) by (rule sr_reachable_inv)
  from assms(3) obtain sv where sv: "state_service s n (Some c) = Inr sv"
    and "\<not> length (eligible_verifiers s sv n c) < unat (sv_min_num_verifiers sv)"
    by (auto simp: active_verifiers_def Let_def result_simps split: if_splits)
  then have "unat (sv_min_num_verifiers sv) \<le> card {v. eligible s sv n c v}"
    using length_eligible_verifiers [OF inv, of sv n c] by simp
  from active_verifiers_spec [OF inv assms(2) sv this, of H h] assms(3)
  have vs: "distinct (map (vf_address \<circ> verifier_info) vs)" "verifier_info ` set vs \<subseteq> {v. eligible s sv n c v}"
    "\<forall>v \<in> set vs. wv_weight v = VERIFIER_WEIGHT" by auto
  have "has_service s n" using sv by (auto simp: state_service_def has_service_def result_simps)
  moreover have "(vf_address \<circ> verifier_info) ` set vs \<subseteq> authorized_set s n"
    using vs(2) by (force simp: eligible_def authorized_set_def)
  ultimately show ?thesis using active_weights_ok [OF inv _ _ vs(1,3)] by simp
qed

lemma net_vv_env_ok:
  assumes "net_params_ok P" and "sr_reachable (nt_registry net)"
  shows "vv_env_ok (net_vv_env P net h)"
  using assms active_verifiers_ok
  by (auto simp: vv_env_ok_def net_vv_env_def net_params_ok_def net_active_verifiers_def split: sum.splits)

subsection \<open>Messages of the router\<close>

lemma router_tx_messages:
  assumes "router_reachable s" and "router_tx s (env, a, msg) = Inr (s', r)" and "messages r \<noteq> []"
  obtains ms where "msg = Direct (RouteMessages ms)" "s' = s" "route_allowed env s a ms" "route_delivers env s ms r"
proof -
  have inv: "router_inv s" using assms(1) by (rule router_reachable_inv)
  from assms(2) obtain b m where auth: "authorize (rt_perms s) [(''coordinator'', find_coordinator_address s)] router_permissions
      (\<lambda>m role a. find_gateway_address s a) a msg = Inr (b, m)" and d: "router_dispatch env s b m = Inr (s', r)"
    by (auto simp: router_tx_def router_execute_def result_simps)
  obtain ms where m: "m = RouteMessages ms"
    using d assms(3)
    by (cases m) (auto simp: register_chain_def upgrade_gateway_def freeze_chains_def unfreeze_chains_def
        disable_routing_def enable_routing_def result_simps Let_def)
  from authorize_Inr [OF auth] m have "msg = Direct (RouteMessages ms)" "b = a" by auto
  moreover have "route_messages env s a ms = Inr (s', r)" using d m \<open>b = a\<close> by (auto simp: result_simps)
  from route_messages_Inr [OF inv this] have "s' = s" "route_allowed env s a ms" "route_delivers env s ms r" by simp_all
  ultimately show ?thesis using that by blast
qed

subsection \<open>Delivery\<close>

lemma save_outgoing_messages_from:
  assumes "try_fold (\<lambda>s m. change_context SaveOutgoingMessage (save_outgoing_message H s (cc_id m) m)) s ms = Inr s'"
    and "kv_get (gw_outgoing s') i = Some m"
  shows "kv_get (gw_outgoing s) i = Some m \<or> m \<in> set ms"
  using assms
proof (induction ms arbitrary: s)
  case (Cons m1 ms)
  then obtain s1 where s1: "save_outgoing_message H s (cc_id m1) m1 = Inr s1"
    and rest: "try_fold (\<lambda>s m. change_context SaveOutgoingMessage (save_outgoing_message H s (cc_id m) m)) s1 ms = Inr s'"
    by (auto simp: result_simps)
  from Cons.IH [OF rest Cons.prems(2)] show ?case
    using s1 by (auto simp: save_outgoing_message_def split: option.splits if_splits)
qed simp

text \<open>What a batch of the router does to the gateway it is sent to.\<close>

definition stores :: "(u8 list \<Rightarrow> u8 list) \<Rightarrow> message set \<Rightarrow> gw_state \<Rightarrow> gw_state \<Rightarrow> bool" where
  "stores H ms gs gs' \<longleftrightarrow> gw_extends gs gs'
     \<and> (\<forall>i m. kv_get (gw_outgoing gs') i = Some m \<longrightarrow> kv_get (gw_outgoing gs) i = Some m \<or> m \<in> ms)
     \<and> (\<forall>m \<in> ms. \<exists>m'. kv_get (gw_outgoing gs') (cc_id m) = Some m' \<and> message_hash H m' = message_hash H m)"

lemma stores_trans:
  assumes a: "stores H A gs gs1" and b: "stores H B gs1 gs2"
  shows "stores H (A \<union> B) gs gs2"
proof -
  have ext: "gw_extends gs gs1" "gw_extends gs1 gs2" using a b by (simp_all add: stores_def)
  have "kv_get (gw_outgoing gs) i = Some m \<or> m \<in> A \<union> B" if "kv_get (gw_outgoing gs2) i = Some m" for i m
    using that a b unfolding stores_def by blast
  moreover have "\<exists>m'. kv_get (gw_outgoing gs2) (cc_id m) = Some m' \<and> message_hash H m' = message_hash H m" if "m \<in> A \<union> B" for m
  proof (cases "m \<in> B")
    case True
    then show ?thesis using b by (simp add: stores_def)
  next
    case False
    then have "m \<in> A" using that by simp
    then obtain m' where "kv_get (gw_outgoing gs1) (cc_id m) = Some m'" "message_hash H m' = message_hash H m"
      using a unfolding stores_def by blast
    then show ?thesis using ext(2) by (auto simp: gw_extends_def)
  qed
  ultimately show ?thesis using gw_extends_trans [OF ext] by (simp add: stores_def)
qed

lemma gateway_stores:
  assumes "gw_reachable H gs" and "gw_tx H gs (query, router, GwRoute ms) = Inr (gs', r)"
    and "map_option gc_router (gw_config gs) = Some router"
  shows "stores H (set ms) gs gs'"
proof -
  have "route_outgoing_messages H gs ms = Inr (gs', r)"
    using assms(2,3) by (auto simp: gw_tx_def gw_execute_def gw_load_config_def result_simps)
  then have fold: "try_fold (\<lambda>s m. change_context SaveOutgoingMessage (save_outgoing_message H s (cc_id m) m)) gs ms = Inr gs'"
    by (auto simp: route_outgoing_messages_def result_simps)
  show ?thesis
    using save_outgoing_messages_Inr [OF fold gw_reachable_inv [OF assms(1)]] save_outgoing_messages_from [OF fold]
    by (auto simp: stores_def)
qed

definition sent_to :: "router_out list \<Rightarrow> string \<Rightarrow> message set" where
  "sent_to outs g = {m. \<exists>out \<in> set outs. go_gateway out = g \<and> m \<in> set (go_messages out)}"

text \<open>The rest of the network is left alone.\<close>

definition delivered :: "net_params \<Rightarrow> router_out list \<Rightarrow> network \<Rightarrow> network \<Rightarrow> bool" where
  "delivered P outs net net' \<longleftrightarrow> (\<exists>gws. net' = net\<lparr>nt_gateways := gws\<rparr>)
     \<and> (\<forall>g. kv_get (nt_gateways net) g = None \<longrightarrow> kv_get (nt_gateways net') g = None)
     \<and> (\<forall>g gs. kv_get (nt_gateways net) g = Some gs \<longrightarrow>
          (\<exists>gs'. kv_get (nt_gateways net') g = Some gs' \<and> stores (np_hash P) (sent_to outs g) gs gs'))"

lemma delivered_Nil: "delivered P [] net net"
  by (auto simp: delivered_def sent_to_def stores_def intro: exI [of _ "nt_gateways net"])

lemma net_inv_gateway:
  "net_inv P net \<Longrightarrow> kv_get (nt_gateways net) g = Some gs \<Longrightarrow>
     gw_reachable (np_hash P) gs \<and> map_option gc_router (gw_config gs) = Some (nt_router_address net)"
  by (simp add: net_inv_def)

lemma net_inv_set_gateway:
  assumes "net_inv P net" and "gw_reachable (np_hash P) gs" and "map_option gc_router (gw_config gs) = Some (nt_router_address net)"
  shows "net_inv P (net\<lparr>nt_gateways := kv_set g gs (nt_gateways net)\<rparr>)"
  using assms by (auto simp: net_inv_def)

lemma sent_to_Cons: "sent_to (GatewayRouteMessages g ms # outs) g' = (if g = g' then set ms else {}) \<union> sent_to outs g'"
  by (auto simp: sent_to_def)

lemma delivered_outside:
  assumes "kv_get (nt_gateways net) g = None" and "delivered P outs net net'"
  shows "delivered P (GatewayRouteMessages g ms # outs) net net'"
proof -
  have "sent_to (GatewayRouteMessages g ms # outs) g' = sent_to outs g'" if "kv_get (nt_gateways net) g' = Some gs" for g' gs
    using that assms(1) by (auto simp: sent_to_Cons)
  then show ?thesis using assms(2) by (simp add: delivered_def)
qed

lemma delivered_Cons:
  assumes "kv_get (nt_gateways net) g = Some gs" and "stores (np_hash P) (set ms) gs gs'"
    and "delivered P outs (net\<lparr>nt_gateways := kv_set g gs' (nt_gateways net)\<rparr>) net'"
  shows "delivered P (GatewayRouteMessages g ms # outs) net net'"
proof -
  have d: "\<exists>gs2. kv_get (nt_gateways net') g1 = Some gs2 \<and> stores (np_hash P) (sent_to outs g1) gs1 gs2"
    if "((kv_get (nt_gateways net))(g \<mapsto> gs')) g1 = Some gs1" for g1 gs1
    using that assms(3) unfolding delivered_def by simp
  have "\<exists>gs2. kv_get (nt_gateways net') g1 = Some gs2 \<and> stores (np_hash P) (sent_to (GatewayRouteMessages g ms # outs) g1) gs1 gs2"
    if "kv_get (nt_gateways net) g1 = Some gs1" for g1 gs1
  proof (cases "g1 = g")
    case True
    from d [of g gs'] obtain gs2 where "kv_get (nt_gateways net') g = Some gs2" "stores (np_hash P) (sent_to outs g) gs' gs2"
      by auto
    then show ?thesis using True that assms(1) stores_trans [OF assms(2)] by (auto simp: sent_to_Cons)
  next
    case False
    then show ?thesis using that d [of g1 gs1] by (simp add: sent_to_Cons)
  qed
  moreover have "kv_get (nt_gateways net') g1 = None" if "kv_get (nt_gateways net) g1 = None" for g1
    using that assms(1,3) unfolding delivered_def by (cases "g1 = g") auto
  moreover have "\<exists>gws. net' = net\<lparr>nt_gateways := gws\<rparr>" using assms(3) by (auto simp: delivered_def)
  ultimately show ?thesis by (simp add: delivered_def)
qed

lemma deliver_step:
  assumes "deliver P h net outs = Some net'" and "net_inv P net"
  shows "net_inv P net' \<and> delivered P outs net net'"
  using assms
proof (induction P h net outs rule: deliver.induct)
  case (1 P h net)
  then show ?case by (simp add: delivered_Nil)
next
  case (2 P h net g ms outs)
  show ?case
  proof (cases "kv_get (nt_gateways net) g")
    case None
    with 2 have "net_inv P net'" "delivered P outs net net'" by simp_all
    then show ?thesis using None delivered_outside by blast
  next
    case (Some gs)
    with "2.prems"(1) obtain gs' r where tx: "gw_tx (np_hash P) gs (net_status P net h gs, nt_router_address net, GwRoute ms) = Inr (gs', r)"
      and rest: "deliver P h (net\<lparr>nt_gateways := kv_set g gs' (nt_gateways net)\<rparr>) outs = Some net'"
      by (auto split: sum.splits)
    let ?net = "net\<lparr>nt_gateways := kv_set g gs' (nt_gateways net)\<rparr>"
    note gs = net_inv_gateway [OF "2.prems"(2) Some]
    have st: "stores (np_hash P) (set ms) gs gs'" using gs tx by (auto intro: gateway_stores)
    have "gw_reachable (np_hash P) gs'" using gs tx by (auto intro: gw_step)
    moreover have "gw_config gs' = gw_config gs" using st by (simp add: stores_def gw_extends_def)
    ultimately have inv: "net_inv P ?net" using gs "2.prems"(2) by (intro net_inv_set_gateway) auto
    have "net_inv P net'" and "delivered P outs ?net net'" using "2.IH"(2) [OF Some tx _ rest inv] by simp_all
    then show ?thesis using delivered_Cons [OF Some st] by simp
  qed
qed

subsection \<open>Calls\<close>

lemma call_verifier_step:
  assumes "call_verifier P h net v a msg = Some net'" and "net_inv P net" and "net_params_ok P" and "vv_msg_ok msg"
  shows "net_inv P net' \<and> nt_gateways net' = nt_gateways net \<and> nt_router_address net' = nt_router_address net"
proof -
  from assms(1) obtain vvs vvs' r where v: "kv_get (nt_verifiers net) v = Some vvs"
    and tx: "vv_tx (np_hash P) vvs (net_vv_env P net h, a, msg) = Inr (vvs', r)"
    and net': "net' = net\<lparr>nt_verifiers := kv_set v vvs' (nt_verifiers net)\<rparr>"
    by (auto simp: call_verifier_def split: option.splits sum.splits)
  have "vv_reachable (np_hash P) vvs" using assms(2) v by (auto simp: net_inv_def)
  moreover have "vv_call_ok (net_vv_env P net h, a, msg)"
    using assms(2-4) net_vv_env_ok by (simp add: vv_call_ok_def net_inv_def)
  ultimately have "vv_reachable (np_hash P) vvs'" using tx by (rule vv_step)
  then show ?thesis using assms(2) by (auto simp: net' net_inv_def)
qed

lemma call_router_step:
  assumes "call_router P h net a msg = Some net'" and "net_inv P net"
  obtains outs where "net_inv P net'" "nt_router_address net' = nt_router_address net"
    "delivered P outs (net\<lparr>nt_router := nt_router net'\<rparr>) net'"
    "outs \<noteq> [] \<longrightarrow> (\<exists>ms r. msg = Direct (RouteMessages ms) \<and> route_allowed (net_router_env P) (nt_router net) a ms
       \<and> route_delivers (net_router_env P) (nt_router net) ms r \<and> messages r = outs)"
proof -
  from assms(1) obtain rt r where tx: "router_tx (nt_router net) (net_router_env P, a, msg) = Inr (rt, r)"
    and d: "deliver P h (net\<lparr>nt_router := rt\<rparr>) (messages r) = Some net'"
    by (auto simp: call_router_def split: sum.splits)
  have reach: "router_reachable (nt_router net)" using assms(2) by (simp add: net_inv_def)
  then have "router_reachable rt" using tx by (rule step)
  then have "net_inv P (net\<lparr>nt_router := rt\<rparr>)" using assms(2) by (simp add: net_inv_def)
  from deliver_step [OF d this] have inv: "net_inv P net'" and del: "delivered P (messages r) (net\<lparr>nt_router := rt\<rparr>) net'" by simp_all
  then have "nt_router net' = rt" "nt_router_address net' = nt_router_address net" by (auto simp: delivered_def)
  moreover have "\<exists>ms r'. msg = Direct (RouteMessages ms) \<and> route_allowed (net_router_env P) (nt_router net) a ms
       \<and> route_delivers (net_router_env P) (nt_router net) ms r' \<and> messages r' = messages r" if "messages r \<noteq> []"
    using router_tx_messages [OF reach tx that] by blast
  ultimately show ?thesis using that [of "messages r"] inv del by simp
qed

lemma net_status_client: "net_status P net h gs ms = Some rs \<Longrightarrow> map fst rs = ms"
  by (auto simp: net_status_def split: option.splits dest: vv_status_query_Some(1))

interpretation nsq: verifier_client "net_status P net h gs" for P net h gs
  by unfold_locales (rule net_status_client)

text \<open>A call of a gateway from outside changes none of its state and sends at most one message.\<close>

definition routable :: "net_params \<Rightarrow> network \<Rightarrow> u64 \<Rightarrow> gw_state \<Rightarrow> message list \<Rightarrow> message list" where
  "routable P net h gs ms = (case gateway_verifier net gs of
     None \<Rightarrow> []
   | Some vvs \<Rightarrow> filter (\<lambda>m. message_status (np_hash P) vvs m h = (Inr SucceededOnSourceChain :: (vv_error, _) result)) ms)"

lemma gateway_call_out:
  assumes "net_inv P net" and "kv_get (nt_gateways net) g = Some gs" and "a \<noteq> nt_router_address net"
    and "gw_tx (np_hash P) gs (net_status P net h gs, a, msg) = Inr (gs', r)"
  shows "gs' = gs" and "messages r = [] \<or> (\<exists>v ms. messages r = [ToVerifier v ms])
      \<or> (\<exists>ms router. msg = GwRoute ms \<and> routable P net h gs ms \<noteq> [] \<and> messages r = [ToRouter router (routable P net h gs ms)])"
    and "msg = GwRoute ms \<Longrightarrow> routable P net h gs ms \<noteq> [] \<Longrightarrow> \<exists>router. messages r = [ToRouter router (routable P net h gs ms)]"
proof -
  from net_inv_gateway [OF assms(1,2)] obtain c where c: "gw_config gs = Some c" "gc_router c = nt_router_address net" by auto
  have route: "messages r = (if routable P net h gs ms = [] then [] else [ToRouter (gc_router c) (routable P net h gs ms)])"
    if "route_incoming_messages (net_status P net h gs) (gc_router c) ms = Inr r" for ms
  proof (cases "gateway_verifier net gs")
    case None
    from that obtain rs where "map fst rs = ms" "ms \<noteq> [] \<longrightarrow> net_status P net h gs ms = Some rs"
      "messages r = (let out = map fst (filter (\<lambda>(_, s). s = SucceededOnSourceChain) rs)
                   in if out = [] then [] else [ToRouter (gc_router c) out])"
      by (rule nsq.routed_messages)
    with None show ?thesis by (cases "ms = []") (auto simp: net_status_def routable_def)
  next
    case (Some vvs)
    then show ?thesis using that route_through_verifier(2) [of "np_hash P" vvs h "gc_router c" ms r]
      by (simp add: net_status_def routable_def Let_def)
  qed
  have verify: "messages r = [] \<or> (\<exists>v ms. messages r = [ToVerifier v ms])"
    if "gw_verify_messages (net_status P net h gs) (gc_verifier c) ms = Inr r" for ms
  proof -
    from that obtain rs where "map fst rs = ms" "ms \<noteq> [] \<longrightarrow> net_status P net h gs ms = Some rs" "distinct (map cc_id ms)"
      "messages r = (let out = concat (map (\<lambda>st. map fst (filter (\<lambda>(_, s). s = st) rs))
                     [NotFoundOnSourceChain, FailedToVerify, Unknown])
                   in if out = [] then [] else [ToVerifier (gc_verifier c) out])"
      by (rule nsq.verified_messages)
    then show ?thesis by (auto simp: Let_def)
  qed
  have cases: "gs' = gs \<and> ((\<exists>ms. msg = GwVerify ms \<and> gw_verify_messages (net_status P net h gs) (gc_verifier c) ms = Inr r)
      \<or> (\<exists>ms. msg = GwRoute ms \<and> route_incoming_messages (net_status P net h gs) (gc_router c) ms = Inr r))"
    using assms(3,4) c by (cases msg) (auto simp: gw_tx_def gw_execute_def gw_load_config_def result_simps)
  then show "gs' = gs" by simp
  show "messages r = [] \<or> (\<exists>v ms. messages r = [ToVerifier v ms])
      \<or> (\<exists>ms router. msg = GwRoute ms \<and> routable P net h gs ms \<noteq> [] \<and> messages r = [ToRouter router (routable P net h gs ms)])"
    using cases verify route by metis
  show "\<exists>router. messages r = [ToRouter router (routable P net h gs ms)]" if "msg = GwRoute ms" "routable P net h gs ms \<noteq> []"
    using that cases route by auto
qed

text \<open>
  What a transaction does to the gateways: it stores the messages of one batch that the router has
  accepted, sent by an address from outside or by a gateway that was called.
\<close>

definition batch_from :: "net_params \<Rightarrow> network \<Rightarrow> net_call \<Rightarrow> string \<Rightarrow> message list \<Rightarrow> bool" where
  "batch_from P net call a ms \<longleftrightarrow> (\<exists>h. call = CallRouter h a (Direct (RouteMessages ms)))
     \<or> (\<exists>h b ms0 gs. call = CallGateway a h b (GwRoute ms0) \<and> kv_get (nt_gateways net) a = Some gs \<and> ms = routable P net h gs ms0)"

definition net_effect :: "net_params \<Rightarrow> network \<Rightarrow> net_call \<Rightarrow> network \<Rightarrow> router_out list \<Rightarrow> bool" where
  "net_effect P net call net' outs \<longleftrightarrow> net_inv P net'
     \<and> (\<forall>g gs. kv_get (nt_gateways net) g = Some gs \<longrightarrow>
          (\<exists>gs'. kv_get (nt_gateways net') g = Some gs' \<and> stores (np_hash P) (sent_to outs g) gs gs'))
     \<and> (outs \<noteq> [] \<longrightarrow> (\<exists>a ms r. batch_from P net call a ms \<and> route_allowed (net_router_env P) (nt_router net) a ms
          \<and> route_delivers (net_router_env P) (nt_router net) ms r \<and> messages r = outs))"

lemma net_effect_frame:
  assumes "net_inv P net'" and "kv_get (nt_gateways net') = kv_get (nt_gateways net)"
  shows "net_effect P net call net' []"
  using assms by (auto simp: net_effect_def stores_def sent_to_def)

lemma call_router_effect:
  assumes "call_router P h net1 a (Direct (RouteMessages ms)) = Some net'" and "net_inv P net1"
    and "kv_get (nt_gateways net1) = kv_get (nt_gateways net)" and "nt_router net1 = nt_router net"
    and "batch_from P net call a ms"
  shows "\<exists>outs. net_effect P net call net' outs"
proof -
  from assms(1,2) obtain outs where o: "net_inv P net'" "nt_router_address net' = nt_router_address net1"
    "delivered P outs (net1\<lparr>nt_router := nt_router net'\<rparr>) net'"
    "outs \<noteq> [] \<longrightarrow> (\<exists>ms' r. Direct (RouteMessages ms) = Direct (RouteMessages ms') \<and> route_allowed (net_router_env P) (nt_router net1) a ms'
       \<and> route_delivers (net_router_env P) (nt_router net1) ms' r \<and> messages r = outs)"
    by (rule call_router_step)
  have "net_effect P net call net' outs"
    using o(1,3,4) assms(3-5) by (auto simp: net_effect_def delivered_def)
  then show ?thesis ..
qed

lemma net_tx_effect:
  assumes "net_tx P net call = Some net'" and "net_inv P net" and "net_params_ok P" and "net_call_ok net call"
  shows "\<exists>outs. net_effect P net call net' outs"
proof (cases call)
  case (CallRegistry env a m)
  with assms(1) obtain s r where tx: "sr_tx (nt_registry net) (env, a, m) = Inr (s, r)" and net': "net' = net\<lparr>nt_registry := s\<rparr>"
    by (auto split: sum.splits)
  have "sr_reachable s"
    using assms(2,4) CallRegistry by (intro sr_step [OF _ _ tx]) (simp_all add: net_inv_def sr_call_ok_def)
  then have "net_inv P net'" using assms(2) by (simp add: net' net_inv_def)
  then show ?thesis using net_effect_frame [of P net' net] by (auto simp: net')
next
  case (CallVerifier v h a m)
  then show ?thesis using assms call_verifier_step [of P h net v a m net'] net_effect_frame [of P net' net] by auto
next
  case (CallRouter h a m)
  then have call: "call_router P h net a m = Some net'" using assms(1) by simp
  show ?thesis
  proof (cases "\<exists>ms. m = Direct (RouteMessages ms)")
    case True
    then show ?thesis using call assms(2) CallRouter by (auto simp: batch_from_def intro!: call_router_effect)
  next
    case False
    from call assms(2) obtain outs where "net_inv P net'" "nt_router_address net' = nt_router_address net"
      "delivered P outs (net\<lparr>nt_router := nt_router net'\<rparr>) net'"
      "outs \<noteq> [] \<longrightarrow> (\<exists>ms r. m = Direct (RouteMessages ms) \<and> route_allowed (net_router_env P) (nt_router net) a ms
         \<and> route_delivers (net_router_env P) (nt_router net) ms r \<and> messages r = outs)"
      by (rule call_router_step)
    with False have "net_effect P net call net' []" by (auto simp: net_effect_def delivered_def)
    then show ?thesis ..
  qed
next
  case (CallGateway g h a m)
  with assms(1) obtain gs gs' r where g: "kv_get (nt_gateways net) g = Some gs"
    and tx: "gw_tx (np_hash P) gs (net_status P net h gs, a, m) = Inr (gs', r)"
    and fwd: "forward P h g (net\<lparr>nt_gateways := kv_set g gs' (nt_gateways net)\<rparr>) (messages r) = Some net'"
    by (auto simp: call_gateway_def split: option.splits sum.splits)
  have a: "a \<noteq> nt_router_address net" using assms(4) CallGateway by (simp add: outside_def)
  note out = gateway_call_out [OF assms(2) g a tx]
  let ?net = "net\<lparr>nt_gateways := kv_set g gs' (nt_gateways net)\<rparr>"
  have same: "kv_get (nt_gateways ?net) = kv_get (nt_gateways net)" using g out(1) by auto
  have inv: "net_inv P ?net" using assms(2) net_inv_gateway [OF assms(2) g] out(1) by (intro net_inv_set_gateway) auto
  from out(2) consider "messages r = []" | v ms where "messages r = [ToVerifier v ms]"
    | ms router where "m = GwRoute ms" "messages r = [ToRouter router (routable P net h gs ms)]" by blast
  then show ?thesis
  proof cases
    case 1
    then show ?thesis using fwd inv net_effect_frame [of P net' net call] same by auto
  next
    case (2 v ms)
    then have "call_verifier P h ?net v g (VvVerifyMessages ms) = Some net'" using fwd by (auto split: bind_splits)
    from call_verifier_step [OF this inv assms(3)] show ?thesis using net_effect_frame [of P net' net call] same by auto
  next
    case (3 ms router)
    then have call: "call_router P h ?net g (Direct (RouteMessages (routable P net h gs ms))) = Some net'"
      using fwd by (auto split: bind_splits)
    have "batch_from P net call g (routable P net h gs ms)"
      using CallGateway 3(1) g by (auto simp: batch_from_def)
    then show ?thesis using same by (intro call_router_effect [OF call inv]) simp_all
  qed
qed

lemma net_reachable_inv: "net_reachable P net \<Longrightarrow> net_params_ok P \<Longrightarrow> net_inv P net"
proof (induction rule: net_reachable.induct)
  case (net_init admin governance axelarnet_gateway coordinator rt r env governance' sr r' a)
  then show ?case by (auto simp: net_inv_def intro: init sr_init)
next
  case (net_verifier net v env governance config vvs r)
  then have "vv_reachable (np_hash P) vvs" by (intro vv_init)
  then show ?case using net_verifier by (auto simp: net_inv_def)
next
  case (net_gateway net g v gs r)
  then have "gw_reachable (np_hash P) gs" by (intro gw_init)
  moreover have "map_option gc_router (gw_config gs) = Some (nt_router_address net)"
    using net_gateway.hyps(4) by (auto simp: gw_instantiate_def validate_cosmwasm_address_def result_simps)
  ultimately show ?case using net_gateway by (intro net_inv_set_gateway) auto
next
  case (net_step net call net')
  then show ?case using net_tx_effect by (auto simp: net_effect_def)
qed

subsection \<open>Origin and arrival of messages\<close>

lemma source_allowed_from:
  assumes "router_inv s" and "source_allowed env s a ms" and "m \<in> set ms" and "\<not> is_axelarnet_gateway s a"
  shows "\<exists>e. kv_get (rt_chains s) (source_chain (cc_id m)) = Some e \<and> ep_gateway e = a \<and> ep_frozen_status e AND 1 = 0"
proof -
  from assms(2,4) obtain c e where ce: "(c, e) \<in> set (rt_chains s)" "ep_gateway e = a" "ep_frozen_status e AND 1 = 0"
    and "list_all (\<lambda>m. source_chain (cc_id m) = c) ms"
    by (auto simp: source_allowed_def)
  then have "source_chain (cc_id m) = c" using assms(3) by (simp add: list_all_iff)
  then show ?thesis using ce assms(1) by (auto simp: router_inv_def chains_ok_def kv_ok_get_iff)
qed

lemma routable_voted:
  assumes "net_inv P net" and "m \<in> set (routable P net h gs ms)"
  shows "m \<in> set ms \<and> (\<exists>vvs. gateway_verifier net gs = Some vvs \<and> majority_voted (np_hash P) vvs m)"
proof -
  from assms(2) obtain vvs where vvs: "gateway_verifier net gs = Some vvs" and m: "m \<in> set ms"
    and st: "message_status (np_hash P) vvs m h = (Inr SucceededOnSourceChain :: (vv_error, _) result)"
    by (cases "gateway_verifier net gs") (auto simp: routable_def)
  have "vv_reachable (np_hash P) vvs"
    using assms(1) vvs by (auto simp: net_inv_def gateway_verifier_def bind_eq_Some_conv)
  then show ?thesis using succeeded_votes [OF _ st] vvs m by blast
qed

lemma new_message_sent:
  assumes "net_effect P net call net' outs" and "kv_get (nt_gateways net) g = Some gs" and "kv_get (nt_gateways net') g = Some gs'"
    and "kv_get (gw_outgoing gs') i = Some m" and "kv_get (gw_outgoing gs) i \<noteq> Some m"
  obtains a ms where "batch_from P net call a ms" "m \<in> set ms" "source_allowed (net_router_env P) (nt_router net) a ms"
    "route_gateway (net_router_env P) (nt_router net) (destination_chain m) = Some g"
proof -
  have "\<exists>gs'. kv_get (nt_gateways net') g = Some gs' \<and> stores (np_hash P) (sent_to outs g) gs gs'"
    using assms(1,2) unfolding net_effect_def by blast
  then have "stores (np_hash P) (sent_to outs g) gs gs'" using assms(3) by simp
  then have "m \<in> sent_to outs g" using assms(4,5) by (auto simp: stores_def)
  then obtain out where out: "out \<in> set outs" "go_gateway out = g" "m \<in> set (go_messages out)" by (auto simp: sent_to_def)
  then have "outs \<noteq> []" by auto
  with assms(1) obtain a ms r where b: "batch_from P net call a ms" and allowed: "route_allowed (net_router_env P) (nt_router net) a ms"
    and d: "route_delivers (net_router_env P) (nt_router net) ms r" "messages r = outs"
    by (auto simp: net_effect_def)
  have "m \<in> set ms" using d out by (auto simp: route_delivers_def)
  moreover have "route_gateway (net_router_env P) (nt_router net) (destination_chain m) = Some g"
    using d out by (auto simp: route_delivers_def list_all_iff)
  ultimately show ?thesis using that b allowed by (auto simp: route_allowed_def)
qed

text \<open>Conditions under which a batch of the router can be stored.\<close>

definition no_conflict :: "(u8 list \<Rightarrow> u8 list) \<Rightarrow> gw_state \<Rightarrow> message \<Rightarrow> bool" where
  "no_conflict H gs m \<longleftrightarrow> (\<forall>m'. kv_get (gw_outgoing gs) (cc_id m) = Some m' \<longrightarrow> message_hash H m' = message_hash H m)"

lemma save_outgoing_messages_succeeds:
  assumes "\<forall>m \<in> set ms. no_conflict H gs m" and "distinct (map cc_id ms)"
  shows "\<exists>gs'. try_fold (\<lambda>s m. change_context SaveOutgoingMessage (save_outgoing_message H s (cc_id m) m)) gs ms = Inr gs'
    \<and> (\<forall>i. i \<notin> cc_id ` set ms \<longrightarrow> kv_get (gw_outgoing gs') i = kv_get (gw_outgoing gs) i)"
  using assms
proof (induction ms arbitrary: gs)
  case (Cons m ms)
  from Cons.prems obtain gs1 where gs1: "save_outgoing_message H gs (cc_id m) m = Inr gs1"
    and get: "\<forall>i. i \<noteq> cc_id m \<longrightarrow> kv_get (gw_outgoing gs1) i = kv_get (gw_outgoing gs) i"
    by (cases "kv_get (gw_outgoing gs) (cc_id m)") (auto simp: save_outgoing_message_def no_conflict_def)
  have "no_conflict H gs1 m1" if "m1 \<in> set ms" for m1
  proof -
    have "cc_id m1 \<noteq> cc_id m" using that Cons.prems(2) by (metis distinct.simps(2) image_eqI list.set_map list.simps(9))
    then show ?thesis using that Cons.prems(1) get by (simp add: no_conflict_def)
  qed
  then obtain gs' where "try_fold (\<lambda>s m. change_context SaveOutgoingMessage (save_outgoing_message H s (cc_id m) m)) gs1 ms = Inr gs'"
    "\<forall>i. i \<notin> cc_id ` set ms \<longrightarrow> kv_get (gw_outgoing gs') i = kv_get (gw_outgoing gs1) i"
    using Cons.IH [of gs1] Cons.prems(2) by auto
  then show ?case using gs1 get by auto
qed simp

lemma gateway_accepts:
  assumes "map_option gc_router (gw_config gs) = Some router" and "\<forall>m \<in> set ms. no_conflict H gs m" and "distinct (map cc_id ms)"
  shows "\<exists>gs' r. gw_tx H gs (query, router, GwRoute ms) = Inr (gs', r)
    \<and> (\<forall>i. i \<notin> cc_id ` set ms \<longrightarrow> kv_get (gw_outgoing gs') i = kv_get (gw_outgoing gs) i)"
proof -
  obtain gs' where fold: "try_fold (\<lambda>s m. change_context SaveOutgoingMessage (save_outgoing_message H s (cc_id m) m)) gs ms = Inr gs'"
    and get: "\<forall>i. i \<notin> cc_id ` set ms \<longrightarrow> kv_get (gw_outgoing gs') i = kv_get (gw_outgoing gs) i"
    using save_outgoing_messages_succeeds [OF assms(2,3)] by blast
  have "check_for_duplicates ms = Inr ms" using assms(3) by (simp add: check_for_duplicates_Inr)
  then have "route_outgoing_messages H gs ms = Inr (gs', \<lparr>messages = [], events = map GwRouting ms\<rparr>)"
    using fold by (simp add: route_outgoing_messages_def)
  then show ?thesis using assms(1) get by (auto simp: gw_tx_def gw_execute_def gw_load_config_def)
qed

lemma deliver_succeeds:
  assumes "net_inv P net" and "distinct (map cc_id (concat (map go_messages outs)))"
    and "\<And>out m gs. out \<in> set outs \<Longrightarrow> m \<in> set (go_messages out) \<Longrightarrow> kv_get (nt_gateways net) (go_gateway out) = Some gs \<Longrightarrow>
      no_conflict (np_hash P) gs m"
  shows "\<exists>net'. deliver P h net outs = Some net'"
  using assms
proof (induction P h net outs rule: deliver.induct)
  case (2 P h net g ms outs)
  show ?case
  proof (cases "kv_get (nt_gateways net) g")
    case None
    have "\<exists>net'. deliver P h net outs = Some net'"
      using "2.prems" by (intro "2.IH"(1) [OF None]) (auto intro: "2.prems"(3))
    then show ?thesis using None by simp
  next
    case (Some gs)
    note gs = net_inv_gateway [OF "2.prems"(1) Some]
    have "\<forall>m \<in> set ms. no_conflict (np_hash P) gs m" using "2.prems"(3) [of "GatewayRouteMessages g ms"] Some by simp
    moreover have "distinct (map cc_id ms)" using "2.prems"(2) by simp
    ultimately obtain gs' r where tx: "gw_tx (np_hash P) gs (net_status P net h gs, nt_router_address net, GwRoute ms) = Inr (gs', r)"
      and get: "\<forall>i. i \<notin> cc_id ` set ms \<longrightarrow> kv_get (gw_outgoing gs') i = kv_get (gw_outgoing gs) i"
      using gateway_accepts gs by blast
    let ?net = "net\<lparr>nt_gateways := kv_set g gs' (nt_gateways net)\<rparr>"
    have "gw_reachable (np_hash P) gs'" using gs tx by (auto intro: gw_step)
    moreover have "gw_config gs' = gw_config gs" using gateway_stores [OF _ tx] gs by (auto simp: stores_def gw_extends_def)
    ultimately have inv: "net_inv P ?net" using gs "2.prems"(1) by (intro net_inv_set_gateway) auto
    have "no_conflict (np_hash P) gs1 m"
      if out: "out \<in> set outs" "m \<in> set (go_messages out)" and gs1: "kv_get (nt_gateways ?net) (go_gateway out) = Some gs1" for out m gs1
    proof (cases "go_gateway out = g")
      case True
      have "cc_id m \<notin> cc_id ` set ms" using "2.prems"(2) out by (auto dest!: bspec)
      moreover have "no_conflict (np_hash P) gs m" using "2.prems"(3) [of out m gs] out True Some by simp
      ultimately show ?thesis using gs1 True get by (simp add: no_conflict_def)
    next
      case False
      then show ?thesis using "2.prems"(3) [of out m gs1] out gs1 by simp
    qed
    then have "\<exists>net'. deliver P h ?net outs = Some net'"
      using "2.prems"(2) by (intro "2.IH"(2) [OF Some tx _ inv]) auto
    then show ?thesis using Some tx by simp
  qed
qed simp

definition holds_message :: "net_params \<Rightarrow> network \<Rightarrow> string \<Rightarrow> message \<Rightarrow> bool" where
  "holds_message P net g m \<longleftrightarrow> (\<exists>gs m'. kv_get (nt_gateways net) g = Some gs \<and> kv_get (gw_outgoing gs) (cc_id m) = Some m'
     \<and> message_hash (np_hash P) m' = message_hash (np_hash P) m)"

definition may_arrive :: "net_params \<Rightarrow> network \<Rightarrow> message \<Rightarrow> bool" where
  "may_arrive P net m \<longleftrightarrow> (\<forall>g gs. route_gateway (net_router_env P) (nt_router net) (destination_chain m) = Some g \<longrightarrow>
     kv_get (nt_gateways net) g = Some gs \<longrightarrow> no_conflict (np_hash P) gs m)"

lemma call_router_routes:
  assumes "net_inv P net" and "route_allowed (net_router_env P) (nt_router net) a ms" and "distinct (map cc_id ms)"
    and "\<forall>m \<in> set ms. may_arrive P net m"
  shows "\<exists>net'. call_router P h net a (Direct (RouteMessages ms)) = Some net'
    \<and> (\<forall>m \<in> set ms. \<forall>g. route_gateway (net_router_env P) (nt_router net) (destination_chain m) = Some g \<longrightarrow>
         kv_get (nt_gateways net) g \<noteq> None \<longrightarrow> holds_message P net' g m)"
proof -
  let ?env = "net_router_env P" and ?rt = "nt_router net"
  have inv: "router_inv ?rt" using assms(1) by (auto simp: net_inv_def intro: router_reachable_inv)
  obtain r where r: "route_messages ?env ?rt a ms = Inr (?rt, r)" using route_messages_succeeds [OF inv assms(2)] ..
  then have tx: "router_tx ?rt (?env, a, Direct (RouteMessages ms)) = Inr (?rt, r)"
    using execute_route [OF inv] by (simp add: router_tx_def)
  have del: "concat (map go_messages (messages r)) = ms"
    and gw: "out \<in> set (messages r) \<Longrightarrow> m \<in> set (go_messages out) \<Longrightarrow> route_gateway ?env ?rt (destination_chain m) = Some (go_gateway out)" for out m
    using route_messages_Inr [OF inv r] by (auto simp: route_delivers_def list_all_iff)
  have "no_conflict (np_hash P) gs m"
    if "out \<in> set (messages r)" "m \<in> set (go_messages out)" "kv_get (nt_gateways net) (go_gateway out) = Some gs" for out m gs
  proof -
    have "m \<in> set ms" using that del by auto
    then show ?thesis using that gw assms(4) by (auto simp: may_arrive_def)
  qed
  moreover have "distinct (map cc_id (concat (map go_messages (messages r))))" using assms(3) del by simp
  ultimately obtain net' where d: "deliver P h net (messages r) = Some net'" using deliver_succeeds [OF assms(1)] by blast
  then have call: "call_router P h net a (Direct (RouteMessages ms)) = Some net'" using tx by (simp add: call_router_def)
  have stored: "delivered P (messages r) net net'" using deliver_step [OF d assms(1)] by simp
  have "holds_message P net' g m"
    if m: "m \<in> set ms" "route_gateway ?env ?rt (destination_chain m) = Some g" and gs: "kv_get (nt_gateways net) g = Some gs" for m g gs
  proof -
    from m(1) del obtain out where out: "out \<in> set (messages r)" "m \<in> set (go_messages out)" by auto
    then have "m \<in> sent_to (messages r) g" using gw [OF out] m(2) by (auto simp: sent_to_def)
    moreover obtain gs' where "kv_get (nt_gateways net') g = Some gs'" "stores (np_hash P) (sent_to (messages r) g) gs gs'"
      using stored gs unfolding delivered_def by blast
    ultimately show ?thesis by (auto simp: holds_message_def stores_def)
  qed
  then show ?thesis using call by blast
qed

lemma gateway_routes:
  assumes "net_inv P net" and "kv_get (nt_gateways net) g = Some gs" and "a \<noteq> nt_router_address net"
    and "gateway_verifier net gs = Some vvs" and "vv_status_query (np_hash P) vvs h ms = Some rs" and "distinct (map cc_id ms)"
  shows "\<exists>r. gw_tx (np_hash P) gs (net_status P net h gs, a, GwRoute ms) = Inr (gs, r)
    \<and> messages r = (if routable P net h gs ms = [] then [] else [ToRouter (nt_router_address net) (routable P net h gs ms)])"
proof -
  from net_inv_gateway [OF assms(1,2)] obtain c where c: "gw_config gs = Some c" "gc_router c = nt_router_address net" by auto
  have "client_messages_status (vv_status_query (np_hash P) vvs h) ms = Inr (if ms = [] then [] else rs)"
    using assms(5) by (cases ms) (simp_all add: client_messages_status_def)
  moreover have "check_for_duplicates ms = Inr ms" using assms(6) by (simp add: check_for_duplicates_Inr)
  ultimately obtain r where r: "route_incoming_messages (vv_status_query (np_hash P) vvs h) (gc_router c) ms = Inr r"
    by (auto simp: route_incoming_messages_def gw_apply_def case_prod_beta)
  then have "gw_tx (np_hash P) gs (net_status P net h gs, a, GwRoute ms) = Inr (gs, r)"
    using c assms(3,4) by (simp add: gw_tx_def gw_execute_def gw_load_config_def net_status_def)
  moreover have "messages r = (if routable P net h gs ms = [] then [] else [ToRouter (nt_router_address net) (routable P net h gs ms)])"
    using route_through_verifier(2) [OF r] assms(4) c(2) by (simp add: routable_def Let_def)
  ultimately show ?thesis by blast
qed

section \<open>Example\<close>

text \<open>
  A network of two chains. Three verifiers register in the service registry; two of them vote for
  a message from one chain to the other.
\<close>

abbreviation net_ex_params :: net_params where
  "net_ex_params \<equiv> \<lparr>np_hash = (\<lambda>x. x), np_select = sort_by, np_mul_ceil = mul_ceil_std, np_codecs = vv_ex_codecs,
     np_addr_validate = Some, np_is_chain_registered = (\<lambda>_. Some False)\<rparr>"

abbreviation net_ex_service :: service where
  "net_ex_service \<equiv> \<lparr>sv_name = ''validators'', sv_coordinator_contract = ''coord'', sv_min_num_verifiers = 1, sv_max_num_verifiers = None,
     sv_min_verifier_bond = 10, sv_bond_denom = ''axl'', sv_unbonding_period_days = 3, sv_description = ''validators''\<rparr>"

definition net_ex_calls :: "sr_call list" where
  "net_ex_calls = [(sr_ex_env 0 [], ''gov'', RegisterService net_ex_service),
     (sr_ex_env 0 [(''axl'', 20)], ''a'', BondVerifier ''validators''), (sr_ex_env 0 [(''axl'', 20)], ''b'', BondVerifier ''validators''),
     (sr_ex_env 0 [(''axl'', 20)], ''c'', BondVerifier ''validators''),
     (sr_ex_env 0 [], ''gov'', AuthorizeVerifiers [''a'', ''b'', ''c''] ''validators''),
     (sr_ex_env 0 [], ''a'', RegisterChainSupport ''validators'' [''eth'']), (sr_ex_env 0 [], ''b'', RegisterChainSupport ''validators'' [''eth'']),
     (sr_ex_env 0 [], ''c'', RegisterChainSupport ''validators'' [''eth''])]"

abbreviation net_ex_verifier :: "string \<Rightarrow> sr_verifier" where
  "net_ex_verifier a \<equiv> \<lparr>vf_address = a, vf_bonding_state = Bonded 20, vf_authorization_state = Authorized, vf_service_name = ''validators''\<rparr>"

definition net_ex_registry :: sr_state where
  "net_ex_registry = sr_ex_init\<lparr>sr_services := [(''validators'', net_ex_service)], sr_authorized_count := [(''validators'', 3)],
     sr_verifiers := [((''validators'', ''a''), net_ex_verifier ''a''), ((''validators'', ''b''), net_ex_verifier ''b''),
       ((''validators'', ''c''), net_ex_verifier ''c'')],
     sr_per_chain := [((''validators'', ''eth'', ''a''), ()), ((''validators'', ''eth'', ''b''), ()), ((''validators'', ''eth'', ''c''), ())]\<rparr>"

lemma net_ex_registered: "run_txs sr_tx sr_ex_init net_ex_calls = net_ex_registry"
  by (simp add: net_ex_calls_def net_ex_registry_def sr_eval)

abbreviation net_ex :: "router_state \<Rightarrow> sr_state \<Rightarrow> vv_state \<Rightarrow> (cross_chain_id, message) kv \<Rightarrow> network" where
  "net_ex rt sr vvs out \<equiv> \<lparr>nt_router_address = ''router'', nt_router = rt, nt_registry = sr, nt_verifiers = [(''verifier'', vvs)],
     nt_gateways = [(''gw1'', gw_ex_state []), (''gw2'', gw_ex_state out)]\<rparr>"

lemma net_ex_active:
  "net_active_verifiers net_ex_params (net_ex rt net_ex_registry vvs out) h ''validators'' ''eth'' =
     Some [\<lparr>p_address = ''a'', p_weight = 1\<rparr>, \<lparr>p_address = ''b'', p_weight = 1\<rparr>, \<lparr>p_address = ''c'', p_weight = 1\<rparr>]"
  by (simp add: net_active_verifiers_def active_verifiers_def net_ex_registry_def state_service_def eligible_verifiers_def
      List.map_filter_def bonded_enough_def participant_of_verifier_def VERIFIER_WEIGHT_def nonempty_uint128_one_def Let_def
      word_le_nat_alt)

lemma net_ex_params_ok: "net_params_ok net_ex_params"
  by (simp add: net_params_ok_def selects_sort_by mul_ceil_std_rounds_up)

lemma net_registry_run:
  assumes "net_reachable P net" and "list_all (\<lambda>(env, a, m). outside net a \<and> sr_msg_ok m) calls"
  shows "net_reachable P (net\<lparr>nt_registry := run_txs sr_tx (nt_registry net) calls\<rparr>)"
  using assms
proof (induction calls arbitrary: net)
  case (Cons call calls)
  obtain env a m where call: "call = (env, a, m)" by (cases call)
  let ?net = "net\<lparr>nt_registry := commit (nt_registry net) (sr_tx (nt_registry net) call)\<rparr>"
  have "net_reachable P ?net"
  proof (cases "sr_tx (nt_registry net) call")
    case (Inl e)
    then show ?thesis using Cons.prems(1) by simp
  next
    case (Inr x)
    then have "net_tx P net (CallRegistry env a m) = Some ?net" by (cases x) (simp add: call)
    from net_step [OF Cons.prems(1) _ this] show ?thesis using Cons.prems(2) by (simp add: call)
  qed
  from Cons.IH [OF this] Cons.prems(2) show ?case by (simp add: outside_def)
qed simp

lemma net_ex_router:
  "\<exists>r. router_instantiate (net_router_env net_ex_params) ''admin'' ''gov'' ''axl'' ''coord'' = Inr (example_init, r)"
  "\<exists>r. router_tx example_init (net_router_env net_ex_params, ''gov'', Direct (RegisterChain ''avax'' ''gw2'' HexTxHashAndEventIndexFormat)) =
     Inr (example_init\<lparr>rt_chains := [(''avax'', example_chain ''avax'' ''gw2'' 0)]\<rparr>, r) \<and> messages r = []"
  "\<exists>r. router_tx (example_init\<lparr>rt_chains := [(''avax'', example_chain ''avax'' ''gw2'' 0)]\<rparr>)
       (net_router_env net_ex_params, ''gov'', Direct (RegisterChain ''eth'' ''gw1'' HexTxHashAndEventIndexFormat)) =
     Inr (example_state 0, r) \<and> messages r = []"
  by (simp_all add: net_router_env_def router_instantiate_def validate_cosmwasm_address_def set_governance_def set_admin_def
      killswitch_init_def router_eval)

abbreviation net_ex_voted :: vv_state where
  "net_ex_voted \<equiv> vv_ex_state (\<lambda>x. x) (vv_ex_poll 2 True True False) [((1, ''a''), [SucceededOnChain]), ((1, ''b''), [SucceededOnChain])]"

lemma net_ex_snapshot:
  "take_snapshot (net_vv_env net_ex_params (net_ex rt net_ex_registry vvs out) h) vv_ex_init ''eth'' = Inr \<lparr>sn_quorum = 2, sn_participants =
     [(''a'', \<lparr>p_address = ''a'', p_weight = 1\<rparr>), (''b'', \<lparr>p_address = ''b'', p_weight = 1\<rparr>),
      (''c'', \<lparr>p_address = ''c'', p_weight = 1\<rparr>)]\<rparr>"
  by (simp add: take_snapshot_def net_vv_env_def net_ex_active load_vv_config_def nonempty_vec_try_from_def snapshot_new_def snapshot_total_def
      saturating_add_def checked_add_def mul_ceil_std_def nonempty_uint128_try_from_def kv_of_list_def less_char_def)

lemma net_vv_env_sel [simp]:
  "ve_height (net_vv_env P net h) = h" "ve_codecs (net_vv_env P net h) = np_codecs P"
  by (simp_all add: net_vv_env_def)

lemma net_ex_verify:
  "\<exists>r. vv_tx (\<lambda>x. x) vv_ex_init (net_vv_env net_ex_params (net_ex rt net_ex_registry vvs out) 10, ''u'', VvVerifyMessages [vv_ex_message]) =
     Inr (vv_ex_state (\<lambda>x. x) (vv_ex_poll 0 False False False) [], r)"
  by (simp add: vv_eval verify_messages_def load_vv_config_def validate_source_chain_def validate_source_address_def
      message_status_def needs_verification_def net_ex_snapshot calculate_expiration_def checked_add_def
      create_messages_poll_def create_poll_def counter_incr_def counter_cur_def poll_content_message_def
      weighted_poll_new_def tallies_default_def vote_iter_def kv_of_list_def less_char_def
      tx_event_confirmation_try_from_def snapshot_participants_def del: verify_msg_id.simps validate_address.simps)

lemma net_ex_votes:
  "\<exists>r. vv_tx (\<lambda>x. x) (vv_ex_state (\<lambda>x. x) (vv_ex_poll 0 False False False) [])
       (net_vv_env net_ex_params net 11, ''a'', Vote 1 [SucceededOnChain]) =
     Inr (vv_ex_state (\<lambda>x. x) (vv_ex_poll 1 True False False) [((1, ''a''), [SucceededOnChain])], r)"
  "\<exists>r. vv_tx (\<lambda>x. x) (vv_ex_state (\<lambda>x. x) (vv_ex_poll 1 True False False) [((1, ''a''), [SucceededOnChain])])
       (net_vv_env net_ex_params net 12, ''b'', Vote 1 [SucceededOnChain]) = Inr (net_ex_voted, r)"
  by (simp_all add: vv_eval vv_vote_def poll_results_def cast_vote_def tally_def saturating_add_def checked_add_def
      results_difference_def make_quorum_event_def load_message_def Let_def less_char_def word_le_nat_alt vote_parse_def
      less_prod_def)

lemma net_ex_deployed: "net_reachable net_ex_params (net_ex (example_state 0) net_ex_registry vv_ex_init [])"
proof -
  let ?P = net_ex_params
  let ?net = "\<lparr>nt_router_address = ''router'', nt_router = example_init, nt_registry = sr_ex_init, nt_verifiers = [], nt_gateways = []\<rparr>"
  obtain r where r: "router_instantiate (net_router_env ?P) ''admin'' ''gov'' ''axl'' ''coord'' = Inr (example_init, r)"
    using net_ex_router(1) by blast
  have 0: "net_reachable ?P ?net" by (rule net_init [OF r sr_ex_instantiate])
  have 1: "net_reachable ?P (?net\<lparr>nt_verifiers := [(''verifier'', vv_ex_init)]\<rparr>)"
    using net_verifier [OF 0 _ vv_ex_instantiated, of "''verifier''"] by (simp add: majority_ok_def)
  have gs: "gw_instantiate Some ''verifier'' ''router'' = Inr (gw_ex_state [], response_new)"
    by (simp add: gw_instantiate_def validate_cosmwasm_address_def)
  have 2: "net_reachable ?P (?net\<lparr>nt_verifiers := [(''verifier'', vv_ex_init)], nt_gateways := [(''gw1'', gw_ex_state [])]\<rparr>)"
    using net_gateway [OF 1, of "''gw1''" "''verifier''" "gw_ex_state []" response_new] gs by simp
  have 3: "net_reachable ?P (net_ex example_init sr_ex_init vv_ex_init [])"
    using net_gateway [OF 2, of "''gw2''" "''verifier''" "gw_ex_state []" response_new] gs by (simp add: less_char_def)
  have ok: "net_call_ok (net_ex rt sr_ex_init vv_ex_init []) (CallRouter 1 ''gov'' m)" for rt m by (simp add: outside_def)
  have "net_tx ?P (net_ex example_init sr_ex_init vv_ex_init []) (CallRouter 1 ''gov'' (Direct (RegisterChain ''avax'' ''gw2'' HexTxHashAndEventIndexFormat)))
      = Some (net_ex (example_init\<lparr>rt_chains := [(''avax'', example_chain ''avax'' ''gw2'' 0)]\<rparr>) sr_ex_init vv_ex_init [])"
    using net_ex_router(2) by (auto simp: call_router_def)
  note 4 = net_step [OF 3 ok this]
  have "net_tx ?P (net_ex (example_init\<lparr>rt_chains := [(''avax'', example_chain ''avax'' ''gw2'' 0)]\<rparr>) sr_ex_init vv_ex_init [])
      (CallRouter 1 ''gov'' (Direct (RegisterChain ''eth'' ''gw1'' HexTxHashAndEventIndexFormat))) =
      Some (net_ex (example_state 0) sr_ex_init vv_ex_init [])"
    using net_ex_router(3) by (auto simp: call_router_def)
  note 5 = net_step [OF 4 ok this]
  have "list_all (\<lambda>(env, a, m). outside (net_ex (example_state 0) sr_ex_init vv_ex_init []) a \<and> sr_msg_ok m) net_ex_calls"
    by (simp add: net_ex_calls_def outside_def)
  from net_registry_run [OF 5 this] show ?thesis by (simp add: net_ex_registered)
qed

lemma net_ex_voted: "net_reachable net_ex_params (net_ex (example_state 0) net_ex_registry net_ex_voted [])"
proof -
  let ?P = net_ex_params
  let ?net = "\<lambda>vvs. net_ex (example_state 0) net_ex_registry vvs []"
  have ok: "net_call_ok (?net vvs) (CallVerifier v h a m)" if "a \<in> {''u'', ''a'', ''b''}" "vv_msg_ok m" for vvs v h a m
    using that by (auto simp: outside_def)
  have "net_tx ?P (?net vv_ex_init) (CallVerifier ''verifier'' 10 ''u'' (VvVerifyMessages [vv_ex_message])) =
      Some (?net (vv_ex_state (\<lambda>x. x) (vv_ex_poll 0 False False False) []))"
    using net_ex_verify [of "example_state 0" vv_ex_init "[]"] by (auto simp: call_verifier_def)
  from net_step [OF net_ex_deployed ok this] have 1: "net_reachable ?P (?net (vv_ex_state (\<lambda>x. x) (vv_ex_poll 0 False False False) []))" by simp
  have "net_tx ?P (?net (vv_ex_state (\<lambda>x. x) (vv_ex_poll 0 False False False) [])) (CallVerifier ''verifier'' 11 ''a'' (Vote 1 [SucceededOnChain])) =
      Some (?net (vv_ex_state (\<lambda>x. x) (vv_ex_poll 1 True False False) [((1, ''a''), [SucceededOnChain])]))"
    using net_ex_votes(1) [of "?net (vv_ex_state (\<lambda>x. x) (vv_ex_poll 0 False False False) [])"] by (auto simp: call_verifier_def)
  from net_step [OF 1 ok this] have 2: "net_reachable ?P (?net (vv_ex_state (\<lambda>x. x) (vv_ex_poll 1 True False False) [((1, ''a''), [SucceededOnChain])]))" by simp
  have "net_tx ?P (?net (vv_ex_state (\<lambda>x. x) (vv_ex_poll 1 True False False) [((1, ''a''), [SucceededOnChain])]))
      (CallVerifier ''verifier'' 12 ''b'' (Vote 1 [SucceededOnChain])) = Some (?net net_ex_voted)"
    using net_ex_votes(2) [of "?net (vv_ex_state (\<lambda>x. x) (vv_ex_poll 1 True False False) [((1, ''a''), [SucceededOnChain])])"]
    by (auto simp: call_verifier_def)
  from net_step [OF 2 ok this] show ?thesis by simp
qed

lemma net_ex_allowed: "route_allowed (net_router_env net_ex_params) (example_state 0) ''gw1'' [vv_ex_message]"
  by (simp add: route_allowed_def source_allowed_def is_axelarnet_gateway_def route_gateway_def ids_valid_def net_router_env_def
      del: verify_msg_id.simps)

lemma net_ex_routable: "routable net_ex_params (net_ex (example_state 0) net_ex_registry net_ex_voted out) 13 (gw_ex_state []) [vv_ex_message] = [vv_ex_message]"
  using vv_ex_status [of "\<lambda>x. x" False 13] by (simp add: routable_def gateway_verifier_def)

lemma net_ex_query: "vv_status_query (\<lambda>x. x) net_ex_voted 13 [vv_ex_message] = Some [(vv_ex_message, SucceededOnSourceChain)]"
  using vv_ex_status [of "\<lambda>x. x" False 13] by (simp add: vv_status_query_def messages_status_def)

lemma net_ex_route:
  "router_tx (example_state 0) (net_router_env net_ex_params, ''gw1'', Direct (RouteMessages [vv_ex_message])) =
     Inr (example_state 0, \<lparr>messages = [GatewayRouteMessages ''gw2'' [vv_ex_message]], events = [MessageRouted vv_ex_message]\<rparr>)"
  by (simp add: router_eval route_messages_def validate_msgs_def verify_msg_ids_def is_contract_active_def net_router_env_def
      destination_gateway_def load_chain_by_chain_name_def incoming_frozen_def outgoing_frozen_def flag_contains_def del: verify_msg_id.simps)

lemma net_ex_delivered:
  "net_tx net_ex_params (net_ex (example_state 0) net_ex_registry net_ex_voted []) (CallGateway ''gw1'' 13 ''relayer'' (GwRoute [vv_ex_message])) =
     Some (net_ex (example_state 0) net_ex_registry net_ex_voted [(cc_id vv_ex_message, vv_ex_message)])"
proof -
  let ?P = net_ex_params and ?net = "net_ex (example_state 0) net_ex_registry net_ex_voted []"
  have inv: "net_inv ?P ?net" using net_ex_voted net_ex_params_ok by (rule net_reachable_inv)
  have gs: "kv_get (nt_gateways ?net) ''gw1'' = Some (gw_ex_state [])" "''relayer'' \<noteq> nt_router_address ?net"
    "gateway_verifier ?net (gw_ex_state []) = Some net_ex_voted" "distinct (map cc_id [vv_ex_message])"
    by (simp_all add: gateway_verifier_def)
  have q: "vv_status_query (np_hash ?P) net_ex_voted 13 [vv_ex_message] = Some [(vv_ex_message, SucceededOnSourceChain)]"
    using net_ex_query by simp
  obtain r where "gw_tx (np_hash ?P) (gw_ex_state []) (net_status ?P ?net 13 (gw_ex_state []), ''relayer'', GwRoute [vv_ex_message]) = Inr (gw_ex_state [], r)"
    "messages r = [ToRouter ''router'' [vv_ex_message]]"
    using gateway_routes [OF inv gs(1-3) q gs(4)] unfolding net_ex_routable by auto
  then show ?thesis
    using net_ex_route gw_ex_outgoing [of "\<lambda>x. x"] by (simp add: call_gateway_def call_router_def)
qed

end
