(* ===== verification/Rewards.thy ===== *)
theory Rewards
  imports Permissions Router_Api
begin

text \<open>
  The rewards contract, \<open>contracts/rewards/src\<close>: pools of tokens, one for each chain and contract
  that reports the participation of verifiers in events, from which the verifiers that took part
  in enough events of an epoch are paid. Hash maps are ordered by their key here; nothing the
  contract computes depends on the order in which it traverses them. The validation of addresses
  is a parameter, in \<open>rw_env\<close> with the height of the block and the funds sent along.
\<close>

section \<open>Definitions\<close>

subsection \<open>State\<close>

datatype pool_id = PoolId (pl_chain_name: string) (pl_contract: string)

instantiation pool_id :: linorder
begin

definition less_eq_pool_id :: "pool_id \<Rightarrow> pool_id \<Rightarrow> bool" where
  "less_eq_pool_id i j \<longleftrightarrow> (pl_chain_name i, pl_contract i) \<le> (pl_chain_name j, pl_contract j)"

definition less_pool_id :: "pool_id \<Rightarrow> pool_id \<Rightarrow> bool" where
  "less_pool_id i j \<longleftrightarrow> (pl_chain_name i, pl_contract i) < (pl_chain_name j, pl_contract j)"

instance
  by intro_classes (auto simp: less_eq_pool_id_def less_pool_id_def pool_id.expand)

end

record rw_config =
  rewards_denom :: string

record epoch =
  epoch_num :: u64
  block_height_started :: u64

record rw_params =
  epoch_duration :: u64
  rewards_per_epoch :: u128
  participation_threshold :: threshold

record params_snapshot =
  ps_params :: rw_params
  created_at :: epoch

type_synonym tally_id = "pool_id \<times> u64"

record epoch_tally =
  et_pool_id :: pool_id
  event_count :: u64
  participation_of :: "(string, u64) kv"
  et_epoch :: epoch
  et_params :: rw_params

record rw_event =
  re_event_id :: string
  re_pool_id :: pool_id
  re_epoch_num :: u64

record rewards_pool =
  rp_id :: pool_id
  rp_balance :: u128
  rp_params :: params_snapshot

record rw_verifier =
  verifier_address :: string
  proxy_address :: "string option"

record rewards_distribution =
  rd_rewards :: "(rw_verifier \<times> u128) list"
  epochs_processed :: "u64 list"
  current_epoch_of :: epoch
  can_distribute_more :: bool

datatype 'a storage_state = Existing 'a | New 'a

fun storage_value :: "'a storage_state \<Rightarrow> 'a" where
  "storage_value (Existing x) = x"
| "storage_value (New x) = x"

record rw_state =
  rw_config :: "rw_config option"
  rw_perms :: permission_state
  rw_tallies :: "(tally_id, epoch_tally) kv"
  rw_events :: "(string \<times> pool_id, rw_event) kv"
  rw_pools :: "(pool_id, rewards_pool) kv"
  rw_watermarks :: "(pool_id, u64) kv"
  rw_proxies :: "(string, string) kv"

datatype rw_error =
    RwStd
  | RewardsPoolNotFound
  | RewardsPoolAlreadyExists
  | UpdateRewardsPool
  | BlockHeightInPast
  | RwOverflow
  | PoolBalanceInsufficient
  | NoRewardsToDistribute
  | WrongDenom
  | ZeroRewards
  | RwAddressErr address_error
  | RwPermissionErr permission_error

datatype rw_ev =
  RewardsDistributed "(rw_verifier \<times> u128) list" "u64 list" epoch bool

datatype rw_out = BankSend (to_address: string) (send_denom: string) (send_amount: u128)

type_synonym rw_response = "(rw_out, rw_ev) response"

record rw_env =
  rv_height :: u64
  rv_funds :: "(string \<times> u128) list"
  rv_addr_validate :: "string \<Rightarrow> string option"

definition rw_load_config :: "rw_state \<Rightarrow> ('e, rw_config) result" where
  "rw_load_config s = expect_some ''couldn't load config'' (rw_config s)"

definition load_rewards_watermark :: "rw_state \<Rightarrow> pool_id \<Rightarrow> u64 option" where
  "load_rewards_watermark s pool_id = kv_get (rw_watermarks s) pool_id"

definition load_event :: "rw_state \<Rightarrow> string \<Rightarrow> pool_id \<Rightarrow> rw_event option" where
  "load_event s event_id pool_id = kv_get (rw_events s) (event_id, pool_id)"

definition load_epoch_tally :: "rw_state \<Rightarrow> pool_id \<Rightarrow> u64 \<Rightarrow> epoch_tally option" where
  "load_epoch_tally s pool_id n = kv_get (rw_tallies s) (pool_id, n)"

definition load_rewards_pool :: "rw_state \<Rightarrow> pool_id \<Rightarrow> (rw_error, rewards_pool) result" where
  "load_rewards_pool s pool_id = ok_or RewardsPoolNotFound (kv_get (rw_pools s) pool_id)"

definition load_rewards_pool_params :: "rw_state \<Rightarrow> pool_id \<Rightarrow> (rw_error, params_snapshot) result" where
  "load_rewards_pool_params s pool_id = and_then (load_rewards_pool s pool_id) (\<lambda>pool. Ok (rp_params pool))"

definition save_rewards_watermark :: "rw_state \<Rightarrow> pool_id \<Rightarrow> u64 \<Rightarrow> rw_state" where
  "save_rewards_watermark s pool_id n = s\<lparr>rw_watermarks := kv_set pool_id n (rw_watermarks s)\<rparr>"

definition save_event :: "rw_state \<Rightarrow> rw_event \<Rightarrow> rw_state" where
  "save_event s event = s\<lparr>rw_events := kv_set (re_event_id event, re_pool_id event) event (rw_events s)\<rparr>"

definition save_epoch_tally :: "rw_state \<Rightarrow> epoch_tally \<Rightarrow> rw_state" where
  "save_epoch_tally s tally =
     s\<lparr>rw_tallies := kv_set (et_pool_id tally, epoch_num (et_epoch tally)) tally (rw_tallies s)\<rparr>"

definition save_rewards_pool :: "rw_state \<Rightarrow> rewards_pool \<Rightarrow> rw_state" where
  "save_rewards_pool s pool = s\<lparr>rw_pools := kv_set (rp_id pool) pool (rw_pools s)\<rparr>"

definition state_update_pool_params :: "rw_state \<Rightarrow> pool_id \<Rightarrow> params_snapshot \<Rightarrow> (rw_error, rw_state) result" where
  "state_update_pool_params s pool_id updated_params =
     (case kv_get (rw_pools s) pool_id of
        None \<Rightarrow> fail UpdateRewardsPool
      | Some pool \<Rightarrow> Ok (s\<lparr>rw_pools := kv_set pool_id
          \<lparr>rp_id = pool_id, rp_balance = rp_balance pool, rp_params = updated_params\<rparr> (rw_pools s)\<rparr>))"

definition pool_exists :: "rw_state \<Rightarrow> pool_id \<Rightarrow> bool" where
  "pool_exists s pool_id = (kv_get (rw_pools s) pool_id \<noteq> None)"

definition save_verifier_proxy :: "rw_state \<Rightarrow> string \<Rightarrow> string \<Rightarrow> rw_state" where
  "save_verifier_proxy s proxy verifier = s\<lparr>rw_proxies := kv_set verifier proxy (rw_proxies s)\<rparr>"

definition state_remove_verifier_proxy :: "rw_state \<Rightarrow> string \<Rightarrow> rw_state" where
  "state_remove_verifier_proxy s verifier = s\<lparr>rw_proxies := kv_del verifier (rw_proxies s)\<rparr>"

definition load_verifier :: "rw_state \<Rightarrow> string \<Rightarrow> rw_verifier" where
  "load_verifier s verifier =
     \<lparr>verifier_address = verifier, proxy_address = kv_get (rw_proxies s) verifier\<rparr>"

definition try_from_msg_pool_id :: "rw_env \<Rightarrow> pool_id \<Rightarrow> (rw_error, pool_id) result" where
  "try_from_msg_pool_id env pool_id =
     and_then (map_err RwAddressErr (validate_cosmwasm_address (rv_addr_validate env) (pl_contract pool_id)))
       (\<lambda>contract. Ok (PoolId (pl_chain_name pool_id) contract))"

subsection \<open>Epochs\<close>

definition epoch_current :: "params_snapshot \<Rightarrow> u64 \<Rightarrow> (rw_error, epoch) result" where
  "epoch_current current_params cur_block_height =
     (let duration = epoch_duration (ps_params current_params); last_updated = created_at current_params in
      if cur_block_height < block_height_started last_updated then fail BlockHeightInPast
      else
        and_then (expect_some ''invalid invariant: epoch duration is zero''
          (checked_div (saturating_sub cur_block_height (block_height_started last_updated)) duration)) (\<lambda>epochs_elapsed.
        and_then (expect_some ''epoch number should be strictly smaller than the current block height''
          (checked_add (epoch_num last_updated) epochs_elapsed)) (\<lambda>n.
        and_then (expect_some ''start of current epoch should be strictly smaller than the current block height''
          (checked_add (block_height_started last_updated) (saturating_mul epochs_elapsed duration))) (\<lambda>started.
        Ok \<lparr>epoch_num = n, block_height_started = started\<rparr>))))"

definition current_epoch :: "rw_state \<Rightarrow> pool_id \<Rightarrow> u64 \<Rightarrow> (rw_error, epoch) result" where
  "current_epoch s pool_id cur_block_height =
     and_then (load_rewards_pool_params s pool_id) (\<lambda>params. epoch_current params cur_block_height)"

subsection \<open>Tallies\<close>

definition epoch_tally_new :: "pool_id \<Rightarrow> epoch \<Rightarrow> rw_params \<Rightarrow> epoch_tally" where
  "epoch_tally_new pool_id epoch params =
     \<lparr>et_pool_id = pool_id, event_count = 0, participation_of = [], et_epoch = epoch, et_params = params\<rparr>"

definition tally_record_participation :: "epoch_tally \<Rightarrow> string \<Rightarrow> epoch_tally" where
  "tally_record_participation tally verifier =
     tally\<lparr>participation_of := kv_set verifier
       (case kv_get (participation_of tally) verifier of None \<Rightarrow> 1 | Some count \<Rightarrow> saturating_add count 1)
       (participation_of tally)\<rparr>"

definition verifiers_to_reward :: "epoch_tally \<Rightarrow> string list" where
  "verifiers_to_reward tally =
     map fst (filter (\<lambda>(_, participated).
       case threshold_try_from (participated, event_count tally) of
         Inr p \<Rightarrow> threshold_le (participation_threshold (et_params tally)) p
       | Inl _ \<Rightarrow> False) (participation_of tally))"

definition rewards_by_verifier :: "epoch_tally \<Rightarrow> (string, u128) kv" where
  "rewards_by_verifier tally =
     (let to_reward = verifiers_to_reward tally;
          per_verifier = case checked_div (rewards_per_epoch (et_params tally)) (of_nat (length to_reward)) of
            None \<Rightarrow> 0 | Some q \<Rightarrow> q
      in if per_verifier = 0 then [] else map (\<lambda>verifier. (verifier, per_verifier)) to_reward)"

definition sub_reward :: "rewards_pool \<Rightarrow> u128 \<Rightarrow> (rw_error, rewards_pool) result" where
  "sub_reward pool reward =
     and_then (ok_or PoolBalanceInsufficient (checked_sub (rp_balance pool) reward)) (\<lambda>balance.
     Ok (pool\<lparr>rp_balance := balance\<rparr>))"

subsection \<open>Operations\<close>

definition DEFAULT_EPOCHS_TO_PROCESS :: u64 where
  "DEFAULT_EPOCHS_TO_PROCESS = 10"

definition EPOCH_PAYOUT_DELAY :: u64 where
  "EPOCH_PAYOUT_DELAY = 2"

definition load_or_store_event :: "rw_state \<Rightarrow> string \<Rightarrow> pool_id \<Rightarrow> u64 \<Rightarrow> rw_state \<times> rw_event storage_state" where
  "load_or_store_event s event_id pool_id cur_epoch_num =
     (case load_event s event_id pool_id of
        None \<Rightarrow>
          let event = \<lparr>re_event_id = event_id, re_pool_id = pool_id, re_epoch_num = cur_epoch_num\<rparr>
          in (save_event s event, New event)
      | Some event \<Rightarrow> (s, Existing event))"

definition record_participation ::
  "rw_state \<Rightarrow> string \<Rightarrow> string \<Rightarrow> pool_id \<Rightarrow> u64 \<Rightarrow> (rw_error, rw_state) result" where
  "record_participation s event_id verifier pool_id block_height =
     and_then (load_rewards_pool_params s pool_id) (\<lambda>current_params.
     and_then (epoch_current current_params block_height) (\<lambda>cur_epoch.
     let (s1, event) = load_or_store_event s event_id pool_id (epoch_num cur_epoch);
         tally = tally_record_participation
           (case load_epoch_tally s1 pool_id (re_epoch_num (storage_value event)) of
              None \<Rightarrow> epoch_tally_new pool_id cur_epoch (ps_params current_params)
            | Some tally \<Rightarrow> tally) verifier;
         tally = (case event of
              New _ \<Rightarrow> tally\<lparr>event_count := saturating_add (event_count tally) 1\<rparr>
            | Existing _ \<Rightarrow> tally)
     in Ok (save_epoch_tally s1 tally)))"

definition merge_rewards :: "(string, u128) kv \<Rightarrow> (string, u128) kv \<Rightarrow> (rw_error, (string, u128) kv) result" where
  "merge_rewards rewards_1 rewards_2 =
     try_fold (\<lambda>rewards (addr, amt).
       and_then (ok_or RwOverflow (checked_add (case kv_get rewards addr of None \<Rightarrow> 0 | Some r \<Rightarrow> r) amt)) (\<lambda>r.
       Ok (kv_set addr r rewards))) rewards_1 rewards_2"

definition epoch_range :: "u64 \<Rightarrow> u64 \<Rightarrow> u64 list" where
  "epoch_range from to = map of_nat [unat from..<Suc (unat to)]"

definition iterate_epoch_tallies :: "rw_state \<Rightarrow> pool_id \<Rightarrow> u64 \<Rightarrow> u64 \<Rightarrow> epoch_tally list" where
  "iterate_epoch_tallies s pool_id from to = List.map_filter (load_epoch_tally s pool_id) (epoch_range from to)"

definition cumulate_rewards :: "rw_state \<Rightarrow> pool_id \<Rightarrow> u64 \<Rightarrow> u64 \<Rightarrow> (rw_error, (string, u128) kv) result" where
  "cumulate_rewards s pool_id from to =
     try_fold merge_rewards [] (map rewards_by_verifier (iterate_epoch_tallies s pool_id from to))"

definition process_rewards_for_epochs ::
  "rw_state \<Rightarrow> pool_id \<Rightarrow> u64 \<Rightarrow> u64 \<Rightarrow> (rw_error, rw_state \<times> (string, u128) kv) result" where
  "process_rewards_for_epochs s pool_id from to =
     and_then (cumulate_rewards s pool_id from to) (\<lambda>rewards.
     and_then (load_rewards_pool s pool_id) (\<lambda>pool.
     and_then (sum_u128 (map snd rewards) 0) (\<lambda>total.
     and_then (sub_reward pool total) (\<lambda>pool.
     Ok (save_rewards_pool s pool, rewards)))))"

definition distribute_rewards ::
  "rw_state \<Rightarrow> pool_id \<Rightarrow> u64 \<Rightarrow> u64 option \<Rightarrow> (rw_error, rw_state \<times> rewards_distribution) result" where
  "distribute_rewards s pool_id cur_block_height epoch_process_limit =
     (let limit = case_option DEFAULT_EPOCHS_TO_PROCESS id epoch_process_limit in
      and_then (current_epoch s pool_id cur_block_height) (\<lambda>cur_epoch.
      let from = (case load_rewards_watermark s pool_id of None \<Rightarrow> 0 | Some last_processed \<Rightarrow> saturating_add last_processed 1);
          to = min (saturating_sub (saturating_add from limit) 1) (saturating_sub (epoch_num cur_epoch) EPOCH_PAYOUT_DELAY)
      in if to < from \<or> epoch_num cur_epoch < EPOCH_PAYOUT_DELAY then fail NoRewardsToDistribute
         else
           and_then (process_rewards_for_epochs s pool_id from to) (\<lambda>(s1, rewards).
           let s2 = save_rewards_watermark s1 pool_id to in
           Ok (s2, \<lparr>rd_rewards = map (\<lambda>(addr, amount). (load_verifier s2 addr, amount)) rewards,
                    epochs_processed = epoch_range from to, current_epoch_of = cur_epoch,
                    can_distribute_more = to < saturating_sub (epoch_num cur_epoch) EPOCH_PAYOUT_DELAY\<rparr>))))"

definition create_pool :: "rw_state \<Rightarrow> rw_params \<Rightarrow> u64 \<Rightarrow> pool_id \<Rightarrow> (rw_error, rw_state) result" where
  "create_pool s params block_height pool_id =
     and_then (ensure (\<not> pool_exists s pool_id) RewardsPoolAlreadyExists) (\<lambda>_.
     let cur_epoch = \<lparr>epoch_num = 0, block_height_started = block_height\<rparr> in
     Ok (save_rewards_pool s \<lparr>rp_id = pool_id, rp_balance = 0,
           rp_params = \<lparr>ps_params = params, created_at = cur_epoch\<rparr>\<rparr>))"

definition update_pool_params :: "rw_state \<Rightarrow> pool_id \<Rightarrow> rw_params \<Rightarrow> u64 \<Rightarrow> (rw_error, rw_state) result" where
  "update_pool_params s pool_id new_params block_height =
     and_then (current_epoch s pool_id block_height) (\<lambda>cur_epoch.
     and_then (ok_or RwOverflow (checked_add (block_height_started cur_epoch) (epoch_duration new_params))) (\<lambda>ends.
     and_then (if ends < block_height
         then and_then (expect_some ''epoch number should be strictly smaller than the current block height''
                (checked_add (epoch_num cur_epoch) 1)) (\<lambda>n. Ok \<lparr>epoch_num = n, block_height_started = block_height\<rparr>)
         else Ok cur_epoch) (\<lambda>new_epoch.
     and_then (state_update_pool_params s pool_id \<lparr>ps_params = new_params, created_at = new_epoch\<rparr>) (\<lambda>s1.
     Ok (case load_epoch_tally s1 pool_id (epoch_num cur_epoch) of
           None \<Rightarrow> s1
         | Some tally \<Rightarrow> save_epoch_tally s1 (tally\<lparr>et_params := new_params\<rparr>))))))"

definition add_rewards :: "rw_state \<Rightarrow> pool_id \<Rightarrow> u128 \<Rightarrow> (rw_error, rw_state) result" where
  "add_rewards s pool_id amount =
     and_then (load_rewards_pool s pool_id) (\<lambda>pool.
     and_then (ok_or RwOverflow (checked_add (rp_balance pool) amount)) (\<lambda>balance.
     Ok (save_rewards_pool s (pool\<lparr>rp_balance := balance\<rparr>))))"

definition set_verifier_proxy :: "rw_state \<Rightarrow> string \<Rightarrow> string \<Rightarrow> rw_state" where
  "set_verifier_proxy s proxy verifier = save_verifier_proxy s proxy verifier"

definition remove_verifier_proxy :: "rw_state \<Rightarrow> string \<Rightarrow> rw_state" where
  "remove_verifier_proxy s verifier = state_remove_verifier_proxy s verifier"

subsection \<open>Entry points\<close>

datatype rw_msg =
    RecordParticipation string string string
  | DistributeRewards pool_id "u64 option"
  | AddRewards pool_id
  | UpdatePoolParams rw_params pool_id
  | CreatePool rw_params pool_id
  | SetVerifierProxy string
  | RemoveVerifierProxy

fun rw_permissions :: "rw_msg \<Rightarrow> msg_permissions" where
  "rw_permissions (UpdatePoolParams _ _) = \<lparr>specific_perms = [], general_perms = [Governance], external_perms = []\<rparr>"
| "rw_permissions (CreatePool _ _) = \<lparr>specific_perms = [], general_perms = [Governance], external_perms = []\<rparr>"
| "rw_permissions _ = \<lparr>specific_perms = [], general_perms = [Any], external_perms = []\<rparr>"

text \<open>The coin of the rewards denomination, if it is the only one sent.\<close>

definition rewards_amount :: "rw_state \<Rightarrow> (string \<times> u128) list \<Rightarrow> (rw_error, u128) result" where
  "rewards_amount s funds =
     and_then (if funds = [] then Ok None
       else and_then (rw_load_config s) (\<lambda>config. Ok (find (\<lambda>coin. fst coin = rewards_denom config) funds))) (\<lambda>found.
     ok_or WrongDenom (if length funds = 1 then map_option snd found else None))"

definition distribution_response :: "rw_state \<Rightarrow> rewards_distribution \<Rightarrow> (rw_error, rw_response) result" where
  "distribution_response s rd =
     and_then (try_map (\<lambda>(verifier, amount).
       and_then (rw_load_config s) (\<lambda>config.
       Ok (BankSend (case proxy_address verifier of None \<Rightarrow> verifier_address verifier | Some p \<Rightarrow> p)
             (rewards_denom config) amount))) (rd_rewards rd)) (\<lambda>msgs.
     Ok \<lparr>messages = msgs, events = [RewardsDistributed (rd_rewards rd) (epochs_processed rd)
           (current_epoch_of rd) (can_distribute_more rd)]\<rparr>)"

fun rw_dispatch :: "rw_env \<Rightarrow> rw_state \<Rightarrow> string \<Rightarrow> rw_msg \<Rightarrow> (rw_error, rw_state \<times> rw_response) result" where
  "rw_dispatch env s sender (RecordParticipation chain_name event_id verifier) =
     and_then (map_err RwAddressErr (validate_cosmwasm_address (rv_addr_validate env) verifier)) (\<lambda>verifier.
     and_then (record_participation s event_id verifier (PoolId chain_name sender) (rv_height env)) (\<lambda>s1.
     Ok (s1, response_new)))"
| "rw_dispatch env s sender (AddRewards pool_id) =
     and_then (rewards_amount s (rv_funds env)) (\<lambda>amount.
     and_then (try_from_msg_pool_id env pool_id) (\<lambda>pool_id.
     and_then (change_context ZeroRewards (nonempty_uint128_try_from amount)) (\<lambda>amount.
     and_then (add_rewards s pool_id amount) (\<lambda>s1. Ok (s1, response_new)))))"
| "rw_dispatch env s sender (DistributeRewards pool_id epoch_count) =
     and_then (try_from_msg_pool_id env pool_id) (\<lambda>pool_id.
     and_then (distribute_rewards s pool_id (rv_height env) epoch_count) (\<lambda>(s1, rd).
     and_then (distribution_response s1 rd) (\<lambda>r. Ok (s1, r))))"
| "rw_dispatch env s sender (UpdatePoolParams params pool_id) =
     and_then (try_from_msg_pool_id env pool_id) (\<lambda>pool_id.
     and_then (update_pool_params s pool_id params (rv_height env)) (\<lambda>s1. Ok (s1, response_new)))"
| "rw_dispatch env s sender (CreatePool params pool_id) =
     and_then (try_from_msg_pool_id env pool_id) (\<lambda>pool_id.
     and_then (create_pool s params (rv_height env) pool_id) (\<lambda>s1. Ok (s1, response_new)))"
| "rw_dispatch env s sender (SetVerifierProxy proxy) =
     and_then (ok_or RwStd (rv_addr_validate env proxy)) (\<lambda>proxy.
     Ok (set_verifier_proxy s proxy sender, response_new))"
| "rw_dispatch env s sender RemoveVerifierProxy = Ok (remove_verifier_proxy s sender, response_new)"

definition rw_execute :: "rw_env \<Rightarrow> rw_state \<Rightarrow> string \<Rightarrow> rw_msg \<Rightarrow> (rw_error, rw_state \<times> rw_response) result" where
  "rw_execute env s sender msg =
     and_then (map_err RwPermissionErr
       (ensure_permissions (rw_perms s) sender (rw_permissions msg) (\<lambda>_. (Ok False :: (unit, bool) result)))) (\<lambda>_.
     rw_dispatch env s sender msg)"

definition rw_instantiate :: "rw_env \<Rightarrow> string \<Rightarrow> string \<Rightarrow> (rw_error, rw_state \<times> rw_response) result" where
  "rw_instantiate env governance_address denom =
     and_then (map_err RwAddressErr (validate_cosmwasm_address (rv_addr_validate env) governance_address)) (\<lambda>governance.
     Ok (\<lparr>rw_config = Some \<lparr>rewards_denom = denom\<rparr>,
          rw_perms = set_governance governance \<lparr>admin_addr = None, governance_addr = None\<rparr>,
          rw_tallies = [], rw_events = [], rw_pools = [], rw_watermarks = [], rw_proxies = []\<rparr>, response_new))"

subsection \<open>Queries\<close>

record rewards_pool_response =
  rpr_balance :: u128
  rpr_epoch_duration :: u64
  rpr_rewards_per_epoch :: u128
  rpr_participation_threshold :: threshold
  rpr_current_epoch_num :: u64
  rpr_last_distribution_epoch :: "u64 option"

definition query_rewards_pool :: "rw_state \<Rightarrow> pool_id \<Rightarrow> u64 \<Rightarrow> (rw_error, rewards_pool_response) result" where
  "query_rewards_pool s pool_id block_height =
     and_then (load_rewards_pool s pool_id) (\<lambda>pool.
     and_then (epoch_current (rp_params pool) block_height) (\<lambda>cur_epoch.
     let params = ps_params (rp_params pool) in
     Ok \<lparr>rpr_balance = rp_balance pool, rpr_epoch_duration = epoch_duration params,
         rpr_rewards_per_epoch = rewards_per_epoch params, rpr_participation_threshold = participation_threshold params,
         rpr_current_epoch_num = epoch_num cur_epoch,
         rpr_last_distribution_epoch = load_rewards_watermark s pool_id\<rparr>))"

record participation_response =
  par_event_count :: u64
  par_participation :: "(string, u64) kv"
  par_rewards_by_verifier :: "(string, u128) kv"
  par_epoch :: epoch
  par_params :: rw_params

definition query_participation ::
  "rw_state \<Rightarrow> pool_id \<Rightarrow> u64 option \<Rightarrow> u64 \<Rightarrow> (rw_error, participation_response option) result" where
  "query_participation s pool_id epoch block_height =
     and_then (case epoch of
         Some n \<Rightarrow> Ok n
       | None \<Rightarrow> and_then (load_rewards_pool_params s pool_id) (\<lambda>params.
           and_then (epoch_current params block_height) (\<lambda>e. Ok (epoch_num e)))) (\<lambda>n.
     Ok (map_option (\<lambda>tally.
       \<lparr>par_event_count = event_count tally, par_participation = participation_of tally,
        par_rewards_by_verifier = rewards_by_verifier tally, par_epoch = et_epoch tally, par_params = et_params tally\<rparr>)
       (load_epoch_tally s pool_id n)))"

subsection \<open>Transactions and reachable states\<close>

type_synonym rw_call = "rw_env \<times> string \<times> rw_msg"

definition rw_tx :: "rw_state \<Rightarrow> rw_call \<Rightarrow> (rw_error, rw_state \<times> rw_response) result" where
  "rw_tx s call = (case call of (env, sender, msg) \<Rightarrow> rw_execute env s sender msg)"

text \<open>The types of the parameters exclude a zero duration, zero rewards and a zero threshold.\<close>

definition params_ok :: "rw_params \<Rightarrow> bool" where
  "params_ok p \<longleftrightarrow> epoch_duration p \<noteq> 0 \<and> rewards_per_epoch p \<noteq> 0 \<and> threshold_ok (participation_threshold p)"

fun rw_msg_ok :: "rw_msg \<Rightarrow> bool" where
  "rw_msg_ok (UpdatePoolParams params _) \<longleftrightarrow> params_ok params"
| "rw_msg_ok (CreatePool params _) \<longleftrightarrow> params_ok params"
| "rw_msg_ok _ \<longleftrightarrow> True"

definition rw_call_ok :: "rw_call \<Rightarrow> bool" where
  "rw_call_ok call = rw_msg_ok (snd (snd call))"

inductive rw_reachable :: "rw_state \<Rightarrow> bool" where
  rw_init: "rw_instantiate env governance denom = Inr (s, r) \<Longrightarrow> rw_reachable s"
| rw_step: "rw_reachable s \<Longrightarrow> rw_call_ok call \<Longrightarrow> rw_tx s call = Inr (s', r) \<Longrightarrow> rw_reachable s'"

subsection \<open>Invariants\<close>

definition pool_ok :: "pool_id \<Rightarrow> rewards_pool \<Rightarrow> bool" where
  "pool_ok i p \<longleftrightarrow> rp_id p = i \<and> params_ok (ps_params (rp_params p))
     \<and> epoch_num (created_at (rp_params p)) \<le> block_height_started (created_at (rp_params p))"

definition tally_ok :: "tally_id \<Rightarrow> epoch_tally \<Rightarrow> bool" where
  "tally_ok i t \<longleftrightarrow> (et_pool_id t, epoch_num (et_epoch t)) = i \<and> kv_ok (participation_of t) \<and> params_ok (et_params t)
     \<and> event_count t \<noteq> 0"

text \<open>An event belongs to the epoch of its first report, which has a tally.\<close>

definition rw_inv :: "rw_state \<Rightarrow> bool" where
  "rw_inv s \<longleftrightarrow> rw_config s \<noteq> None \<and> kv_ok (rw_pools s)
     \<and> (\<forall>i p. kv_get (rw_pools s) i = Some p \<longrightarrow> pool_ok i p)
     \<and> (\<forall>i t. kv_get (rw_tallies s) i = Some t \<longrightarrow> tally_ok i t)
     \<and> (\<forall>x p e. kv_get (rw_events s) (x, p) = Some e \<longrightarrow>
          re_pool_id e = p \<and> kv_get (rw_tallies s) (p, re_epoch_num e) \<noteq> None)"

subsection \<open>Specification\<close>

text \<open>
  What an epoch owes to a verifier: an equal share, rounded down, of the rewards of the epoch for
  every verifier whose participation is a fraction of the events of at least the threshold.
\<close>

definition took_part :: "epoch_tally \<Rightarrow> string \<Rightarrow> bool" where
  "took_part t v \<longleftrightarrow> (\<exists>c. kv_get (participation_of t) v = Some c \<and> 0 < unat c \<and> unat c \<le> unat (event_count t)
     \<and> unat (numerator (participation_threshold (et_params t))) * unat (event_count t)
         \<le> unat c * unat (denominator (participation_threshold (et_params t))))"

definition entitlement :: "rw_state \<Rightarrow> pool_id \<Rightarrow> nat \<Rightarrow> string \<Rightarrow> nat" where
  "entitlement s p n v =
     (case load_epoch_tally s p (of_nat n) of
        None \<Rightarrow> 0
      | Some t \<Rightarrow> if took_part t v then unat (rewards_per_epoch (et_params t)) div card {w. took_part t w} else 0)"

text \<open>
  The contract as a ledger: the funds of every pool and the number of its epochs that are settled,
  in the order of the epochs.
\<close>

record ledger =
  lg_funds :: "pool_id \<Rightarrow> nat option"
  lg_settled :: "pool_id \<Rightarrow> nat"

datatype ledger_op = OpenPool pool_id | Deposit pool_id nat | Settle pool_id nat nat | Idle

fun ledger_exec :: "ledger_op \<Rightarrow> ledger \<Rightarrow> ledger option" where
  "ledger_exec (OpenPool p) l =
     (if lg_funds l p = None then Some (l\<lparr>lg_funds := (lg_funds l)(p \<mapsto> 0)\<rparr>) else None)"
| "ledger_exec (Deposit p n) l =
     (case lg_funds l p of None \<Rightarrow> None | Some b \<Rightarrow> Some (l\<lparr>lg_funds := (lg_funds l)(p \<mapsto> b + n)\<rparr>))"
| "ledger_exec (Settle p k paid) l =
     (case lg_funds l p of
        None \<Rightarrow> None
      | Some b \<Rightarrow>
          if 0 < k \<and> paid \<le> b
          then Some (l\<lparr>lg_funds := (lg_funds l)(p \<mapsto> b - paid), lg_settled := (lg_settled l)(p := lg_settled l p + k)\<rparr>)
          else None)"
| "ledger_exec Idle l = Some l"

definition rw_abs :: "rw_state \<Rightarrow> ledger" where
  "rw_abs s = \<lparr>lg_funds = (\<lambda>p. map_option (\<lambda>x. unat (rp_balance x)) (kv_get (rw_pools s) p)),
     lg_settled = (\<lambda>p. case kv_get (rw_watermarks s) p of None \<Rightarrow> 0 | Some w \<Rightarrow> Suc (unat w))\<rparr>"

definition sent :: "rw_response \<Rightarrow> nat" where
  "sent r = sum_list (map (\<lambda>m. unat (send_amount m)) (messages r))"

definition settled_epochs :: "rw_response \<Rightarrow> nat" where
  "settled_epochs r = sum_list (map (\<lambda>e. case e of RewardsDistributed _ es _ _ \<Rightarrow> length es) (events r))"

text \<open>The operation of the ledger that a call with its response stands for.\<close>

definition msg_pool :: "rw_env \<Rightarrow> pool_id \<Rightarrow> pool_id" where
  "msg_pool env p = (case rv_addr_validate env (pl_contract p) of None \<Rightarrow> p | Some a \<Rightarrow> PoolId (pl_chain_name p) a)"

fun rw_op :: "rw_call \<Rightarrow> rw_response \<Rightarrow> ledger_op" where
  "rw_op (env, _, CreatePool _ p) r = OpenPool (msg_pool env p)"
| "rw_op (env, _, AddRewards p) r = Deposit (msg_pool env p) (sum_list (map (\<lambda>(_, a). unat a) (rv_funds env)))"
| "rw_op (env, _, DistributeRewards p _) r = Settle (msg_pool env p) (settled_epochs r) (sent r)"
| "rw_op _ r = Idle"

fun ledger_run :: "ledger_op list \<Rightarrow> ledger \<Rightarrow> ledger option" where
  "ledger_run [] l = Some l"
| "ledger_run (x # xs) l = (case ledger_exec x l of None \<Rightarrow> None | Some l' \<Rightarrow> ledger_run xs l')"

text \<open>The operations of a run: those of its successful calls.\<close>

fun rw_ops :: "rw_state \<Rightarrow> rw_call list \<Rightarrow> ledger_op list" where
  "rw_ops s [] = []"
| "rw_ops s (call # calls) =
     (case rw_tx s call of Inl _ \<Rightarrow> rw_ops s calls | Inr (s', r) \<Rightarrow> rw_op call r # rw_ops s' calls)"

text \<open>The amount that a map of rewards has for a verifier.\<close>

definition reward_of :: "(string, u128) kv \<Rightarrow> string \<Rightarrow> nat" where
  "reward_of m v = (case kv_get m v of None \<Rightarrow> 0 | Some a \<Rightarrow> unat a)"

definition rewards_ok :: "(string, u128) kv \<Rightarrow> bool" where
  "rewards_ok m \<longleftrightarrow> kv_ok m \<and> (\<forall>v a. kv_get m v = Some a \<longrightarrow> a \<noteq> 0)"

text \<open>A tally is small if it counts no more verifiers than a machine word can.\<close>

definition tallies_small :: "rw_state \<Rightarrow> bool" where
  "tallies_small s \<longleftrightarrow> (\<forall>i t. kv_get (rw_tallies s) i = Some t \<longrightarrow> length (participation_of t) < 2 ^ 64)"

section \<open>Lemmas\<close>

subsection \<open>Epochs\<close>

lemma saturating_mul_exact:
  "unat (a :: 'w::len word) * unat b < 2 ^ LENGTH('w) \<Longrightarrow> saturating_mul a b = a * b \<and> unat (a * b) = unat a * unat b"
  by (simp add: saturating_mul_def checked_mul_def unat_word_ariths)

lemma epoch_current_eq:
  assumes "epoch_duration (ps_params p) \<noteq> 0" and "epoch_num (created_at p) \<le> block_height_started (created_at p)"
    and "block_height_started (created_at p) \<le> h"
  defines "k \<equiv> (unat h - unat (block_height_started (created_at p))) div unat (epoch_duration (ps_params p))"
  obtains e where "epoch_current p h = Inr e" "unat (epoch_num e) = unat (epoch_num (created_at p)) + k"
    "unat (block_height_started e) = unat (block_height_started (created_at p)) + k * unat (epoch_duration (ps_params p))"
    "epoch_num e \<le> block_height_started e" "block_height_started e \<le> h"
proof -
  let ?d = "epoch_duration (ps_params p)" and ?s = "block_height_started (created_at p)" and ?n = "epoch_num (created_at p)"
  have d: "0 < unat ?d" using assms(1) by (simp add: unat_gt_0)
  have le: "unat ?s \<le> unat h" "unat ?n \<le> unat ?s" using assms(2,3) by (simp_all add: word_le_nat_alt)
  have h: "unat h < 2 ^ 64" using unat_less_width [of h] by simp
  have kd: "k * unat ?d \<le> unat h - unat ?s" unfolding k_def by (simp add: div_times_less_eq_dividend)
  have kk: "k \<le> k * unat ?d" using d by simp
  let ?k = "(h - ?s) div ?d"
  have k: "unat ?k = k" using assms(3) by (simp add: k_def unat_div unat_sub)
  have mul: "saturating_mul ?k ?d = ?k * ?d" "unat (?k * ?d) = k * unat ?d"
  proof -
    have "unat ?k * unat ?d < 2 ^ 64" using kd h unfolding k by linarith
    then show "saturating_mul ?k ?d = ?k * ?d" "unat (?k * ?d) = k * unat ?d"
      using saturating_mul_exact [of ?k ?d] k by simp_all
  qed
  have "unat ?n + k < 2 ^ 64" "unat ?s + k * unat ?d < 2 ^ 64" using kd kk h le by linarith+
  then have add1: "checked_add ?n ?k = Some (?n + ?k)" and add2: "checked_add ?s (?k * ?d) = Some (?s + ?k * ?d)"
    using k mul(2) by (simp_all add: checked_add_def)
  have "epoch_current p h = Inr \<lparr>epoch_num = ?n + ?k, block_height_started = ?s + ?k * ?d\<rparr>"
    using assms(1,3) add1 add2 mul(1)
    by (simp add: epoch_current_def Let_def checked_div_def saturating_sub_def not_less)
  moreover have "unat (?n + ?k) = unat ?n + k" using checked_add_unat [OF add1] k by simp
  moreover have "unat (?s + ?k * ?d) = unat ?s + k * unat ?d" using checked_add_unat [OF add2] mul(2) by simp
  ultimately show thesis using that kd kk le by (simp add: word_le_nat_alt)
qed

lemma epoch_current_Inr:
  "epoch_current p h = Inr e \<Longrightarrow> block_height_started (created_at p) \<le> h"
  by (auto simp: epoch_current_def Let_def not_less split: if_splits)

subsection \<open>Tallies\<close>

lemma threshold_try_from_Inr:
  "threshold_try_from (c, n) = Inr p \<longleftrightarrow> c \<noteq> 0 \<and> n \<noteq> 0 \<and> c \<le> n \<and> p = Threshold c n"
  by (auto simp: threshold_try_from_def threshold_from_nonempty_def nonempty_uint64_try_from_def result_simps not_less
      split: if_splits)

lemma verifiers_to_reward_set:
  assumes "kv_ok (participation_of t)" and "event_count t \<noteq> 0"
  shows "set (verifiers_to_reward t) = {v. took_part t v}" and "distinct (verifiers_to_reward t)"
    and "length (verifiers_to_reward t) = card {v. took_part t v}"
proof -
  let ?thr = "participation_threshold (et_params t)"
  let ?P = "\<lambda>c. case threshold_try_from (c, event_count t) of Inr p \<Rightarrow> threshold_le ?thr p | Inl _ \<Rightarrow> False"
  have P: "?P c \<longleftrightarrow> 0 < unat c \<and> unat c \<le> unat (event_count t)
      \<and> unat (numerator ?thr) * unat (event_count t) \<le> unat c * unat (denominator ?thr)" for c
  proof (cases "c \<noteq> 0 \<and> c \<le> event_count t")
    case True
    then have "threshold_try_from (c, event_count t) = Inr (Threshold c (event_count t))"
      using assms(2) by (simp add: threshold_try_from_Inr)
    then show ?thesis using True by (simp add: threshold_le_def word_le_nat_alt unat_full_mul unat_gt_0)
  next
    case False
    then have "\<nexists>p. threshold_try_from (c, event_count t) = Inr p" by (auto simp: threshold_try_from_Inr)
    then show ?thesis using False by (auto simp: word_le_nat_alt unat_gt_0 split: sum.splits)
  qed
  have eq: "verifiers_to_reward t = map fst (filter (\<lambda>x. ?P (snd x)) (participation_of t))"
    by (simp add: verifiers_to_reward_def case_prod_beta')
  show set: "set (verifiers_to_reward t) = {v. took_part t v}"
    unfolding eq took_part_def kv_ok_get_iff [OF assms(1)] P by force
  show "distinct (verifiers_to_reward t)"
    unfolding eq using kv_ok_distinct [OF assms(1)] by (rule distinct_map_filter)
  then show "length (verifiers_to_reward t) = card {v. took_part t v}" using distinct_card set by metis
qed

lemma rewards_by_verifier_spec:
  assumes "kv_ok (participation_of t)" and "event_count t \<noteq> 0" and "length (participation_of t) < 2 ^ 64"
  shows "rewards_ok (rewards_by_verifier t)"
    and "reward_of (rewards_by_verifier t) v =
      (if took_part t v then unat (rewards_per_epoch (et_params t)) div card {w. took_part t w} else 0)"
proof -
  note vs = verifiers_to_reward_set [OF assms(1,2)]
  let ?vs = "verifiers_to_reward t" and ?r = "rewards_per_epoch (et_params t)"
  define q where "q = (case checked_div ?r (of_nat (length ?vs)) of None \<Rightarrow> 0 | Some q \<Rightarrow> q)"
  have eq: "rewards_by_verifier t = (if q = 0 then [] else map (\<lambda>v. (v, q)) ?vs)"
    by (simp add: rewards_by_verifier_def q_def Let_def)
  have "length ?vs \<le> length (participation_of t)" by (simp add: verifiers_to_reward_def)
  then have "length ?vs < 2 ^ 128" using assms(3) by simp
  then have len: "unat (of_nat (length ?vs) :: u128) = length ?vs" by (simp add: unat_of_nat)
  have q: "unat q = unat ?r div card {w. took_part t w}"
  proof (cases "length ?vs = 0")
    case True
    then show ?thesis using vs(3) by (simp add: q_def checked_div_def)
  next
    case False
    then have "(of_nat (length ?vs) :: u128) \<noteq> 0" using len by auto
    then show ?thesis using len vs(3) by (simp add: q_def checked_div_def unat_div)
  qed
  have get: "kv_get (map (\<lambda>v. (v, q)) xs) v = (if v \<in> set xs then Some q else None)" for xs v by (induction xs) auto
  have "sorted_wrt (<) ?vs"
    unfolding verifiers_to_reward_def using assms(1) by (auto simp: kv_ok_def sorted_wrt_map intro: sorted_wrt_filter)
  then have ok: "kv_ok (rewards_by_verifier t)" by (simp add: eq kv_ok_def comp_def)
  then show "rewards_ok (rewards_by_verifier t)" by (auto simp: rewards_ok_def eq get split: if_splits)
  show "reward_of (rewards_by_verifier t) v =
      (if took_part t v then unat ?r div card {w. took_part t w} else 0)"
    using vs(1) q by (auto simp: reward_of_def eq get)
qed

lemma merge_rewards_spec:
  assumes "merge_rewards r1 r2 = Inr r" and "rewards_ok r1" and "rewards_ok r2"
  shows "rewards_ok r" and "reward_of r v = reward_of r1 v + reward_of r2 v"
proof -
  let ?f = "\<lambda>rewards (addr, amt).
     and_then (ok_or RwOverflow (checked_add (case kv_get rewards addr of None \<Rightarrow> 0 | Some r \<Rightarrow> r) amt)) (\<lambda>r.
     Ok (kv_set addr r rewards))"
  have "rewards_ok r \<and> (\<forall>v. reward_of r v = reward_of r1 v + reward_of r2 v)"
    if "try_fold ?f r1 r2 = Inr r" "rewards_ok r1" "rewards_ok r2" for r1
    using that
  proof (induction r2 arbitrary: r1)
    case Nil
    then show ?case by (simp add: reward_of_def)
  next
    case (Cons x r2)
    obtain a w where x: "x = (a, w)" by (cases x)
    obtain c where c: "checked_add (case kv_get r1 a of None \<Rightarrow> 0 | Some r \<Rightarrow> r) w = Some c"
      and rest: "try_fold ?f (kv_set a c r1) r2 = Inr r"
      using Cons.prems(1) by (auto simp: x result_simps)
    have ok2: "kv_ok r2" "kv_get r2 a = None" "\<forall>v y. kv_get (x # r2) v = Some y \<longrightarrow> y \<noteq> 0"
      using Cons.prems(3) by (auto simp: x rewards_ok_def kv_ok_Cons map_of_eq_None_iff)
    have w: "w \<noteq> 0" using ok2(3) [rule_format, of a w] by (simp add: x)
    have r2: "y \<noteq> 0" if "kv_get r2 v = Some y" for v y using ok2(3) [rule_format, of v y] ok2(2) that by (cases "v = a") (simp_all add: x)
    have uc: "unat c = reward_of r1 a + unat w"
      using checked_add_unat [OF c] by (simp add: reward_of_def split: option.splits)
    then have "c \<noteq> 0" using w by (metis add_is_0 unat_eq_0)
    then have "rewards_ok (kv_set a c r1)" using Cons.prems(2) by (auto simp: rewards_ok_def)
    moreover have "rewards_ok r2" using ok2(1) r2 by (simp add: rewards_ok_def)
    ultimately have IH: "rewards_ok r" "\<forall>v. reward_of r v = reward_of (kv_set a c r1) v + reward_of r2 v"
      using Cons.IH [OF rest] by simp_all
    then show ?case using uc ok2(2) by (auto simp: x reward_of_def)
  qed
  then show "rewards_ok r" "reward_of r v = reward_of r1 v + reward_of r2 v"
    using assms unfolding merge_rewards_def by blast+
qed

lemma merge_all_spec:
  assumes "try_fold merge_rewards r0 (map rewards_by_verifier ts) = Inr r" and "rewards_ok r0"
    and "\<And>t. t \<in> set ts \<Longrightarrow> rewards_ok (rewards_by_verifier t)"
  shows "rewards_ok r \<and> reward_of r v = reward_of r0 v + sum_list (map (\<lambda>t. reward_of (rewards_by_verifier t) v) ts)"
  using assms
proof (induction ts arbitrary: r0)
  case (Cons t ts)
  obtain r1 where r1: "merge_rewards r0 (rewards_by_verifier t) = Inr r1"
    and rest: "try_fold merge_rewards r1 (map rewards_by_verifier ts) = Inr r"
    using Cons.prems(1) by (auto simp: result_simps)
  have ok: "rewards_ok (rewards_by_verifier t)" using Cons.prems(3) by simp
  note m = merge_rewards_spec [OF r1 Cons.prems(2) ok]
  show ?case using Cons.IH [OF rest m(1)] Cons.prems(3) m(2) by simp
qed simp

lemma sum_list_map_filter:
  fixes f :: "'b \<Rightarrow> nat"
  shows "sum_list (map f (List.map_filter g xs)) = sum_list (map (\<lambda>x. case g x of None \<Rightarrow> 0 | Some y \<Rightarrow> f y) xs)"
  by (induction xs) (auto simp: List.map_filter_def split: option.splits)

lemma tally_spec:
  assumes "rw_inv s" and "tallies_small s" and "load_epoch_tally s p n = Some t"
  shows "rewards_ok (rewards_by_verifier t)"
    and "reward_of (rewards_by_verifier t) v =
      (if took_part t v then unat (rewards_per_epoch (et_params t)) div card {w. took_part t w} else 0)"
proof -
  have "tally_ok (p, n) t" using assms(1,3) by (simp add: rw_inv_def load_epoch_tally_def)
  moreover have "length (participation_of t) < 2 ^ 64" using assms(2,3) by (simp add: tallies_small_def load_epoch_tally_def)
  ultimately show "rewards_ok (rewards_by_verifier t)"
    and "reward_of (rewards_by_verifier t) v =
      (if took_part t v then unat (rewards_per_epoch (et_params t)) div card {w. took_part t w} else 0)"
    using rewards_by_verifier_spec [of t] by (simp_all add: tally_ok_def)
qed

lemma cumulate_rewards_spec:
  assumes "cumulate_rewards s p from to = Inr r" and inv: "rw_inv s" and small: "tallies_small s"
  shows "rewards_ok r" and "reward_of r v = (\<Sum>n\<leftarrow>[unat from..<Suc (unat to)]. entitlement s p n v)"
proof -
  let ?ts = "iterate_epoch_tallies s p from to"
  have "rewards_ok (rewards_by_verifier t)" if "t \<in> set ?ts" for t
    using that tally_spec(1) [OF inv small]
    by (auto simp: iterate_epoch_tallies_def List.map_filter_def)
  then have r: "rewards_ok r \<and> reward_of r v = sum_list (map (\<lambda>t. reward_of (rewards_by_verifier t) v) ?ts)"
    using merge_all_spec [of "[]" ?ts r v] assms(1)
    by (simp add: cumulate_rewards_def rewards_ok_def reward_of_def [of "[]"])
  have "(case load_epoch_tally s p (of_nat n) of None \<Rightarrow> 0 | Some t \<Rightarrow> reward_of (rewards_by_verifier t) v) = entitlement s p n v" for n
    using tally_spec(2) [OF inv small] by (auto simp: entitlement_def split: option.splits)
  then have "sum_list (map (\<lambda>t. reward_of (rewards_by_verifier t) v) ?ts) = (\<Sum>n\<leftarrow>[unat from..<Suc (unat to)]. entitlement s p n v)"
    unfolding iterate_epoch_tallies_def sum_list_map_filter epoch_range_def by (simp add: comp_def)
  with r show "rewards_ok r" and "reward_of r v = (\<Sum>n\<leftarrow>[unat from..<Suc (unat to)]. entitlement s p n v)" by simp_all
qed

subsection \<open>Distribution\<close>

lemma length_epoch_range: "length (epoch_range lo hi) = Suc (unat hi) - unat lo"
  by (simp add: epoch_range_def Suc_diff_le)

lemma distribute_rewards_Inr:
  assumes "distribute_rewards s p h limit = Inr (s', rd)"
  obtains cur lo hi rewards pool paid where "current_epoch s p h = Inr cur"
    "unat lo = lg_settled (rw_abs s) p" "unat lo \<le> unat hi" "unat hi + 2 \<le> unat (epoch_num cur)"
    "hi = min (saturating_sub (saturating_add lo (case_option DEFAULT_EPOCHS_TO_PROCESS id limit)) 1) (epoch_num cur - 2)"
    "cumulate_rewards s p lo hi = Inr rewards" "kv_get (rw_pools s) p = Some pool"
    "unat paid = sum_list (map (\<lambda>x. unat (snd x)) rewards)" "unat paid \<le> unat (rp_balance pool)"
    "s' = s\<lparr>rw_pools := kv_set (rp_id pool) (pool\<lparr>rp_balance := rp_balance pool - paid\<rparr>) (rw_pools s),
            rw_watermarks := kv_set p hi (rw_watermarks s)\<rparr>"
    "rd = \<lparr>rd_rewards = map (\<lambda>(a, w). (load_verifier s a, w)) rewards, epochs_processed = epoch_range lo hi,
           current_epoch_of = cur, can_distribute_more = hi < epoch_num cur - 2\<rparr>"
proof -
  define lo where "lo = (case load_rewards_watermark s p of None \<Rightarrow> 0 | Some w \<Rightarrow> saturating_add w 1)"
  from assms obtain cur where cur: "current_epoch s p h = Inr cur"
    by (auto simp: distribute_rewards_def Let_def result_simps)
  define hi where "hi = min (saturating_sub (saturating_add lo (case_option DEFAULT_EPOCHS_TO_PROCESS id limit)) 1)
    (saturating_sub (epoch_num cur) EPOCH_PAYOUT_DELAY)"
  have c: "\<not> hi < lo" "\<not> epoch_num cur < 2"
    using assms cur unfolding distribute_rewards_def Let_def
    by (auto simp: EPOCH_PAYOUT_DELAY_def lo_def hi_def split: if_splits)
  obtain s1 rewards where pr: "process_rewards_for_epochs s p lo hi = Inr (s1, rewards)"
    and s': "s' = save_rewards_watermark s1 p hi"
    and rd: "rd = \<lparr>rd_rewards = map (\<lambda>(a, w). (load_verifier s' a, w)) rewards, epochs_processed = epoch_range lo hi,
           current_epoch_of = cur, can_distribute_more = hi < saturating_sub (epoch_num cur) EPOCH_PAYOUT_DELAY\<rparr>"
    using assms cur c unfolding distribute_rewards_def Let_def lo_def [symmetric]
    by (auto simp: EPOCH_PAYOUT_DELAY_def hi_def result_simps split: if_splits)
  have two: "saturating_sub (epoch_num cur) EPOCH_PAYOUT_DELAY = epoch_num cur - 2" "2 \<le> unat (epoch_num cur)"
    using c(2) by (simp_all add: EPOCH_PAYOUT_DELAY_def saturating_sub_def not_less word_le_nat_alt)
  have "hi \<le> epoch_num cur - 2" using two(1) by (simp add: hi_def)
  then have upto: "unat hi + 2 \<le> unat (epoch_num cur)"
    using two(2) by (simp add: word_le_nat_alt unat_sub)
  have from_eq: "unat lo = lg_settled (rw_abs s) p"
  proof (cases "load_rewards_watermark s p")
    case (Some w)
    have "unat lo \<le> unat hi" using c(1) by (simp add: word_le_nat_alt not_less)
    moreover have "unat (epoch_num cur) < 2 ^ 64" using unat_less_width [of "epoch_num cur"] by simp
    ultimately have "unat lo < 2 ^ 64 - 1" using upto by simp
    then show ?thesis
      using Some by (simp add: lo_def rw_abs_def load_rewards_watermark_def unat_saturating_add min_def split: if_splits)
  qed (simp add: lo_def rw_abs_def load_rewards_watermark_def)
  from pr obtain pool paid where out: "cumulate_rewards s p lo hi = Inr rewards" "kv_get (rw_pools s) p = Some pool"
    and sm: "sum_u128 (map snd rewards) 0 = (Inr paid :: (rw_error, _) result)"
    and sub: "checked_sub (rp_balance pool) paid = Some (rp_balance pool - paid)"
    and s1: "s1 = save_rewards_pool s (pool\<lparr>rp_balance := rp_balance pool - paid\<rparr>)"
    by (auto simp: process_rewards_for_epochs_def load_rewards_pool_def sub_reward_def result_simps checked_sub_def split: if_splits)
  have paid: "unat paid = sum_list (map (\<lambda>x. unat (snd x)) rewards)" "unat paid \<le> unat (rp_balance pool)"
    using sum_u128_Inr [OF sm] checked_sub_unat [OF sub] by (simp_all add: comp_def)
  show thesis
  proof (rule that [OF cur from_eq _ upto _ out paid])
    show "unat lo \<le> unat hi" using c(1) by (simp add: word_le_nat_alt not_less)
  qed (use s' s1 rd two(1) in \<open>simp_all add: hi_def save_rewards_watermark_def save_rewards_pool_def load_verifier_def\<close>)
qed

subsection \<open>Preservation by operations\<close>

lemma pool_epoch:
  assumes "pool_ok i p" and "block_height_started (created_at (rp_params p)) \<le> h"
  obtains e where "epoch_current (rp_params p) h = Inr e"
    "unat (epoch_num e) = unat (epoch_num (created_at (rp_params p)))
       + (unat h - unat (block_height_started (created_at (rp_params p)))) div unat (epoch_duration (ps_params (rp_params p)))"
    "unat (block_height_started e) = unat (block_height_started (created_at (rp_params p)))
       + (unat h - unat (block_height_started (created_at (rp_params p)))) div unat (epoch_duration (ps_params (rp_params p)))
         * unat (epoch_duration (ps_params (rp_params p)))"
    "epoch_num e \<le> block_height_started e" "block_height_started e \<le> h"
  using epoch_current_eq [of "rp_params p" h] assms by (auto simp: pool_ok_def params_ok_def)

lemma current_epoch_Inr:
  assumes "current_epoch s p h = Inr e" and "rw_inv s"
  obtains pool where "kv_get (rw_pools s) p = Some pool" "pool_ok p pool" "epoch_current (rp_params pool) h = Inr e"
    "block_height_started (created_at (rp_params pool)) \<le> h" "epoch_num e \<le> block_height_started e" "block_height_started e \<le> h"
proof -
  from assms obtain pool where pool: "kv_get (rw_pools s) p = Some pool" "epoch_current (rp_params pool) h = Inr e"
    by (auto simp: current_epoch_def load_rewards_pool_params_def load_rewards_pool_def result_simps)
  then have ok: "pool_ok p pool" and le: "block_height_started (created_at (rp_params pool)) \<le> h"
    using assms(2) epoch_current_Inr by (auto simp: rw_inv_def)
  show thesis using pool_epoch [OF ok le] that [OF pool(1) ok pool(2) le] pool(2) by auto
qed

lemma pools_only_step:
  assumes "rw_inv s" and "pool_ok i pool"
  shows "rw_inv (s\<lparr>rw_pools := kv_set i pool (rw_pools s), rw_watermarks := w\<rparr>)"
  using assms by (auto simp: rw_inv_def)

lemma tally_step:
  assumes "rw_inv s" and "tally_ok (et_pool_id t, epoch_num (et_epoch t)) t"
  shows "rw_inv (save_epoch_tally s t)"
  using assms by (auto simp: rw_inv_def save_epoch_tally_def)

lemma record_participation_step:
  assumes "record_participation s x verifier p h = Inr s'" and inv: "rw_inv s"
  shows "rw_inv s' \<and> rw_abs s' = rw_abs s \<and> rw_pools s' = rw_pools s"
proof -
  from assms obtain pool cur where pool: "kv_get (rw_pools s) p = Some pool"
    and cur: "epoch_current (rp_params pool) h = Inr cur"
    and s': "s' = (let (s1, event) = load_or_store_event s x p (epoch_num cur);
         tally = tally_record_participation
           (case load_epoch_tally s1 p (re_epoch_num (storage_value event)) of
              None \<Rightarrow> epoch_tally_new p cur (ps_params (rp_params pool)) | Some tally \<Rightarrow> tally) verifier;
         tally = (case event of New _ \<Rightarrow> tally\<lparr>event_count := saturating_add (event_count tally) 1\<rparr> | Existing _ \<Rightarrow> tally)
     in save_epoch_tally s1 tally)"
    by (auto simp: record_participation_def load_rewards_pool_params_def load_rewards_pool_def result_simps case_prod_beta Let_def)
  have params: "params_ok (ps_params (rp_params pool))" using inv pool by (auto simp: rw_inv_def pool_ok_def)
  have rec: "tally_ok i (tally_record_participation t verifier)" if "tally_ok i t" for i t
    using that by (auto simp: tally_ok_def tally_record_participation_def)
  have ne: "saturating_add (n :: u64) 1 \<noteq> 0" for n
    using unat_saturating_add [of n 1] by (auto simp: unat_eq_0 [symmetric] simp del: unat_eq_0)
  show ?thesis
  proof (cases "load_event s x p")
    case (Some e)
    then have "kv_get (rw_tallies s) (p, re_epoch_num e) \<noteq> None" using inv by (simp add: rw_inv_def load_event_def)
    then obtain t where t: "kv_get (rw_tallies s) (p, re_epoch_num e) = Some t" by blast
    then have ok: "tally_ok (p, re_epoch_num e) t" using inv by (simp add: rw_inv_def)
    have eq: "s' = save_epoch_tally s (tally_record_participation t verifier)"
      using s' Some t by (simp add: load_or_store_event_def load_epoch_tally_def)
    have "tally_ok (p, re_epoch_num e) (tally_record_participation t verifier)" using ok by (rule rec)
    then have "rw_inv s'" unfolding eq using inv by (intro tally_step) (auto simp: tally_ok_def)
    then show ?thesis by (simp add: eq save_epoch_tally_def rw_abs_def)
  next
    case None
    let ?e = "\<lparr>re_event_id = x, re_pool_id = p, re_epoch_num = epoch_num cur\<rparr>"
    let ?t = "case load_epoch_tally s p (epoch_num cur) of
      None \<Rightarrow> epoch_tally_new p cur (ps_params (rp_params pool)) | Some tally \<Rightarrow> tally"
    let ?t' = "(tally_record_participation ?t verifier)\<lparr>event_count := saturating_add (event_count (tally_record_participation ?t verifier)) 1\<rparr>"
    have eq: "s' = save_epoch_tally (save_event s ?e) ?t'"
      using s' None by (simp add: load_or_store_event_def load_epoch_tally_def save_event_def Let_def)
    have t': "tally_ok (p, epoch_num cur) ?t'"
    proof (cases "load_epoch_tally s p (epoch_num cur)")
      case None
      then show ?thesis using params ne by (simp add: tally_ok_def tally_record_participation_def epoch_tally_new_def kv_ok_Cons)
    next
      case (Some t)
      then have "tally_ok (p, epoch_num cur) t" using inv by (simp add: rw_inv_def load_epoch_tally_def)
      then show ?thesis using Some rec ne by (simp add: tally_ok_def)
    qed
    then have "rw_inv s'" using inv
      by (auto simp: eq rw_inv_def save_epoch_tally_def save_event_def tally_ok_def split: if_splits)
    then show ?thesis by (simp add: eq save_epoch_tally_def save_event_def rw_abs_def)
  qed
qed

lemma update_pool_params_Inr:
  assumes "update_pool_params s p params h = Inr s'" and inv: "rw_inv s" and params: "params_ok params"
  obtains pool cur new where "kv_get (rw_pools s) p = Some pool" "pool_ok p pool" "current_epoch s p h = Inr cur"
    "rw_pools s' = kv_set p \<lparr>rp_id = p, rp_balance = rp_balance pool, rp_params = \<lparr>ps_params = params, created_at = new\<rparr>\<rparr> (rw_pools s)"
    "rw_watermarks s' = rw_watermarks s" "rw_inv s'" "unat (block_height_started cur) + unat (epoch_duration params) < 2 ^ 64"
    "new = (if unat (block_height_started cur) + unat (epoch_duration params) < unat h
            then \<lparr>epoch_num = epoch_num cur + 1, block_height_started = h\<rparr> else cur)"
    "unat (epoch_num cur + 1) = Suc (unat (epoch_num cur))" "epoch_num new \<le> block_height_started new"
proof -
  from assms(1) obtain cur where cur: "current_epoch s p h = Inr cur"
    by (auto simp: update_pool_params_def result_simps)
  obtain pool where pool: "kv_get (rw_pools s) p = Some pool" "pool_ok p pool"
    and le: "epoch_num cur \<le> block_height_started cur" "block_height_started cur \<le> h"
    using current_epoch_Inr [OF cur inv] by blast
  let ?finish = "block_height_started cur + epoch_duration params"
  from assms(1) cur have add: "checked_add (block_height_started cur) (epoch_duration params) = Some ?finish"
    by (auto simp: update_pool_params_def result_simps checked_add_Some_iff)
  then have ue: "unat ?finish = unat (block_height_started cur) + unat (epoch_duration params)" by (rule checked_add_unat)
  have fit: "unat (block_height_started cur) + unat (epoch_duration params) < 2 ^ 64"
    using add by (simp add: checked_add_Some_iff)
  have pos: "0 < unat (epoch_duration params)" using params by (simp add: params_ok_def unat_gt_0)
  have lt: "unat (epoch_num cur) + 1 < 2 ^ 64" using fit pos le(1) by (simp add: word_le_nat_alt)
  then have suc: "checked_add (epoch_num cur) 1 = Some (epoch_num cur + 1)" by (simp add: checked_add_Some_iff)
  have un: "unat (epoch_num cur + 1) = Suc (unat (epoch_num cur))" using checked_add_unat [OF suc] by simp
  define new where "new = (if unat (block_height_started cur) + unat (epoch_duration params) < unat h
     then \<lparr>epoch_num = epoch_num cur + 1, block_height_started = h\<rparr> else cur)"
  have new_le: "epoch_num new \<le> block_height_started new"
    using le pos un by (auto simp: new_def word_le_nat_alt)
  let ?pool = "\<lparr>rp_id = p, rp_balance = rp_balance pool, rp_params = \<lparr>ps_params = params, created_at = new\<rparr>\<rparr>"
  let ?s1 = "s\<lparr>rw_pools := kv_set p ?pool (rw_pools s)\<rparr>"
  have s': "s' = (case load_epoch_tally ?s1 p (epoch_num cur) of
      None \<Rightarrow> ?s1 | Some tally \<Rightarrow> save_epoch_tally ?s1 (tally\<lparr>et_params := params\<rparr>))"
    using assms(1) cur add suc ue pool(1) unfolding new_def
    by (auto simp: update_pool_params_def result_simps state_update_pool_params_def word_less_nat_alt split: if_splits)
  have "rw_inv (?s1\<lparr>rw_watermarks := rw_watermarks s\<rparr>)"
    using pools_only_step [OF inv, of p ?pool "rw_watermarks s"] params new_le by (simp add: pool_ok_def)
  then have s1: "rw_inv ?s1" by simp
  have tl: "tally_ok (p, epoch_num cur) t" if "load_epoch_tally ?s1 p (epoch_num cur) = Some t" for t
    using inv that by (simp add: rw_inv_def load_epoch_tally_def)
  have "rw_inv s'"
    using s1 tl params unfolding s'
    by (auto split: option.splits intro!: tally_step simp: tally_ok_def)
  moreover have "rw_pools s' = kv_set p ?pool (rw_pools s)" "rw_watermarks s' = rw_watermarks s"
    unfolding s' by (auto simp: save_epoch_tally_def split: option.splits)
  ultimately show thesis using that [OF pool cur] new_def new_le un fit by simp
qed

lemma rw_abs_cong: "rw_pools s' = rw_pools s \<Longrightarrow> rw_watermarks s' = rw_watermarks s \<Longrightarrow> rw_abs s' = rw_abs s"
  by (simp add: rw_abs_def)

lemma try_from_msg_pool_id_Inr: "try_from_msg_pool_id env p = Inr q \<Longrightarrow> msg_pool env p = q"
  by (auto simp: try_from_msg_pool_id_def validate_cosmwasm_address_def msg_pool_def result_simps)

lemma distribution_response_Inr:
  assumes "distribution_response s rd = Inr r"
  obtains "events r = [RewardsDistributed (rd_rewards rd) (epochs_processed rd) (current_epoch_of rd) (can_distribute_more rd)]"
    "\<And>config. rw_config s = Some config \<Longrightarrow>
      messages r = map (\<lambda>(v, a). BankSend (case proxy_address v of None \<Rightarrow> verifier_address v | Some p \<Rightarrow> p)
        (rewards_denom config) a) (rd_rewards rd)"
    "sent r = sum_list (map (\<lambda>x. unat (snd x)) (rd_rewards rd))"
proof -
  from assms obtain msgs where msgs: "list_all2 (\<lambda>x m. \<exists>config. rw_config s = Some config \<and>
      BankSend (case proxy_address (fst x) of None \<Rightarrow> verifier_address (fst x) | Some p \<Rightarrow> p) (rewards_denom config) (snd x) = m)
      (rd_rewards rd) msgs"
    and r: "messages r = msgs" "events r = [RewardsDistributed (rd_rewards rd) (epochs_processed rd) (current_epoch_of rd) (can_distribute_more rd)]"
    by (auto simp: distribution_response_def rw_load_config_def result_simps case_prod_beta)
  have "map (\<lambda>m. unat (send_amount m)) msgs = map (\<lambda>x. unat (snd x)) (rd_rewards rd)"
    using msgs by (rule list_all2_map_eq) auto
  then have "sent r = sum_list (map (\<lambda>x. unat (snd x)) (rd_rewards rd))" by (simp add: sent_def r)
  moreover have "messages r = map (\<lambda>(v, a). BankSend (case proxy_address v of None \<Rightarrow> verifier_address v | Some p \<Rightarrow> p)
        (rewards_denom config) a) (rd_rewards rd)" if "rw_config s = Some config" for config
  proof -
    have "map id msgs = map (\<lambda>(v, a). BankSend (case proxy_address v of None \<Rightarrow> verifier_address v | Some p \<Rightarrow> p)
        (rewards_denom config) a) (rd_rewards rd)"
      using msgs by (rule list_all2_map_eq) (use that in \<open>auto simp: case_prod_beta\<close>)
    then show ?thesis by (simp add: r)
  qed
  ultimately show thesis using that r(2) by blast
qed

lemma rewards_amount_Inr:
  "rewards_amount s funds = Inr a \<Longrightarrow> \<exists>d. funds = [(d, a)] \<and> (\<exists>config. rw_config s = Some config \<and> d = rewards_denom config)"
  by (cases funds) (auto simp: rewards_amount_def rw_load_config_def result_simps split: if_splits)

lemma rw_dispatch_step:
  assumes run: "rw_dispatch env s sender msg = Inr (s', r)" and inv: "rw_inv s" and msg: "rw_msg_ok msg"
  shows "rw_inv s' \<and> ledger_exec (rw_op (env, sender, msg) r) (rw_abs s) = Some (rw_abs s')"
proof (cases msg)
  case (RecordParticipation ch x v)
  then show ?thesis using run record_participation_step [OF _ inv] by (auto simp: result_simps)
next
  case (DistributeRewards p limit)
  then obtain q rd where q: "try_from_msg_pool_id env p = Inr q" and d: "distribute_rewards s q (rv_height env) limit = Inr (s', rd)"
    and r: "distribution_response s' rd = Inr r"
    using run by (auto simp: result_simps)
  obtain cur lo hi rewards pool paid where lh: "unat lo = lg_settled (rw_abs s) q" "unat lo \<le> unat hi"
    and pool: "kv_get (rw_pools s) q = Some pool" and paid: "unat paid = sum_list (map (\<lambda>x. unat (snd x)) rewards)" "unat paid \<le> unat (rp_balance pool)"
    and s': "s' = s\<lparr>rw_pools := kv_set (rp_id pool) (pool\<lparr>rp_balance := rp_balance pool - paid\<rparr>) (rw_pools s),
            rw_watermarks := kv_set q hi (rw_watermarks s)\<rparr>"
    and rd: "rd = \<lparr>rd_rewards = map (\<lambda>(a, w). (load_verifier s a, w)) rewards, epochs_processed = epoch_range lo hi,
           current_epoch_of = cur, can_distribute_more = hi < epoch_num cur - 2\<rparr>"
    using d by (rule distribute_rewards_Inr)
  have ok: "pool_ok q pool" using inv pool by (simp add: rw_inv_def)
  then have id: "rp_id pool = q" by (simp add: pool_ok_def)
  have ev: "events r = [RewardsDistributed (rd_rewards rd) (epochs_processed rd) (current_epoch_of rd) (can_distribute_more rd)]"
    "sent r = sum_list (map (\<lambda>x. unat (snd x)) (rd_rewards rd))"
    by (rule distribution_response_Inr [OF r]; assumption)+
  have k: "settled_epochs r = Suc (unat hi) - unat lo" and sent: "sent r = unat paid"
    using ev rd paid(1) by (simp_all add: settled_epochs_def length_epoch_range comp_def case_prod_beta)
  have "unat (rp_balance pool - paid) = unat (rp_balance pool) - unat paid" using paid(2) by (simp add: unat_sub word_le_nat_alt)
  then have "ledger_exec (Settle q (settled_epochs r) (sent r)) (rw_abs s) = Some (rw_abs s')"
    using pool paid(2) lh id k sent by (auto simp: rw_abs_def s' fun_eq_iff)
  moreover have "rw_inv s'" unfolding s' id by (rule pools_only_step [OF inv]) (use ok in \<open>simp add: pool_ok_def\<close>)
  ultimately show ?thesis using DistributeRewards try_from_msg_pool_id_Inr [OF q] by simp
next
  case (AddRewards p)
  then obtain a q where q: "try_from_msg_pool_id env p = Inr q" and a: "rewards_amount s (rv_funds env) = Inr a"
    and add: "add_rewards s q a = Inr s'"
    using run by (auto simp: result_simps nonempty_uint128_try_from_def split: if_splits)
  from add obtain pool where pool: "kv_get (rw_pools s) q = Some pool"
    and c: "checked_add (rp_balance pool) a = Some (rp_balance pool + a)"
    and s': "s' = save_rewards_pool s (pool\<lparr>rp_balance := rp_balance pool + a\<rparr>)"
    by (auto simp: add_rewards_def load_rewards_pool_def result_simps checked_add_Some_iff)
  have ok: "pool_ok q pool" using inv pool by (simp add: rw_inv_def)
  have "rw_inv (s\<lparr>rw_pools := kv_set q (pool\<lparr>rp_balance := rp_balance pool + a\<rparr>) (rw_pools s), rw_watermarks := rw_watermarks s\<rparr>)"
    by (rule pools_only_step [OF inv]) (use ok in \<open>simp add: pool_ok_def\<close>)
  moreover have "s' = s\<lparr>rw_pools := kv_set q (pool\<lparr>rp_balance := rp_balance pool + a\<rparr>) (rw_pools s), rw_watermarks := rw_watermarks s\<rparr>"
    using ok by (simp add: s' save_rewards_pool_def pool_ok_def)
  ultimately show ?thesis
    using AddRewards try_from_msg_pool_id_Inr [OF q] rewards_amount_Inr [OF a] pool checked_add_unat [OF c]
    by (auto simp: rw_abs_def fun_eq_iff)
next
  case (UpdatePoolParams params p)
  then obtain q where q: "update_pool_params s q params (rv_height env) = Inr s'" using run by (auto simp: result_simps)
  have "params_ok params" using msg UpdatePoolParams by simp
  with q inv obtain pool cur new where "kv_get (rw_pools s) q = Some pool" "rw_inv s'" "rw_watermarks s' = rw_watermarks s"
    "rw_pools s' = kv_set q \<lparr>rp_id = q, rp_balance = rp_balance pool, rp_params = \<lparr>ps_params = params, created_at = new\<rparr>\<rparr> (rw_pools s)"
    by (rule update_pool_params_Inr)
  then show ?thesis using UpdatePoolParams by (auto simp: rw_abs_def fun_eq_iff)
next
  case (CreatePool params p)
  then obtain q where q: "try_from_msg_pool_id env p = Inr q" and new: "kv_get (rw_pools s) q = None"
    and s': "s' = s\<lparr>rw_pools := kv_set q \<lparr>rp_id = q, rp_balance = 0, rp_params = \<lparr>ps_params = params,
      created_at = \<lparr>epoch_num = 0, block_height_started = rv_height env\<rparr>\<rparr>\<rparr> (rw_pools s), rw_watermarks := rw_watermarks s\<rparr>"
    using run by (auto simp: result_simps create_pool_def pool_exists_def save_rewards_pool_def Let_def)
  have "rw_inv s'" unfolding s'
    by (rule pools_only_step [OF inv]) (use msg CreatePool in \<open>simp add: pool_ok_def\<close>)
  then show ?thesis using CreatePool try_from_msg_pool_id_Inr [OF q] new by (auto simp: s' rw_abs_def fun_eq_iff)
qed (use run inv in \<open>auto simp: result_simps set_verifier_proxy_def save_verifier_proxy_def remove_verifier_proxy_def
      state_remove_verifier_proxy_def rw_inv_def rw_abs_def\<close>)

lemma rw_tx_step:
  assumes "rw_tx s call = Inr (s', r)" and "rw_inv s" and "rw_call_ok call"
  shows "rw_inv s' \<and> ledger_exec (rw_op call r) (rw_abs s) = Some (rw_abs s')"
proof -
  obtain env sender msg where call: "call = (env, sender, msg)" by (cases call)
  then have "rw_dispatch env s sender msg = Inr (s', r)" using assms(1) by (auto simp: rw_tx_def rw_execute_def result_simps)
  then show ?thesis using assms(2,3) unfolding call by (intro rw_dispatch_step) (simp_all add: rw_call_ok_def)
qed

interpretation rwc: contract_machine rw_tx rw_inv rw_call_ok
  by unfold_locales (auto dest: rw_tx_step)

lemma rw_reachable_inv: "rw_reachable s \<Longrightarrow> rw_inv s"
  by (induction rule: rw_reachable.induct) (auto simp: rw_instantiate_def result_simps rw_inv_def dest: rw_tx_step)

lemma rw_run_ledger:
  "rw_inv s \<Longrightarrow> list_all rw_call_ok calls \<Longrightarrow> ledger_run (rw_ops s calls) (rw_abs s) = Some (rw_abs (run_txs rw_tx s calls))"
proof (induction calls arbitrary: s)
  case (Cons call calls)
  then show ?case
  proof (cases "rw_tx s call")
    case (Inr x)
    obtain s' r where x: "x = (s', r)" by (cases x)
    have "rw_inv s' \<and> ledger_exec (rw_op call r) (rw_abs s) = Some (rw_abs s')"
      using Cons.prems Inr x rw_tx_step by simp
    then show ?thesis using Cons Inr x by simp
  qed simp
qed simp

subsection \<open>The course of the epochs\<close>

text \<open>
  A call keeps the parameters of a pool, or an update replaces them, at the epoch in which it
  takes place or at the start of a next one.
\<close>

definition params_follow :: "params_snapshot \<Rightarrow> u64 \<Rightarrow> params_snapshot \<Rightarrow> bool" where
  "params_follow p h p' \<longleftrightarrow> p' = p
     \<or> (\<exists>cur. epoch_current p h = Inr cur \<and> epoch_duration (ps_params p') \<noteq> 0
          \<and> epoch_num (created_at p') \<le> block_height_started (created_at p')
          \<and> (created_at p' = cur \<and> block_height_started cur \<le> h
               \<and> unat h \<le> unat (block_height_started cur) + unat (epoch_duration (ps_params p'))
             \<or> unat (epoch_num (created_at p')) = Suc (unat (epoch_num cur)) \<and> block_height_started (created_at p') = h))"

lemma rw_dispatch_params:
  assumes run: "rw_dispatch env s sender msg = Inr (s', r)" and inv: "rw_inv s" and msg: "rw_msg_ok msg"
    and pool: "kv_get (rw_pools s) p = Some pool"
  shows "\<exists>pool'. kv_get (rw_pools s') p = Some pool' \<and> params_follow (rp_params pool) (rv_height env) (rp_params pool')"
proof (cases msg)
  case (RecordParticipation ch x v)
  then show ?thesis using run record_participation_step [OF _ inv] pool by (auto simp: result_simps params_follow_def)
next
  case (DistributeRewards q limit)
  then obtain q' rd where d: "distribute_rewards s q' (rv_height env) limit = Inr (s', rd)"
    using run by (auto simp: result_simps)
  then obtain cur lo hi rewards qool paid where "kv_get (rw_pools s) q' = Some qool"
    "s' = s\<lparr>rw_pools := kv_set (rp_id qool) (qool\<lparr>rp_balance := rp_balance qool - paid\<rparr>) (rw_pools s),
            rw_watermarks := kv_set q' hi (rw_watermarks s)\<rparr>"
    by (rule distribute_rewards_Inr)
  moreover from this have "rp_id qool = q'" using inv by (simp add: rw_inv_def pool_ok_def)
  ultimately show ?thesis using pool by (auto simp: params_follow_def)
next
  case (AddRewards q)
  then obtain a q' where add: "add_rewards s q' a = Inr s'"
    using run by (auto simp: result_simps)
  then obtain qool where "kv_get (rw_pools s) q' = Some qool" "s' = save_rewards_pool s (qool\<lparr>rp_balance := rp_balance qool + a\<rparr>)"
    by (auto simp: add_rewards_def load_rewards_pool_def result_simps checked_add_Some_iff)
  moreover from this have "rp_id qool = q'" using inv by (simp add: rw_inv_def pool_ok_def)
  ultimately show ?thesis using pool by (auto simp: params_follow_def save_rewards_pool_def)
next
  case (UpdatePoolParams params q)
  then obtain q' where q: "update_pool_params s q' params (rv_height env) = Inr s'" using run by (auto simp: result_simps)
  have params: "params_ok params" using msg UpdatePoolParams by simp
  with q inv obtain qool cur new where qool: "kv_get (rw_pools s) q' = Some qool" and cur: "current_epoch s q' (rv_height env) = Inr cur"
    and s': "rw_pools s' = kv_set q' \<lparr>rp_id = q', rp_balance = rp_balance qool, rp_params = \<lparr>ps_params = params, created_at = new\<rparr>\<rparr> (rw_pools s)"
    and new: "new = (if unat (block_height_started cur) + unat (epoch_duration params) < unat (rv_height env)
            then \<lparr>epoch_num = epoch_num cur + 1, block_height_started = rv_height env\<rparr> else cur)"
    "unat (epoch_num cur + 1) = Suc (unat (epoch_num cur))" "epoch_num new \<le> block_height_started new"
    by (rule update_pool_params_Inr)
  show ?thesis
  proof (cases "p = q'")
    case True
    have c: "epoch_current (rp_params pool) (rv_height env) = Inr cur" "block_height_started cur \<le> rv_height env"
      using current_epoch_Inr [OF cur inv] pool True by auto
    have "params_follow (rp_params pool) (rv_height env) \<lparr>ps_params = params, created_at = new\<rparr>"
      using c new params by (auto simp: params_follow_def params_ok_def)
    then show ?thesis using True s' by simp
  qed (use pool s' in \<open>simp add: params_follow_def\<close>)
next
  case (CreatePool params q)
  then obtain q' where "kv_get (rw_pools s) q' = None" "rw_pools s' = kv_set q' \<lparr>rp_id = q', rp_balance = 0, rp_params = \<lparr>ps_params = params,
      created_at = \<lparr>epoch_num = 0, block_height_started = rv_height env\<rparr>\<rparr>\<rparr> (rw_pools s)"
    using run by (auto simp: result_simps create_pool_def pool_exists_def save_rewards_pool_def Let_def)
  then show ?thesis using pool by (cases "p = q'") (auto simp: params_follow_def)
qed (use run pool in \<open>auto simp: result_simps set_verifier_proxy_def save_verifier_proxy_def remove_verifier_proxy_def
      state_remove_verifier_proxy_def params_follow_def\<close>)

lemma params_follow_epoch:
  assumes "params_follow p h p'" and p: "epoch_duration (ps_params p) \<noteq> 0" "epoch_num (created_at p) \<le> block_height_started (created_at p)"
    and e: "epoch_current p h = Inr e" and h': "h \<le> h'"
  shows "\<exists>e'. epoch_current p' h' = Inr e' \<and> epoch_num e \<le> epoch_num e' \<and> (h' = h \<longrightarrow> unat (epoch_num e') \<le> unat (epoch_num e) + 1)"
proof -
  have le: "block_height_started (created_at p) \<le> h" using e by (rule epoch_current_Inr)
  have hh: "unat h \<le> unat h'" using h' by (simp add: word_le_nat_alt)
  consider "p' = p"
    | "created_at p' = e" "block_height_started e \<le> h" "unat h \<le> unat (block_height_started e) + unat (epoch_duration (ps_params p'))"
      "epoch_duration (ps_params p') \<noteq> 0" "epoch_num (created_at p') \<le> block_height_started (created_at p')"
    | "unat (epoch_num (created_at p')) = Suc (unat (epoch_num e))" "block_height_started (created_at p') = h"
      "epoch_duration (ps_params p') \<noteq> 0" "epoch_num (created_at p') \<le> block_height_started (created_at p')"
    using assms(1) e unfolding params_follow_def by auto
  then show ?thesis
  proof cases
    case 1
    have "block_height_started (created_at p) \<le> h'" using le h' by (rule order_trans)
    from epoch_current_eq [OF p le] epoch_current_eq [OF p this] e obtain e' where e': "epoch_current p h' = Inr e'"
      "unat (epoch_num e) = unat (epoch_num (created_at p)) + (unat h - unat (block_height_started (created_at p))) div unat (epoch_duration (ps_params p))"
      "unat (epoch_num e') = unat (epoch_num (created_at p)) + (unat h' - unat (block_height_started (created_at p))) div unat (epoch_duration (ps_params p))"
      by (metis sum.inject(2))
    have "unat (epoch_num e) \<le> unat (epoch_num e')" unfolding e'(2,3) using hh by (simp add: div_le_mono)
    then show ?thesis using 1 e e' by (auto simp: word_le_nat_alt)
  next
    case 2
    then have "block_height_started (created_at p') \<le> h'" using h' by (simp add: order_trans)
    from epoch_current_eq [OF 2(4,5) this] obtain e' where e': "epoch_current p' h' = Inr e'"
      "unat (epoch_num e') = unat (epoch_num e) + (unat h' - unat (block_height_started e)) div unat (epoch_duration (ps_params p'))"
      using 2(1) by metis
    have "(unat h - unat (block_height_started e)) div unat (epoch_duration (ps_params p')) \<le> 1"
    proof -
      have d: "0 < unat (epoch_duration (ps_params p'))" using 2(4) by (simp add: unat_gt_0)
      have "unat h - unat (block_height_started e) \<le> unat (epoch_duration (ps_params p'))" using 2(3) by simp
      then have "(unat h - unat (block_height_started e)) div unat (epoch_duration (ps_params p')) \<le>
          unat (epoch_duration (ps_params p')) div unat (epoch_duration (ps_params p'))" by (rule div_le_mono)
      then show ?thesis using d by simp
    qed
    then show ?thesis using e' by (auto simp: word_le_nat_alt)
  next
    case 3
    then have "block_height_started (created_at p') \<le> h'" using h' by simp
    from epoch_current_eq [OF 3(3,4) this] obtain e' where "epoch_current p' h' = Inr e'"
      "unat (epoch_num e') = Suc (unat (epoch_num e)) + (unat h' - unat h) div unat (epoch_duration (ps_params p'))"
      using 3(1,2) by metis
    then show ?thesis by (auto simp: word_le_nat_alt)
  qed
qed

lemma rw_dispatch_events:
  assumes "rw_dispatch env s sender msg = Inr (s', r)" and "kv_get (rw_events s) k = Some e"
  shows "kv_get (rw_events s') k = Some e"
proof (cases msg)
  case (RecordParticipation ch x v)
  then obtain n t where "s' = save_epoch_tally (fst (load_or_store_event s x (PoolId ch sender) n)) t"
    using assms(1) by (auto simp: result_simps record_participation_def Let_def case_prod_beta)
  then show ?thesis using assms(2)
    by (cases "load_event s x (PoolId ch sender)")
      (auto simp: load_or_store_event_def load_event_def save_event_def save_epoch_tally_def Let_def)
next
  case (DistributeRewards q limit)
  then obtain q' rd where "distribute_rewards s q' (rv_height env) limit = Inr (s', rd)"
    using assms(1) by (auto simp: result_simps)
  then obtain cur lo hi rewards pool paid where
    "s' = s\<lparr>rw_pools := kv_set (rp_id pool) (pool\<lparr>rp_balance := rp_balance pool - paid\<rparr>) (rw_pools s),
            rw_watermarks := kv_set q' hi (rw_watermarks s)\<rparr>"
    by (rule distribute_rewards_Inr)
  then show ?thesis using assms(2) by simp
next
  case (UpdatePoolParams params q)
  then obtain s1 p snap n where s1: "state_update_pool_params s p snap = Inr s1"
    and s': "s' = (case load_epoch_tally s1 p n of None \<Rightarrow> s1 | Some t \<Rightarrow> save_epoch_tally s1 (t\<lparr>et_params := params\<rparr>))"
    using assms(1) by (auto simp: result_simps update_pool_params_def)
  have "rw_events s1 = rw_events s" using s1 by (auto simp: state_update_pool_params_def split: option.splits)
  then show ?thesis using assms(2) by (cases "load_epoch_tally s1 p n") (simp_all add: s' save_epoch_tally_def)
qed (use assms in \<open>auto simp: result_simps add_rewards_def create_pool_def save_rewards_pool_def set_verifier_proxy_def
      save_verifier_proxy_def remove_verifier_proxy_def state_remove_verifier_proxy_def Let_def\<close>)

section \<open>Example\<close>

text \<open>Two verifiers take part in the events of the first epoch of a pool and are paid two epochs later.\<close>

abbreviation rw_ex_env :: "u64 \<Rightarrow> (string \<times> u128) list \<Rightarrow> rw_env" where
  "rw_ex_env h funds \<equiv> \<lparr>rv_height = h, rv_funds = funds, rv_addr_validate = Some\<rparr>"

abbreviation rw_ex_params :: rw_params where
  "rw_ex_params \<equiv> \<lparr>epoch_duration = 10, rewards_per_epoch = 101, participation_threshold = Threshold 1 2\<rparr>"

abbreviation rw_ex_pool :: pool_id where
  "rw_ex_pool \<equiv> PoolId ''eth'' ''vv''"

abbreviation rw_ex_start :: epoch where
  "rw_ex_start \<equiv> \<lparr>epoch_num = 0, block_height_started = 0\<rparr>"

abbreviation rw_ex_init :: rw_state where
  "rw_ex_init \<equiv> \<lparr>rw_config = Some \<lparr>rewards_denom = ''axl''\<rparr>, rw_perms = \<lparr>admin_addr = None, governance_addr = Some ''gov''\<rparr>,
     rw_tallies = [], rw_events = [], rw_pools = [], rw_watermarks = [], rw_proxies = []\<rparr>"

abbreviation rw_ex_funded :: "u128 \<Rightarrow> rw_state" where
  "rw_ex_funded b \<equiv> rw_ex_init\<lparr>rw_pools := [(rw_ex_pool, \<lparr>rp_id = rw_ex_pool, rp_balance = b,
     rp_params = \<lparr>ps_params = rw_ex_params, created_at = rw_ex_start\<rparr>\<rparr>)]\<rparr>"

abbreviation rw_ex_tally :: "(string, u64) kv \<Rightarrow> epoch_tally" where
  "rw_ex_tally ps \<equiv> \<lparr>et_pool_id = rw_ex_pool, event_count = 1, participation_of = ps, et_epoch = rw_ex_start, et_params = rw_ex_params\<rparr>"

abbreviation rw_ex_state :: "(string, u64) kv \<Rightarrow> rw_state" where
  "rw_ex_state ps \<equiv> (rw_ex_funded 1000)\<lparr>rw_tallies := [((rw_ex_pool, 0), rw_ex_tally ps)],
     rw_events := [((''poll'', rw_ex_pool), \<lparr>re_event_id = ''poll'', re_pool_id = rw_ex_pool, re_epoch_num = 0\<rparr>)]\<rparr>"

lemmas rw_eval = rw_tx_def rw_execute_def ensure_permissions_def general_check_def sender_role_def Let_def
  validate_cosmwasm_address_def try_from_msg_pool_id_def load_rewards_pool_def load_rewards_pool_params_def epoch_current_def
  current_epoch_def checked_div_def checked_add_def saturating_mul_def checked_mul_def saturating_sub_def

lemma rw_ex_instantiate: "rw_instantiate (rw_ex_env 0 []) ''gov'' ''axl'' = Inr (rw_ex_init, response_new)"
  by (simp add: rw_instantiate_def rw_eval set_governance_def)

lemma rw_ex_create:
  "rw_tx rw_ex_init (rw_ex_env 0 [], ''gov'', CreatePool rw_ex_params rw_ex_pool) = Inr (rw_ex_funded 0, response_new)"
  by (simp add: rw_eval create_pool_def ensure_def pool_exists_def save_rewards_pool_def)

lemma rw_ex_add:
  "rw_tx (rw_ex_funded 0) (rw_ex_env 1 [(''axl'', 1000)], ''u'', AddRewards rw_ex_pool) = Inr (rw_ex_funded 1000, response_new)"
  by (simp add: rw_eval rewards_amount_def rw_load_config_def nonempty_uint128_try_from_def add_rewards_def save_rewards_pool_def)

lemma rw_ex_record:
  "rw_tx (rw_ex_funded 1000) (rw_ex_env 2 [], ''vv'', RecordParticipation ''eth'' ''poll'' ''a'') = Inr (rw_ex_state [(''a'', 1)], response_new)"
  "rw_tx (rw_ex_state [(''a'', 1)]) (rw_ex_env 3 [], ''vv'', RecordParticipation ''eth'' ''poll'' ''b'') =
     Inr (rw_ex_state [(''a'', 1), (''b'', 1)], response_new)"
  by (simp_all add: rw_eval record_participation_def load_or_store_event_def load_event_def save_event_def load_epoch_tally_def
      save_epoch_tally_def epoch_tally_new_def tally_record_participation_def saturating_add_def)

lemma rw_ex_reachable:
  "rw_reachable (rw_ex_funded 0)" "rw_reachable (rw_ex_state [(''a'', 1), (''b'', 1)])"
proof -
  have ok: "rw_call_ok (rw_ex_env h f, a, RecordParticipation x y z)" "rw_call_ok (rw_ex_env h f, a, AddRewards p)"
    "rw_call_ok (rw_ex_env h f, a, CreatePool rw_ex_params p)" for h f a x y z p
    by (simp_all add: rw_call_ok_def params_ok_def threshold_ok_def)
  have "rw_reachable rw_ex_init" using rw_ex_instantiate by (rule rw_init)
  from rw_step [OF this ok(3) rw_ex_create] show 1: "rw_reachable (rw_ex_funded 0)" .
  from rw_step [OF rw_step [OF rw_step [OF 1 ok(2) rw_ex_add] ok(1) rw_ex_record(1)] ok(1) rw_ex_record(2)]
  show "rw_reachable (rw_ex_state [(''a'', 1), (''b'', 1)])" .
qed

lemma rw_ex_distribute:
  "\<exists>r. rw_tx (rw_ex_state [(''a'', 1), (''b'', 1)]) (rw_ex_env 25 [], ''u'', DistributeRewards rw_ex_pool None) =
     Inr ((rw_ex_state [(''a'', 1), (''b'', 1)])\<lparr>rw_pools := rw_pools (rw_ex_funded 900), rw_watermarks := [(rw_ex_pool, 0)]\<rparr>, r)
     \<and> messages r = [BankSend ''a'' ''axl'' 50, BankSend ''b'' ''axl'' 50]"
  by (simp add: rw_eval distribute_rewards_def load_rewards_watermark_def DEFAULT_EPOCHS_TO_PROCESS_def EPOCH_PAYOUT_DELAY_def
      process_rewards_for_epochs_def cumulate_rewards_def iterate_epoch_tallies_def epoch_range_def List.map_filter_def
      load_epoch_tally_def rewards_by_verifier_def verifiers_to_reward_def threshold_try_from_def nonempty_uint64_try_from_def
      threshold_from_nonempty_def threshold_le_def full_mul_def merge_rewards_def sub_reward_def checked_sub_def
      save_rewards_pool_def save_rewards_watermark_def load_verifier_def distribution_response_def rw_load_config_def
      saturating_add_def word_le_nat_alt word_less_nat_alt)

section \<open>Properties\<close>

text \<open>
  C9. A distribution pays exactly what is owed. Whoever calls for it, the distribution of a pool
  settles the epochs after those already settled, in order, at most the number asked for (ten by
  default, and one if zero is asked for) and none that is less than two epochs old; every verifier receives, at its proxy if it
  has one, the sum over these epochs of what it is entitled to, and nobody else receives anything;
  the pool has the funds and they are taken from it, and the epochs are marked as settled.
\<close>

theorem distribution_exact:
  assumes "rw_reachable s" and "tallies_small s" and "rw_config s = Some config"
    and "rw_tx s (env, sender, DistributeRewards p limit) = Inr (s', r)"
  shows "\<exists>lo hi cur rewards. lo = lg_settled (rw_abs s) (msg_pool env p) \<and> lo \<le> hi
    \<and> current_epoch s (msg_pool env p) (rv_height env) = Inr cur \<and> hi + 2 \<le> unat (epoch_num cur)
    \<and> hi + 1 - lo \<le> max 1 (unat (case_option DEFAULT_EPOCHS_TO_PROCESS id limit))
    \<and> messages r = map (\<lambda>(v, a). BankSend (case kv_get (rw_proxies s) v of None \<Rightarrow> v | Some x \<Rightarrow> x) (rewards_denom config) a) rewards
    \<and> kv_ok rewards \<and> (\<forall>v a. kv_get rewards v = Some a \<longrightarrow> a \<noteq> 0)
    \<and> (\<forall>v. reward_of rewards v = (\<Sum>n\<leftarrow>[lo..<Suc hi]. entitlement s (msg_pool env p) n v))
    \<and> lg_funds (rw_abs s') (msg_pool env p) = map_option (\<lambda>b. b - sent r) (lg_funds (rw_abs s) (msg_pool env p))
    \<and> (\<exists>b. lg_funds (rw_abs s) (msg_pool env p) = Some b \<and> sent r \<le> b)
    \<and> lg_settled (rw_abs s') (msg_pool env p) = Suc hi"
proof -
  have inv: "rw_inv s" using assms(1) by (rule rw_reachable_inv)
  from assms(4) obtain q rd where q: "try_from_msg_pool_id env p = Inr q" and d: "distribute_rewards s q (rv_height env) limit = Inr (s', rd)"
    and r: "distribution_response s' rd = Inr r"
    by (auto simp: rw_tx_def rw_execute_def result_simps)
  have mp: "msg_pool env p = q" using q by (rule try_from_msg_pool_id_Inr)
  let ?limit = "case_option DEFAULT_EPOCHS_TO_PROCESS id limit"
  from d obtain cur lo hi rewards pool paid where cur: "current_epoch s q (rv_height env) = Inr cur"
    and lh: "unat lo = lg_settled (rw_abs s) q" "unat lo \<le> unat hi" "unat hi + 2 \<le> unat (epoch_num cur)"
    and hi: "hi = min (saturating_sub (saturating_add lo ?limit) 1) (epoch_num cur - 2)"
    and cum: "cumulate_rewards s q lo hi = Inr rewards" and pool: "kv_get (rw_pools s) q = Some pool"
    and s': "s' = s\<lparr>rw_pools := kv_set (rp_id pool) (pool\<lparr>rp_balance := rp_balance pool - paid\<rparr>) (rw_pools s),
            rw_watermarks := kv_set q hi (rw_watermarks s)\<rparr>"
    and rd: "rd = \<lparr>rd_rewards = map (\<lambda>(a, w). (load_verifier s a, w)) rewards, epochs_processed = epoch_range lo hi,
           current_epoch_of = cur, can_distribute_more = hi < epoch_num cur - 2\<rparr>"
    by (rule distribute_rewards_Inr)
  have "hi \<le> saturating_sub (saturating_add lo ?limit) 1" using hi by simp
  then have "unat hi \<le> unat (saturating_add lo ?limit) - 1"
    by (auto simp: saturating_sub_def word_le_nat_alt unat_sub split: if_splits)
  then have bound: "unat hi + 1 - unat lo \<le> max 1 (unat ?limit)" using unat_saturating_add_le [of lo ?limit] lh(2) by linarith
  have msgs: "messages r = map (\<lambda>(v, a). BankSend (case kv_get (rw_proxies s) v of None \<Rightarrow> v | Some x \<Rightarrow> x) (rewards_denom config) a) rewards"
    using r by (rule distribution_response_Inr) (use assms(3) in \<open>simp add: s' rd load_verifier_def case_prod_beta comp_def cong: option.case_cong\<close>)
  have step: "ledger_exec (Settle q (settled_epochs r) (sent r)) (rw_abs s) = Some (rw_abs s')"
    using rw_tx_step [OF assms(4) inv] mp by (simp add: rw_call_ok_def)
  then obtain b where b: "lg_funds (rw_abs s) q = Some b" "sent r \<le> b"
    "rw_abs s' = (rw_abs s)\<lparr>lg_funds := (lg_funds (rw_abs s))(q \<mapsto> b - sent r),
       lg_settled := (lg_settled (rw_abs s))(q := lg_settled (rw_abs s) q + settled_epochs r)\<rparr>"
    by (auto split: option.splits if_splits)
  then have funds: "lg_funds (rw_abs s') q = map_option (\<lambda>b. b - sent r) (lg_funds (rw_abs s) q)"
      "\<exists>b. lg_funds (rw_abs s) q = Some b \<and> sent r \<le> b"
    by simp_all
  have "lg_settled (rw_abs s') q = Suc (unat hi)" by (simp add: s' rw_abs_def)
  with cur lh bound msgs funds cumulate_rewards_spec [OF cum inv assms(2)] show ?thesis
    unfolding mp rewards_ok_def by blast
qed

theorem distribution_exact_witness:
  "\<exists>s' r. rw_tx (rw_ex_state [(''a'', 1), (''b'', 1)]) (rw_ex_env 25 [], ''u'', DistributeRewards rw_ex_pool None) = Inr (s', r)
     \<and> lg_settled (rw_abs s') rw_ex_pool = 1 \<and> sent r = 100"
proof -
  from rw_ex_distribute obtain s' r where run: "rw_tx (rw_ex_state [(''a'', 1), (''b'', 1)])
      (rw_ex_env 25 [], ''u'', DistributeRewards rw_ex_pool None) = Inr (s', r)"
    and m: "messages r = [BankSend ''a'' ''axl'' 50, BankSend ''b'' ''axl'' 50]" by blast
  have "tallies_small (rw_ex_state [(''a'', 1), (''b'', 1)])" by (simp add: tallies_small_def)
  from distribution_exact [OF rw_ex_reachable(2) this _ run] obtain lo hi cur where
    "lo = lg_settled (rw_abs (rw_ex_state [(''a'', 1), (''b'', 1)])) rw_ex_pool" "lo \<le> hi"
    "current_epoch (rw_ex_state [(''a'', 1), (''b'', 1)]) rw_ex_pool 25 = Inr cur" "hi + 2 \<le> unat (epoch_num cur)"
    "lg_settled (rw_abs s') rw_ex_pool = Suc hi"
    by (auto simp: msg_pool_def)
  then have "lg_settled (rw_abs s') rw_ex_pool = 1" by (auto simp: rw_eval)
  then show ?thesis using run m by (auto simp: sent_def)
qed

text \<open>
  C17. The contract implements a ledger of its pools. Over every run from a reachable state, the
  balances and the settled epochs of the pools develop as those of the abstract ledger under the
  operations of the successful calls: a pool is opened once, with nothing in it; a deposit adds
  exactly the funds sent along; a distribution takes exactly what is sent out, never more than
  the pool has, and settles the next epochs; no other call touches funds or settled epochs.
\<close>

theorem ledger_refinement:
  assumes "rw_reachable s" and "list_all rw_call_ok calls"
  shows "ledger_run (rw_ops s calls) (rw_abs s) = Some (rw_abs (run_txs rw_tx s calls))"
  using assms by (intro rw_run_ledger rw_reachable_inv)

theorem ledger_refinement_witness:
  "\<exists>l. ledger_run [Deposit rw_ex_pool 1000, Idle, Idle] (rw_abs (rw_ex_funded 0)) = Some l
     \<and> l = rw_abs (run_txs rw_tx (rw_ex_funded 0)
         [(rw_ex_env 1 [(''axl'', 1000)], ''u'', AddRewards rw_ex_pool),
          (rw_ex_env 2 [], ''vv'', RecordParticipation ''eth'' ''poll'' ''a''),
          (rw_ex_env 3 [], ''vv'', RecordParticipation ''eth'' ''poll'' ''b'')])"
  using ledger_refinement [OF rw_ex_reachable(1), of
    "[(rw_ex_env 1 [(''axl'', 1000)], ''u'', AddRewards rw_ex_pool),
      (rw_ex_env 2 [], ''vv'', RecordParticipation ''eth'' ''poll'' ''a''),
      (rw_ex_env 3 [], ''vv'', RecordParticipation ''eth'' ''poll'' ''b'')]"]
  by (simp add: rw_ex_add [simplified] rw_ex_record [simplified] rw_call_ok_def msg_pool_def)

text \<open>
  Epochs run forward, one by one. After every successful call at some height, at this height
  and any later one the pool still has a current epoch, never an earlier one than before the call,
  and at the height of the call at most the next one, even if the call changes the duration of
  epochs; the epoch of a recorded event never changes.
\<close>

lemma epochs_run_forward:
  assumes "rw_reachable s" and "rw_call_ok (env, sender, msg)" and "rw_tx s (env, sender, msg) = Inr (s', r)"
    and "current_epoch s p (rv_height env) = Inr e" and "rv_height env \<le> h"
  shows "(\<exists>e'. current_epoch s' p h = Inr e' \<and> epoch_num e \<le> epoch_num e'
      \<and> (h = rv_height env \<longrightarrow> unat (epoch_num e') \<le> unat (epoch_num e) + 1))
    \<and> (\<forall>x ev. load_event s x p = Some ev \<longrightarrow> load_event s' x p = Some ev)"
proof -
  have inv: "rw_inv s" using assms(1) by (rule rw_reachable_inv)
  have run: "rw_dispatch env s sender msg = Inr (s', r)" using assms(3) by (auto simp: rw_tx_def rw_execute_def result_simps)
  obtain pool where pool: "kv_get (rw_pools s) p = Some pool" "pool_ok p pool" "epoch_current (rp_params pool) (rv_height env) = Inr e"
    using assms(4) inv by (rule current_epoch_Inr)
  have "rw_msg_ok msg" using assms(2) by (simp add: rw_call_ok_def)
  from rw_dispatch_params [OF run inv this pool(1)] obtain pool' where pool': "kv_get (rw_pools s') p = Some pool'"
    "params_follow (rp_params pool) (rv_height env) (rp_params pool')" by blast
  have "\<exists>e'. epoch_current (rp_params pool') h = Inr e' \<and> epoch_num e \<le> epoch_num e'
      \<and> (h = rv_height env \<longrightarrow> unat (epoch_num e') \<le> unat (epoch_num e) + 1)"
    using pool'(2) _ _ pool(3) assms(5) by (rule params_follow_epoch) (use pool(2) in \<open>simp_all add: pool_ok_def params_ok_def\<close>)
  then show ?thesis
    using pool'(1) rw_dispatch_events [OF run]
    by (simp add: current_epoch_def load_rewards_pool_params_def load_rewards_pool_def load_event_def)
qed

lemma epochs_run_forward_example:
  "\<exists>s' r e'. rw_tx (rw_ex_funded 0) (rw_ex_env 25 [], ''gov'', UpdatePoolParams (rw_ex_params\<lparr>epoch_duration := 2\<rparr>) rw_ex_pool) = Inr (s', r)
     \<and> current_epoch s' rw_ex_pool 25 = Inr e' \<and> unat (epoch_num e') \<le> 3"
proof -
  obtain s' r where run: "rw_tx (rw_ex_funded 0)
      (rw_ex_env 25 [], ''gov'', UpdatePoolParams (rw_ex_params\<lparr>epoch_duration := 2\<rparr>) rw_ex_pool) = Inr (s', r)"
    by (simp add: rw_eval update_pool_params_def state_update_pool_params_def load_epoch_tally_def word_less_nat_alt)
  have "rw_call_ok (rw_ex_env 25 [], ''gov'', UpdatePoolParams (rw_ex_params\<lparr>epoch_duration := 2\<rparr>) rw_ex_pool)"
    by (simp add: rw_call_ok_def params_ok_def threshold_ok_def)
  from epochs_run_forward [OF rw_ex_reachable(1) this run, of rw_ex_pool "\<lparr>epoch_num = 2, block_height_started = 20\<rparr>" 25]
  have "\<exists>e'. current_epoch s' rw_ex_pool 25 = Inr e' \<and> unat (epoch_num e') \<le> 3" by (auto simp: rw_eval)
  then show ?thesis using run by blast
qed

text \<open>
  A limit of zero epochs settles the first epoch of a pool all the same, because the end of the
  range is computed by a subtraction that stops at zero.
\<close>

lemma zero_limit_settles_first_epoch:
  "\<exists>s' r. rw_tx (rw_ex_state [(''a'', 1), (''b'', 1)]) (rw_ex_env 25 [], ''u'', DistributeRewards rw_ex_pool (Some 0)) = Inr (s', r)
     \<and> sent r = 100"
  by (simp add: rw_eval distribute_rewards_def load_rewards_watermark_def DEFAULT_EPOCHS_TO_PROCESS_def EPOCH_PAYOUT_DELAY_def
      process_rewards_for_epochs_def cumulate_rewards_def iterate_epoch_tallies_def epoch_range_def List.map_filter_def
      load_epoch_tally_def rewards_by_verifier_def verifiers_to_reward_def threshold_try_from_def nonempty_uint64_try_from_def
      threshold_from_nonempty_def threshold_le_def full_mul_def merge_rewards_def sub_reward_def checked_sub_def
      save_rewards_pool_def save_rewards_watermark_def load_verifier_def distribution_response_def rw_load_config_def
      saturating_add_def word_le_nat_alt word_less_nat_alt sent_def)

end
