(* ===== verification/Multisig.thy ===== *)
theory Multisig
  imports Permissions Verifier_Set "HOL-Library.Multiset"
begin

text \<open>
  The multisig contract, \<open>contracts/multisig/src\<close>: verifier sets, the verifiers' public keys, the
  provers that may ask for signatures, and the signing sessions in which the verifiers of a set
  sign a message until the weight of the signers reaches the set's threshold. The hash function,
  the curve libraries, the hexadecimal encoding, the validation of addresses and the order in which a
  hash map is traversed are parameters, collected with the block height in \<open>ms_env\<close>.
\<close>

section \<open>Definitions\<close>

subsection \<open>State\<close>

record ms_config =
  mc_rewards_contract :: string
  mc_block_expiry :: u64
  mc_coordinator :: string

datatype multisig_state = Pending | Completed (completed_at: u64)

record signing_session =
  ss_id :: u64
  ss_verifier_set_id :: string
  ss_chain_name :: string
  ss_msg :: "u8 list"
  ss_state :: multisig_state
  ss_expires_at :: u64
  ss_sig_verifier :: "string option"

definition signing_session_new ::
  "u64 \<Rightarrow> string \<Rightarrow> string \<Rightarrow> u8 list \<Rightarrow> u64 \<Rightarrow> string option \<Rightarrow> signing_session" where
  "signing_session_new session_id set_id chain_name msg expires_at sig_verifier =
     \<lparr>ss_id = session_id, ss_verifier_set_id = set_id, ss_chain_name = chain_name, ss_msg = msg,
      ss_state = Pending, ss_expires_at = expires_at, ss_sig_verifier = sig_verifier\<rparr>"

record ms_state =
  ms_config :: "ms_config option"
  ms_perms :: permission_state
  ms_killswitch :: "killswitch option"
  ms_session_counter :: "u64 option"
  ms_sessions :: "(u64, signing_session) kv"
  ms_prover_chain :: "(string, string \<times> string) kv"
  ms_verifier_sets :: "(string, verifier_set) kv"
  ms_signatures :: "(u64 \<times> string, signature) kv"
  ms_pub_keys :: "(string \<times> key_type, u8 list) kv"

datatype ms_error =
    MsStd
  | MsOverflow
  | MsStorage
  | NoActiveVerifierSetFound string
  | DuplicateSignature u64 string
  | NotAParticipant u64 string
  | InvalidSignature u64 string
  | InvalidPublicKeyRegistrationSignature
  | DuplicatePublicKey
  | MsKeyErr key_error
  | SigningSessionClosed u64
  | SigningSessionNotFound u64
  | SigningDisabled
  | ProverNotFound string
  | MsAddressErr address_error
  | MsPermissionErr permission_error

datatype ms_event =
    SigningStarted u64 string "(string, public_key) kv" "u8 list" string u64
  | SignatureSubmitted u64 string signature
  | SigningCompleted u64 u64 string
  | PublicKeyRegistered string public_key
  | CallerAuthorized string string
  | CallerUnauthorized string string
  | SigningEnabledEv
  | SigningDisabledEv

datatype ms_out =
    MsRecordParticipation string string string string
  | VerifySignature string "u8 list" "u8 list" "u8 list" string u64

record ms_response = "(ms_out, ms_event) response" +
  rsp_data :: "u64 option"

definition ms_response_new :: "ms_out list \<Rightarrow> ms_event list \<Rightarrow> ms_response" where
  "ms_response_new ms es = \<lparr>messages = ms, events = es, rsp_data = None\<rparr>"

record ms_env =
  me_height :: u64
  me_keccak256 :: "u8 list \<Rightarrow> u8 list"
  me_to_hex :: "u8 list \<Rightarrow> string"
  me_crypto :: crypto
  me_addr_validate :: "string \<Rightarrow> string option"
  me_map_order :: "(string, string) kv \<Rightarrow> (string \<times> string) list"

definition load_session_signatures :: "ms_state \<Rightarrow> u64 \<Rightarrow> (string, signature) kv" where
  "load_session_signatures s session_id =
     map (\<lambda>((_, a), sig). (a, sig)) (filter (\<lambda>((i, _), _). i = session_id) (ms_signatures s))"

definition save_signature ::
  "ms_state \<Rightarrow> u64 \<Rightarrow> signature \<Rightarrow> string \<Rightarrow> (ms_error, ms_state) result" where
  "save_signature s session_id signature signer =
     (case kv_get (ms_signatures s) (session_id, signer) of
        Some _ \<Rightarrow> fail (DuplicateSignature session_id signer)
      | None \<Rightarrow> Ok (s\<lparr>ms_signatures := kv_set (session_id, signer) signature (ms_signatures s)\<rparr>))"

definition ms_verifier_set :: "ms_state \<Rightarrow> string \<Rightarrow> (ms_error, verifier_set) result" where
  "ms_verifier_set s i = ok_or (NoActiveVerifierSetFound i) (kv_get (ms_verifier_sets s) i)"

text \<open>The registered keys have a unique index by their bytes.\<close>

definition pub_key_registered :: "ms_state \<Rightarrow> u8 list \<Rightarrow> bool" where
  "pub_key_registered s key = list_ex (\<lambda>(_, k). k = key) (ms_pub_keys s)"

definition load_pub_key :: "ms_state \<Rightarrow> string \<Rightarrow> key_type \<Rightarrow> (ms_error, u8 list) result" where
  "load_pub_key s signer key_type = ok_or MsStd (kv_get (ms_pub_keys s) (signer, key_type))"

definition save_pub_key :: "ms_state \<Rightarrow> string \<Rightarrow> public_key \<Rightarrow> (ms_error, ms_state) result" where
  "save_pub_key s signer pub_key =
     (if pub_key_registered s (public_key_bytes pub_key) then fail DuplicatePublicKey
      else Ok (s\<lparr>ms_pub_keys := kv_set (signer, public_key_type pub_key) (public_key_bytes pub_key) (ms_pub_keys s)\<rparr>))"

text \<open>
  Provers have a unique index by their chain: saving a prover replaces its own entry, and fails
  if another prover has the chain.
\<close>

definition save_prover :: "ms_state \<Rightarrow> string \<Rightarrow> string \<Rightarrow> (ms_error, ms_state) result" where
  "save_prover s contract_address chain_name =
     (if list_ex (\<lambda>(a, (_, c)). a \<noteq> contract_address \<and> c = chain_name) (ms_prover_chain s) then fail MsStd
      else Ok (s\<lparr>ms_prover_chain := kv_set contract_address (contract_address, chain_name) (ms_prover_chain s)\<rparr>))"

definition remove_prover :: "ms_state \<Rightarrow> string \<Rightarrow> ms_state \<times> string option" where
  "remove_prover s contract_address =
     (case kv_get (ms_prover_chain s) contract_address of
        Some (_, chain) \<Rightarrow> (s\<lparr>ms_prover_chain := kv_del contract_address (ms_prover_chain s)\<rparr>, Some chain)
      | None \<Rightarrow> (s, None))"

definition chain_by_prover :: "ms_state \<Rightarrow> string \<Rightarrow> string option" where
  "chain_by_prover s contract_address = map_option snd (kv_get (ms_prover_chain s) contract_address)"

definition prover_by_chain :: "ms_state \<Rightarrow> string \<Rightarrow> string option" where
  "prover_by_chain s chain_name =
     (case filter (\<lambda>(_, (_, c)). c = chain_name) (ms_prover_chain s) of [] \<Rightarrow> None | (_, (a, _)) # _ \<Rightarrow> Some a)"

subsection \<open>Signing sessions\<close>

definition signers_weight :: "(string, signature) kv \<Rightarrow> verifier_set \<Rightarrow> ('e, u128) result" where
  "signers_weight signatures vs =
     and_then (try_map (\<lambda>(a, _).
       and_then (expect_some ''violated invariant: signature submitted by non-participant''
         (kv_get (vs_signers vs) a)) (\<lambda>signer. Ok (sg_weight signer))) signatures) (\<lambda>weights.
     sum_u128 weights 0)"

definition recalculate_session_state ::
  "signing_session \<Rightarrow> (string, signature) kv \<Rightarrow> verifier_set \<Rightarrow> u64 \<Rightarrow> ('e, signing_session) result" where
  "recalculate_session_state session signatures vs block_height =
     and_then (signers_weight signatures vs) (\<lambda>weight.
     Ok (if ss_state session = Pending \<and> weight \<ge> vs_threshold vs
         then session\<lparr>ss_state := Completed block_height\<rparr> else session))"

definition call_sig_verifier ::
  "string \<Rightarrow> u8 list \<Rightarrow> u8 list \<Rightarrow> u8 list \<Rightarrow> string \<Rightarrow> u64 \<Rightarrow> ms_out" where
  "call_sig_verifier sig_verifier signature message pub_key signer session_id =
     VerifySignature sig_verifier signature message pub_key signer session_id"

definition validate_session_signature ::
  "ms_env \<Rightarrow> signing_session \<Rightarrow> string \<Rightarrow> signature \<Rightarrow> public_key \<Rightarrow> (ms_error, ms_out option) result" where
  "validate_session_signature env session signer signature pub_key =
     (if ss_expires_at session < me_height env then fail (SigningSessionClosed (ss_id session))
      else case ss_sig_verifier session of
        Some sig_verifier \<Rightarrow>
          Ok (Some (call_sig_verifier sig_verifier (signature_bytes signature) (ss_msg session)
                (public_key_bytes pub_key) signer (ss_id session)))
      | None \<Rightarrow>
          and_then (change_context (InvalidSignature (ss_id session) signer)
            (signature_verify (me_crypto env) signature (ss_msg session) pub_key)) (\<lambda>_. Ok None))"

subsection \<open>Operations\<close>

definition start_signing_session ::
  "ms_env \<Rightarrow> ms_state \<Rightarrow> string \<Rightarrow> u8 list \<Rightarrow> string \<Rightarrow> string option
     \<Rightarrow> (ms_error, ms_state \<times> ms_response) result" where
  "start_signing_session env s set_id msg chain_name sig_verifier =
     and_then (ensure (is_contract_active (ms_killswitch s)) SigningDisabled) (\<lambda>_.
     and_then (ok_or MsStd (ms_config s)) (\<lambda>config.
     and_then (ms_verifier_set s set_id) (\<lambda>vs.
     and_then (ok_or MsStd (ms_session_counter s)) (\<lambda>counter.
     and_then (ok_or MsOverflow (checked_add counter 1)) (\<lambda>session_id.
     and_then (ok_or MsOverflow (checked_add (me_height env) (mc_block_expiry config))) (\<lambda>expires_at.
     Ok (s\<lparr>ms_session_counter := Some session_id,
           ms_sessions := kv_set session_id
             (signing_session_new session_id set_id chain_name msg expires_at sig_verifier) (ms_sessions s)\<rparr>,
         \<lparr>messages = [],
          events = [SigningStarted session_id set_id (verifier_set_pub_keys vs) msg chain_name expires_at],
          rsp_data = Some session_id\<rparr>)))))))"

definition signing_response ::
  "signing_session \<Rightarrow> bool \<Rightarrow> string \<Rightarrow> signature \<Rightarrow> string \<Rightarrow> ms_response" where
  "signing_response session state_changed signer signature rewards_contract =
     ms_response_new
       [MsRecordParticipation rewards_contract (ss_chain_name session) (show_word (ss_id session)) signer]
       (SignatureSubmitted (ss_id session) signer signature
        # (case ss_state session of
             Completed at \<Rightarrow>
               if state_changed then [SigningCompleted (ss_id session) at (ss_chain_name session)] else []
           | Pending \<Rightarrow> []))"

definition submit_signature ::
  "ms_env \<Rightarrow> ms_state \<Rightarrow> string \<Rightarrow> u64 \<Rightarrow> u8 list \<Rightarrow> (ms_error, ms_state \<times> ms_response) result" where
  "submit_signature env s sender session_id signature =
     and_then (ensure (is_contract_active (ms_killswitch s)) SigningDisabled) (\<lambda>_.
     and_then (ok_or MsStd (ms_config s)) (\<lambda>config.
     and_then (ok_or (SigningSessionNotFound session_id) (kv_get (ms_sessions s) session_id)) (\<lambda>session.
     and_then (ok_or MsStd (kv_get (ms_verifier_sets s) (ss_verifier_set_id session))) (\<lambda>vs.
     and_then (ok_or (NotAParticipant session_id sender) (kv_get (vs_signers vs) sender)) (\<lambda>signer.
     let pub_key = sg_pub_key signer in
     and_then (map_err MsKeyErr (signature_try_from (public_key_type pub_key) signature)) (\<lambda>signature.
     and_then (validate_session_signature env session sender signature pub_key) (\<lambda>sig_verifier_msg.
     and_then (save_signature s session_id signature sender) (\<lambda>s1.
     let signatures = load_session_signatures s1 session_id; old_state = ss_state session in
     and_then (recalculate_session_state session signatures vs (me_height env)) (\<lambda>session.
     let s2 = s1\<lparr>ms_sessions := kv_set (ss_id session) session (ms_sessions s1)\<rparr>;
         res = signing_response session (old_state \<noteq> ss_state session) sender signature (mc_rewards_contract config) in
     Ok (s2, case sig_verifier_msg of
               Some msg \<Rightarrow> res\<lparr>messages := messages res @ [msg]\<rparr>
             | None \<Rightarrow> res))))))))))"

definition register_verifier_set :: "ms_env \<Rightarrow> ms_state \<Rightarrow> verifier_set \<Rightarrow> (ms_error, ms_state \<times> ms_response) result" where
  "register_verifier_set env s vs =
     Ok (s\<lparr>ms_verifier_sets := kv_set (verifier_set_id (me_keccak256 env) (me_to_hex env) vs) vs (ms_verifier_sets s)\<rparr>,
         ms_response_new [] [])"

definition register_pub_key ::
  "ms_env \<Rightarrow> ms_state \<Rightarrow> string \<Rightarrow> public_key \<Rightarrow> u8 list \<Rightarrow> (ms_error, ms_state \<times> ms_response) result" where
  "register_pub_key env s sender public_key signed_sender_address =
     and_then (map_err MsKeyErr (signature_try_from (public_key_type public_key) signed_sender_address)) (\<lambda>sig.
     let address_hash = me_keccak256 env (str_bytes sender) in
     and_then (change_context InvalidPublicKeyRegistrationSignature
       (signature_verify (me_crypto env) sig address_hash public_key)) (\<lambda>_.
     and_then (save_pub_key s sender public_key) (\<lambda>s1.
     Ok (s1, ms_response_new [] [PublicKeyRegistered sender public_key]))))"

definition authorize_callers ::
  "ms_state \<Rightarrow> (string \<times> string) list \<Rightarrow> (ms_error, ms_state \<times> ms_response) result" where
  "authorize_callers s contracts =
     and_then (try_fold (\<lambda>s (contract_address, chain_name). save_prover s contract_address chain_name) s contracts) (\<lambda>s1.
     Ok (s1, ms_response_new [] (map (\<lambda>(a, c). CallerAuthorized a c) contracts)))"

fun remove_provers :: "ms_state \<Rightarrow> string list \<Rightarrow> ms_state \<times> (string \<times> string) list" where
  "remove_provers s [] = (s, [])"
| "remove_provers s (a # callers) =
     (let (s1, removed) = remove_prover s a; (s2, rest) = remove_provers s1 callers
      in (s2, (case removed of None \<Rightarrow> [] | Some chain \<Rightarrow> [(a, chain)]) @ rest))"

definition unauthorize_callers :: "ms_state \<Rightarrow> string list \<Rightarrow> (ms_error, ms_state \<times> ms_response) result" where
  "unauthorize_callers s callers =
     (let (s1, callers_and_chains) = remove_provers s callers
      in Ok (s1, ms_response_new [] (map (\<lambda>(a, c). CallerUnauthorized a c) callers_and_chains)))"

definition enable_signing :: "ms_state \<Rightarrow> (ms_error, ms_state \<times> ms_response) result" where
  "enable_signing s =
     and_then (change_context MsStd (killswitch_disengage (ms_killswitch s) SigningEnabledEv)) (\<lambda>(k, es).
     Ok (s\<lparr>ms_killswitch := k\<rparr>, ms_response_new [] es))"

definition disable_signing :: "ms_state \<Rightarrow> (ms_error, ms_state \<times> ms_response) result" where
  "disable_signing s =
     and_then (change_context MsStd (killswitch_engage (ms_killswitch s) SigningDisabledEv)) (\<lambda>(k, es).
     Ok (s\<lparr>ms_killswitch := k\<rparr>, ms_response_new [] es))"

definition update_signing_parameters :: "ms_state \<Rightarrow> u64 option \<Rightarrow> (ms_error, ms_state \<times> ms_response) result" where
  "update_signing_parameters s block_expiry =
     and_then (ok_or MsStorage (ms_config s)) (\<lambda>config.
     Ok (s\<lparr>ms_config := Some (config\<lparr>mc_block_expiry := case_option (mc_block_expiry config) id block_expiry\<rparr>)\<rparr>,
         ms_response_new [] []))"

subsection \<open>Entry points\<close>

datatype ms_msg =
    StartSigningSession string "u8 list" string "string option"
  | SubmitSignature u64 "u8 list"
  | RegisterVerifierSet verifier_set
  | RegisterPublicKey public_key "u8 list"
  | AuthorizeCallers "(string \<times> string) list"
  | UnauthorizeCallers "string list"
  | DisableSigning
  | EnableSigning
  | UpdateSigningParameters "u64 option"

fun ms_permissions :: "ms_msg \<Rightarrow> msg_permissions" where
  "ms_permissions (StartSigningSession _ _ _ _) =
     \<lparr>specific_perms = [''authorized''], general_perms = [], external_perms = []\<rparr>"
| "ms_permissions (SubmitSignature _ _) = \<lparr>specific_perms = [], general_perms = [Any], external_perms = []\<rparr>"
| "ms_permissions (RegisterVerifierSet _) = \<lparr>specific_perms = [], general_perms = [Any], external_perms = []\<rparr>"
| "ms_permissions (RegisterPublicKey _ _) = \<lparr>specific_perms = [], general_perms = [Any], external_perms = []\<rparr>"
| "ms_permissions (AuthorizeCallers _) =
     \<lparr>specific_perms = [], general_perms = [Governance], external_perms = [''coordinator'']\<rparr>"
| "ms_permissions (UnauthorizeCallers _) = \<lparr>specific_perms = [], general_perms = [Elevated], external_perms = []\<rparr>"
| "ms_permissions DisableSigning = \<lparr>specific_perms = [], general_perms = [Elevated], external_perms = []\<rparr>"
| "ms_permissions EnableSigning = \<lparr>specific_perms = [], general_perms = [Elevated], external_perms = []\<rparr>"
| "ms_permissions (UpdateSigningParameters _) = \<lparr>specific_perms = [], general_perms = [Governance], external_perms = []\<rparr>"

definition caller_authorized :: "ms_state \<Rightarrow> string \<Rightarrow> string \<Rightarrow> bool" where
  "caller_authorized s address chain_name = (chain_by_prover s address = Some chain_name)"

fun can_start_signing_session :: "ms_state \<Rightarrow> string \<Rightarrow> ms_msg \<Rightarrow> (permission_error, bool) result" where
  "can_start_signing_session s sender (StartSigningSession _ _ chain_name _) = Ok (caller_authorized s sender chain_name)"
| "can_start_signing_session s sender _ = fail WrongVariant"

definition ms_find_coordinator :: "ms_state \<Rightarrow> (ms_error, string) result" where
  "ms_find_coordinator s = and_then (ok_or MsStd (ms_config s)) (\<lambda>config. Ok (mc_coordinator config))"

definition validate_contract_addresses :: "(string \<Rightarrow> string option) \<Rightarrow> string list \<Rightarrow> (address_error, string list) result" where
  "validate_contract_addresses av contracts = try_map (validate_cosmwasm_address av) contracts"

fun ms_dispatch ::
  "ms_env \<Rightarrow> ms_state \<Rightarrow> string \<Rightarrow> ms_msg \<Rightarrow> (ms_error, ms_state \<times> ms_response) result" where
  "ms_dispatch env s sender (StartSigningSession set_id msg chain_name sig_verifier) =
     and_then (map_err MsAddressErr (case sig_verifier of
         None \<Rightarrow> Ok None
       | Some a \<Rightarrow> and_then (validate_cosmwasm_address (me_addr_validate env) a) (\<lambda>a. Ok (Some a)))) (\<lambda>sig_verifier.
     start_signing_session env s set_id msg chain_name sig_verifier)"
| "ms_dispatch env s sender (SubmitSignature session_id sig) = submit_signature env s sender session_id sig"
| "ms_dispatch env s sender (RegisterVerifierSet vs) = register_verifier_set env s vs"
| "ms_dispatch env s sender (RegisterPublicKey pk sig) = register_pub_key env s sender pk sig"
| "ms_dispatch env s sender (AuthorizeCallers contracts) =
     and_then (map_err MsAddressErr (try_map (\<lambda>(a, chain_name).
       and_then (validate_cosmwasm_address (me_addr_validate env) a) (\<lambda>a. Ok (a, chain_name))) contracts)) (\<lambda>contracts.
     authorize_callers s (me_map_order env (kv_of_list contracts)))"
| "ms_dispatch env s sender (UnauthorizeCallers contracts) =
     and_then (map_err MsAddressErr (validate_contract_addresses (me_addr_validate env) contracts)) (\<lambda>contracts.
     unauthorize_callers s contracts)"
| "ms_dispatch env s sender DisableSigning = disable_signing s"
| "ms_dispatch env s sender EnableSigning = enable_signing s"
| "ms_dispatch env s sender (UpdateSigningParameters block_expiry) = update_signing_parameters s block_expiry"

definition ms_execute ::
  "ms_env \<Rightarrow> ms_state \<Rightarrow> string \<Rightarrow> ms_msg from_proxy \<Rightarrow> (ms_error, ms_state \<times> ms_response) result" where
  "ms_execute env s sender msg =
     and_then (map_err MsPermissionErr
       (authorize (ms_perms s) [(''coordinator'', ms_find_coordinator s)] ms_permissions
          (\<lambda>m role a. can_start_signing_session s a m) sender msg)) (\<lambda>(sender', m).
     ms_dispatch env s sender' m)"

definition ms_instantiate ::
  "ms_env \<Rightarrow> string \<Rightarrow> string \<Rightarrow> string \<Rightarrow> u64 \<Rightarrow> string \<Rightarrow> (ms_error, ms_state \<times> ms_response) result" where
  "ms_instantiate env governance_address admin_address rewards_address block_expiry coordinator_address =
     (let validate = \<lambda>a. map_err MsAddressErr (validate_cosmwasm_address (me_addr_validate env) a) in
      and_then (validate admin_address) (\<lambda>admin.
      and_then (validate governance_address) (\<lambda>governance.
      and_then (validate coordinator_address) (\<lambda>coordinator.
      and_then (validate rewards_address) (\<lambda>rewards.
      Ok (\<lparr>ms_config = Some \<lparr>mc_rewards_contract = rewards, mc_block_expiry = block_expiry, mc_coordinator = coordinator\<rparr>,
           ms_perms = set_governance governance (set_admin admin \<lparr>admin_addr = None, governance_addr = None\<rparr>),
           ms_killswitch = killswitch_init Disengaged, ms_session_counter = Some 0, ms_sessions = [],
           ms_prover_chain = [], ms_verifier_sets = [], ms_signatures = [], ms_pub_keys = []\<rparr>,
          ms_response_new [] []))))))"

subsection \<open>Queries\<close>

record multisig =
  mu_state :: multisig_state
  mu_verifier_set :: verifier_set
  mu_signatures :: "(string, signature) kv"

definition query_multisig :: "ms_state \<Rightarrow> u64 \<Rightarrow> (ms_error, multisig) result" where
  "query_multisig s session_id =
     and_then (ok_or MsStd (kv_get (ms_sessions s) session_id)) (\<lambda>session.
     and_then (ok_or MsStd (kv_get (ms_verifier_sets s) (ss_verifier_set_id session))) (\<lambda>vs.
     Ok \<lparr>mu_state = ss_state session, mu_verifier_set = vs,
         mu_signatures = load_session_signatures s (ss_id session)\<rparr>))"

definition query_public_key :: "ms_env \<Rightarrow> ms_state \<Rightarrow> string \<Rightarrow> key_type \<Rightarrow> (ms_error, public_key) result" where
  "query_public_key env s verifier key_type =
     and_then (load_pub_key s verifier key_type) (\<lambda>raw.
     expect_ok ''could not decode pub key'' (public_key_try_from (me_crypto env) key_type raw))"

definition prover_for_chain :: "ms_state \<Rightarrow> string \<Rightarrow> (ms_error, string) result" where
  "prover_for_chain s chain_name = ok_or (ProverNotFound chain_name) (prover_by_chain s chain_name)"

definition signing_parameters :: "ms_state \<Rightarrow> (ms_error, u64) result" where
  "signing_parameters s = and_then (ok_or MsStorage (ms_config s)) (\<lambda>config. Ok (mc_block_expiry config))"

text \<open>The signatures are a hash map: the list is any order in which it is traversed.\<close>

definition multisig_signer :: "multisig \<Rightarrow> string \<Rightarrow> ('e, signer) result" where
  "multisig_signer m address = expect_some ''signer not found in verifier set'' (kv_get (vs_signers (mu_verifier_set m)) address)"

fun scan_signatures ::
  "u128 \<Rightarrow> u128 \<Rightarrow> (signer \<times> signature) list \<Rightarrow> (signer \<times> signature) list" where
  "scan_signatures threshold acc [] = []"
| "scan_signatures threshold acc ((signer, sig) # rest) =
     (if acc < threshold
      then (signer, sig) # scan_signatures threshold (saturating_add acc (sg_weight signer)) rest
      else [])"

definition optimize_signatures :: "multisig \<Rightarrow> ('e, (signer \<times> signature) list) result" where
  "optimize_signatures m =
     and_then (try_map (\<lambda>(a, sig). and_then (multisig_signer m a) (\<lambda>signer. Ok (signer, sig))) (mu_signatures m)) (\<lambda>sigs.
     Ok (scan_signatures (vs_threshold (mu_verifier_set m)) 0
           (sort_key (\<lambda>(signer, _). - int (unat (sg_weight signer))) sigs)))"

subsection \<open>Transactions and reachable states\<close>

text \<open>
  The parameters that stay the same over the life of the contract, and the verifier sets that are
  registered: the identifier must tell them apart, as it does for sets in which every signer
  stands under its own address.
\<close>

record ms_setting =
  st_keccak256 :: "u8 list \<Rightarrow> u8 list"
  st_to_hex :: "u8 list \<Rightarrow> string"
  st_crypto :: crypto
  st_set_ok :: "verifier_set \<Rightarrow> bool"

abbreviation set_id_of :: "ms_setting \<Rightarrow> verifier_set \<Rightarrow> string" where
  "set_id_of c \<equiv> verifier_set_id (st_keccak256 c) (st_to_hex c)"

definition ids_unique :: "ms_setting \<Rightarrow> bool" where
  "ids_unique c \<longleftrightarrow> (\<forall>a b. st_set_ok c a \<longrightarrow> st_set_ok c b \<longrightarrow> set_id_of c a = set_id_of c b \<longrightarrow> a = b)"

type_synonym ms_call = "ms_env \<times> string \<times> ms_msg from_proxy"

fun call_msg :: "'m from_proxy \<Rightarrow> 'm" where
  "call_msg (Direct m) = m"
| "call_msg (Relay _ m) = m"

fun ms_msg_ok :: "ms_setting \<Rightarrow> ms_msg \<Rightarrow> bool" where
  "ms_msg_ok c (RegisterVerifierSet vs) \<longleftrightarrow> st_set_ok c vs"
| "ms_msg_ok c _ \<longleftrightarrow> True"

definition ms_call_ok :: "ms_setting \<Rightarrow> ms_call \<Rightarrow> bool" where
  "ms_call_ok c call = (case call of (env, _, msg) \<Rightarrow>
     me_keccak256 env = st_keccak256 c \<and> me_to_hex env = st_to_hex c \<and> me_crypto env = st_crypto c
     \<and> ms_msg_ok c (call_msg msg))"

definition ms_tx :: "ms_state \<Rightarrow> ms_call \<Rightarrow> (ms_error, ms_state \<times> ms_response) result" where
  "ms_tx s call = (case call of (env, sender, msg) \<Rightarrow> ms_execute env s sender msg)"

inductive ms_reachable :: "ms_setting \<Rightarrow> ms_state \<Rightarrow> bool" for c where
  ms_init: "ms_instantiate env governance admin rewards block_expiry coordinator = Inr (s, r) \<Longrightarrow> ms_reachable c s"
| ms_step: "ms_reachable c s \<Longrightarrow> ms_call_ok c call \<Longrightarrow> ms_tx s call = Inr (s', r) \<Longrightarrow> ms_reachable c s'"

subsection \<open>Invariants\<close>

definition signer_weight :: "verifier_set \<Rightarrow> string \<Rightarrow> nat" where
  "signer_weight vs a = (case kv_get (vs_signers vs) a of None \<Rightarrow> 0 | Some x \<Rightarrow> unat (sg_weight x))"

text \<open>The weight of the signatures of a session, and that they are valid ones of participants.\<close>

definition signed_weight :: "ms_state \<Rightarrow> u64 \<Rightarrow> verifier_set \<Rightarrow> nat" where
  "signed_weight s i vs = sum_list (map (\<lambda>((j, a), _). if j = i then signer_weight vs a else 0) (ms_signatures s))"

definition signature_valid :: "crypto \<Rightarrow> signing_session \<Rightarrow> verifier_set \<Rightarrow> string \<Rightarrow> signature \<Rightarrow> bool" where
  "signature_valid cr ss vs a sig \<longleftrightarrow>
     (\<exists>x. kv_get (vs_signers vs) a = Some x
        \<and> (ss_sig_verifier ss = None \<longrightarrow> signature_verify cr sig (ss_msg ss) (sg_pub_key x) = Inr ()))"

definition session_inv :: "ms_setting \<Rightarrow> ms_state \<Rightarrow> u64 \<Rightarrow> signing_session \<Rightarrow> bool" where
  "session_inv c s i ss \<longleftrightarrow> ss_id ss = i
     \<and> (\<exists>vs. kv_get (ms_verifier_sets s) (ss_verifier_set_id ss) = Some vs
          \<and> (\<forall>a sig. kv_get (ms_signatures s) (i, a) = Some sig \<longrightarrow> signature_valid (st_crypto c) ss vs a sig)
          \<and> (case ss_state ss of
               Completed at \<Rightarrow> unat (vs_threshold vs) \<le> signed_weight s i vs
             | Pending \<Rightarrow> (\<forall>a. kv_get (ms_signatures s) (i, a) = None) \<or> signed_weight s i vs < unat (vs_threshold vs)))"

definition sessions_inv :: "ms_setting \<Rightarrow> ms_state \<Rightarrow> bool" where
  "sessions_inv c s \<longleftrightarrow> kv_ok (ms_signatures s)
     \<and> (\<forall>i ss. kv_get (ms_sessions s) i = Some ss \<longrightarrow> session_inv c s i ss)
     \<and> (\<forall>i a. kv_get (ms_signatures s) (i, a) \<noteq> None \<longrightarrow> kv_get (ms_sessions s) i \<noteq> None)
     \<and> (\<exists>n. ms_session_counter s = Some n \<and> (\<forall>i. kv_get (ms_sessions s) i \<noteq> None \<longrightarrow> i \<le> n))"

definition sets_inv :: "ms_setting \<Rightarrow> (string, verifier_set) kv \<Rightarrow> bool" where
  "sets_inv c sets \<longleftrightarrow> (\<forall>i vs. kv_get sets i = Some vs \<longrightarrow> i = set_id_of c vs \<and> st_set_ok c vs)"

definition provers_inv :: "(string, string \<times> string) kv \<Rightarrow> bool" where
  "provers_inv ps \<longleftrightarrow> kv_ok ps \<and> (\<forall>a b ch. kv_get ps a = Some (b, ch) \<longrightarrow> b = a)
     \<and> (\<forall>a b x y. kv_get ps a = Some x \<longrightarrow> kv_get ps b = Some y \<longrightarrow> snd x = snd y \<longrightarrow> a = b)"

definition keys_inv :: "(string \<times> key_type, u8 list) kv \<Rightarrow> bool" where
  "keys_inv ks \<longleftrightarrow> kv_ok ks \<and> (\<forall>a b key. kv_get ks a = Some key \<longrightarrow> kv_get ks b = Some key \<longrightarrow> a = b)"

definition ms_inv :: "ms_setting \<Rightarrow> ms_state \<Rightarrow> bool" where
  "ms_inv c s \<longleftrightarrow> ms_config s \<noteq> None \<and> ms_killswitch s \<noteq> None \<and> sessions_inv c s
     \<and> sets_inv c (ms_verifier_sets s) \<and> provers_inv (ms_prover_chain s) \<and> keys_inv (ms_pub_keys s)"

text \<open>What a transaction keeps: sessions but for their completion, signatures and verifier sets.\<close>

definition session_evolves :: "signing_session \<Rightarrow> signing_session \<Rightarrow> bool" where
  "session_evolves ss ss' \<longleftrightarrow> ss\<lparr>ss_state := Pending\<rparr> = ss'\<lparr>ss_state := Pending\<rparr>
     \<and> (ss_state ss \<noteq> Pending \<longrightarrow> ss_state ss' = ss_state ss)"

definition sessions_evolve :: "(u64, signing_session) kv \<Rightarrow> (u64, signing_session) kv \<Rightarrow> bool" where
  "sessions_evolve m m' \<longleftrightarrow>
     (\<forall>i ss. kv_get m i = Some ss \<longrightarrow> (\<exists>ss'. kv_get m' i = Some ss' \<and> session_evolves ss ss'))"

definition ms_extends :: "ms_state \<Rightarrow> ms_state \<Rightarrow> bool" where
  "ms_extends s s' \<longleftrightarrow> sessions_evolve (ms_sessions s) (ms_sessions s')
     \<and> (\<forall>k sig. kv_get (ms_signatures s) k = Some sig \<longrightarrow> kv_get (ms_signatures s') k = Some sig)
     \<and> (\<forall>i vs. kv_get (ms_verifier_sets s) i = Some vs \<longrightarrow> kv_get (ms_verifier_sets s') i = Some vs)
     \<and> ms_perms s' = ms_perms s"

text \<open>Signatures by the falling weight of their signers.\<close>

definition by_weight :: "verifier_set \<Rightarrow> (string, signature) kv \<Rightarrow> (string, signature) kv" where
  "by_weight vs sigs = sort_key (\<lambda>x. - int (signer_weight vs (fst x))) sigs"

section \<open>Lemmas\<close>

subsection \<open>Weights\<close>

lemma kv_get_load_session_signatures: "kv_get (load_session_signatures s i) a = kv_get (ms_signatures s) (i, a)"
proof -
  have "map_of (map (\<lambda>((_, a), sig). (a, sig)) (filter (\<lambda>((j, _), _). j = i) sigs)) a = map_of sigs (i, a)"
    for sigs :: "(u64 \<times> string, signature) kv"
    by (induction sigs) auto
  then show ?thesis by (simp add: load_session_signatures_def)
qed

lemma signed_weight_load:
  "signed_weight s i vs = sum_list (map (\<lambda>(a, _). signer_weight vs a) (load_session_signatures s i))"
proof -
  have "sum_list (map (\<lambda>((j, a), _). if j = i then signer_weight vs a else 0) sigs) =
      sum_list (map (\<lambda>(a, _). signer_weight vs a)
        (map (\<lambda>((_, a), sig). (a, sig)) (filter (\<lambda>((j, _), _). j = i) sigs)))"
    for sigs :: "(u64 \<times> string, signature) kv"
    by (induction sigs) auto
  then show ?thesis by (simp add: load_session_signatures_def signed_weight_def)
qed

lemma signers_weight_Inr:
  assumes "signers_weight sigs vs = Inr w"
  shows "unat w = sum_list (map (\<lambda>(a, _). signer_weight vs a) sigs)"
proof -
  from assms obtain ws where
      ws: "list_all2 (\<lambda>x w. \<exists>y. kv_get (vs_signers vs) (fst x) = Some y \<and> sg_weight y = w) sigs ws"
    and "sum_u128 ws 0 = (Inr w :: ('a, _) result)"
    by (auto simp: signers_weight_def result_simps case_prod_beta)
  moreover have "map unat ws = map (\<lambda>(a, _). signer_weight vs a) sigs"
    using ws by (rule list_all2_map_eq) (auto simp: signer_weight_def)
  ultimately show ?thesis using sum_u128_Inr by fastforce
qed

lemma signed_weight_set:
  "kv_get (ms_signatures s) (i, a) = None \<Longrightarrow>
     signed_weight (s\<lparr>ms_signatures := kv_set (i, a) sig (ms_signatures s)\<rparr>) j vs =
     signed_weight s j vs + (if j = i then signer_weight vs a else 0)"
  by (simp add: signed_weight_def sum_list_kv_set_new)

subsection \<open>Preservation by components\<close>

lemma signed_weight_cong: "ms_signatures s' = ms_signatures s \<Longrightarrow> signed_weight s' = signed_weight s"
  by (simp add: signed_weight_def fun_eq_iff)

lemma session_inv_frame:
  assumes "session_inv c s i ss" and "ms_signatures s' = ms_signatures s"
    and "\<And>i vs. kv_get (ms_verifier_sets s) i = Some vs \<Longrightarrow> kv_get (ms_verifier_sets s') i = Some vs"
  shows "session_inv c s' i ss"
  using assms(1,3) unfolding session_inv_def assms(2) signed_weight_cong [OF assms(2)] by blast

lemma sessions_inv_frame:
  assumes "sessions_inv c s" and "ms_sessions s' = ms_sessions s" and "ms_signatures s' = ms_signatures s"
    and "ms_session_counter s' = ms_session_counter s"
    and "\<And>i vs. kv_get (ms_verifier_sets s) i = Some vs \<Longrightarrow> kv_get (ms_verifier_sets s') i = Some vs"
  shows "sessions_inv c s'"
  using assms(1) session_inv_frame [OF _ assms(3,5)] unfolding sessions_inv_def assms(2-4) by blast

lemma session_evolves_refl [simp]: "session_evolves ss ss"
  by (simp add: session_evolves_def)

lemma session_evolves_trans: "session_evolves a b \<Longrightarrow> session_evolves b c \<Longrightarrow> session_evolves a c"
  by (auto simp: session_evolves_def)

lemma sessions_evolve_refl [simp]: "sessions_evolve m m"
  by (auto simp: sessions_evolve_def)

lemma sessions_evolve_trans:
  assumes "sessions_evolve a b" and "sessions_evolve b c"
  shows "sessions_evolve a c"
  using assms session_evolves_trans unfolding sessions_evolve_def by meson

lemma ms_extends_refl [simp]: "ms_extends s s"
  by (simp add: ms_extends_def)

lemma ms_extends_trans: "ms_extends a b \<Longrightarrow> ms_extends b c \<Longrightarrow> ms_extends a c"
  by (auto simp: ms_extends_def intro: sessions_evolve_trans)

lemma ms_extends_frame:
  "ms_sessions s' = ms_sessions s \<Longrightarrow> ms_signatures s' = ms_signatures s \<Longrightarrow>
     ms_verifier_sets s' = ms_verifier_sets s \<Longrightarrow> ms_perms s' = ms_perms s \<Longrightarrow> ms_extends s s'"
  by (auto simp: ms_extends_def)

lemma keys_inv_save:
  assumes "keys_inv (ms_pub_keys s)" and "save_pub_key s a pk = Inr s'"
  shows "keys_inv (ms_pub_keys s') \<and> s' = s\<lparr>ms_pub_keys := ms_pub_keys s'\<rparr>
    \<and> kv_get (ms_pub_keys s') (a, public_key_type pk) = Some (public_key_bytes pk)
    \<and> (\<forall>k. k \<noteq> (a, public_key_type pk) \<longrightarrow> kv_get (ms_pub_keys s') k = kv_get (ms_pub_keys s) k)"
proof -
  from assms(2) have new: "\<not> pub_key_registered s (public_key_bytes pk)"
    and s': "s' = s\<lparr>ms_pub_keys := kv_set (a, public_key_type pk) (public_key_bytes pk) (ms_pub_keys s)\<rparr>"
    by (auto simp: save_pub_key_def split: if_splits)
  have "kv_get (ms_pub_keys s) k \<noteq> Some (public_key_bytes pk)" for k
    using new by (force simp: pub_key_registered_def list_ex_iff dest: map_of_SomeD)
  then show ?thesis using assms(1) s' by (auto simp: keys_inv_def)
qed

lemma provers_inv_save:
  assumes "save_prover s a ch = Inr s'" and "provers_inv (ms_prover_chain s)"
  shows "\<exists>ps. s' = s\<lparr>ms_prover_chain := ps\<rparr> \<and> provers_inv ps"
proof -
  from assms(1) have new: "\<not> list_ex (\<lambda>(b, (_, c)). b \<noteq> a \<and> c = ch) (ms_prover_chain s)"
    and s': "s' = s\<lparr>ms_prover_chain := kv_set a (a, ch) (ms_prover_chain s)\<rparr>"
    by (auto simp: save_prover_def split: if_splits)
  have "b = a" if "kv_get (ms_prover_chain s) b = Some (x, ch)" for b x
    using new that by (fastforce simp: list_ex_iff dest: map_of_SomeD)
  then have "provers_inv (kv_set a (a, ch) (ms_prover_chain s))"
    using assms(2) by (auto simp: provers_inv_def split: if_splits)
  then show ?thesis using s' by blast
qed

lemma provers_inv_saves:
  "try_fold (\<lambda>s (a, ch). save_prover s a ch) s cs = Inr s' \<Longrightarrow> provers_inv (ms_prover_chain s) \<Longrightarrow>
     \<exists>ps. s' = s\<lparr>ms_prover_chain := ps\<rparr> \<and> provers_inv ps"
proof (induction cs arbitrary: s)
  case Nil
  then show ?case by (intro exI [of _ "ms_prover_chain s"]) simp
next
  case (Cons x cs)
  obtain a ch where x: "x = (a, ch)" by (cases x)
  from Cons.prems(1) x obtain s1 where s1: "save_prover s a ch = Inr s1"
    and rest: "try_fold (\<lambda>s (a, ch). save_prover s a ch) s1 cs = Inr s'" by (auto simp: result_simps)
  from provers_inv_save [OF s1 Cons.prems(2)] Cons.IH [OF rest] show ?case by auto
qed

lemma provers_inv_del: "provers_inv ps \<Longrightarrow> provers_inv (kv_del a ps)"
  by (auto simp: provers_inv_def split: if_splits)

lemma provers_inv_removes:
  "remove_provers s as = (s', removed) \<Longrightarrow> provers_inv (ms_prover_chain s) \<Longrightarrow>
     \<exists>ps. s' = s\<lparr>ms_prover_chain := ps\<rparr> \<and> provers_inv ps
       \<and> (\<forall>b x. kv_get ps b = Some x \<longrightarrow> kv_get (ms_prover_chain s) b = Some x \<and> b \<notin> set as)"
proof (induction as arbitrary: s removed)
  case Nil
  then show ?case by (intro exI [of _ "ms_prover_chain s"]) simp
next
  case (Cons a as)
  obtain s1 r1 where s1: "remove_prover s a = (s1, r1)" by (cases "remove_prover s a")
  obtain r2 where rest: "remove_provers s1 as = (s', r2)"
    using Cons.prems(1) s1 by (auto simp: Let_def split: prod.splits)
  have s1': "s1 = s\<lparr>ms_prover_chain := kv_del a (ms_prover_chain s)\<rparr> \<or> s1 = s \<and> kv_get (ms_prover_chain s) a = None"
    using s1 by (auto simp: remove_prover_def split: option.splits)
  then have "provers_inv (ms_prover_chain s1)" using Cons.prems(2) by (auto intro: provers_inv_del)
  from Cons.IH [OF rest this] obtain ps where ps: "s' = s1\<lparr>ms_prover_chain := ps\<rparr>" "provers_inv ps"
    and sub: "\<forall>b x. kv_get ps b = Some x \<longrightarrow> kv_get (ms_prover_chain s1) b = Some x \<and> b \<notin> set as" by blast
  have "s' = s\<lparr>ms_prover_chain := ps\<rparr>" using ps(1) s1' by auto
  moreover have "kv_get (ms_prover_chain s) b = Some x \<and> b \<notin> set (a # as)" if "kv_get ps b = Some x" for b x
  proof -
    have "kv_get (ms_prover_chain s1) b = Some x" "b \<notin> set as" using sub that by blast+
    then show ?thesis using s1' by (elim disjE) (auto split: if_splits)
  qed
  ultimately show ?case using ps(2) by blast
qed

lemma sets_inv_register:
  assumes "ids_unique c" and "sets_inv c sets" and "st_set_ok c vs"
  shows "sets_inv c (kv_set (set_id_of c vs) vs sets)"
    and "kv_get sets i = Some ws \<Longrightarrow> kv_get (kv_set (set_id_of c vs) vs sets) i = Some ws"
  using assms unfolding sets_inv_def ids_unique_def by auto

lemma sessions_inv_put:
  assumes sess: "sessions_inv c s" and put: "ms_sessions s' = kv_set i ss' (ms_sessions s)"
    and n: "ms_session_counter s = Some n" "ms_session_counter s' = Some n'" "n \<le> n'" "i \<le> n'"
    and sigs: "kv_ok (ms_signatures s')"
      "\<And>j a. kv_get (ms_signatures s') (j, a) \<noteq> None \<Longrightarrow> j \<noteq> i \<Longrightarrow> kv_get (ms_signatures s) (j, a) \<noteq> None"
    and new: "session_inv c s' i ss'"
    and other: "\<And>j tt. session_inv c s j tt \<Longrightarrow> j \<noteq> i \<Longrightarrow> session_inv c s' j tt"
  shows "sessions_inv c s'"
  unfolding sessions_inv_def
proof (intro conjI allI impI)
  show "session_inv c s' j tt" if "kv_get (ms_sessions s') j = Some tt" for j tt
    using that new other sess unfolding sessions_inv_def put by (auto split: if_splits)
  show "kv_get (ms_sessions s') j \<noteq> None" if "kv_get (ms_signatures s') (j, b) \<noteq> None" for j b
  proof (cases "j = i")
    case False
    then have "kv_get (ms_signatures s) (j, b) \<noteq> None" using that sigs(2) by blast
    then have "kv_get (ms_sessions s) j \<noteq> None" using sess unfolding sessions_inv_def by blast
    then show ?thesis by (simp add: put)
  qed (simp add: put)
  show "\<exists>n. ms_session_counter s' = Some n \<and> (\<forall>j. kv_get (ms_sessions s') j \<noteq> None \<longrightarrow> j \<le> n)"
    using sess n unfolding sessions_inv_def put by fastforce
qed (rule sigs(1))

subsection \<open>Preservation by operations\<close>

lemma start_signing_session_Inr:
  assumes "start_signing_session env s set_id msg chain v = Inr (s', r)"
  obtains config vs n i e where "is_contract_active (ms_killswitch s)" "ms_config s = Some config"
    "kv_get (ms_verifier_sets s) set_id = Some vs" "ms_session_counter s = Some n" "checked_add n 1 = Some i"
    "checked_add (me_height env) (mc_block_expiry config) = Some e"
    "s' = s\<lparr>ms_session_counter := Some i,
            ms_sessions := kv_set i (signing_session_new i set_id chain msg e v) (ms_sessions s)\<rparr>"
    "rsp_data r = Some i"
  using assms by (auto simp: start_signing_session_def ms_verifier_set_def result_simps)

lemma start_signing_session_step:
  assumes run: "start_signing_session env s set_id msg chain v = Inr (s', r)" and inv: "ms_inv c s"
  shows "ms_inv c s' \<and> ms_extends s s'"
  using run
proof (cases rule: start_signing_session_Inr)
  case (1 config vs n i e)
  let ?ss = "signing_session_new i set_id chain msg e v"
  have sess: "sessions_inv c s" using inv by (simp add: ms_inv_def)
  have ni: "n < i" using checked_add_unat [OF 1(5)] by (simp add: word_less_nat_alt)
  then have none: "kv_get (ms_sessions s) i = None"
    using sess 1(4) unfolding sessions_inv_def by (metis leD option.inject)
  have sigs: "kv_get (ms_signatures s) (i, a) = None" for a
    using sess none unfolding sessions_inv_def by blast
  have fr: "session_inv c s' j ss" if "session_inv c s j ss" for j ss
    using that by (rule session_inv_frame) (simp_all add: 1(7))
  have new: "session_inv c s' i ?ss"
    using 1(3) sigs unfolding 1(7) session_inv_def by (simp add: signing_session_new_def)
  have "sessions_inv c s'"
    by (rule sessions_inv_put [OF sess _ 1(4) _ _ _ _ _ new fr]) (use ni sess in \<open>auto simp: 1(7) sessions_inv_def\<close>)
  moreover have "sessions_evolve (ms_sessions s) (ms_sessions s')"
    using none by (auto simp: sessions_evolve_def 1(7))
  ultimately show ?thesis using inv by (simp add: ms_inv_def ms_extends_def 1(7))
qed

lemma recalculate_session_state_Inr:
  assumes "recalculate_session_state ss sigs vs h = Inr ss'"
  shows "session_evolves ss ss' \<and> ss_id ss' = ss_id ss \<and> ss_verifier_set_id ss' = ss_verifier_set_id ss
    \<and> (ss_state ss' = ss_state ss
         \<and> (ss_state ss = Pending \<longrightarrow> sum_list (map (\<lambda>(a, _). signer_weight vs a) sigs) < unat (vs_threshold vs))
       \<or> ss_state ss = Pending \<and> ss_state ss' = Completed h
         \<and> unat (vs_threshold vs) \<le> sum_list (map (\<lambda>(a, _). signer_weight vs a) sigs))"
proof -
  from assms obtain w where w: "signers_weight sigs vs = (Inr w :: ('a, _) result)"
    and ss': "ss' = (if ss_state ss = Pending \<and> w \<ge> vs_threshold vs then ss\<lparr>ss_state := Completed h\<rparr> else ss)"
    by (auto simp: recalculate_session_state_def result_simps)
  show ?thesis
    unfolding ss' signers_weight_Inr [OF w, symmetric]
    by (auto simp: session_evolves_def word_le_nat_alt)
qed

lemma submit_signature_Inr:
  assumes "submit_signature env s sender i raw = Inr (s', r)"
  obtains config ss vs x sig s1 ss' out where "is_contract_active (ms_killswitch s)" "ms_config s = Some config"
    "kv_get (ms_sessions s) i = Some ss" "kv_get (ms_verifier_sets s) (ss_verifier_set_id ss) = Some vs"
    "kv_get (vs_signers vs) sender = Some x" "signature_try_from (public_key_type (sg_pub_key x)) raw = Inr sig"
    "validate_session_signature env ss sender sig (sg_pub_key x) = Inr out"
    "kv_get (ms_signatures s) (i, sender) = None"
    "s1 = s\<lparr>ms_signatures := kv_set (i, sender) sig (ms_signatures s)\<rparr>"
    "recalculate_session_state ss (load_session_signatures s1 i) vs (me_height env) = (Inr ss' :: (ms_error, _) result)"
    "s' = s1\<lparr>ms_sessions := kv_set (ss_id ss') ss' (ms_sessions s)\<rparr>"
    "messages r = MsRecordParticipation (mc_rewards_contract config) (ss_chain_name ss') (show_word (ss_id ss')) sender
       # (case out of None \<Rightarrow> [] | Some m \<Rightarrow> [m])"
  using assms
  by (auto simp: submit_signature_def save_signature_def signing_response_def ms_response_new_def result_simps Let_def
      split: option.splits)

lemma validate_session_signature_Inr:
  "validate_session_signature env ss a sig pk = Inr out \<Longrightarrow>
     me_height env \<le> ss_expires_at ss
     \<and> (ss_sig_verifier ss = None \<longrightarrow> signature_verify (me_crypto env) sig (ss_msg ss) pk = Inr ())
     \<and> out = map_option (\<lambda>v. VerifySignature v (signature_bytes sig) (ss_msg ss) (public_key_bytes pk) a (ss_id ss))
         (ss_sig_verifier ss)"
  by (auto simp: validate_session_signature_def call_sig_verifier_def result_simps not_less split: if_splits option.splits)

lemma session_evolves_fields:
  "session_evolves ss ss' \<Longrightarrow> ss_msg ss' = ss_msg ss \<and> ss_sig_verifier ss' = ss_sig_verifier ss
     \<and> ss_chain_name ss' = ss_chain_name ss \<and> ss_id ss' = ss_id ss \<and> ss_verifier_set_id ss' = ss_verifier_set_id ss
     \<and> ss_expires_at ss' = ss_expires_at ss"
  by (cases ss; cases ss') (simp add: session_evolves_def)

lemma signature_valid_evolves:
  "session_evolves ss ss' \<Longrightarrow> signature_valid cr ss' vs a sig \<longleftrightarrow> signature_valid cr ss vs a sig"
  using session_evolves_fields [of ss ss'] by (simp add: signature_valid_def)

lemma submit_signature_step:
  assumes run: "submit_signature env s a i raw = Inr (s', r)" and inv: "ms_inv c s" and cr: "me_crypto env = st_crypto c"
  shows "ms_inv c s' \<and> ms_extends s s'"
  using run
proof (cases rule: submit_signature_Inr)
  case (1 config ss vs x sig s1 ss' out)
  have sess: "sessions_inv c s" using inv by (simp add: ms_inv_def)
  have si: "session_inv c s i ss" using sess 1(3) by (simp add: sessions_inv_def)
  then have id: "ss_id ss = i" by (simp add: session_inv_def)
  note re = recalculate_session_state_Inr [OF 1(10)]
  then have ev: "session_evolves ss ss'" and id': "ss_id ss' = i" "ss_verifier_set_id ss' = ss_verifier_set_id ss"
    using id by simp_all
  have w: "signed_weight s' i vs = sum_list (map (\<lambda>(a, _). signer_weight vs a) (load_session_signatures s1 i))"
    unfolding signed_weight_load [of s1, symmetric] by (rule fun_cong [OF fun_cong [OF signed_weight_cong]]) (simp add: 1(11))
  have valid: "signature_valid (st_crypto c) ss vs b g" if "kv_get (ms_signatures s') (i, b) = Some g" for b g
    using that si 1(4,5) validate_session_signature_Inr [OF 1(7)] cr
    unfolding session_inv_def 1(11) 1(9) by (auto simp: signature_valid_def split: if_splits)
  have new: "session_inv c s' i ss'"
    unfolding session_inv_def
  proof (intro conjI exI [of _ vs] allI impI)
    show "kv_get (ms_verifier_sets s') (ss_verifier_set_id ss') = Some vs" using 1(4) id' by (simp add: 1(9,11))
    show "signature_valid (st_crypto c) ss' vs b g" if "kv_get (ms_signatures s') (i, b) = Some g" for b g
      using valid [OF that] signature_valid_evolves [OF ev] by simp
    have "unat (vs_threshold vs) \<le> signed_weight s i vs" if "ss_state ss \<noteq> Pending"
      using si 1(4) that by (cases "ss_state ss") (auto simp: session_inv_def)
    moreover have "signed_weight s i vs \<le> signed_weight s' i vs"
      using signed_weight_set [OF 1(8), of sig i vs] signed_weight_cong [of s' s1] by (simp add: 1(9,11))
    ultimately show "case ss_state ss' of Completed at \<Rightarrow> unat (vs_threshold vs) \<le> signed_weight s' i vs
        | Pending \<Rightarrow> (\<forall>a. kv_get (ms_signatures s') (i, a) = None) \<or> signed_weight s' i vs < unat (vs_threshold vs)"
      using re unfolding w by (cases "ss_state ss"; cases "ss_state ss'") auto
  qed (use id' in simp)
  have other: "session_inv c s' j tt" if "session_inv c s j tt" and "j \<noteq> i" for j tt
  proof -
    have sw: "signed_weight s' j ws = signed_weight s j ws" for ws
      using signed_weight_set [OF 1(8), of sig j ws] signed_weight_cong [of s' s1] that(2) by (simp add: 1(9,11))
    have "kv_get (ms_signatures s') (j, b) = kv_get (ms_signatures s) (j, b)" for b using that(2) by (simp add: 1(9,11))
    moreover have "ms_verifier_sets s' = ms_verifier_sets s" by (simp add: 1(9,11))
    ultimately show ?thesis using that(1) by (simp only: session_inv_def sw)
  qed
  obtain n where n: "ms_session_counter s = Some n" "i \<le> n" using sess 1(3) unfolding sessions_inv_def by blast
  have "sessions_inv c s'"
    by (rule sessions_inv_put [OF sess _ n(1) _ _ n(2) _ _ new other])
      (use sess n id' in \<open>auto simp: 1(9,11) sessions_inv_def\<close>)
  moreover have "sessions_evolve (ms_sessions s) (ms_sessions s')"
    using 1(3) ev id' by (auto simp: sessions_evolve_def 1(9,11))
  ultimately show ?thesis using inv 1(8) by (auto simp: ms_inv_def ms_extends_def 1(9,11))
qed

lemma register_verifier_set_step:
  assumes "register_verifier_set env s vs = Inr (s', r)" and inv: "ms_inv c s" and ids: "ids_unique c"
    and "me_keccak256 env = st_keccak256 c" "me_to_hex env = st_to_hex c" and "st_set_ok c vs"
  shows "ms_inv c s' \<and> ms_extends s s'"
proof -
  have s': "s' = s\<lparr>ms_verifier_sets := kv_set (set_id_of c vs) vs (ms_verifier_sets s)\<rparr>"
    using assms(1,4,5) by (simp add: register_verifier_set_def)
  have sets: "sets_inv c (ms_verifier_sets s)" using inv by (simp add: ms_inv_def)
  note reg = sets_inv_register [OF ids sets assms(6)]
  have "sessions_inv c s'"
    by (rule sessions_inv_frame [where s = s]) (use inv reg(2) in \<open>simp_all add: ms_inv_def s'\<close>)
  then show ?thesis using inv reg unfolding ms_inv_def ms_extends_def s' by simp
qed

lemma ms_frame_step:
  assumes "ms_inv c s" and "ms_sessions s' = ms_sessions s" "ms_signatures s' = ms_signatures s"
    "ms_session_counter s' = ms_session_counter s" "ms_verifier_sets s' = ms_verifier_sets s" "ms_perms s' = ms_perms s"
    and "ms_config s' \<noteq> None" "ms_killswitch s' \<noteq> None" "provers_inv (ms_prover_chain s')" "keys_inv (ms_pub_keys s')"
  shows "ms_inv c s' \<and> ms_extends s s'"
  using assms sessions_inv_frame [OF _ assms(2-4), of c] ms_extends_frame [OF assms(2,3,5,6)] by (simp add: ms_inv_def)

lemma killswitch_steps:
  "killswitch_engage k ev = Inr (k', es) \<Longrightarrow> k' = Some Engaged"
  "killswitch_disengage k ev = Inr (k', es) \<Longrightarrow> k' = Some Disengaged"
  by (auto simp: killswitch_engage_def killswitch_disengage_def split: option.splits killswitch.splits)

lemma register_pub_key_Inr:
  assumes "register_pub_key env s a pk raw = Inr (s', r)"
  obtains sig where "signature_try_from (public_key_type pk) raw = Inr sig"
    "signature_verify (me_crypto env) sig (me_keccak256 env (str_bytes a)) pk = Inr ()" "save_pub_key s a pk = Inr s'"
  using assms by (auto simp: register_pub_key_def Let_def result_simps)

lemma ms_dispatch_step:
  assumes run: "ms_dispatch env s sender msg = Inr (s', r)" and inv: "ms_inv c s" and ids: "ids_unique c"
    and env: "me_keccak256 env = st_keccak256 c" "me_to_hex env = st_to_hex c" "me_crypto env = st_crypto c"
    and msg: "ms_msg_ok c msg"
  shows "ms_inv c s' \<and> ms_extends s s'"
proof (cases msg)
  case (StartSigningSession set_id m chain v)
  then show ?thesis using run start_signing_session_step [OF _ inv] by (auto simp: result_simps)
next
  case (SubmitSignature i raw)
  then show ?thesis using run submit_signature_step [OF _ inv env(3)] by simp
next
  case (RegisterVerifierSet vs)
  then show ?thesis using run msg register_verifier_set_step [OF _ inv ids env(1,2)] by simp
next
  case (RegisterPublicKey pk raw)
  then have "save_pub_key s sender pk = Inr s'" using run by (auto elim: register_pub_key_Inr)
  moreover have "keys_inv (ms_pub_keys s)" using inv by (simp add: ms_inv_def)
  ultimately have k: "keys_inv (ms_pub_keys s')" "s' = s\<lparr>ms_pub_keys := ms_pub_keys s'\<rparr>" using keys_inv_save by blast+
  obtain ks where "s' = s\<lparr>ms_pub_keys := ks\<rparr>" using k(2) by blast
  then show ?thesis using inv k(1) by (intro ms_frame_step) (auto simp: ms_inv_def)
next
  case (AuthorizeCallers contracts)
  then obtain cs where "try_fold (\<lambda>s (a, ch). save_prover s a ch) s cs = Inr s'"
    using run by (auto simp: authorize_callers_def result_simps)
  then obtain ps where "s' = s\<lparr>ms_prover_chain := ps\<rparr>" "provers_inv ps"
    using provers_inv_saves inv unfolding ms_inv_def by blast
  then show ?thesis using inv by (intro ms_frame_step) (auto simp: ms_inv_def)
next
  case (UnauthorizeCallers contracts)
  then obtain cs where "s' = fst (remove_provers s cs)"
    using run by (auto simp: unauthorize_callers_def result_simps case_prod_beta)
  then have "remove_provers s cs = (s', snd (remove_provers s cs))" by simp
  then obtain ps where "s' = s\<lparr>ms_prover_chain := ps\<rparr>" "provers_inv ps"
    using provers_inv_removes inv unfolding ms_inv_def by blast
  then show ?thesis using inv by (intro ms_frame_step) (auto simp: ms_inv_def)
next
  case DisableSigning
  then obtain k where "s' = s\<lparr>ms_killswitch := k\<rparr>" "k \<noteq> None"
    using run by (auto simp: disable_signing_def result_simps dest: killswitch_steps)
  then show ?thesis using inv by (intro ms_frame_step) (auto simp: ms_inv_def)
next
  case EnableSigning
  then obtain k where "s' = s\<lparr>ms_killswitch := k\<rparr>" "k \<noteq> None"
    using run by (auto simp: enable_signing_def result_simps dest: killswitch_steps)
  then show ?thesis using inv by (intro ms_frame_step) (auto simp: ms_inv_def)
next
  case (UpdateSigningParameters e)
  then obtain cf where "s' = s\<lparr>ms_config := Some cf\<rparr>"
    using run by (auto simp: update_signing_parameters_def result_simps)
  then show ?thesis using inv by (intro ms_frame_step) (auto simp: ms_inv_def)
qed

lemma ms_tx_Inr:
  assumes "ms_tx s (env, sender, call) = Inr (s', r)"
  obtains effective msg where "ms_dispatch env s effective msg = Inr (s', r)" "call_msg call = msg"
    "ensure_permissions (ms_perms s) effective (ms_permissions msg) (\<lambda>_. can_start_signing_session s effective msg) = Inr ()"
    "call = Direct msg \<and> effective = sender
     \<or> call = Relay effective msg \<and> ms_find_coordinator s = Inr sender \<and> external_perms (ms_permissions msg) = [''coordinator'']"
proof -
  from assms obtain effective msg where run: "ms_dispatch env s effective msg = Inr (s', r)"
    and au: "authorize (ms_perms s) [(''coordinator'', ms_find_coordinator s)] ms_permissions
       (\<lambda>m role a. can_start_signing_session s a m) sender call = Inr (effective, msg)"
    by (auto simp: ms_tx_def ms_execute_def result_simps)
  have "''coordinator'' \<in> set (external_perms (ms_permissions msg)) \<Longrightarrow>
      external_perms (ms_permissions msg) = [''coordinator'']"
    by (cases msg) auto
  then show thesis using that run authorize_Inr [OF au] by (cases call) auto
qed

lemma ms_tx_step:
  assumes "ms_tx s call = Inr (s', r)" and "ms_inv c s" and "ids_unique c" and "ms_call_ok c call"
  shows "ms_inv c s' \<and> ms_extends s s'"
proof -
  obtain env sender cm where call: "call = (env, sender, cm)" by (cases call)
  obtain effective msg where "ms_dispatch env s effective msg = Inr (s', r)" "call_msg cm = msg"
    using assms(1) unfolding call by (rule ms_tx_Inr)
  then show ?thesis using assms(2-4) by (intro ms_dispatch_step) (auto simp: ms_call_ok_def call)
qed

text \<open>The multisig as a contract, for every setting in which identifiers tell verifier sets apart.\<close>

interpretation msc: contract_machine ms_tx "\<lambda>s. ids_unique c \<and> ms_inv c s" "ms_call_ok c" for c
  by unfold_locales (auto dest: ms_tx_step)

lemma ms_reachable_inv: "ms_reachable c s \<Longrightarrow> ids_unique c \<Longrightarrow> ms_inv c s"
proof (induction rule: ms_reachable.induct)
  case (ms_init env governance admin rewards block_expiry coordinator s r)
  then show ?case
    by (auto simp: ms_instantiate_def Let_def result_simps ms_inv_def sessions_inv_def sets_inv_def provers_inv_def
        keys_inv_def killswitch_init_def)
qed (simp add: ms_tx_step)

lemma ms_run_extends:
  "ids_unique c \<Longrightarrow> ms_inv c s \<Longrightarrow> list_all (ms_call_ok c) calls \<Longrightarrow> ms_extends s (run_txs ms_tx s calls)"
  by (rule msc.run_rel [of c]) (auto intro: ms_extends_trans dest: ms_tx_step)

lemma ids_unique_uniform:
  assumes "inj_on H (verifier_set_preimage ` {vs. verifier_set_ok vs \<and> verifier_set_uniform n k kt vs})" and "inj hex"
  shows "ids_unique \<lparr>st_keccak256 = H, st_to_hex = hex, st_crypto = cr,
    st_set_ok = (\<lambda>vs. verifier_set_ok vs \<and> verifier_set_uniform n k kt vs)\<rparr>"
  unfolding ids_unique_def verifier_set_id_def verifier_set_hash_def
  using assms verifier_set_preimage_inject_iff
  by (auto dest!: injD [OF assms(2)] dest: inj_onD [OF assms(1)])

subsection \<open>The fewest signatures\<close>

lemma scan_signatures_take:
  "\<exists>k \<le> length xs. scan_signatures t acc xs = take k xs
     \<and> (k < length xs \<longrightarrow> unat t \<le> unat acc + sum_list (map (\<lambda>(x, _). unat (sg_weight x)) (take k xs)))
     \<and> (\<forall>j < k. unat acc + sum_list (map (\<lambda>(x, _). unat (sg_weight x)) (take j xs)) < unat t)"
proof (induction t acc xs rule: scan_signatures.induct)
  case (1 t acc)
  then show ?case by simp
next
  case (2 t acc x sig xs)
  show ?case
  proof (cases "acc < t")
    case True
    let ?acc = "saturating_add acc (sg_weight x)"
    from "2.IH" [OF True] obtain k where k: "k \<le> length xs" "scan_signatures t ?acc xs = take k xs"
      "k < length xs \<longrightarrow> unat t \<le> unat ?acc + sum_list (map (\<lambda>(x, _). unat (sg_weight x)) (take k xs))"
      "\<forall>j < k. unat ?acc + sum_list (map (\<lambda>(x, _). unat (sg_weight x)) (take j xs)) < unat t"
      by blast
    have le: "unat ?acc \<le> unat acc + unat (sg_weight x)" by (rule unat_saturating_add_le)
    have eq: "unat ?acc = unat acc + unat (sg_weight x)" if "unat ?acc < unat t"
      using that unat_less_width [of t] unat_saturating_add [of acc "sg_weight x"] by simp
    show ?thesis
    proof (intro exI [of _ "Suc k"] conjI allI impI)
      show "scan_signatures t acc ((x, sig) # xs) = take (Suc k) ((x, sig) # xs)" using True k(2) by simp
      show "unat t \<le> unat acc + sum_list (map (\<lambda>(x, _). unat (sg_weight x)) (take (Suc k) ((x, sig) # xs)))"
        if "Suc k < length ((x, sig) # xs)" using k(3) that le by simp
      show "unat acc + sum_list (map (\<lambda>(x, _). unat (sg_weight x)) (take j ((x, sig) # xs))) < unat t" if "j < Suc k" for j
      proof (cases j)
        case 0
        then show ?thesis using True by (simp add: word_less_nat_alt)
      next
        case (Suc i)
        then have "unat ?acc + sum_list (map (\<lambda>(x, _). unat (sg_weight x)) (take i xs)) < unat t" using k(4) that by simp
        then show ?thesis using eq Suc by simp
      qed
    qed (use k(1) in simp)
  next
    case False
    then show ?thesis by (intro exI [of _ 0]) (simp add: word_less_nat_alt)
  qed
qed

lemma take_pred_sum:
  fixes f :: "'a \<Rightarrow> nat"
  assumes "\<forall>y \<in> set xs. f y \<le> b" and "n \<le> length xs"
  shows "sum_list (map f (take n xs)) \<le> b + sum_list (map f (take (n - 1) xs))"
proof (cases n)
  case (Suc m)
  then have "take n xs = take m xs @ [xs ! m]" using assms(2) by (simp add: take_Suc_conv_app_nth)
  then show ?thesis using assms Suc by simp
qed simp

text \<open>No selection from a list sorted by falling weight outweighs the first elements.\<close>

lemma filter_le_take_sum:
  fixes f :: "'a \<Rightarrow> nat"
  assumes "sorted_wrt (\<lambda>x y. f y \<le> f x) xs"
  shows "sum_list (map f (filter P xs)) \<le> sum_list (map f (take (length (filter P xs)) xs))"
  using assms
proof (induction xs)
  case (Cons x xs)
  then have IH: "sum_list (map f (filter P xs)) \<le> sum_list (map f (take (length (filter P xs)) xs))" by simp
  show ?case
  proof (cases "P x \<or> filter P xs = []")
    case False
    then obtain n where n: "length (filter P xs) = Suc n" by (cases "filter P xs") auto
    have "sum_list (map f (take (Suc n) xs)) \<le> f x + sum_list (map f (take n xs))"
      using take_pred_sum [of xs f "f x" "Suc n"] Cons.prems n length_filter_le [of P xs] by simp
    then show ?thesis using False IH n by simp
  qed (use IH in auto)
qed simp

lemma insort_key_map: "insort_key g (f x) (map f xs) = map f (insort_key (\<lambda>y. g (f y)) x xs)"
  by (induction xs) auto

lemma sort_key_map: "sort_key g (map f xs) = map f (sort_key (\<lambda>y. g (f y)) xs)"
  by (induction xs) (simp_all add: insort_key_map)

lemma insort_key_cong': "f x = g x \<Longrightarrow> (\<And>y. y \<in> set xs \<Longrightarrow> f y = g y) \<Longrightarrow> insort_key f x xs = insort_key g x xs"
  by (induction xs) auto

lemma sort_key_cong': "(\<And>y. y \<in> set xs \<Longrightarrow> f y = g y) \<Longrightarrow> sort_key f xs = sort_key g xs"
proof (induction xs)
  case (Cons x xs)
  then have "sort_key f xs = sort_key g xs" by simp
  moreover have "insort_key f x (sort_key g xs) = insort_key g x (sort_key g xs)"
    by (rule insort_key_cong') (use Cons.prems in auto)
  ultimately show ?case by simp
qed simp

lemma by_weight_sorted: "sorted_wrt (\<lambda>x y. signer_weight vs (fst y) \<le> signer_weight vs (fst x)) (by_weight vs sigs)"
proof -
  have "sorted (map (\<lambda>x. - int (signer_weight vs (fst x))) (by_weight vs sigs))" by (simp add: by_weight_def)
  then show ?thesis unfolding sorted_map by (rule sorted_wrt_mono_rel [rotated]) simp
qed

lemma optimize_signatures_Inr:
  assumes "optimize_signatures m = Inr out"
  obtains k where "k \<le> length (mu_signatures m)"
    "list_all2 (\<lambda>x y. kv_get (vs_signers (mu_verifier_set m)) (fst x) = Some (fst y) \<and> snd y = snd x)
       (take k (by_weight (mu_verifier_set m) (mu_signatures m))) out"
    "k < length (mu_signatures m) \<longrightarrow> unat (vs_threshold (mu_verifier_set m)) \<le>
       sum_list (map (\<lambda>x. signer_weight (mu_verifier_set m) (fst x)) (take k (by_weight (mu_verifier_set m) (mu_signatures m))))"
    "\<forall>j < k. sum_list (map (\<lambda>x. signer_weight (mu_verifier_set m) (fst x))
       (take j (by_weight (mu_verifier_set m) (mu_signatures m)))) < unat (vs_threshold (mu_verifier_set m))"
proof -
  let ?vs = "mu_verifier_set m"
  let ?g = "\<lambda>x. (the (kv_get (vs_signers ?vs) (fst x)), snd x)"
  from assms obtain sigs where
      raw: "list_all2 (\<lambda>x y. \<exists>a. kv_get (vs_signers ?vs) (fst x) = Some a \<and> (a, snd x) = y) (mu_signatures m) sigs"
    and out: "out = scan_signatures (vs_threshold ?vs) 0 (sort_key (\<lambda>(x, _). - int (unat (sg_weight x))) sigs)"
    by (auto simp: optimize_signatures_def multisig_signer_def result_simps case_prod_beta)
  have all: "list_all2 (\<lambda>x y. kv_get (vs_signers ?vs) (fst x) = Some (fst y) \<and> snd y = snd x) (mu_signatures m) sigs"
    using raw by (rule list_all2_mono) auto
  have sigs: "sigs = map ?g (mu_signatures m)"
    using list_all2_map_eq [OF all, of id ?g] by (auto simp: prod_eq_iff)
  have w: "unat (sg_weight (fst (?g x))) = signer_weight ?vs (fst x)" if "x \<in> set (mu_signatures m)" for x
    using list_all2_left_in [OF all that] by (auto simp: signer_weight_def)
  let ?bw = "by_weight ?vs (mu_signatures m)"
  have "sort_key (\<lambda>(x, _). - int (unat (sg_weight x))) sigs = map ?g ?bw"
    unfolding sigs sort_key_map by_weight_def
    by (rule arg_cong [of _ _ "map ?g"], rule sort_key_cong') (use w in \<open>simp flip: w\<close>)
  then have out': "out = scan_signatures (vs_threshold ?vs) 0 (map ?g ?bw)" using out by simp
  have sum: "sum_list (map (\<lambda>(x, _). unat (sg_weight x)) (take j (map ?g ?bw))) =
      sum_list (map (\<lambda>x. signer_weight ?vs (fst x)) (take j ?bw))" for j
  proof (rule arg_cong [of _ _ sum_list])
    have "set (take j ?bw) \<subseteq> set (mu_signatures m)" using set_take_subset [of j ?bw] by (simp add: by_weight_def)
    then show "map (\<lambda>(x, _). unat (sg_weight x)) (take j (map ?g ?bw)) = map (\<lambda>x. signer_weight ?vs (fst x)) (take j ?bw)"
      using w by (auto simp: take_map)
  qed
  have len: "length ?bw = length (mu_signatures m)" by (simp add: by_weight_def)
  from scan_signatures_take [of "map ?g ?bw" "vs_threshold ?vs" 0] obtain k where k: "k \<le> length (mu_signatures m)"
    "out = take k (map ?g ?bw)"
    "k < length (mu_signatures m) \<longrightarrow> unat (vs_threshold ?vs) \<le> sum_list (map (\<lambda>x. signer_weight ?vs (fst x)) (take k ?bw))"
    "\<forall>j < k. sum_list (map (\<lambda>x. signer_weight ?vs (fst x)) (take j ?bw)) < unat (vs_threshold ?vs)"
    unfolding out' sum by (auto simp: len)
  have "kv_get (vs_signers ?vs) (fst x) = Some (fst (?g x))" if "x \<in> set (mu_signatures m)" for x
    using list_all2_left_in [OF all that] by auto
  moreover have "set (take k ?bw) \<subseteq> set (mu_signatures m)" using set_take_subset [of k ?bw] by (simp add: by_weight_def)
  ultimately have "list_all2 (\<lambda>x y. kv_get (vs_signers ?vs) (fst x) = Some (fst y) \<and> snd y = snd x) (take k ?bw) out"
    unfolding k(2) take_map by (auto simp: list.rel_map intro!: list.rel_refl_strong)
  with k show thesis by (intro that)
qed

text \<open>The signatures that are kept reach the threshold, and no fewer of the stored ones do.\<close>

lemma optimize_signatures_fewest:
  assumes "optimize_signatures m = Inr out" and "distinct (map fst (mu_signatures m))"
    and "A \<subseteq> fst ` set (mu_signatures m)"
    and "unat (vs_threshold (mu_verifier_set m)) \<le> (\<Sum>a\<in>A. signer_weight (mu_verifier_set m) a)"
  shows "length out \<le> card A"
proof -
  let ?vs = "mu_verifier_set m" and ?bw = "by_weight (mu_verifier_set m) (mu_signatures m)"
  let ?w = "\<lambda>x. signer_weight ?vs (fst x)" and ?P = "\<lambda>x. fst x \<in> A"
  obtain k where k: "k \<le> length (mu_signatures m)"
    "list_all2 (\<lambda>x y. kv_get (vs_signers ?vs) (fst x) = Some (fst y) \<and> snd y = snd x) (take k ?bw) out"
    "\<forall>j < k. sum_list (map ?w (take j ?bw)) < unat (vs_threshold ?vs)"
    using assms(1) by (rule optimize_signatures_Inr)
  have len: "length out = k" using list_all2_lengthD [OF k(2)] k(1) by (simp add: by_weight_def)
  have "mset (map fst ?bw) = mset (map fst (mu_signatures m))" by (simp only: by_weight_def mset_map mset_sort)
  then have dist: "distinct (map fst ?bw)" using assms(2) mset_eq_imp_distinct_iff by blast
  then have df: "distinct (map fst (filter ?P ?bw))" by (rule distinct_map_filter)
  have sf: "set (map fst (filter ?P ?bw)) = A" using assms(3) by (auto simp: by_weight_def)
  have c: "card A = length (filter ?P ?bw)" using distinct_card [OF df] sf by simp
  have "(\<Sum>a\<in>A. signer_weight ?vs a) = sum_list (map (signer_weight ?vs) (map fst (filter ?P ?bw)))"
    using sum_list_distinct_conv_sum_set [OF df, of "signer_weight ?vs"] sf by simp
  also have "\<dots> = sum_list (map ?w (filter ?P ?bw))" by (simp add: comp_def)
  also have "\<dots> \<le> sum_list (map ?w (take (card A) ?bw))"
    unfolding c by (rule filter_le_take_sum) (rule by_weight_sorted)
  finally have "unat (vs_threshold ?vs) \<le> sum_list (map ?w (take (card A) ?bw))" using assms(4) by simp
  then show ?thesis using k(3) len by (meson not_le)
qed

lemma optimize_signatures_enough:
  assumes "optimize_signatures m = Inr out"
    and "unat (vs_threshold (mu_verifier_set m)) \<le>
      sum_list (map (\<lambda>x. signer_weight (mu_verifier_set m) (fst x)) (mu_signatures m))"
  shows "unat (vs_threshold (mu_verifier_set m)) \<le> sum_list (map (\<lambda>x. unat (sg_weight (fst x))) out)"
proof -
  let ?vs = "mu_verifier_set m" and ?bw = "by_weight (mu_verifier_set m) (mu_signatures m)"
  let ?w = "\<lambda>x. signer_weight ?vs (fst x)"
  obtain k where k: "k \<le> length (mu_signatures m)"
    "list_all2 (\<lambda>x y. kv_get (vs_signers ?vs) (fst x) = Some (fst y) \<and> snd y = snd x) (take k ?bw) out"
    "k < length (mu_signatures m) \<longrightarrow> unat (vs_threshold ?vs) \<le> sum_list (map ?w (take k ?bw))"
    using assms(1) by (rule optimize_signatures_Inr)
  have "list_all2 (\<lambda>x y. ?w x = unat (sg_weight (fst y))) (take k ?bw) out"
    using k(2) by (rule list_all2_mono) (auto simp: signer_weight_def)
  then have "map (\<lambda>x. unat (sg_weight (fst x))) out = map ?w (take k ?bw)" by (rule list_all2_map_eq) simp
  then have out: "sum_list (map (\<lambda>x. unat (sg_weight (fst x))) out) = sum_list (map ?w (take k ?bw))" by (rule arg_cong)
  show ?thesis
  proof (cases "k < length (mu_signatures m)")
    case False
    then have "take k ?bw = ?bw" using k(1) by (simp add: by_weight_def)
    moreover have "sum_list (map ?w ?bw) = sum_list (map ?w (mu_signatures m))"
      by (simp only: by_weight_def flip: sum_mset_sum_list) (simp only: mset_map mset_sort)
    ultimately show ?thesis using out assms(2) by simp
  qed (use k(3) out in simp)
qed

lemma sorted_wrt_list_all2:
  assumes "sorted_wrt (\<lambda>x y. f y \<le> f x) xs" and "list_all2 (\<lambda>x y. g y = f x) xs ys"
  shows "sorted_wrt (\<lambda>x y. g y \<le> g x) ys"
  using assms by (auto simp: sorted_wrt_iff_nth_less list_all2_conv_all_nth)

lemma optimize_signatures_sorted:
  assumes "optimize_signatures m = Inr out"
  shows "(\<forall>(x, sig) \<in> set out. \<exists>a. (a, sig) \<in> set (mu_signatures m) \<and> kv_get (vs_signers (mu_verifier_set m)) a = Some x)
    \<and> sorted_wrt (\<lambda>x y. sg_weight (fst y) \<le> sg_weight (fst x)) out"
proof -
  let ?vs = "mu_verifier_set m" and ?bw = "by_weight (mu_verifier_set m) (mu_signatures m)"
  obtain k where k:
    "list_all2 (\<lambda>x y. kv_get (vs_signers ?vs) (fst x) = Some (fst y) \<and> snd y = snd x) (take k ?bw) out"
    using assms(1) by (rule optimize_signatures_Inr)
  have sub: "set (take k ?bw) \<subseteq> set (mu_signatures m)" using set_take_subset [of k ?bw] by (simp add: by_weight_def)
  have "\<exists>a. (a, sig) \<in> set (mu_signatures m) \<and> kv_get (vs_signers ?vs) a = Some x" if "(x, sig) \<in> set out" for x sig
    using list_all2_right_in [OF k that] sub by force
  moreover have "sorted_wrt (\<lambda>x y. signer_weight ?vs (fst y) \<le> signer_weight ?vs (fst x)) (take k ?bw)"
    using by_weight_sorted by (rule sorted_wrt_take)
  then have "sorted_wrt (\<lambda>x y. unat (sg_weight (fst y)) \<le> unat (sg_weight (fst x))) out"
    by (rule sorted_wrt_list_all2) (use k in \<open>auto elim!: list_all2_mono simp: signer_weight_def\<close>)
  ultimately show ?thesis by (auto simp: word_le_nat_alt)
qed

lemma kv_ok_load_session_signatures: "kv_ok (ms_signatures s) \<Longrightarrow> kv_ok (load_session_signatures s i)"
proof -
  have "sorted_wrt (<) (map fst sigs) \<Longrightarrow>
      sorted_wrt (<) (map fst (map (\<lambda>((_, a), sig). (a, sig)) (filter (\<lambda>((j, _), _). j = i) sigs)))"
    for sigs :: "(u64 \<times> string, signature) kv"
    by (induction sigs) (auto simp: less_prod_def)
  then show "kv_ok (ms_signatures s) \<Longrightarrow> kv_ok (load_session_signatures s i)"
    by (simp add: kv_ok_def load_session_signatures_def)
qed

lemma query_multisig_signed:
  assumes "ms_reachable c s" and "ids_unique c" and "query_multisig s i = Inr m" and "mu_state m \<noteq> Pending"
  shows "kv_ok (mu_signatures m) \<and> (\<forall>a sig. kv_get (mu_signatures m) a = Some sig \<longrightarrow> kv_get (vs_signers (mu_verifier_set m)) a \<noteq> None)
    \<and> unat (vs_threshold (mu_verifier_set m)) \<le> sum_list (map (\<lambda>x. signer_weight (mu_verifier_set m) (fst x)) (mu_signatures m))"
proof -
  have inv: "ms_inv c s" using assms(1,2) by (rule ms_reachable_inv)
  obtain ss where ss: "kv_get (ms_sessions s) i = Some ss"
    "kv_get (ms_verifier_sets s) (ss_verifier_set_id ss) = Some (mu_verifier_set m)"
    "mu_state m = ss_state ss" "mu_signatures m = load_session_signatures s (ss_id ss)"
    using assms(3) by (auto simp: query_multisig_def result_simps)
  have si: "session_inv c s i ss" using inv ss(1) by (simp add: ms_inv_def sessions_inv_def)
  have "kv_ok (ms_signatures s)" using inv by (simp add: ms_inv_def sessions_inv_def)
  then have ok: "kv_ok (mu_signatures m)" unfolding ss(4) by (rule kv_ok_load_session_signatures)
  show ?thesis
    using si ss ok assms(4) unfolding session_inv_def signature_valid_def
    by (cases "ss_state ss")
      (auto simp: kv_get_load_session_signatures signed_weight_load case_prod_beta' split: multisig_state.splits)
qed

lemma optimize_signatures_spec:
  assumes ok: "kv_ok (mu_signatures m)"
    and known: "\<forall>a sig. kv_get (mu_signatures m) a = Some sig \<longrightarrow> kv_get (vs_signers (mu_verifier_set m)) a \<noteq> None"
    and enough: "unat (vs_threshold (mu_verifier_set m)) \<le>
      sum_list (map (\<lambda>x. signer_weight (mu_verifier_set m) (fst x)) (mu_signatures m))"
    and perm: "mset sigs = mset (mu_signatures m)"
  shows "\<exists>out. optimize_signatures (m\<lparr>mu_signatures := sigs\<rparr>) = (Inr out :: (ms_error, _) result)
    \<and> unat (vs_threshold (mu_verifier_set m)) \<le> sum_list (map (\<lambda>x. unat (sg_weight (fst x))) out)
    \<and> (\<forall>(x, sig) \<in> set out. \<exists>a. kv_get (mu_signatures m) a = Some sig \<and> kv_get (vs_signers (mu_verifier_set m)) a = Some x)
    \<and> sorted_wrt (\<lambda>x y. sg_weight (fst y) \<le> sg_weight (fst x)) out
    \<and> (\<forall>A. A \<subseteq> fst ` set (mu_signatures m) \<longrightarrow>
        unat (vs_threshold (mu_verifier_set m)) \<le> (\<Sum>a\<in>A. signer_weight (mu_verifier_set m) a) \<longrightarrow> length out \<le> card A)"
proof -
  let ?m = "m\<lparr>mu_signatures := sigs\<rparr>" and ?vs = "mu_verifier_set m"
  have set: "set sigs = set (mu_signatures m)" using perm by (rule mset_eq_setD)
  have get: "kv_get (mu_signatures m) a = Some sig \<longleftrightarrow> (a, sig) \<in> set sigs" for a sig
    using ok by (simp add: set kv_ok_def strict_sorted_iff)
  have "mset (map fst sigs) = mset (map fst (mu_signatures m))" using perm by simp
  moreover have "distinct (map fst (mu_signatures m))" using ok by (simp add: kv_ok_def strict_sorted_iff)
  ultimately have dist: "distinct (map fst sigs)" using mset_eq_imp_distinct_iff by blast
  have "\<exists>out. optimize_signatures ?m = (Inr out :: (ms_error, _) result)"
  proof -
    have "try_map (\<lambda>(a, sig). and_then (multisig_signer ?m a) (\<lambda>x. Ok (x, sig))) sigs =
        (Inr (map (\<lambda>(a, sig). (the (kv_get (vs_signers ?vs) a), sig)) sigs) :: (ms_error, _) result)"
      using known get by (intro try_map_all_ok) (fastforce simp: multisig_signer_def)
    then show ?thesis by (simp add: optimize_signatures_def)
  qed
  then obtain out where out: "optimize_signatures ?m = (Inr out :: (ms_error, _) result)" by blast
  have "sum_list (map (\<lambda>x. signer_weight ?vs (fst x)) sigs) = sum_list (map (\<lambda>x. signer_weight ?vs (fst x)) (mu_signatures m))"
    by (simp only: flip: sum_mset_sum_list) (simp only: mset_map perm)
  then have "unat (vs_threshold ?vs) \<le> sum_list (map (\<lambda>x. unat (sg_weight (fst x))) out)"
    using optimize_signatures_enough [OF out] enough by simp
  moreover have "\<forall>A. A \<subseteq> fst ` set (mu_signatures m) \<longrightarrow>
      unat (vs_threshold ?vs) \<le> (\<Sum>a\<in>A. signer_weight ?vs a) \<longrightarrow> length out \<le> card A"
    using optimize_signatures_fewest [OF out] dist set by simp
  ultimately show ?thesis using out optimize_signatures_sorted [OF out] get by auto
qed

text \<open>What a transaction can do to the registered keys.\<close>

lemma save_provers_frame:
  "try_fold (\<lambda>s (a, ch). save_prover s a ch) s cs = Inr s' \<Longrightarrow> \<exists>ps. s' = s\<lparr>ms_prover_chain := ps\<rparr>"
proof (induction cs arbitrary: s)
  case Nil
  then show ?case by (intro exI [of _ "ms_prover_chain s"]) simp
next
  case (Cons x cs)
  then obtain ps where "try_fold (\<lambda>s (a, ch). save_prover s a ch) (s\<lparr>ms_prover_chain := ps\<rparr>) cs = Inr s'"
    by (auto simp: result_simps save_prover_def split: if_splits prod.splits)
  from Cons.IH [OF this] show ?case by auto
qed

lemma remove_provers_frame: "\<exists>ps. fst (remove_provers s as) = s\<lparr>ms_prover_chain := ps\<rparr>"
proof (induction as arbitrary: s)
  case Nil
  then show ?case by (intro exI [of _ "ms_prover_chain s"]) simp
next
  case (Cons a as)
  obtain ps where "fst (remove_prover s a) = s\<lparr>ms_prover_chain := ps\<rparr>"
    by (cases "kv_get (ms_prover_chain s) a") (auto simp: remove_prover_def split: prod.splits intro: that [of "ms_prover_chain s"])
  with Cons.IH [of "s\<lparr>ms_prover_chain := ps\<rparr>"] show ?case by (auto simp: case_prod_beta Let_def)
qed

lemma ms_dispatch_frame:
  assumes "ms_dispatch env s a msg = Inr (s', r)"
  shows "(ms_pub_keys s' = ms_pub_keys s \<or> (\<exists>pk raw. msg = RegisterPublicKey pk raw))
    \<and> (ms_prover_chain s' = ms_prover_chain s \<or> (\<exists>cs. msg = AuthorizeCallers cs) \<or> (\<exists>cs. msg = UnauthorizeCallers cs))
    \<and> (ms_sessions s' = ms_sessions s \<or> is_contract_active (ms_killswitch s))
    \<and> (ms_signatures s' = ms_signatures s \<or> is_contract_active (ms_killswitch s))
    \<and> (ms_killswitch s' = ms_killswitch s \<or> msg = EnableSigning \<or> msg = DisableSigning) \<and> ms_perms s' = ms_perms s"
proof (cases msg)
  case (StartSigningSession i m ch v)
  then show ?thesis using assms by (auto simp: result_simps elim!: start_signing_session_Inr)
next
  case (SubmitSignature i raw)
  then show ?thesis using assms by (auto elim!: submit_signature_Inr)
next
  case (AuthorizeCallers cs)
  then obtain cs' where "try_fold (\<lambda>s (a, ch). save_prover s a ch) s cs' = Inr s'"
    using assms by (auto simp: authorize_callers_def result_simps)
  then show ?thesis using AuthorizeCallers save_provers_frame by fastforce
next
  case (UnauthorizeCallers cs)
  then obtain cs' where "s' = fst (remove_provers s cs')"
    using assms by (auto simp: unauthorize_callers_def result_simps case_prod_beta)
  then show ?thesis using UnauthorizeCallers remove_provers_frame [of s cs'] by auto
qed (use assms in \<open>auto simp: result_simps register_verifier_set_def disable_signing_def enable_signing_def
      update_signing_parameters_def register_pub_key_def save_pub_key_def Let_def split: if_splits\<close>)

lemma ms_tx_key:
  assumes "ms_tx s (env, sender, call) = Inr (s', r)" and "kv_get (ms_pub_keys s') (a, kt) \<noteq> kv_get (ms_pub_keys s) (a, kt)"
  shows "\<exists>pk raw sig. a = sender \<and> call = Direct (RegisterPublicKey pk raw) \<and> public_key_type pk = kt
       \<and> kv_get (ms_pub_keys s') (a, kt) = Some (public_key_bytes pk) \<and> signature_try_from kt raw = Inr sig
       \<and> signature_verify (me_crypto env) sig (me_keccak256 env (str_bytes a)) pk = Inr ()
       \<and> (\<forall>k. kv_get (ms_pub_keys s) k \<noteq> Some (public_key_bytes pk))"
proof -
  from assms(1) obtain b msg where run: "ms_dispatch env s b msg = Inr (s', r)" and b:
    "call = Direct msg \<and> b = sender
     \<or> call = Relay b msg \<and> ms_find_coordinator s = Inr sender \<and> external_perms (ms_permissions msg) = [''coordinator'']"
    by (rule ms_tx_Inr)
  obtain pk raw where msg: "msg = RegisterPublicKey pk raw" using ms_dispatch_frame [OF run] assms(2) by metis
  with b have call: "call = Direct msg" "b = sender" by auto
  obtain sig where sig: "signature_try_from (public_key_type pk) raw = Inr sig"
    "signature_verify (me_crypto env) sig (me_keccak256 env (str_bytes b)) pk = Inr ()" "save_pub_key s b pk = Inr s'"
    using run unfolding msg by (auto elim: register_pub_key_Inr)
  have s': "ms_pub_keys s' = kv_set (b, public_key_type pk) (public_key_bytes pk) (ms_pub_keys s)"
    and new: "\<not> pub_key_registered s (public_key_bytes pk)"
    using sig(3) by (auto simp: save_pub_key_def split: if_splits)
  have "(a, kt) = (b, public_key_type pk)" using assms(2) s' by (auto split: if_splits)
  moreover have "\<forall>k. kv_get (ms_pub_keys s) k \<noteq> Some (public_key_bytes pk)"
    using new map_of_SomeD by (fastforce simp: pub_key_registered_def list_ex_iff)
  ultimately show ?thesis using call msg sig s' by auto
qed

lemma caller_authorized_unique:
  "provers_inv (ms_prover_chain s) \<Longrightarrow> caller_authorized s a ch \<Longrightarrow> caller_authorized s b ch \<Longrightarrow> a = b"
  by (auto simp: caller_authorized_def chain_by_prover_def provers_inv_def)

lemma prover_for_chain_iff:
  assumes "provers_inv (ms_prover_chain s)"
  shows "prover_for_chain s ch = Inr a \<longleftrightarrow> caller_authorized s a ch"
proof -
  let ?f = "filter (\<lambda>(_, (_, c)). c = ch) (ms_prover_chain s)"
  have get: "kv_get (ms_prover_chain s) k = Some x \<longleftrightarrow> (k, x) \<in> set (ms_prover_chain s)" for k x
    using assms by (simp add: provers_inv_def kv_ok_def strict_sorted_iff)
  have own: "(k, (b, c)) \<in> set (ms_prover_chain s) \<Longrightarrow> b = k" for k b c
    using assms unfolding provers_inv_def get by blast
  have auth: "caller_authorized s b ch \<longleftrightarrow> (\<exists>x. (b, (x, ch)) \<in> set ?f)" for b
    by (force simp: caller_authorized_def chain_by_prover_def get)
  have mem: "y = (fst y, (fst y, ch)) \<and> caller_authorized s (fst y) ch" if "y \<in> set ?f" for y
  proof -
    obtain k b c where y: "y = (k, (b, c))" by (cases y) auto
    then have "(k, (b, c)) \<in> set (ms_prover_chain s)" "c = ch" using that by auto
    then show ?thesis using own [of k b c] y by (simp add: caller_authorized_def chain_by_prover_def get [THEN iffD2])
  qed
  show ?thesis
  proof (cases ?f)
    case Nil
    then show ?thesis using auth by (auto simp: prover_for_chain_def prover_by_chain_def)
  next
    case (Cons y ys)
    then have "y \<in> set ?f" by simp
    then obtain b where y: "y = (b, (b, ch))" "caller_authorized s b ch" using mem by blast
    then have "prover_by_chain s ch = Some b" unfolding prover_by_chain_def Cons by simp
    then show ?thesis using caller_authorized_unique [OF assms] y(2) by (auto simp: prover_for_chain_def)
  qed
qed

lemma ms_dispatch_authorized:
  assumes "ms_dispatch env s b msg = Inr (s', r)" and "provers_inv (ms_prover_chain s)"
    and "caller_authorized s' a ch" and "\<not> caller_authorized s a ch"
  shows "\<exists>cs. msg = AuthorizeCallers cs"
proof -
  have "ms_prover_chain s' \<noteq> ms_prover_chain s" using assms(3,4) by (auto simp: caller_authorized_def chain_by_prover_def)
  moreover have "msg \<noteq> UnauthorizeCallers cs" for cs
  proof
    assume "msg = UnauthorizeCallers cs"
    then obtain cs' where s': "s' = fst (remove_provers s cs')"
      using assms(1) by (auto simp: unauthorize_callers_def result_simps case_prod_beta)
    then have "remove_provers s cs' = (s', snd (remove_provers s cs'))" by simp
    from provers_inv_removes [OF this assms(2)] have
      "\<forall>b x. kv_get (ms_prover_chain s') b = Some x \<longrightarrow> kv_get (ms_prover_chain s) b = Some x" by auto
    then show False using assms(3,4) by (auto simp: caller_authorized_def chain_by_prover_def)
  qed
  ultimately show ?thesis using ms_dispatch_frame [OF assms(1)] by blast
qed

lemma ms_tx_disabled:
  assumes "ms_killswitch s = Some Engaged" and "ms_tx s (env, sender, call) = Inr (s', r)"
    and "call = Direct EnableSigning \<longrightarrow> \<not> holds_permission (ms_perms s) sender Elevated"
  shows "ms_sessions s' = ms_sessions s \<and> ms_signatures s' = ms_signatures s \<and> ms_perms s' = ms_perms s
    \<and> ms_killswitch s' = Some Engaged"
proof -
  from assms(2) obtain b msg where run: "ms_dispatch env s b msg = Inr (s', r)" "call_msg call = msg"
    and perm: "ensure_permissions (ms_perms s) b (ms_permissions msg) (\<lambda>_. can_start_signing_session s b msg) = Inr ()"
    and b: "call = Direct msg \<and> b = sender
     \<or> call = Relay b msg \<and> ms_find_coordinator s = Inr sender \<and> external_perms (ms_permissions msg) = [''coordinator'']"
    by (rule ms_tx_Inr)
  have not: "msg \<noteq> EnableSigning" using perm b assms(3) by (auto simp: result_simps)
  have "ms_killswitch s' = Some Engaged" if "msg = DisableSigning"
    using that run(1) killswitch_steps(1) by (fastforce simp: disable_signing_def result_simps)
  then show ?thesis
    using ms_dispatch_frame [OF run(1)] not assms(1) by (auto simp: is_contract_active_def)
qed

subsection \<open>Sessions under arbitrary calls\<close>

text \<open>
  The identifier of a verifier set does not protect a registered set from being replaced. What
  follows holds whatever sets are registered: the sessions are numbered, a transaction leaves them
  and their signatures in place, and every signature and every completion goes back to an accepted
  submission, judged by the set that was stored at the time.
\<close>

definition sessions_wf :: "ms_state \<Rightarrow> bool" where
  "sessions_wf s \<longleftrightarrow> (\<forall>i ss. kv_get (ms_sessions s) i = Some ss \<longrightarrow> ss_id ss = i)
     \<and> (\<forall>i a. kv_get (ms_signatures s) (i, a) \<noteq> None \<longrightarrow> kv_get (ms_sessions s) i \<noteq> None)
     \<and> (\<exists>n. ms_session_counter s = Some n \<and> (\<forall>i. kv_get (ms_sessions s) i \<noteq> None \<longrightarrow> i \<le> n))"

definition ms_keeps :: "ms_state \<Rightarrow> ms_state \<Rightarrow> bool" where
  "ms_keeps s s' \<longleftrightarrow> sessions_evolve (ms_sessions s) (ms_sessions s')
     \<and> (\<forall>k sig. kv_get (ms_signatures s) k = Some sig \<longrightarrow> kv_get (ms_signatures s') k = Some sig)
     \<and> (\<forall>k. kv_get (ms_verifier_sets s) k \<noteq> None \<longrightarrow> kv_get (ms_verifier_sets s') k \<noteq> None)"

text \<open>An accepted submission of a signature, in the state before the call.\<close>

definition signed_by :: "ms_state \<Rightarrow> ms_call \<Rightarrow> u64 \<Rightarrow> string \<Rightarrow> signature \<Rightarrow> bool" where
  "signed_by s call i a sig \<longleftrightarrow> (\<exists>env raw s' r ss vs x. call = (env, a, Direct (SubmitSignature i raw)) \<and> ms_tx s call = Inr (s', r)
     \<and> kv_get (ms_sessions s) i = Some ss \<and> me_height env \<le> ss_expires_at ss
     \<and> kv_get (ms_verifier_sets s) (ss_verifier_set_id ss) = Some vs \<and> kv_get (vs_signers vs) a = Some x
     \<and> signature_try_from (public_key_type (sg_pub_key x)) raw = Inr sig
     \<and> (case ss_sig_verifier ss of
          None \<Rightarrow> signature_verify (me_crypto env) sig (ss_msg ss) (sg_pub_key x) = Inr ()
        | Some v \<Rightarrow> VerifySignature v (signature_bytes sig) (ss_msg ss) (public_key_bytes (sg_pub_key x)) a i \<in> set (messages r)))"

text \<open>The weight that the signatures reach with a submission, against the threshold of the stored set.\<close>

definition reaches_threshold :: "ms_state \<Rightarrow> ms_call \<Rightarrow> u64 \<Rightarrow> bool" where
  "reaches_threshold s call i \<longleftrightarrow> (\<exists>ss vs. kv_get (ms_sessions s) i = Some ss
     \<and> kv_get (ms_verifier_sets s) (ss_verifier_set_id ss) = Some vs
     \<and> unat (vs_threshold vs) \<le> signed_weight (commit s (ms_tx s call)) i vs)"


lemma ms_keeps_refl [simp]: "ms_keeps s s"
  by (simp add: ms_keeps_def)

lemma ms_keeps_trans: "ms_keeps a b \<Longrightarrow> ms_keeps b c \<Longrightarrow> ms_keeps a c"
  by (auto simp: ms_keeps_def intro: sessions_evolve_trans)

lemma ms_dispatch_other:
  assumes "ms_dispatch env s a msg = Inr (s', r)"
    and "\<And>i m ch v. msg \<noteq> StartSigningSession i m ch v" "\<And>i raw. msg \<noteq> SubmitSignature i raw"
  shows "ms_sessions s' = ms_sessions s \<and> ms_signatures s' = ms_signatures s \<and> ms_session_counter s' = ms_session_counter s
    \<and> (ms_verifier_sets s' = ms_verifier_sets s
       \<or> (\<exists>vs. msg = RegisterVerifierSet vs
            \<and> ms_verifier_sets s' = kv_set (verifier_set_id (me_keccak256 env) (me_to_hex env) vs) vs (ms_verifier_sets s)))"
proof (cases msg)
  case (AuthorizeCallers cs)
  then obtain cs' where "try_fold (\<lambda>s (a, ch). save_prover s a ch) s cs' = Inr s'"
    using assms(1) by (auto simp: authorize_callers_def result_simps)
  then show ?thesis using save_provers_frame by fastforce
next
  case (UnauthorizeCallers cs)
  then obtain cs' where "s' = fst (remove_provers s cs')"
    using assms(1) by (auto simp: unauthorize_callers_def result_simps case_prod_beta)
  then show ?thesis using remove_provers_frame [of s cs'] by auto
qed (use assms in \<open>auto simp: result_simps register_verifier_set_def disable_signing_def enable_signing_def
      update_signing_parameters_def register_pub_key_def save_pub_key_def Let_def split: if_splits\<close>)

lemma start_keeps:
  assumes "start_signing_session env s set_id msg chain v = Inr (s', r)" and wf: "sessions_wf s"
  shows "sessions_wf s' \<and> ms_keeps s s' \<and> ms_signatures s' = ms_signatures s \<and> ms_verifier_sets s' = ms_verifier_sets s
    \<and> (\<forall>i ss. kv_get (ms_sessions s') i = Some ss \<longrightarrow> kv_get (ms_sessions s) i = Some ss \<or> ss_state ss = Pending)"
  using assms(1)
proof (cases rule: start_signing_session_Inr)
  case (1 config vs n i e)
  have ni: "n < i" using checked_add_unat [OF 1(5)] by (simp add: word_less_nat_alt)
  then have none: "kv_get (ms_sessions s) i = None" using wf 1(4) unfolding sessions_wf_def by (metis leD option.inject)
  have "j \<le> i" if "kv_get (ms_sessions s) j \<noteq> None" for j using wf that ni 1(4) unfolding sessions_wf_def by fastforce
  then have "sessions_wf s'" using wf by (auto simp: sessions_wf_def 1(7) signing_session_new_def)
  moreover have "sessions_evolve (ms_sessions s) (ms_sessions s')" using none by (auto simp: sessions_evolve_def 1(7))
  ultimately show ?thesis by (auto simp: ms_keeps_def 1(7) signing_session_new_def split: if_splits)
qed

lemma submit_keeps:
  assumes "submit_signature env s a i raw = Inr (s', r)" and wf: "sessions_wf s"
    and call: "call = (env, a, Direct (SubmitSignature i raw))" and tx: "ms_tx s call = Inr (s', r)"
  obtains ss ss' sig where "sessions_wf s'" "ms_keeps s s'" "ms_verifier_sets s' = ms_verifier_sets s"
    "ms_signatures s' = kv_set (i, a) sig (ms_signatures s)" "signed_by s call i a sig"
    "kv_get (ms_sessions s) i = Some ss" "ms_sessions s' = kv_set i ss' (ms_sessions s)"
    "ss_state ss' = ss_state ss \<or> ss_state ss' = Completed (me_height env) \<and> reaches_threshold s call i"
    "ss_state ss' = Pending \<longrightarrow> \<not> reaches_threshold s call i"
  using assms(1)
proof (cases rule: submit_signature_Inr)
  case (1 config ss vs x sig s1 ss' out)
  have id: "ss_id ss = i" using wf 1(3) by (simp add: sessions_wf_def)
  note re = recalculate_session_state_Inr [OF 1(10)] and va = validate_session_signature_Inr [OF 1(7)]
  have id': "ss_id ss' = i" and ev: "session_evolves ss ss'" using re id by simp_all
  have s': "ms_sessions s' = kv_set i ss' (ms_sessions s)" "ms_signatures s' = kv_set (i, a) sig (ms_signatures s)"
    "ms_verifier_sets s' = ms_verifier_sets s" "ms_session_counter s' = ms_session_counter s" by (simp_all add: 1(9,11) id')
  have w: "signed_weight s' i vs = sum_list (map (\<lambda>(a, _). signer_weight vs a) (load_session_signatures s1 i))"
    unfolding signed_weight_load [of s1, symmetric] by (rule fun_cong [OF fun_cong [OF signed_weight_cong]]) (simp add: 1(11))
  have th: "reaches_threshold s call i \<longleftrightarrow> unat (vs_threshold vs) \<le> signed_weight s' i vs"
    using 1(3,4) tx by (auto simp: reaches_threshold_def)
  have "i \<le> n" if "ms_session_counter s = Some n" for n using wf 1(3) that by (auto simp: sessions_wf_def)
  then have "sessions_wf s'" using wf id' unfolding sessions_wf_def s' by (auto split: if_splits)
  moreover have "sessions_evolve (ms_sessions s) (ms_sessions s')" using 1(3) ev by (auto simp: sessions_evolve_def s')
  then have "ms_keeps s s'" using 1(8) by (auto simp: ms_keeps_def s')
  moreover have "signed_by s call i a sig"
    unfolding signed_by_def using 1(3-6,12) va tx id by (auto simp: call split: option.splits)
  moreover have "ss_state ss' = ss_state ss \<or> ss_state ss' = Completed (me_height env) \<and> reaches_threshold s call i"
    "ss_state ss' = Pending \<longrightarrow> \<not> reaches_threshold s call i" using re unfolding th w by auto
  ultimately show thesis using that s' 1(3) by blast
qed

lemma ms_tx_keeps:
  assumes "ms_tx s call = Inr (s', r)" and wf: "sessions_wf s"
  shows "sessions_wf s' \<and> ms_keeps s s'
    \<and> (\<forall>i a sig. kv_get (ms_signatures s') (i, a) = Some sig \<longrightarrow> kv_get (ms_signatures s) (i, a) = Some sig \<or> signed_by s call i a sig)
    \<and> (\<forall>i ss h. kv_get (ms_sessions s') i = Some ss \<longrightarrow> ss_state ss = Completed h \<longrightarrow>
         (\<exists>ss0. kv_get (ms_sessions s) i = Some ss0 \<and> ss_state ss0 = Completed h)
         \<or> (\<exists>a sig. signed_by s call i a sig) \<and> me_height (fst call) = h \<and> reaches_threshold s call i)
    \<and> (\<forall>i a sig ss. signed_by s call i a sig \<longrightarrow> kv_get (ms_sessions s') i = Some ss \<longrightarrow> ss_state ss = Pending \<longrightarrow>
         \<not> reaches_threshold s call i)"
proof -
  obtain env sender cm where call: "call = (env, sender, cm)" by (cases call)
  from assms(1) obtain b msg where run: "ms_dispatch env s b msg = Inr (s', r)" "call_msg cm = msg"
    and b: "cm = Direct msg \<and> b = sender
     \<or> cm = Relay b msg \<and> ms_find_coordinator s = Inr sender \<and> external_perms (ms_permissions msg) = [''coordinator'']"
    unfolding call by (rule ms_tx_Inr)
  have signed: "\<exists>raw. msg = SubmitSignature i raw" if "signed_by s call i a sig" for i a sig
    using that run(2) by (auto simp: signed_by_def call)
  consider (start) k m ch v where "msg = StartSigningSession k m ch v" | (submit) i raw where "msg = SubmitSignature i raw"
    | (other) "\<And>i m ch v. msg \<noteq> StartSigningSession i m ch v" "\<And>i raw. msg \<noteq> SubmitSignature i raw" by metis
  then show ?thesis
  proof cases
    case start
    then obtain v' where "start_signing_session env s k m ch v' = Inr (s', r)" using run(1) by (auto simp: result_simps)
    note st = start_keeps [OF this wf]
    then show ?thesis using signed start by (auto dest: spec) (metis multisig_state.distinct(1))+
  next
    case (submit i raw)
    then have c: "call = (env, sender, Direct (SubmitSignature i raw))" and sub: "submit_signature env s sender i raw = Inr (s', r)"
      using b run(1) by (auto simp: call)
    obtain ss ss' sig where sk: "sessions_wf s'" "ms_keeps s s'"
      "ms_signatures s' = kv_set (i, sender) sig (ms_signatures s)" "signed_by s call i sender sig"
      "kv_get (ms_sessions s) i = Some ss" "ms_sessions s' = kv_set i ss' (ms_sessions s)"
      "ss_state ss' = ss_state ss \<or> ss_state ss' = Completed (me_height env) \<and> reaches_threshold s call i"
      "ss_state ss' = Pending \<longrightarrow> \<not> reaches_threshold s call i"
      using sub wf c assms(1) by (rule submit_keeps)
    have "j = i" if "signed_by s call j a g" for j a g using signed [OF that] submit by auto
    then show ?thesis using sk by (auto simp: c split: if_splits)
  next
    case other
    note ot = ms_dispatch_other [OF run(1) other]
    have "sessions_wf s'" using wf ot by (simp add: sessions_wf_def)
    moreover have "ms_keeps s s'" using ot by (auto simp: ms_keeps_def)
    ultimately show ?thesis using ot signed other(2) by auto
  qed
qed

text \<open>The multisig as a contract without any restriction on its calls.\<close>

interpretation msw: contract_machine ms_tx sessions_wf "\<lambda>_. True"
  by unfold_locales (blast dest: ms_tx_keeps)

lemma ms_instantiate_wf: "ms_instantiate env governance admin rewards e coordinator = Inr (s, r) \<Longrightarrow>
    sessions_wf s \<and> ms_sessions s = [] \<and> ms_signatures s = []"
  by (auto simp: ms_instantiate_def Let_def result_simps sessions_wf_def)

lemma ms_run_wf: "sessions_wf s \<Longrightarrow> sessions_wf (run_txs ms_tx s calls)"
  by (rule msw.run_inv) (simp_all add: list_all_iff)

lemma ms_run_keeps: "sessions_wf s \<Longrightarrow> ms_keeps s (run_txs ms_tx s calls)"
  by (rule msw.run_rel) (auto simp: list_all_iff intro: ms_keeps_trans dest: ms_tx_keeps)




text \<open>A stored set stays if no other set with its identifier is registered.\<close>

definition keeps_set :: "string \<Rightarrow> verifier_set \<Rightarrow> ms_call \<Rightarrow> bool" where
  "keeps_set k vs call \<longleftrightarrow> (case call of (env, _, m) \<Rightarrow> \<forall>vs'. call_msg m = RegisterVerifierSet vs' \<longrightarrow>
     verifier_set_id (me_keccak256 env) (me_to_hex env) vs' = k \<longrightarrow> vs' = vs)"

interpretation msk: contract_machine ms_tx "\<lambda>s. kv_get (ms_verifier_sets s) k = Some vs" "keeps_set k vs" for k vs
proof
  fix s call s' r
  assume set: "kv_get (ms_verifier_sets s) k = Some vs" and ok: "keeps_set k vs call" and tx: "ms_tx s call = Inr (s', r)"
  obtain env sender cm where call: "call = (env, sender, cm)" by (cases call)
  from tx obtain b msg where run: "ms_dispatch env s b msg = Inr (s', r)" "call_msg cm = msg" unfolding call by (rule ms_tx_Inr)
  consider (start) i m ch v where "msg = StartSigningSession i m ch v" | (submit) i raw where "msg = SubmitSignature i raw"
    | (other) "\<And>i m ch v. msg \<noteq> StartSigningSession i m ch v" "\<And>i raw. msg \<noteq> SubmitSignature i raw" by metis
  then show "kv_get (ms_verifier_sets s') k = Some vs"
  proof cases
    case start
    then show ?thesis using run(1) set by (auto simp: result_simps elim!: start_signing_session_Inr)
  next
    case submit
    then show ?thesis using run(1) set by (auto elim!: submit_signature_Inr)
  next
    case other
    from ms_dispatch_other [OF run(1) other] show ?thesis using set ok run(2) by (auto simp: keeps_set_def call)
  qed
qed

subsection \<open>The selection for every multisig\<close>

lemma try_map_panics:
  "(\<And>y. y \<in> set xs \<Longrightarrow> is_ok (f y) \<or> is_panic (f y)) \<Longrightarrow> x \<in> set xs \<Longrightarrow> is_panic (f x) \<Longrightarrow> is_panic (try_map f xs)"
proof (induction xs)
  case (Cons y ys)
  show ?case
  proof (cases "is_panic (f y)")
    case False
    then obtain z where "f y = Inr z" using Cons.prems(1) [of y] by (cases "f y") auto
    moreover have "is_panic (try_map f ys)" using Cons False by auto
    ultimately show ?thesis by simp
  qed simp
qed simp

lemma optimize_signatures_defined:
  assumes "\<forall>a \<in> fst ` set (mu_signatures m). kv_get (vs_signers (mu_verifier_set m)) a \<noteq> None"
  shows "\<exists>out. optimize_signatures m = (Inr out :: ('e, _) result)"
proof -
  have "try_map (\<lambda>(a, sig). and_then (multisig_signer m a) (\<lambda>x. Ok (x, sig))) (mu_signatures m) =
      (Inr (map (\<lambda>(a, sig). (the (kv_get (vs_signers (mu_verifier_set m)) a), sig)) (mu_signatures m)) :: ('e, _) result)"
    using assms by (intro try_map_all_ok) (fastforce simp: multisig_signer_def)
  then show ?thesis by (simp add: optimize_signatures_def)
qed

lemma optimize_signatures_panics:
  assumes "a \<in> fst ` set (mu_signatures m)" "kv_get (vs_signers (mu_verifier_set m)) a = None"
  shows "is_panic (optimize_signatures m :: ('e, _) result)"
proof -
  define f :: "string \<times> signature \<Rightarrow> ('e, signer \<times> signature) result"
    where "f = (\<lambda>(a, sig). and_then (multisig_signer m a) (\<lambda>x. Ok (x, sig)))"
  from assms obtain sig where sig: "(a, sig) \<in> set (mu_signatures m)" by auto
  have here: "is_panic (f (a, sig))" by (simp add: f_def multisig_signer_def assms(2))
  have "is_ok (f y) \<or> is_panic (f y)" for y
    by (cases "kv_get (vs_signers (mu_verifier_set m)) (fst y)") (auto simp: f_def multisig_signer_def split: prod.splits)
  then have "is_panic (try_map f (mu_signatures m))" using sig here by (rule try_map_panics)
  then show ?thesis by (simp add: optimize_signatures_def f_def)
qed

text \<open>What is kept is a selection of the signatures, all of them if they do not reach the threshold.\<close>

lemma optimize_signatures_selection:
  assumes "optimize_signatures m = Inr out"
  shows "\<exists>sel. mset sel \<subseteq># mset (mu_signatures m)
    \<and> out = map (\<lambda>(a, sig). (the (kv_get (vs_signers (mu_verifier_set m)) a), sig)) sel
    \<and> (sum_list (map (\<lambda>x. signer_weight (mu_verifier_set m) (fst x)) (mu_signatures m)) < unat (vs_threshold (mu_verifier_set m)) \<longrightarrow>
        mset sel = mset (mu_signatures m))"
proof -
  let ?vs = "mu_verifier_set m" and ?bw = "by_weight (mu_verifier_set m) (mu_signatures m)"
  let ?w = "\<lambda>x. signer_weight ?vs (fst x)"
  obtain k where k: "k \<le> length (mu_signatures m)"
    "list_all2 (\<lambda>x y. kv_get (vs_signers ?vs) (fst x) = Some (fst y) \<and> snd y = snd x) (take k ?bw) out"
    "k < length (mu_signatures m) \<longrightarrow> unat (vs_threshold ?vs) \<le> sum_list (map ?w (take k ?bw))"
    using assms by (rule optimize_signatures_Inr)
  have bw: "mset ?bw = mset (mu_signatures m)" by (simp add: by_weight_def)
  have split: "mset (take k ?bw) + mset (drop k ?bw) = mset (mu_signatures m)" using bw by (simp flip: mset_append)
  have "map id out = map (\<lambda>(a, sig). (the (kv_get (vs_signers ?vs) a), sig)) (take k ?bw)"
    using k(2) by (rule list_all2_map_eq) (auto simp: prod_eq_iff split: prod.splits)
  moreover have "mset (take k ?bw) = mset (mu_signatures m)" if "sum_list (map ?w (mu_signatures m)) < unat (vs_threshold ?vs)"
  proof -
    have "sum_list (map ?w (take k ?bw)) + sum_list (map ?w (drop k ?bw)) = sum_list (map ?w (mu_signatures m))"
      by (simp only: flip: sum_mset_sum_list) (simp only: mset_map split flip: sum_mset.union image_mset_union)
    then have "\<not> k < length (mu_signatures m)" using k(3) that by linarith
    then show ?thesis using k(1) bw by (simp add: by_weight_def)
  qed
  moreover have "mset (take k ?bw) \<subseteq># mset (mu_signatures m)" using split by (metis mset_subset_eq_add_left)
  ultimately show ?thesis by (intro exI [of _ "take k ?bw"]) simp
qed

section \<open>Example\<close>

text \<open>A session that two of three verifiers complete.\<close>

definition ms_ex_crypto :: crypto where
  "ms_ex_crypto = \<lparr>cr_sec1_normalize = Some, cr_ed25519_normalize = Some,
     cr_secp256k1_verify = (\<lambda>_ _ _. None), cr_ed25519_verify = (\<lambda>m sig pk. Some (take 1 sig = pk))\<rparr>"

definition ms_ex_setting :: ms_setting where
  "ms_ex_setting = \<lparr>st_keccak256 = (\<lambda>x. x), st_to_hex = hex_encode_std, st_crypto = ms_ex_crypto,
     st_set_ok = (\<lambda>vs. verifier_set_ok vs \<and> verifier_set_uniform 1 1 KeyEd25519 vs)\<rparr>"

abbreviation ms_ex_env :: "u64 \<Rightarrow> ms_env" where
  "ms_ex_env h \<equiv> \<lparr>me_height = h, me_keccak256 = (\<lambda>x. x), me_to_hex = hex_encode_std, me_crypto = ms_ex_crypto,
     me_addr_validate = Some, me_map_order = id\<rparr>"

definition ms_ex_set :: verifier_set where
  "ms_ex_set = \<lparr>vs_signers = [(''a'', \<lparr>sg_address = ''a'', sg_weight = 1, sg_pub_key = PkEd25519 [1]\<rparr>),
       (''b'', \<lparr>sg_address = ''b'', sg_weight = 1, sg_pub_key = PkEd25519 [2]\<rparr>),
       (''c'', \<lparr>sg_address = ''c'', sg_weight = 1, sg_pub_key = PkEd25519 [3]\<rparr>)],
     vs_threshold = 2, vs_created_at = 1\<rparr>"

definition ms_ex_id :: string where
  "ms_ex_id = verifier_set_id (\<lambda>x. x) hex_encode_std ms_ex_set"

abbreviation ms_ex_sig :: "u8 \<Rightarrow> u8 list" where
  "ms_ex_sig k \<equiv> k # replicate 63 0"

abbreviation ms_ex_init :: ms_state where
  "ms_ex_init \<equiv> \<lparr>ms_config = Some \<lparr>mc_rewards_contract = ''rewards'', mc_block_expiry = 10, mc_coordinator = ''coord''\<rparr>,
     ms_perms = \<lparr>admin_addr = Some ''admin'', governance_addr = Some ''gov''\<rparr>, ms_killswitch = Some Disengaged,
     ms_session_counter = Some 0, ms_sessions = [], ms_prover_chain = [], ms_verifier_sets = [], ms_signatures = [],
     ms_pub_keys = []\<rparr>"

abbreviation ms_ex_session :: "multisig_state \<Rightarrow> signing_session" where
  "ms_ex_session st \<equiv> \<lparr>ss_id = 1, ss_verifier_set_id = ms_ex_id, ss_chain_name = ''eth'', ss_msg = [7],
     ss_state = st, ss_expires_at = 20, ss_sig_verifier = None\<rparr>"

abbreviation ms_ex_state :: "(u64, signing_session) kv \<Rightarrow> (u64 \<times> string, signature) kv \<Rightarrow> ms_state" where
  "ms_ex_state sessions sigs \<equiv> ms_ex_init\<lparr>ms_prover_chain := [(''prover'', (''prover'', ''eth''))],
     ms_verifier_sets := [(ms_ex_id, ms_ex_set)], ms_session_counter := Some (if sessions = [] then 0 else 1),
     ms_sessions := sessions, ms_signatures := sigs\<rparr>"

lemmas ms_eval = ms_tx_def ms_execute_def authorize_def ensure_permissions_def general_check_def sender_role_def
  verify_external_executor_def ms_find_coordinator_def ms_response_new_def

lemma ms_ex_signers [simp]:
  "kv_get (vs_signers ms_ex_set) ''a'' = Some \<lparr>sg_address = ''a'', sg_weight = 1, sg_pub_key = PkEd25519 [1]\<rparr>"
  "kv_get (vs_signers ms_ex_set) ''b'' = Some \<lparr>sg_address = ''b'', sg_weight = 1, sg_pub_key = PkEd25519 [2]\<rparr>"
  "vs_threshold ms_ex_set = 2"
  by (simp_all add: ms_ex_set_def)

lemma ms_ex_instantiate:
  "ms_instantiate (ms_ex_env 1) ''gov'' ''admin'' ''rewards'' 10 ''coord'' = Inr (ms_ex_init, ms_response_new [] [])"
  by (simp add: ms_instantiate_def Let_def validate_cosmwasm_address_def set_governance_def set_admin_def killswitch_init_def)

lemma ms_ex_authorize:
  "ms_tx ms_ex_init (ms_ex_env 2, ''coord'', Relay ''gov'' (AuthorizeCallers [(''prover'', ''eth'')])) =
     Inr (ms_ex_init\<lparr>ms_prover_chain := [(''prover'', (''prover'', ''eth''))]\<rparr>,
       ms_response_new [] [CallerAuthorized ''prover'' ''eth''])"
  by (simp add: ms_eval validate_cosmwasm_address_def authorize_callers_def kv_of_list_def save_prover_def)

lemma ms_ex_register:
  "ms_tx (ms_ex_init\<lparr>ms_prover_chain := [(''prover'', (''prover'', ''eth''))]\<rparr>)
       (ms_ex_env 3, ''u'', Direct (RegisterVerifierSet ms_ex_set)) =
     Inr (ms_ex_state [] [], ms_response_new [] [])"
  by (simp add: ms_eval register_verifier_set_def ms_ex_id_def)

lemma ms_ex_start:
  "\<exists>r. ms_tx (ms_ex_state [] []) (ms_ex_env 10, ''prover'', Direct (StartSigningSession ms_ex_id [7] ''eth'' None)) =
     Inr (ms_ex_state [(1, ms_ex_session Pending)] [], r)"
  by (simp add: ms_eval caller_authorized_def chain_by_prover_def start_signing_session_def is_contract_active_def ensure_def
      ms_verifier_set_def checked_add_def signing_session_new_def)

lemma ms_ex_sign_a:
  "\<exists>r. ms_tx (ms_ex_state [(1, ms_ex_session Pending)] []) (ms_ex_env 11, ''a'', Direct (SubmitSignature 1 (ms_ex_sig 1))) =
     Inr (ms_ex_state [(1, ms_ex_session Pending)] [((1, ''a''), SigEd25519 (ms_ex_sig 1))], r)"
  by (simp add: ms_eval submit_signature_def is_contract_active_def ensure_def signature_try_from_def
      validate_session_signature_def signature_verify_def ed25519_verify_def ms_ex_crypto_def save_signature_def
      load_session_signatures_def recalculate_session_state_def signers_weight_def checked_add_def Let_def word_le_nat_alt)

lemma ms_ex_sign_b:
  "\<exists>r. ms_tx (ms_ex_state [(1, ms_ex_session Pending)] [((1, ''a''), SigEd25519 (ms_ex_sig 1))])
       (ms_ex_env 12, ''b'', Direct (SubmitSignature 1 (ms_ex_sig 2))) =
     Inr (ms_ex_state [(1, ms_ex_session (Completed 12))]
       [((1, ''a''), SigEd25519 (ms_ex_sig 1)), ((1, ''b''), SigEd25519 (ms_ex_sig 2))], r)"
  by (simp add: ms_eval submit_signature_def is_contract_active_def ensure_def signature_try_from_def
      validate_session_signature_def signature_verify_def ed25519_verify_def ms_ex_crypto_def save_signature_def
      load_session_signatures_def recalculate_session_state_def signers_weight_def checked_add_def Let_def
      less_prod_def less_char_def word_le_nat_alt)

lemma ms_ex_ids: "ids_unique ms_ex_setting"
proof -
  have "inj hex_encode_std" by (rule inj_on_inverseI [of _ "\<lambda>s. the (hex_decode_std s)"]) (simp add: hex_decode_encode_std)
  then show ?thesis unfolding ms_ex_setting_def by (intro ids_unique_uniform) (simp_all add: inj_on_def)
qed

lemma ms_ex_call_ok:
  "ms_call_ok ms_ex_setting (ms_ex_env h, a, Direct (RegisterVerifierSet ms_ex_set))"
  "ms_call_ok ms_ex_setting (ms_ex_env h, a, Relay g (AuthorizeCallers cs))"
  "ms_call_ok ms_ex_setting (ms_ex_env h, a, Direct (StartSigningSession i m ch v))"
  "ms_call_ok ms_ex_setting (ms_ex_env h, a, Direct (SubmitSignature j raw))"
  by (simp_all add: ms_call_ok_def ms_ex_setting_def ms_ex_set_def verifier_set_ok_def verifier_set_uniform_def kv_ok_def)

lemma ms_ex_reachable:
  "ms_reachable ms_ex_setting (ms_ex_state [] [])"
  "ms_reachable ms_ex_setting (ms_ex_state [(1, ms_ex_session Pending)] [])"
  "ms_reachable ms_ex_setting (ms_ex_state [(1, ms_ex_session Pending)] [((1, ''a''), SigEd25519 (ms_ex_sig 1))])"
  "ms_reachable ms_ex_setting (ms_ex_state [(1, ms_ex_session (Completed 12))]
     [((1, ''a''), SigEd25519 (ms_ex_sig 1)), ((1, ''b''), SigEd25519 (ms_ex_sig 2))])"
proof -
  have "ms_reachable ms_ex_setting ms_ex_init" using ms_ex_instantiate by (rule ms_init)
  note ms_step [OF this ms_ex_call_ok(2) ms_ex_authorize]
  note 1 = ms_step [OF this ms_ex_call_ok(1) ms_ex_register]
  show "ms_reachable ms_ex_setting (ms_ex_state [] [])" by (rule 1)
  show 2: "ms_reachable ms_ex_setting (ms_ex_state [(1, ms_ex_session Pending)] [])"
    using ms_ex_start ms_step [OF 1 ms_ex_call_ok(3)] by blast
  show 3: "ms_reachable ms_ex_setting (ms_ex_state [(1, ms_ex_session Pending)] [((1, ''a''), SigEd25519 (ms_ex_sig 1))])"
    using ms_ex_sign_a ms_step [OF 2 ms_ex_call_ok(4)] by blast
  show "ms_reachable ms_ex_setting (ms_ex_state [(1, ms_ex_session (Completed 12))]
     [((1, ''a''), SigEd25519 (ms_ex_sig 1)), ((1, ''b''), SigEd25519 (ms_ex_sig 2))])"
    using ms_ex_sign_b ms_step [OF 3 ms_ex_call_ok(4)] by blast
qed

abbreviation ms_ex_calls :: "ms_call list" where
  "ms_ex_calls \<equiv> [(ms_ex_env 2, ''coord'', Relay ''gov'' (AuthorizeCallers [(''prover'', ''eth'')])),
     (ms_ex_env 3, ''u'', Direct (RegisterVerifierSet ms_ex_set)),
     (ms_ex_env 10, ''prover'', Direct (StartSigningSession ms_ex_id [7] ''eth'' None)),
     (ms_ex_env 11, ''a'', Direct (SubmitSignature 1 (ms_ex_sig 1)))]"

lemma ms_ex_run: "run_txs ms_tx ms_ex_init ms_ex_calls = ms_ex_state [(1, ms_ex_session Pending)] [((1, ''a''), SigEd25519 (ms_ex_sig 1))]"
proof -
  from ms_ex_start obtain r where r: "ms_tx (ms_ex_state [] []) (ms_ex_env 10, ''prover'', Direct (StartSigningSession ms_ex_id [7] ''eth'' None)) =
     Inr (ms_ex_state [(1, ms_ex_session Pending)] [], r)" ..
  from ms_ex_sign_a obtain q where q: "ms_tx (ms_ex_state [(1, ms_ex_session Pending)] []) (ms_ex_env 11, ''a'', Direct (SubmitSignature 1 (ms_ex_sig 1))) =
     Inr (ms_ex_state [(1, ms_ex_session Pending)] [((1, ''a''), SigEd25519 (ms_ex_sig 1))], q)" ..
  show ?thesis by (simp only: run_txs_simps ms_ex_authorize ms_ex_register r q commit_Inr)
qed

section \<open>Properties\<close>



text \<open>
  C30. Signing sessions only move forward, whatever calls follow and whatever verifier sets anyone
  registers: a session keeps its message, chain, verifier set id, expiry and verifier contract, the
  query goes on to return it with all its signatures, and once completed it stays completed at
  the same height. The verifier set that the query returns stays the same as long as nobody registers
  a different set with the same id.
\<close>

theorem sessions_final:
  assumes "ms_instantiate env0 governance admin rewards expiry coordinator = Inr (s0, r0)" and "s = run_txs ms_tx s0 before"
    and "query_multisig s i = Inr m" and "kv_get (ms_sessions s) i = Some ss"
  shows "\<exists>m' ss'. query_multisig (run_txs ms_tx s calls) i = Inr m' \<and> kv_get (ms_sessions (run_txs ms_tx s calls)) i = Some ss'
    \<and> ss'\<lparr>ss_state := ss_state ss\<rparr> = ss \<and> mu_state m' = ss_state ss'
    \<and> (mu_state m \<noteq> Pending \<longrightarrow> mu_state m' = mu_state m)
    \<and> (\<forall>a sig. kv_get (mu_signatures m) a = Some sig \<longrightarrow> kv_get (mu_signatures m') a = Some sig)
    \<and> ((\<forall>(env, a, call) \<in> set calls. \<forall>vs. call_msg call = RegisterVerifierSet vs \<longrightarrow>
          verifier_set_id (me_keccak256 env) (me_to_hex env) vs = ss_verifier_set_id ss \<longrightarrow> vs = mu_verifier_set m) \<longrightarrow>
        mu_verifier_set m' = mu_verifier_set m)"
proof -
  let ?s = "run_txs ms_tx s calls"
  have "sessions_wf s" using ms_instantiate_wf [OF assms(1)] ms_run_wf by (simp add: assms(2))
  then have keep: "ms_keeps s ?s" by (rule ms_run_keeps)
  from assms(3,4) have set: "kv_get (ms_verifier_sets s) (ss_verifier_set_id ss) = Some (mu_verifier_set m)"
    and m: "mu_state m = ss_state ss" "mu_signatures m = load_session_signatures s (ss_id ss)"
    by (auto simp: query_multisig_def result_simps)
  from keep assms(4) obtain ss' where ss': "kv_get (ms_sessions ?s) i = Some ss'" "session_evolves ss ss'"
    unfolding ms_keeps_def sessions_evolve_def by blast
  note fields = session_evolves_fields [OF ss'(2)]
  have same: "ss'\<lparr>ss_state := ss_state ss\<rparr> = ss" "ss_state ss \<noteq> Pending \<longrightarrow> ss_state ss' = ss_state ss"
    using ss'(2) by (cases ss; cases ss'; simp add: session_evolves_def)+
  obtain vs where vs: "kv_get (ms_verifier_sets ?s) (ss_verifier_set_id ss) = Some vs"
    using keep set unfolding ms_keeps_def by (metis not_Some_eq)
  have "vs = mu_verifier_set m" if "\<forall>(env, a, call) \<in> set calls. \<forall>vs. call_msg call = RegisterVerifierSet vs \<longrightarrow>
      verifier_set_id (me_keccak256 env) (me_to_hex env) vs = ss_verifier_set_id ss \<longrightarrow> vs = mu_verifier_set m"
    using msk.run_inv [OF set, of calls] that vs by (auto simp: list_all_iff keeps_set_def)
  moreover have "query_multisig ?s i = Inr \<lparr>mu_state = ss_state ss', mu_verifier_set = vs,
      mu_signatures = load_session_signatures ?s (ss_id ss)\<rparr>"
    using ss'(1) vs fields by (simp add: query_multisig_def)
  moreover have "kv_get (load_session_signatures ?s (ss_id ss)) a = Some sig" if "kv_get (mu_signatures m) a = Some sig" for a sig
    using keep that by (simp add: ms_keeps_def m(2) kv_get_load_session_signatures)
  ultimately show ?thesis using ss'(1) same m(1)
    by (intro exI [of _ "\<lparr>mu_state = ss_state ss', mu_verifier_set = vs, mu_signatures = load_session_signatures ?s (ss_id ss)\<rparr>"]
        exI [of _ ss'] conjI) (simp_all only: multisig.simps, blast+)
qed

theorem sessions_final_witness:
  "\<exists>m'. query_multisig (run_txs ms_tx (run_txs ms_tx ms_ex_init ms_ex_calls)
       [(ms_ex_env 12, ''b'', Direct (SubmitSignature 1 (ms_ex_sig 2))),
        (ms_ex_env 13, ''u'', Direct (RegisterVerifierSet ms_ex_set))]) 1 = Inr m'
     \<and> mu_verifier_set m' = ms_ex_set \<and> kv_get (mu_signatures m') ''a'' = Some (SigEd25519 (ms_ex_sig 1))"
proof -
  let ?s = "ms_ex_state [(1, ms_ex_session Pending)] [((1, ''a''), SigEd25519 (ms_ex_sig 1))]"
  have "query_multisig ?s 1 = Inr \<lparr>mu_state = Pending, mu_verifier_set = ms_ex_set, mu_signatures = [(''a'', SigEd25519 (ms_ex_sig 1))]\<rparr>"
    "kv_get (ms_sessions ?s) 1 = Some (ms_ex_session Pending)" by (simp_all add: query_multisig_def load_session_signatures_def)
  note final = sessions_final [OF ms_ex_instantiate ms_ex_run [symmetric] this]
  show ?thesis unfolding ms_ex_run
    using final [of "[(ms_ex_env 12, ''b'', Direct (SubmitSignature 1 (ms_ex_sig 2))),
        (ms_ex_env 13, ''u'', Direct (RegisterVerifierSet ms_ex_set))]"]
    by (force simp del: run_txs_simps)
qed

text \<open>
  C24. The selection of signatures for a proof keeps the fewest. For every multisig, in whatever order
  its signatures are traversed: if a signer is not in the verifier set, the selection panics.
  Otherwise it succeeds with a part of the signatures, each with its signer, by falling weight. If
  the signatures reach the threshold, the selected ones do, and no set of signers that
  reaches the threshold is smaller; if they do not, all of them are kept.
\<close>

theorem fewest_signatures:
  assumes "distinct (map fst (mu_signatures m))" and "vs = mu_verifier_set m"
  shows "if \<exists>a \<in> fst ` set (mu_signatures m). kv_get (vs_signers vs) a = None
    then is_panic (optimize_signatures m :: (ms_error, _) result)
    else \<exists>sel out. optimize_signatures m = (Inr out :: (ms_error, _) result)
      \<and> mset sel \<subseteq># mset (mu_signatures m) \<and> out = map (\<lambda>(a, sig). (the (kv_get (vs_signers vs) a), sig)) sel
      \<and> sorted_wrt (\<lambda>x y. sg_weight (fst y) \<le> sg_weight (fst x)) out
      \<and> (if unat (vs_threshold vs) \<le> sum_list (map (\<lambda>x. signer_weight vs (fst x)) (mu_signatures m))
         then unat (vs_threshold vs) \<le> sum_list (map (\<lambda>x. unat (sg_weight (fst x))) out)
           \<and> (\<forall>A. A \<subseteq> fst ` set (mu_signatures m) \<longrightarrow> unat (vs_threshold vs) \<le> (\<Sum>a\<in>A. signer_weight vs a) \<longrightarrow> length out \<le> card A)
         else mset sel = mset (mu_signatures m))"
proof (cases "\<exists>a \<in> fst ` set (mu_signatures m). kv_get (vs_signers vs) a = None")
  case True
  then show ?thesis using optimize_signatures_panics [of _ m] assms(2) by auto
next
  case False
  then obtain out where out: "optimize_signatures m = (Inr out :: (ms_error, _) result)"
    using optimize_signatures_defined [of m] assms(2) by auto
  from optimize_signatures_selection [OF out] obtain sel where "mset sel \<subseteq># mset (mu_signatures m)"
    "out = map (\<lambda>(a, sig). (the (kv_get (vs_signers vs) a), sig)) sel"
    "sum_list (map (\<lambda>x. signer_weight vs (fst x)) (mu_signatures m)) < unat (vs_threshold vs) \<longrightarrow> mset sel = mset (mu_signatures m)"
    unfolding assms(2) by blast
  then show ?thesis
    using False out optimize_signatures_sorted [OF out] optimize_signatures_enough [OF out] optimize_signatures_fewest [OF out assms(1)]
    unfolding assms(2) by (subst if_not_P, blast) (intro exI [of _ sel] exI [of _ out] conjI; auto)
qed

theorem fewest_signatures_witness:
  "\<exists>out. optimize_signatures \<lparr>mu_state = Completed 12, mu_verifier_set = ms_ex_set,
       mu_signatures = [(''b'', SigEd25519 (ms_ex_sig 2)), (''a'', SigEd25519 (ms_ex_sig 1))]\<rparr>
       = (Inr out :: (ms_error, _) result) \<and> 2 \<le> sum_list (map (\<lambda>x. unat (sg_weight (fst x))) out)"
proof -
  let ?m = "\<lparr>mu_state = Completed 12, mu_verifier_set = ms_ex_set,
      mu_signatures = [(''b'', SigEd25519 (ms_ex_sig 2)), (''a'', SigEd25519 (ms_ex_sig 1))]\<rparr>"
  have "distinct (map fst (mu_signatures ?m))" by simp
  from fewest_signatures [OF this refl] show ?thesis by (auto simp: signer_weight_def)
qed

text \<open>
  Where every registered set stands under its own identifier, the set of a session cannot be
  replaced: a completed session has enough valid signatures of the set that is stored, in every state, and
  the selection for its proof succeeds.
\<close>

lemma completed_session_signed:
  assumes "ms_reachable c s" and "ids_unique c" and "query_multisig s i = Inr m" and "mu_state m \<noteq> Pending"
    and "mset sigs = mset (mu_signatures m)"
  shows "\<exists>out. optimize_signatures (m\<lparr>mu_signatures := sigs\<rparr>) = (Inr out :: (ms_error, _) result)
    \<and> unat (vs_threshold (mu_verifier_set m)) \<le> sum_list (map (\<lambda>x. unat (sg_weight (fst x))) out)"
  using optimize_signatures_spec [of m sigs] query_multisig_signed [OF assms(1-4)] assms(5) by auto

text \<open>
  A public key has one owner, who holds it. In a reachable state no two entries have the same
  key; and the entry of an address changes only by a direct call of this address, with a
  signature of the hash of the address that the new key verifies, for a key nobody had.
\<close>

lemma keys_owned:
  assumes "ms_reachable c s" and "ids_unique c" and "ms_call_ok c (env, sender, call)"
    and "ms_tx s (env, sender, call) = Inr (s', r)"
  shows "(\<forall>k1 k2 key. kv_get (ms_pub_keys s') k1 = Some key \<longrightarrow> kv_get (ms_pub_keys s') k2 = Some key \<longrightarrow> k1 = k2)
    \<and> (\<forall>a kt. kv_get (ms_pub_keys s') (a, kt) \<noteq> kv_get (ms_pub_keys s) (a, kt) \<longrightarrow>
        (\<exists>pk raw sig. a = sender \<and> call = Direct (RegisterPublicKey pk raw) \<and> public_key_type pk = kt
           \<and> kv_get (ms_pub_keys s') (a, kt) = Some (public_key_bytes pk)
           \<and> signature_try_from kt raw = Inr sig
           \<and> signature_verify (st_crypto c) sig (st_keccak256 c (str_bytes a)) pk = Inr ()
           \<and> (\<forall>k. kv_get (ms_pub_keys s) k \<noteq> Some (public_key_bytes pk))))"
proof -
  have "ms_inv c s" using assms(1,2) by (rule ms_reachable_inv)
  then have inv: "ms_inv c s'" using assms ms_tx_step by blast
  have env: "me_crypto env = st_crypto c" "me_keccak256 env = st_keccak256 c" using assms(3) by (simp_all add: ms_call_ok_def)
  have "\<exists>pk raw sig. a = sender \<and> call = Direct (RegisterPublicKey pk raw) \<and> public_key_type pk = kt
       \<and> kv_get (ms_pub_keys s') (a, kt) = Some (public_key_bytes pk) \<and> signature_try_from kt raw = Inr sig
       \<and> signature_verify (st_crypto c) sig (st_keccak256 c (str_bytes a)) pk = Inr ()
       \<and> (\<forall>k. kv_get (ms_pub_keys s) k \<noteq> Some (public_key_bytes pk))"
    if "kv_get (ms_pub_keys s') (a, kt) \<noteq> kv_get (ms_pub_keys s) (a, kt)" for a kt
    using ms_tx_key [OF assms(4) that] unfolding env .
  then show ?thesis using inv unfolding ms_inv_def keys_inv_def by blast
qed

lemma keys_owned_example:
  "\<exists>s' r sig. ms_tx (ms_ex_state [] []) (ms_ex_env 10, ''a'', Direct (RegisterPublicKey (PkEd25519 [1]) (ms_ex_sig 1))) = Inr (s', r)
     \<and> kv_get (ms_pub_keys s') (''a'', KeyEd25519) = Some [1]
     \<and> signature_verify ms_ex_crypto sig (str_bytes ''a'') (PkEd25519 [1]) = Inr ()"
proof -
  let ?call = "Direct (RegisterPublicKey (PkEd25519 [1]) (ms_ex_sig 1))"
  let ?s' = "(ms_ex_state [] [])\<lparr>ms_pub_keys := [((''a'', KeyEd25519), [1])]\<rparr>"
  have run: "ms_tx (ms_ex_state [] []) (ms_ex_env 10, ''a'', ?call) =
      Inr (?s', ms_response_new [] [PublicKeyRegistered ''a'' (PkEd25519 [1])])"
    by (simp add: ms_eval register_pub_key_def signature_try_from_def signature_verify_def ed25519_verify_def ms_ex_crypto_def
        save_pub_key_def pub_key_registered_def Let_def ensure_def)
  have "ms_call_ok ms_ex_setting (ms_ex_env 10, ''a'', ?call)" by (simp add: ms_call_ok_def ms_ex_setting_def)
  then have "\<exists>sig. signature_verify (st_crypto ms_ex_setting) sig (st_keccak256 ms_ex_setting (str_bytes ''a'')) (PkEd25519 [1]) = Inr ()"
    using keys_owned [OF ms_ex_reachable(1) ms_ex_ids _ run, THEN conjunct2, rule_format, of "''a''" KeyEd25519]
    by auto
  then show ?thesis using run by (simp add: ms_ex_setting_def)
qed

text \<open>
  Sessions of a chain are started by the chain's prover, and provers are appointed by
  governance. In a reachable state a successful \<open>StartSigningSession\<close> for a chain was sent
  directly by the one address that is authorized for the chain; and an authorization is new only
  after \<open>AuthorizeCallers\<close> of the governance address, sent directly or relayed by the coordinator.
\<close>

lemma sessions_started_by_prover:
  assumes "ms_reachable c s" and "ids_unique c" and "ms_tx s (env, sender, call) = Inr (s', r)"
  shows "(\<forall>i m ch v. call_msg call = StartSigningSession i m ch v \<longrightarrow>
        call = Direct (StartSigningSession i m ch v) \<and> prover_for_chain s ch = Inr sender
        \<and> (\<forall>a. caller_authorized s a ch \<longleftrightarrow> a = sender))
    \<and> (\<forall>a ch. caller_authorized s' a ch \<longrightarrow> caller_authorized s a ch \<or>
        (\<exists>g cs. governance_addr (ms_perms s) = Some g \<and> call_msg call = AuthorizeCallers cs
           \<and> (call = Direct (AuthorizeCallers cs) \<and> sender = g
              \<or> call = Relay g (AuthorizeCallers cs) \<and> ms_find_coordinator s = Inr sender)))"
proof -
  have inv: "provers_inv (ms_prover_chain s)" using ms_reachable_inv [OF assms(1,2)] by (simp add: ms_inv_def)
  from assms(3) obtain b msg where run: "ms_dispatch env s b msg = Inr (s', r)" "call_msg call = msg"
    and perm: "ensure_permissions (ms_perms s) b (ms_permissions msg) (\<lambda>_. can_start_signing_session s b msg) = Inr ()"
    and b: "call = Direct msg \<and> b = sender
     \<or> call = Relay b msg \<and> ms_find_coordinator s = Inr sender \<and> external_perms (ms_permissions msg) = [''coordinator'']"
    by (rule ms_tx_Inr)
  have "call = Direct msg \<and> prover_for_chain s ch = Inr sender \<and> (\<forall>a. caller_authorized s a ch \<longleftrightarrow> a = sender)"
    if "msg = StartSigningSession i m ch v" for i m ch v
    using that perm b caller_authorized_unique [OF inv] prover_for_chain_iff [OF inv] by (auto simp: result_simps)
  moreover have "governance_addr (ms_perms s) = Some b \<and> (\<exists>cs. msg = AuthorizeCallers cs)"
    if "caller_authorized s' a ch" "\<not> caller_authorized s a ch" for a ch
    using ms_dispatch_authorized [OF run(1) inv that] perm by (auto simp: result_simps)
  ultimately show ?thesis using run(2) b by (cases call) (auto; blast)+
qed

lemma sessions_started_by_prover_example:
  "\<exists>s' r. ms_tx (ms_ex_state [] []) (ms_ex_env 10, ''prover'', Direct (StartSigningSession ms_ex_id [7] ''eth'' None)) = Inr (s', r)
     \<and> prover_for_chain (ms_ex_state [] []) ''eth'' = Inr ''prover''"
proof -
  from ms_ex_start obtain r where run: "ms_tx (ms_ex_state [] [])
      (ms_ex_env 10, ''prover'', Direct (StartSigningSession ms_ex_id [7] ''eth'' None)) =
    Inr (ms_ex_state [(1, ms_ex_session Pending)] [], r)" by blast
  from sessions_started_by_prover [OF ms_ex_reachable(1) ms_ex_ids run, THEN conjunct1, rule_format]
  show ?thesis using run by simp
qed

text \<open>
  Disabling signing stops it. From any state with signing disabled, whatever calls follow, as
  long as none of them is an \<open>EnableSigning\<close> of the admin or the governance address, no session is
  started or changed and no signature is stored.
\<close>

lemma disabled_signing_stays:
  assumes "ms_killswitch s = Some Engaged"
    and "list_all (\<lambda>(env, sender, call). call = Direct EnableSigning \<longrightarrow> \<not> holds_permission (ms_perms s) sender Elevated) calls"
  shows "ms_sessions (run_txs ms_tx s calls) = ms_sessions s \<and> ms_signatures (run_txs ms_tx s calls) = ms_signatures s"
proof -
  let ?R = "\<lambda>s s'. ms_sessions s' = ms_sessions s \<and> ms_signatures s' = ms_signatures s \<and> ms_perms s' = ms_perms s
    \<and> ms_killswitch s' = Some Engaged"
  have "?R s (run_txs ms_tx s calls)" using assms
  proof (induction calls arbitrary: s)
    case (Cons x calls)
    obtain env sender call where x: "x = (env, sender, call)" by (cases x)
    have "?R s (commit s (ms_tx s x))"
      using Cons.prems ms_tx_disabled [of s env sender call] by (auto simp: x commit_def split: sum.splits)
    with Cons.IH [of "commit s (ms_tx s x)"] Cons.prems(2) show ?case by (auto simp: run_txs_def)
  qed (simp add: run_txs_def)
  then show ?thesis by simp
qed

lemma disabled_signing_stays_example:
  "ms_sessions (run_txs ms_tx ((ms_ex_state [] [])\<lparr>ms_killswitch := Some Engaged\<rparr>)
     [(ms_ex_env 10, ''prover'', Direct (StartSigningSession ms_ex_id [7] ''eth'' None)),
      (ms_ex_env 11, ''prover'', Direct EnableSigning)]) = []"
  using disabled_signing_stays [of "(ms_ex_state [] [])\<lparr>ms_killswitch := Some Engaged\<rparr>"
     "[(ms_ex_env 10, ''prover'', Direct (StartSigningSession ms_ex_id [7] ''eth'' None)),
       (ms_ex_env 11, ''prover'', Direct EnableSigning)]"]
  by simp

text \<open>
  C37. The identifier of a verifier set does not cover the keys under which its signers are
  stored. Once a verifier set is registered for a session that waits for its signatures, anybody
  may register a set with the same signers, in the same order, under other keys: it takes the
  place of the registered one, and the signature of every participant whose address is no longer
  a key is rejected as not a participant's.
\<close>

theorem registered_set_replaceable:
  assumes "is_contract_active (ms_killswitch s)" and "ms_config s \<noteq> None"
    and "kv_get (ms_sessions s) i = Some ss"
    and "ss_verifier_set_id ss = verifier_set_id (me_keccak256 env) (me_to_hex env) vs"
    and "vs_threshold vs' = vs_threshold vs" "vs_created_at vs' = vs_created_at vs"
    and "map snd (vs_signers vs') = map snd (vs_signers vs)" and "kv_get (vs_signers vs') a = None"
  shows "\<exists>s' r. ms_tx s (env, anybody, Direct (RegisterVerifierSet vs')) = Inr (s', r)
    \<and> ms_tx s' (env', a, Direct (SubmitSignature i raw)) = fail (NotAParticipant i a)"
proof -
  have "verifier_set_id (me_keccak256 env) (me_to_hex env) vs' = ss_verifier_set_id ss"
    unfolding assms(4) verifier_set_id_def using verifier_set_hash_ignores_keys [OF assms(7,5,6)] by simp
  then show ?thesis using assms(1-3,8)
    by (auto simp: ms_tx_def ms_execute_def authorize_def register_verifier_set_def submit_signature_def ensure_def)
qed

theorem registered_set_replaceable_witness:
  "\<exists>s' r. ms_tx (ms_ex_state [(1, ms_ex_session Pending)] [])
       (ms_ex_env 11, ''u'', Direct (RegisterVerifierSet (ms_ex_set\<lparr>vs_signers :=
          map (\<lambda>(k, x). (''z'' @ k, x)) (vs_signers ms_ex_set)\<rparr>))) = Inr (s', r)
     \<and> ms_tx s' (ms_ex_env 12, ''a'', Direct (SubmitSignature 1 (ms_ex_sig 1))) = fail (NotAParticipant 1 ''a'')"
  by (rule registered_set_replaceable [where ss = "ms_ex_session Pending" and vs = ms_ex_set])
    (simp_all add: ms_ex_id_def is_contract_active_def, simp_all add: ms_ex_set_def)

end
