(* ===== verification/Coordinator.thy ===== *)
theory Coordinator
  imports Router Multisig Service_Registry
begin

text \<open>
  The coordinator, \<open>contracts/coordinator/src\<close>: the registry of the protocol's contracts and of
  the gateway, voting verifier and prover of every chain, the verifier sets that the provers
  report as active, from which it answers whether a verifier may unbond, and the deployment of the
  contracts of a chain. The code information of the chain and the computation of addresses
  (\<open>instantiate2_address\<close>, \<open>addr_canonicalize\<close>, \<open>addr_humanize\<close>) are parameters of the
  environment; a failure is \<open>None\<close>. The unique indexes of the chain contracts are conditions on
  the primary map, which is what the indexed map enforces.
\<close>

section \<open>Definitions\<close>

subsection \<open>State\<close>

record protocol_contracts =
  pc_service_registry :: string
  pc_router :: string
  pc_multisig :: string

record chain_contracts =
  dc_chain_name :: string
  dc_msg_id_format :: message_id_format
  dc_gateway :: string
  dc_voting_verifier :: string
  dc_multisig_prover :: string

record chain_contracts_record =
  cr_chain_name :: string
  cr_prover_address :: string
  cr_gateway_address :: string
  cr_verifier_address :: string

record verifier_prover_record =
  vp_prover :: string
  vp_verifier :: string

record cd_state =
  cd_perms :: permission_state
  cd_protocol :: "protocol_contracts option"
  cd_deployed :: "(string, chain_contracts) kv"
  cd_chains :: "(string, chain_contracts_record) kv"
  cd_verifier_provers :: "(string \<times> string, verifier_prover_record) kv"

datatype cd_state_error =
    PersistingState
  | ChainNotRegisteredInState string
  | ProverNotRegisteredInState string
  | GatewayNotRegisteredInState string
  | VerifierNotRegisteredInState string
  | StateParseFailed
  | StateRemoveFailed
  | DeploymentNameInUse string
  | DeploymentNotFoundInState string

datatype cd_error =
    RegisterProtocolErr
  | RegisterProverContractErr string
  | RegisterChainErr string
  | SetActiveVerifiersErr string
  | RegisterDeploymentErr string
  | DeploymentNotFound string
  | InstantiateChainContractsErr
  | ProtocolNotRegistered
  | VerifierSetActivationFailed
  | ChainNotRegistered string
  | ProverNotRegistered string
  | CanonicalizeAddress
  | HumanizeAddress
  | Instantiate2AddressErr
  | InstantiateContractsErr
  | QueryCodeInfo u64
  | InstantiateGatewayErr
  | InstantiateVerifierErr
  | InstantiateProverErr
  | VerifierDetailsWithProvers string string
  | ChainContractsInfoErr
  | UnableToPersistProtocol
  | RouterClientErr
  | CdInvalidAddress string
  | InvalidLimit
  | CdAddressErr address_error
  | CdPermissionErr permission_error

definition save_protocol_contracts :: "cd_state \<Rightarrow> protocol_contracts \<Rightarrow> cd_state" where
  "save_protocol_contracts s protocol = s\<lparr>cd_protocol := Some protocol\<rparr>"

definition load_protocol_contracts :: "cd_state \<Rightarrow> (std_error, protocol_contracts) result" where
  "load_protocol_contracts s = ok_or StdNotFound (cd_protocol s)"

definition index_taken :: "cd_state \<Rightarrow> string \<Rightarrow> (chain_contracts_record \<Rightarrow> string) \<Rightarrow> string \<Rightarrow> bool" where
  "index_taken s chain idx a = list_ex (\<lambda>(c, r). c \<noteq> chain \<and> idx r = a) (cd_chains s)"

definition save_chain_contracts ::
  "cd_state \<Rightarrow> string \<Rightarrow> string \<Rightarrow> string \<Rightarrow> string \<Rightarrow> (cd_state_error, cd_state) result" where
  "save_chain_contracts s chain prover_address gateway_address verifier_address =
     (let r = \<lparr>cr_chain_name = chain, cr_prover_address = prover_address, cr_gateway_address = gateway_address,
               cr_verifier_address = verifier_address\<rparr> in
      if index_taken s chain cr_prover_address prover_address
         \<or> index_taken s chain cr_gateway_address gateway_address
         \<or> index_taken s chain cr_verifier_address verifier_address
      then fail PersistingState
      else Ok (s\<lparr>cd_chains := kv_set chain r (cd_chains s)\<rparr>))"

definition index_item :: "cd_state \<Rightarrow> (chain_contracts_record \<Rightarrow> string) \<Rightarrow> string \<Rightarrow> chain_contracts_record option" where
  "index_item s idx a = map_option snd (find (\<lambda>(_, r). idx r = a) (cd_chains s))"

definition contracts_by_chain :: "cd_state \<Rightarrow> string \<Rightarrow> (cd_state_error, chain_contracts_record) result" where
  "contracts_by_chain s chain_name = ok_or (ChainNotRegisteredInState chain_name) (kv_get (cd_chains s) chain_name)"

definition contracts_by_prover :: "cd_state \<Rightarrow> string \<Rightarrow> (cd_state_error, chain_contracts_record) result" where
  "contracts_by_prover s a = ok_or (ProverNotRegisteredInState a) (index_item s cr_prover_address a)"

definition contracts_by_gateway :: "cd_state \<Rightarrow> string \<Rightarrow> (cd_state_error, chain_contracts_record) result" where
  "contracts_by_gateway s a = ok_or (GatewayNotRegisteredInState a) (index_item s cr_gateway_address a)"

definition contracts_by_verifier :: "cd_state \<Rightarrow> string \<Rightarrow> (cd_state_error, chain_contracts_record) result" where
  "contracts_by_verifier s a = ok_or (VerifierNotRegisteredInState a) (index_item s cr_verifier_address a)"

definition validate_deployment_name_availability :: "cd_state \<Rightarrow> string \<Rightarrow> (cd_state_error, unit) result" where
  "validate_deployment_name_availability s deployment_name =
     (if kv_get (cd_deployed s) deployment_name \<noteq> None then fail (DeploymentNameInUse deployment_name) else Ok ())"

definition save_deployed_contracts :: "cd_state \<Rightarrow> string \<Rightarrow> chain_contracts \<Rightarrow> cd_state" where
  "save_deployed_contracts s deployment_name contracts =
     s\<lparr>cd_deployed := kv_set deployment_name contracts (cd_deployed s)\<rparr>"

definition state_deployment :: "cd_state \<Rightarrow> string \<Rightarrow> (cd_state_error, chain_contracts) result" where
  "state_deployment s deployment_name =
     ok_or (DeploymentNotFoundInState deployment_name) (kv_get (cd_deployed s) deployment_name)"

definition state_deployments :: "cd_state \<Rightarrow> string option \<Rightarrow> u32 \<Rightarrow> chain_contracts list" where
  "state_deployments s start_after limit =
     take (unat limit) (map snd
       (filter (\<lambda>(n, _). case start_after of None \<Rightarrow> True | Some b \<Rightarrow> b < n) (cd_deployed s)))"

definition is_prover_registered :: "cd_state \<Rightarrow> string \<Rightarrow> bool" where
  "is_prover_registered s prover_address = (index_item s cr_prover_address prover_address \<noteq> None)"

text \<open>
  The two loops run over the differences of hash sets; here they run over the existing verifiers
  in the order of the storage and over the new ones in the order of the message.
\<close>

definition existing_verifiers :: "cd_state \<Rightarrow> string \<Rightarrow> string list" where
  "existing_verifiers s prover_address = map (snd \<circ> fst) (filter (\<lambda>((p, _), _). p = prover_address) (cd_verifier_provers s))"

definition update_verifier_set_for_prover :: "cd_state \<Rightarrow> string \<Rightarrow> string list \<Rightarrow> cd_state" where
  "update_verifier_set_for_prover s prover_address new_verifiers =
     (let existing = existing_verifiers s prover_address;
          removed = foldl (\<lambda>m v. kv_del (prover_address, v) m) (cd_verifier_provers s)
            (filter (\<lambda>v. v \<notin> set new_verifiers) existing)
      in s\<lparr>cd_verifier_provers := foldl (\<lambda>m v. kv_set (prover_address, v) \<lparr>vp_prover = prover_address, vp_verifier = v\<rparr> m) removed
            (filter (\<lambda>v. v \<notin> set existing) new_verifiers)\<rparr>)"

subsection \<open>Messages to other contracts\<close>

datatype encoder = EncAbi | EncBcs | EncStellarXdr | EncSolana

record prover_instantiate_msg =
  pi_admin_address :: string
  pi_governance_address :: string
  pi_coordinator_address :: string
  pi_gateway_address :: string
  pi_multisig_address :: string
  pi_service_registry_address :: string
  pi_voting_verifier_address :: string
  pi_signing_threshold :: majority_threshold
  pi_service_name :: string
  pi_chain_name :: string
  pi_verifier_set_diff_threshold :: u32
  pi_encoder :: encoder
  pi_key_type :: key_type
  pi_domain_separator :: "u8 list"

text \<open>
  The instantiate message of a voting verifier is its governance address and its configuration,
  the one of a gateway the addresses of its verifier and of the router.
\<close>

datatype instantiate_payload =
    GatewayInit (gi_verifier: string) (gi_router: string)
  | VerifierInit (vi_governance: string) (vi_config: vv_config)
  | ProverInit (pi_msg: prover_instantiate_msg)

record instantiate2_msg =
  i2_admin :: string
  i2_code_id :: u64
  i2_msg :: instantiate_payload
  i2_label :: string
  i2_salt :: "u8 list"

datatype cd_out =
    Instantiate2 instantiate2_msg
  | SendRouter string "router_msg from_proxy"
  | SendMultisig string "ms_msg from_proxy"

record contract_instantiation =
  ci_address :: string
  ci_code_id :: u64

datatype cd_event =
    ContractsInstantiated (ev_gateway: contract_instantiation) (ev_voting_verifier: contract_instantiation)
      (ev_multisig_prover: contract_instantiation) (ev_chain_name: string) (ev_deployment_name: string)

type_synonym cd_response = "(cd_out, cd_event) response"

record cd_env =
  ce_address :: string
  ce_addr_validate :: "string \<Rightarrow> string option"
  ce_code_checksum :: "u64 \<Rightarrow> u8 list option"
  ce_addr_canonicalize :: "string \<Rightarrow> u8 list option"
  ce_instantiate2_address :: "u8 list \<Rightarrow> u8 list \<Rightarrow> u8 list \<Rightarrow> u8 list option"
  ce_addr_humanize :: "u8 list \<Rightarrow> string option"

definition instantiate2_addr :: "cd_env \<Rightarrow> u64 \<Rightarrow> u8 list \<Rightarrow> (cd_error, string) result" where
  "instantiate2_addr env code_id salt =
     and_then (ok_or (QueryCodeInfo code_id) (ce_code_checksum env code_id)) (\<lambda>checksum.
     and_then (ok_or CanonicalizeAddress (ce_addr_canonicalize env (ce_address env))) (\<lambda>creator.
     and_then (ok_or Instantiate2AddressErr (ce_instantiate2_address env checksum creator salt)) (\<lambda>addr.
     ok_or HumanizeAddress (ce_addr_humanize env addr))))"

subsection \<open>Operations\<close>

definition register_protocol ::
  "cd_state \<Rightarrow> string \<Rightarrow> string \<Rightarrow> string \<Rightarrow> (cd_error, cd_state \<times> cd_response) result" where
  "register_protocol s service_registry router multisig =
     Ok (save_protocol_contracts s \<lparr>pc_service_registry = service_registry, pc_router = router, pc_multisig = multisig\<rparr>,
         response_new)"

definition cd_register_chain ::
  "cd_state \<Rightarrow> string \<Rightarrow> string \<Rightarrow> string \<Rightarrow> string \<Rightarrow> (cd_error, cd_state \<times> cd_response) result" where
  "cd_register_chain s chain_name prover_addr gateway_addr voting_verifier_address =
     and_then (change_context (ChainNotRegistered chain_name)
       (save_chain_contracts s chain_name prover_addr gateway_addr voting_verifier_address)) (\<lambda>s1.
     Ok (s1, response_new))"

definition set_active_verifier_set ::
  "cd_state \<Rightarrow> string \<Rightarrow> string list \<Rightarrow> (cd_error, cd_state \<times> cd_response) result" where
  "set_active_verifier_set s sender verifiers = Ok (update_verifier_set_for_prover s sender verifiers, response_new)"

record 'm contract_deployment_info =
  di_code_id :: u64
  di_label :: string
  di_contract_admin :: string
  di_msg :: 'm

record prover_msg =
  pm_governance_address :: string
  pm_admin_address :: string
  pm_multisig_address :: string
  pm_signing_threshold :: majority_threshold
  pm_service_name :: string
  pm_chain_name :: string
  pm_verifier_set_diff_threshold :: u32
  pm_encoder :: encoder
  pm_key_type :: key_type
  pm_domain_separator :: "u8 list"

record verifier_msg =
  vm_governance_address :: string
  vm_service_name :: string
  vm_source_gateway_address :: string
  vm_voting_threshold :: majority_threshold
  vm_block_expiry :: u64
  vm_confirmation_height :: u64
  vm_source_chain :: string
  vm_rewards_address :: string
  vm_msg_id_format :: message_id_format
  vm_address_format :: address_format

datatype deployment_params =
  Manual (mp_gateway: "unit contract_deployment_info") (mp_verifier: "verifier_msg contract_deployment_info")
    (mp_prover: "prover_msg contract_deployment_info")

record instantiate_context =
  ic_env :: cd_env
  ic_salt :: "u8 list"
  ic_gateway_code_id :: u64
  ic_gateway_contract_admin :: string
  ic_verifier_code_id :: u64
  ic_verifier_contract_admin :: string
  ic_prover_code_id :: u64
  ic_prover_contract_admin :: string

definition launch_contract ::
  "cd_env \<Rightarrow> u8 list \<Rightarrow> u64 \<Rightarrow> instantiate_payload \<Rightarrow> string \<Rightarrow> string \<Rightarrow> (cd_error, instantiate2_msg \<times> string) result" where
  "launch_contract env salt code_id instantiate_msg label admin =
     and_then (change_context Instantiate2AddressErr (instantiate2_addr env code_id salt)) (\<lambda>addr.
     Ok (\<lparr>i2_admin = admin, i2_code_id = code_id, i2_msg = instantiate_msg, i2_label = label, i2_salt = salt\<rparr>, addr))"

definition instantiate_gateway ::
  "instantiate_context \<Rightarrow> string \<Rightarrow> string \<Rightarrow> string \<Rightarrow> (cd_error, instantiate2_msg \<times> string) result" where
  "instantiate_gateway ctx label router_address verifier_address =
     launch_contract (ic_env ctx) (ic_salt ctx) (ic_gateway_code_id ctx) (GatewayInit verifier_address router_address)
       label (ic_gateway_contract_admin ctx)"

definition instantiate_verifier ::
  "instantiate_context \<Rightarrow> string \<Rightarrow> string \<Rightarrow> verifier_msg \<Rightarrow> (cd_error, instantiate2_msg \<times> string) result" where
  "instantiate_verifier ctx label service_registry_address vm =
     and_then (change_context InstantiateVerifierErr (nonempty_string_try_from service_registry_address)) (\<lambda>registry.
     launch_contract (ic_env ctx) (ic_salt ctx) (ic_verifier_code_id ctx)
       (VerifierInit (vm_governance_address vm)
         \<lparr>vc_service_registry = registry, vc_service_name = vm_service_name vm,
          vc_source_gateway_address = vm_source_gateway_address vm, vc_voting_threshold = vm_voting_threshold vm,
          vc_block_expiry = vm_block_expiry vm, vc_confirmation_height = vm_confirmation_height vm,
          vc_source_chain = vm_source_chain vm, vc_rewards_contract = vm_rewards_address vm,
          vc_msg_id_format = vm_msg_id_format vm, vc_address_format = vm_address_format vm\<rparr>)
       label (ic_verifier_contract_admin ctx))"

definition instantiate_prover ::
  "instantiate_context \<Rightarrow> string \<Rightarrow> string \<Rightarrow> string \<Rightarrow> string \<Rightarrow> string \<Rightarrow> prover_msg
     \<Rightarrow> (cd_error, instantiate2_msg \<times> string) result" where
  "instantiate_prover ctx label gateway_address service_registry_address multisig_address verifier_address pm =
     launch_contract (ic_env ctx) (ic_salt ctx) (ic_prover_code_id ctx)
       (ProverInit
         \<lparr>pi_admin_address = pm_admin_address pm, pi_governance_address = pm_governance_address pm,
          pi_coordinator_address = ce_address (ic_env ctx), pi_gateway_address = gateway_address,
          pi_multisig_address = multisig_address, pi_service_registry_address = service_registry_address,
          pi_voting_verifier_address = verifier_address, pi_signing_threshold = pm_signing_threshold pm,
          pi_service_name = pm_service_name pm, pi_chain_name = pm_chain_name pm,
          pi_verifier_set_diff_threshold = pm_verifier_set_diff_threshold pm, pi_encoder = pm_encoder pm,
          pi_key_type = pm_key_type pm, pi_domain_separator = pm_domain_separator pm\<rparr>)
       label (ic_prover_contract_admin ctx)"

definition validate_contract_admin :: "cd_env \<Rightarrow> string \<Rightarrow> (cd_error, string) result" where
  "validate_contract_admin env admin = ok_or (CdInvalidAddress admin) (ce_addr_validate env admin)"

definition instantiate_chain_contracts ::
  "cd_env \<Rightarrow> cd_state \<Rightarrow> string \<Rightarrow> u8 list \<Rightarrow> deployment_params \<Rightarrow> (cd_error, cd_state \<times> cd_response) result" where
  "instantiate_chain_contracts env s deployment_name salt params =
     and_then (change_context InstantiateContractsErr (validate_deployment_name_availability s deployment_name)) (\<lambda>_.
     and_then (change_context ProtocolNotRegistered (load_protocol_contracts s)) (\<lambda>protocol.
     case params of Manual gateway verifier prover \<Rightarrow>
       and_then (change_context Instantiate2AddressErr (instantiate2_addr env (di_code_id verifier) salt)) (\<lambda>verifier_address.
       and_then (validate_contract_admin env (di_contract_admin gateway)) (\<lambda>gateway_contract_admin.
       and_then (validate_contract_admin env (di_contract_admin verifier)) (\<lambda>verifier_contract_admin.
       and_then (validate_contract_admin env (di_contract_admin prover)) (\<lambda>prover_contract_admin.
       let ctx = \<lparr>ic_env = env, ic_salt = salt,
             ic_gateway_code_id = di_code_id gateway, ic_gateway_contract_admin = gateway_contract_admin,
             ic_verifier_code_id = di_code_id verifier, ic_verifier_contract_admin = verifier_contract_admin,
             ic_prover_code_id = di_code_id prover, ic_prover_contract_admin = prover_contract_admin\<rparr> in
       and_then (change_context InstantiateContractsErr
         (instantiate_gateway ctx (di_label gateway) (pc_router protocol) verifier_address)) (\<lambda>(gateway_msg, gateway_address).
       and_then (instantiate_verifier ctx (di_label verifier) (pc_service_registry protocol) (di_msg verifier))
         (\<lambda>(verifier_msg, voting_verifier_address).
       and_then (instantiate_prover ctx (di_label prover) gateway_address (pc_service_registry protocol) (pc_multisig protocol)
           voting_verifier_address (di_msg prover)) (\<lambda>(prover_msg, multisig_prover_address).
       Ok (save_deployed_contracts s deployment_name
             \<lparr>dc_chain_name = pm_chain_name (di_msg prover), dc_msg_id_format = vm_msg_id_format (di_msg verifier),
              dc_gateway = gateway_address, dc_voting_verifier = voting_verifier_address,
              dc_multisig_prover = multisig_prover_address\<rparr>,
           \<lparr>messages = [Instantiate2 gateway_msg, Instantiate2 verifier_msg, Instantiate2 prover_msg],
            events = [ContractsInstantiated
              \<lparr>ci_address = gateway_address, ci_code_id = di_code_id gateway\<rparr>
              \<lparr>ci_address = verifier_address, ci_code_id = di_code_id verifier\<rparr>
              \<lparr>ci_address = multisig_prover_address, ci_code_id = di_code_id prover\<rparr>
              (pm_chain_name (di_msg prover)) deployment_name]\<rparr>))))))))))"

definition register_deployment ::
  "cd_state \<Rightarrow> string \<Rightarrow> string \<Rightarrow> (cd_error, cd_state \<times> cd_response) result" where
  "register_deployment s original_sender deployment_name =
     and_then (change_context ChainContractsInfoErr (state_deployment s deployment_name)) (\<lambda>deployed.
     and_then (change_context ProtocolNotRegistered (load_protocol_contracts s)) (\<lambda>protocol.
     and_then (cd_register_chain s (dc_chain_name deployed) (dc_multisig_prover deployed) (dc_gateway deployed)
         (dc_voting_verifier deployed)) (\<lambda>(s1, _).
     Ok (s1, \<lparr>messages =
          [SendRouter (pc_router protocol) (Relay original_sender
             (RegisterChain (dc_chain_name deployed) (dc_gateway deployed) (dc_msg_id_format deployed))),
           SendMultisig (pc_multisig protocol) (Relay original_sender
             (AuthorizeCallers [(dc_multisig_prover deployed, dc_chain_name deployed)]))],
        events = []\<rparr>))))"

subsection \<open>Entry points\<close>

datatype cd_msg =
    CdRegisterProtocol string string string
  | CdRegisterChain string string string string
  | CdSetActiveVerifiers "string list"
  | CdInstantiateChainContracts string "u8 list" deployment_params
  | CdRegisterDeployment string

fun cd_permissions :: "cd_msg \<Rightarrow> msg_permissions" where
  "cd_permissions (CdSetActiveVerifiers _) = \<lparr>specific_perms = [''prover''], general_perms = [], external_perms = []\<rparr>"
| "cd_permissions _ = \<lparr>specific_perms = [], general_perms = [Governance], external_perms = []\<rparr>"

definition find_prover_address :: "cd_state \<Rightarrow> string \<Rightarrow> (cd_state_error, bool) result" where
  "find_prover_address s sender = Ok (is_prover_registered s sender)"

fun cd_dispatch :: "cd_env \<Rightarrow> cd_state \<Rightarrow> string \<Rightarrow> cd_msg \<Rightarrow> (cd_error, cd_state \<times> cd_response) result" where
  "cd_dispatch env s sender (CdRegisterProtocol service_registry router_address multisig_address) =
     and_then (map_err CdAddressErr (validate_cosmwasm_address (ce_addr_validate env) service_registry)) (\<lambda>service_registry_addr.
     and_then (map_err CdAddressErr (validate_cosmwasm_address (ce_addr_validate env) router_address)) (\<lambda>router_addr.
     and_then (map_err CdAddressErr (validate_cosmwasm_address (ce_addr_validate env) multisig_address)) (\<lambda>multisig_addr.
     change_context RegisterProtocolErr (register_protocol s service_registry_addr router_addr multisig_addr))))"
| "cd_dispatch env s sender (CdRegisterChain chain_name prover_address gateway_address voting_verifier_address) =
     and_then (map_err CdAddressErr (validate_cosmwasm_address (ce_addr_validate env) prover_address)) (\<lambda>prover.
     and_then (map_err CdAddressErr (validate_cosmwasm_address (ce_addr_validate env) gateway_address)) (\<lambda>gateway.
     and_then (map_err CdAddressErr (validate_cosmwasm_address (ce_addr_validate env) voting_verifier_address)) (\<lambda>verifier.
     change_context (RegisterChainErr chain_name) (cd_register_chain s chain_name prover gateway verifier))))"
| "cd_dispatch env s sender (CdSetActiveVerifiers verifiers) =
     and_then (map_err CdAddressErr (try_map (validate_cosmwasm_address (ce_addr_validate env)) verifiers)) (\<lambda>verifiers.
     change_context (SetActiveVerifiersErr sender) (set_active_verifier_set s sender verifiers))"
| "cd_dispatch env s sender (CdInstantiateChainContracts deployment_name salt params) =
     change_context InstantiateChainContractsErr (instantiate_chain_contracts env s deployment_name salt params)"
| "cd_dispatch env s sender (CdRegisterDeployment deployment_name) =
     change_context (RegisterDeploymentErr deployment_name) (register_deployment s sender deployment_name)"

definition cd_execute ::
  "cd_env \<Rightarrow> cd_state \<Rightarrow> string \<Rightarrow> cd_msg from_proxy \<Rightarrow> (cd_error, cd_state \<times> cd_response) result" where
  "cd_execute env s sender msg =
     and_then (map_err CdPermissionErr
       (authorize (cd_perms s) ([] :: (string \<times> (cd_state_error, string) result) list) cd_permissions
          (\<lambda>m role a. find_prover_address s a) sender msg)) (\<lambda>(sender', m).
     cd_dispatch env s sender' m)"

definition cd_instantiate :: "cd_env \<Rightarrow> string \<Rightarrow> (cd_error, cd_state \<times> cd_response) result" where
  "cd_instantiate env governance_address =
     and_then (map_err CdAddressErr (validate_cosmwasm_address (ce_addr_validate env) governance_address)) (\<lambda>governance.
     Ok (\<lparr>cd_perms = set_governance governance \<lparr>admin_addr = None, governance_addr = None\<rparr>,
          cd_protocol = None, cd_deployed = [], cd_chains = [], cd_verifier_provers = []\<rparr>, response_new))"

subsection \<open>Queries\<close>

definition is_verifier_in_any_verifier_set :: "cd_state \<Rightarrow> string \<Rightarrow> bool" where
  "is_verifier_in_any_verifier_set s verifier_address = list_ex (\<lambda>(_, r). vp_verifier r = verifier_address) (cd_verifier_provers s)"

definition check_verifier_ready_to_unbond :: "cd_state \<Rightarrow> string \<Rightarrow> bool" where
  "check_verifier_ready_to_unbond s verifier_address = (\<not> is_verifier_in_any_verifier_set s verifier_address)"

definition query_ready_to_unbond :: "cd_env \<Rightarrow> cd_state \<Rightarrow> string \<Rightarrow> (cd_error, bool) result" where
  "query_ready_to_unbond env s verifier_address =
     and_then (map_err CdAddressErr (validate_cosmwasm_address (ce_addr_validate env) verifier_address)) (\<lambda>a.
     Ok (check_verifier_ready_to_unbond s a))"

text \<open>The index is iterated in the order of the primary keys, in which shorter provers come first.\<close>

definition provers_for_verifier :: "cd_state \<Rightarrow> string \<Rightarrow> string list" where
  "provers_for_verifier s verifier_address =
     remdups_adj (map vp_prover (sort_key (length \<circ> vp_prover)
       (map snd (filter (\<lambda>(_, r). vp_verifier r = verifier_address) (cd_verifier_provers s)))))"

record cd_verifier_info =
  ci_verifier :: sr_verifier
  ci_weight :: u128
  ci_supported_chains :: "string list"
  ci_actively_signing_for :: "string list"

definition verifier_details_with_provers ::
  "(string \<Rightarrow> string \<Rightarrow> string \<Rightarrow> verifier_details option) \<Rightarrow> cd_state \<Rightarrow> string \<Rightarrow> string \<Rightarrow> (cd_error, cd_verifier_info) result" where
  "verifier_details_with_provers query s service_name verifier_address =
     and_then (change_context ProtocolNotRegistered (load_protocol_contracts s)) (\<lambda>protocol.
     and_then (ok_or (VerifierDetailsWithProvers service_name verifier_address)
       (query (pc_service_registry protocol) service_name verifier_address)) (\<lambda>details.
     Ok \<lparr>ci_verifier = vd_verifier details, ci_weight = vd_weight details,
         ci_supported_chains = vd_supported_chains details,
         ci_actively_signing_for = sort (provers_for_verifier s verifier_address)\<rparr>))"

datatype chain_contracts_key =
    KeyChainName string
  | KeyProverAddress string
  | KeyGatewayAddress string
  | KeyVerifierAddress string

definition chain_contracts_info :: "cd_state \<Rightarrow> chain_contracts_key \<Rightarrow> (cd_error, chain_contracts_record) result" where
  "chain_contracts_info s key = change_context ChainContractsInfoErr (case key of
       KeyChainName chain_name \<Rightarrow> contracts_by_chain s chain_name
     | KeyProverAddress prover_addr \<Rightarrow> contracts_by_prover s prover_addr
     | KeyGatewayAddress gateway_addr \<Rightarrow> contracts_by_gateway s gateway_addr
     | KeyVerifierAddress verifier_addr \<Rightarrow> contracts_by_verifier s verifier_addr)"

definition chain_contracts_response :: "chain_contracts \<Rightarrow> chain_contracts_record" where
  "chain_contracts_response d = \<lparr>cr_chain_name = dc_chain_name d, cr_prover_address = dc_multisig_prover d,
     cr_gateway_address = dc_gateway d, cr_verifier_address = dc_voting_verifier d\<rparr>"

definition query_deployments :: "cd_state \<Rightarrow> string option \<Rightarrow> u32 \<Rightarrow> (cd_error, chain_contracts_record list) result" where
  "query_deployments s start_after limit =
     and_then (change_context InvalidLimit (nonempty_uint32_try_from limit)) (\<lambda>limit.
     Ok (map chain_contracts_response (state_deployments s start_after limit)))"

definition query_deployment :: "cd_state \<Rightarrow> string \<Rightarrow> (cd_error, chain_contracts_record) result" where
  "query_deployment s deployment_name =
     change_context (DeploymentNotFound deployment_name)
       (and_then (state_deployment s deployment_name) (\<lambda>d. Ok (chain_contracts_response d)))"

subsection \<open>Transactions and reachable states\<close>

type_synonym cd_call = "cd_env \<times> string \<times> cd_msg from_proxy"

definition cd_tx :: "cd_state \<Rightarrow> cd_call \<Rightarrow> (cd_error, cd_state \<times> cd_response) result" where
  "cd_tx s call = (case call of (env, sender, msg) \<Rightarrow> cd_execute env s sender msg)"

inductive cd_reachable :: "cd_state \<Rightarrow> bool" where
  cd_init: "cd_instantiate env governance = Inr (s, r) \<Longrightarrow> cd_reachable s"
| cd_step: "cd_reachable s \<Longrightarrow> cd_tx s call = Inr (s', r) \<Longrightarrow> cd_reachable s'"

subsection \<open>Specification\<close>

text \<open>The verifiers that a prover has reported last, and the provers of the registered chains.\<close>

definition active_set :: "cd_state \<Rightarrow> string \<Rightarrow> string set" where
  "active_set s prover = {v. kv_get (cd_verifier_provers s) (prover, v) \<noteq> None}"

definition registered_provers :: "cd_state \<Rightarrow> string set" where
  "registered_provers s = {p. \<exists>c r. kv_get (cd_chains s) c = Some r \<and> cr_prover_address r = p}"

text \<open>
  The abstract counterpart: a function from provers to sets of verifiers, in which a report of a
  registered prover replaces its set.
\<close>

fun report_of :: "cd_call \<Rightarrow> (string \<times> string list) option" where
  "report_of (env, sender, Direct (CdSetActiveVerifiers vs)) = Some (sender, vs)"
| "report_of _ = None"

definition report :: "cd_call \<Rightarrow> (string \<Rightarrow> string set) \<Rightarrow> (string \<Rightarrow> string set)" where
  "report call sets = (case report_of call of
     Some (p, vs) \<Rightarrow> sets(p := {a. \<exists>v \<in> set vs. ce_addr_validate (fst call) v = Some a}) | None \<Rightarrow> sets)"

definition index_unique :: "(chain_contracts_record \<Rightarrow> string) \<Rightarrow> cd_state \<Rightarrow> bool" where
  "index_unique idx s \<longleftrightarrow> (\<forall>c d r q. kv_get (cd_chains s) c = Some r \<longrightarrow> kv_get (cd_chains s) d = Some q \<longrightarrow> idx r = idx q \<longrightarrow> c = d)"

definition pairs_ok :: "(string \<times> string, verifier_prover_record) kv \<Rightarrow> bool" where
  "pairs_ok m \<longleftrightarrow> (\<forall>p v r. kv_get m (p, v) = Some r \<longrightarrow> vp_prover r = p \<and> vp_verifier r = v)"

definition cd_inv :: "cd_state \<Rightarrow> bool" where
  "cd_inv s \<longleftrightarrow> kv_ok (cd_deployed s) \<and> kv_ok (cd_chains s) \<and> kv_ok (cd_verifier_provers s)
     \<and> pairs_ok (cd_verifier_provers s)
     \<and> (\<forall>c r. kv_get (cd_chains s) c = Some r \<longrightarrow> cr_chain_name r = c)
     \<and> index_unique cr_prover_address s \<and> index_unique cr_gateway_address s \<and> index_unique cr_verifier_address s"

text \<open>The configurations with which a deployment instantiates the voting verifier and the prover.\<close>

definition verifier_config :: "string \<Rightarrow> verifier_msg \<Rightarrow> vv_config" where
  "verifier_config registry vm =
     \<lparr>vc_service_registry = registry, vc_service_name = vm_service_name vm,
      vc_source_gateway_address = vm_source_gateway_address vm, vc_voting_threshold = vm_voting_threshold vm,
      vc_block_expiry = vm_block_expiry vm, vc_confirmation_height = vm_confirmation_height vm,
      vc_source_chain = vm_source_chain vm, vc_rewards_contract = vm_rewards_address vm,
      vc_msg_id_format = vm_msg_id_format vm, vc_address_format = vm_address_format vm\<rparr>"

definition prover_config :: "cd_env \<Rightarrow> protocol_contracts \<Rightarrow> chain_contracts \<Rightarrow> prover_msg \<Rightarrow> prover_instantiate_msg" where
  "prover_config env protocol d pm =
     \<lparr>pi_admin_address = pm_admin_address pm, pi_governance_address = pm_governance_address pm,
      pi_coordinator_address = ce_address env, pi_gateway_address = dc_gateway d,
      pi_multisig_address = pc_multisig protocol, pi_service_registry_address = pc_service_registry protocol,
      pi_voting_verifier_address = dc_voting_verifier d, pi_signing_threshold = pm_signing_threshold pm,
      pi_service_name = pm_service_name pm, pi_chain_name = pm_chain_name pm,
      pi_verifier_set_diff_threshold = pm_verifier_set_diff_threshold pm, pi_encoder = pm_encoder pm,
      pi_key_type = pm_key_type pm, pi_domain_separator = pm_domain_separator pm\<rparr>"

text \<open>What no call undoes: deployments stay as they are, chains stay registered.\<close>

definition cd_extends :: "cd_state \<Rightarrow> cd_state \<Rightarrow> bool" where
  "cd_extends s s' \<longleftrightarrow> cd_perms s' = cd_perms s \<and> map_of (cd_deployed s) \<subseteq>\<^sub>m map_of (cd_deployed s')
     \<and> dom (map_of (cd_chains s)) \<subseteq> dom (map_of (cd_chains s'))"

section \<open>Lemmas\<close>

subsection \<open>Verifier sets\<close>

lemma set_existing_verifiers: "set (existing_verifiers s p) = active_set s p"
proof -
  have "v \<in> set (existing_verifiers s p) \<longleftrightarrow> (p, v) \<in> fst ` set (cd_verifier_provers s)" for v
    by (force simp: existing_verifiers_def)
  then show ?thesis by (auto simp: active_set_def map_of_eq_None_iff)
qed

lemma update_verifier_set_get:
  fixes s p vs
  defines "s' \<equiv> update_verifier_set_for_prover s p vs"
  shows "kv_get (cd_verifier_provers s') (q, v) =
    (if q = p then (if v \<in> set vs then (if v \<in> active_set s p then kv_get (cd_verifier_provers s) (p, v)
        else Some \<lparr>vp_prover = p, vp_verifier = v\<rparr>) else None)
     else kv_get (cd_verifier_provers s) (q, v))"
proof (cases "q = p")
  case True
  have "kv_get (cd_verifier_provers s) (p, v) = None" if "v \<notin> active_set s p"
    using that by (simp add: active_set_def)
  then show ?thesis using True
    by (auto simp: s'_def update_verifier_set_for_prover_def Let_def map_of_foldl_del set_existing_verifiers
        map_of_foldl_set_inj [where f = "Pair p", simplified inj_on_def, simplified])
next
  case False
  then have "(q, v) \<notin> Pair p ` A" for A by auto
  then show ?thesis
    using False by (auto simp: s'_def update_verifier_set_for_prover_def Let_def map_of_foldl_del map_of_foldl_set)
qed

lemma active_set_update:
  "active_set (update_verifier_set_for_prover s p vs) = (active_set s)(p := set vs)"
  by (auto simp: fun_eq_iff active_set_def update_verifier_set_get)

lemma ready_iff:
  assumes "cd_inv s"
  shows "check_verifier_ready_to_unbond s v \<longleftrightarrow> (\<forall>p. v \<notin> active_set s p)"
proof -
  have "is_verifier_in_any_verifier_set s v \<longleftrightarrow> (\<exists>p. v \<in> active_set s p)"
  proof
    assume "is_verifier_in_any_verifier_set s v"
    then obtain p w r where "((p, w), r) \<in> set (cd_verifier_provers s)" "vp_verifier r = v"
      by (auto simp: is_verifier_in_any_verifier_set_def list_ex_iff)
    moreover from this have "kv_get (cd_verifier_provers s) (p, w) = Some r"
      using assms by (simp add: cd_inv_def kv_ok_get_iff)
    moreover have "vp_verifier r = w" using calculation assms by (simp add: cd_inv_def pairs_ok_def)
    ultimately show "\<exists>p. v \<in> active_set s p" by (auto simp: active_set_def)
  next
    assume "\<exists>p. v \<in> active_set s p"
    then obtain p r where r: "kv_get (cd_verifier_provers s) (p, v) = Some r" by (auto simp: active_set_def)
    then have "vp_verifier r = v" using assms by (simp add: cd_inv_def pairs_ok_def)
    then show "is_verifier_in_any_verifier_set s v"
      using map_of_SomeD [OF r] by (force simp: is_verifier_in_any_verifier_set_def list_ex_iff)
  qed
  then show ?thesis by (simp add: check_verifier_ready_to_unbond_def)
qed

subsection \<open>Chain contracts\<close>

lemma index_taken_iff:
  assumes "kv_ok (cd_chains s)"
  shows "index_taken s chain idx a \<longleftrightarrow> (\<exists>c r. kv_get (cd_chains s) c = Some r \<and> c \<noteq> chain \<and> idx r = a)"
  using assms by (force simp: index_taken_def list_ex_iff kv_ok_get_iff)

lemma index_uniqueD:
  "index_unique idx s \<Longrightarrow> kv_get (cd_chains s) c = Some r \<Longrightarrow> kv_get (cd_chains s) d = Some q \<Longrightarrow> idx r = idx q \<Longrightarrow> c = d"
  by (simp add: index_unique_def)

lemma index_unique_frame [simp]:
  "index_unique idx (s\<lparr>cd_verifier_provers := m\<rparr>) = index_unique idx s"
  "index_unique idx (s\<lparr>cd_protocol := p\<rparr>) = index_unique idx s"
  "index_unique idx (s\<lparr>cd_deployed := d\<rparr>) = index_unique idx s"
  by (simp_all add: index_unique_def)

lemma index_unique_set:
  assumes "kv_ok (cd_chains s)" and "index_unique idx s" and "\<not> index_taken s c idx (idx r)"
  shows "index_unique idx (s\<lparr>cd_chains := kv_set c r (cd_chains s)\<rparr>)"
proof -
  have free: "c' = c" if "kv_get (cd_chains s) c' = Some q" "idx q = idx r" for c' q
    using that assms(3) unfolding index_taken_iff [OF assms(1)] by blast
  show ?thesis
    using free index_uniqueD [OF assms(2)] unfolding index_unique_def
    by (auto split: if_splits)
qed

lemma save_chain_contracts_Inr:
  assumes "save_chain_contracts s c p g v = Inr s'" and "cd_inv s"
  shows "s' = s\<lparr>cd_chains := kv_set c \<lparr>cr_chain_name = c, cr_prover_address = p, cr_gateway_address = g, cr_verifier_address = v\<rparr> (cd_chains s)\<rparr>"
    and "cd_inv s'"
proof -
  show s': "s' = s\<lparr>cd_chains := kv_set c \<lparr>cr_chain_name = c, cr_prover_address = p, cr_gateway_address = g, cr_verifier_address = v\<rparr> (cd_chains s)\<rparr>"
    using assms(1) by (auto simp: save_chain_contracts_def Let_def split: if_splits)
  have free: "\<not> index_taken s c cr_prover_address p" "\<not> index_taken s c cr_gateway_address g" "\<not> index_taken s c cr_verifier_address v"
    using assms(1) by (auto simp: save_chain_contracts_def Let_def split: if_splits)
  have "kv_ok (cd_chains s)" using assms(2) by (simp add: cd_inv_def)
  note set = index_unique_set [OF this]
  have "index_unique cr_prover_address s'" "index_unique cr_gateway_address s'" "index_unique cr_verifier_address s'"
    unfolding s' by (rule set; use free assms(2) in \<open>simp add: cd_inv_def\<close>)+
  then show "cd_inv s'" using assms(2) by (simp add: s' cd_inv_def)
qed

lemma index_item_iff:
  assumes "cd_inv s" and "index_unique idx s"
  shows "index_item s idx a = Some r \<longleftrightarrow> kv_get (cd_chains s) (cr_chain_name r) = Some r \<and> idx r = a"
proof -
  have ok: "kv_ok (cd_chains s)" and name: "\<And>c r. kv_get (cd_chains s) c = Some r \<Longrightarrow> cr_chain_name r = c"
    using assms(1) by (auto simp: cd_inv_def)
  have found: "kv_get (cd_chains s) (cr_chain_name q) = Some q \<and> idx q = a" if "index_item s idx a = Some q" for q
  proof -
    from that obtain c where "(c, q) \<in> set (cd_chains s)" "idx q = a"
      by (auto simp: index_item_def find_Some_iff) (metis nth_mem)
    then show ?thesis using name [of c q] kv_ok_get_iff [OF ok] by auto
  qed
  show ?thesis
  proof
    assume r: "kv_get (cd_chains s) (cr_chain_name r) = Some r \<and> idx r = a"
    then have "(cr_chain_name r, r) \<in> set (cd_chains s)" by (auto dest: map_of_SomeD)
    then have "index_item s idx a \<noteq> None" using r by (auto simp: index_item_def find_None_iff)
    then obtain q where q: "index_item s idx a = Some q" by auto
    have "cr_chain_name q = cr_chain_name r"
      using index_uniqueD [OF assms(2), of "cr_chain_name q" q "cr_chain_name r" r] found [OF q] r by metis
    then have "q = r" using found [OF q] r by (metis option.inject)
    then show "index_item s idx a = Some r" using q by simp
  qed (rule found)
qed

lemma is_prover_registered_iff:
  assumes "cd_inv s"
  shows "is_prover_registered s p \<longleftrightarrow> p \<in> registered_provers s"
proof -
  have "index_unique cr_prover_address s" using assms by (simp add: cd_inv_def)
  note item = index_item_iff [OF assms this, of p]
  have "index_item s cr_prover_address p \<noteq> None \<longleftrightarrow> (\<exists>r. kv_get (cd_chains s) (cr_chain_name r) = Some r \<and> cr_prover_address r = p)"
    using item by auto
  also have "\<dots> \<longleftrightarrow> p \<in> registered_provers s"
    using assms by (fastforce simp: registered_provers_def cd_inv_def)
  finally show ?thesis by (simp add: is_prover_registered_def)
qed

subsection \<open>Calls\<close>

lemma instantiate_chain_contracts_Inr:
  assumes "instantiate_chain_contracts env s n salt (Manual gateway verifier prover) = Inr (s', r)"
  obtains protocol admin1 admin2 admin3 d where "kv_get (cd_deployed s) n = None" "cd_protocol s = Some protocol"
    "s' = s\<lparr>cd_deployed := kv_set n d (cd_deployed s)\<rparr>"
    "dc_chain_name d = pm_chain_name (di_msg prover)" "dc_msg_id_format d = vm_msg_id_format (di_msg verifier)"
    "instantiate2_addr env (di_code_id gateway) salt = Inr (dc_gateway d)"
    "instantiate2_addr env (di_code_id verifier) salt = Inr (dc_voting_verifier d)"
    "instantiate2_addr env (di_code_id prover) salt = Inr (dc_multisig_prover d)"
    "ce_addr_validate env (di_contract_admin gateway) = Some admin1"
    "ce_addr_validate env (di_contract_admin verifier) = Some admin2"
    "ce_addr_validate env (di_contract_admin prover) = Some admin3"
    "messages r = [Instantiate2 \<lparr>i2_admin = admin1, i2_code_id = di_code_id gateway,
         i2_msg = GatewayInit (dc_voting_verifier d) (pc_router protocol), i2_label = di_label gateway, i2_salt = salt\<rparr>,
       Instantiate2 \<lparr>i2_admin = admin2, i2_code_id = di_code_id verifier,
         i2_msg = VerifierInit (vm_governance_address (di_msg verifier))
           (verifier_config (pc_service_registry protocol) (di_msg verifier)), i2_label = di_label verifier, i2_salt = salt\<rparr>,
       Instantiate2 \<lparr>i2_admin = admin3, i2_code_id = di_code_id prover,
         i2_msg = ProverInit (prover_config env protocol d (di_msg prover)), i2_label = di_label prover, i2_salt = salt\<rparr>]"
proof -
  from assms obtain protocol v a1 a2 a3 g p reg where
    n: "validate_deployment_name_availability s n = Inr ()" and protocol: "cd_protocol s = Some protocol"
    and addrs: "instantiate2_addr env (di_code_id verifier) salt = Inr v" "instantiate2_addr env (di_code_id gateway) salt = Inr g"
      "instantiate2_addr env (di_code_id prover) salt = Inr p"
    and admins: "ce_addr_validate env (di_contract_admin gateway) = Some a1" "ce_addr_validate env (di_contract_admin verifier) = Some a2"
      "ce_addr_validate env (di_contract_admin prover) = Some a3"
    and reg: "nonempty_string_try_from (pc_service_registry protocol) = Inr reg"
    and res: "s' = save_deployed_contracts s n \<lparr>dc_chain_name = pm_chain_name (di_msg prover), dc_msg_id_format = vm_msg_id_format (di_msg verifier),
        dc_gateway = g, dc_voting_verifier = v, dc_multisig_prover = p\<rparr>"
      "messages r = [Instantiate2 \<lparr>i2_admin = a1, i2_code_id = di_code_id gateway, i2_msg = GatewayInit v (pc_router protocol), i2_label = di_label gateway, i2_salt = salt\<rparr>,
       Instantiate2 \<lparr>i2_admin = a2, i2_code_id = di_code_id verifier,
         i2_msg = VerifierInit (vm_governance_address (di_msg verifier)) (verifier_config reg (di_msg verifier)), i2_label = di_label verifier, i2_salt = salt\<rparr>,
       Instantiate2 \<lparr>i2_admin = a3, i2_code_id = di_code_id prover,
         i2_msg = ProverInit (prover_config env protocol \<lparr>dc_chain_name = pm_chain_name (di_msg prover), dc_msg_id_format = vm_msg_id_format (di_msg verifier),
        dc_gateway = g, dc_voting_verifier = v, dc_multisig_prover = p\<rparr> (di_msg prover)), i2_label = di_label prover, i2_salt = salt\<rparr>]"
    by (auto simp: instantiate_chain_contracts_def instantiate_gateway_def instantiate_verifier_def instantiate_prover_def
        launch_contract_def load_protocol_contracts_def validate_contract_admin_def verifier_config_def prover_config_def
        Let_def result_simps)
  have "kv_get (cd_deployed s) n = None" "reg = pc_service_registry protocol"
    using n reg by (auto simp: validate_deployment_name_availability_def nonempty_string_try_from_def split: if_splits)
  then show ?thesis
    using that [of protocol "\<lparr>dc_chain_name = pm_chain_name (di_msg prover), dc_msg_id_format = vm_msg_id_format (di_msg verifier),
        dc_gateway = g, dc_voting_verifier = v, dc_multisig_prover = p\<rparr>" a1 a2 a3] protocol addrs admins res
    by (simp add: save_deployed_contracts_def)
qed

lemma register_deployment_Inr:
  assumes "register_deployment s a n = Inr (s', r)" and "cd_inv s"
  obtains d protocol where "kv_get (cd_deployed s) n = Some d" "cd_protocol s = Some protocol" "cd_inv s'"
    "s' = s\<lparr>cd_chains := kv_set (dc_chain_name d) (chain_contracts_response d) (cd_chains s)\<rparr>"
    "messages r = [SendRouter (pc_router protocol) (Relay a (RegisterChain (dc_chain_name d) (dc_gateway d) (dc_msg_id_format d))),
       SendMultisig (pc_multisig protocol) (Relay a (AuthorizeCallers [(dc_multisig_prover d, dc_chain_name d)]))]"
proof -
  from assms(1) obtain d protocol where d: "kv_get (cd_deployed s) n = Some d" "cd_protocol s = Some protocol"
    and save: "save_chain_contracts s (dc_chain_name d) (dc_multisig_prover d) (dc_gateway d) (dc_voting_verifier d) = Inr s'"
    and r: "messages r = [SendRouter (pc_router protocol) (Relay a (RegisterChain (dc_chain_name d) (dc_gateway d) (dc_msg_id_format d))),
       SendMultisig (pc_multisig protocol) (Relay a (AuthorizeCallers [(dc_multisig_prover d, dc_chain_name d)]))]"
    by (auto simp: register_deployment_def state_deployment_def load_protocol_contracts_def cd_register_chain_def result_simps)
  note s' = save_chain_contracts_Inr [OF save assms(2)]
  show ?thesis using that [OF d s'(2) _ r] s'(1) by (simp add: chain_contracts_response_def)
qed

lemma cd_extends_refl [simp]: "cd_extends s s"
  by (simp add: cd_extends_def)

lemma cd_extends_trans: "cd_extends s s1 \<Longrightarrow> cd_extends s1 s2 \<Longrightarrow> cd_extends s s2"
  unfolding cd_extends_def by (metis map_le_trans order_trans)

lemma validated_set:
  assumes "try_map (validate_cosmwasm_address f) xs = Inr ys"
  shows "set ys = {a. \<exists>x \<in> set xs. f x = Some a}"
  using assms
proof (induction xs arbitrary: ys)
  case (Cons x xs)
  then show ?case by (auto simp: validate_cosmwasm_address_def and_then_Inr_iff ok_or_Inr_iff)
qed simp

fun sets_after :: "cd_env \<Rightarrow> string \<Rightarrow> cd_msg \<Rightarrow> (string \<Rightarrow> string set) \<Rightarrow> (string \<Rightarrow> string set)" where
  "sets_after env a (CdSetActiveVerifiers vs) sets = sets(a := {x. \<exists>v \<in> set vs. ce_addr_validate env v = Some x})"
| "sets_after env a _ sets = sets"

lemma update_verifier_set_inv:
  assumes "cd_inv s"
  shows "cd_inv (update_verifier_set_for_prover s p vs)" and "cd_extends s (update_verifier_set_for_prover s p vs)"
proof -
  have frame: "\<exists>m. update_verifier_set_for_prover s p vs = s\<lparr>cd_verifier_provers := m\<rparr> \<and> kv_ok m"
    using assms by (auto simp: update_verifier_set_for_prover_def Let_def cd_inv_def intro!: kv_ok_foldl_del kv_ok_foldl_set)
  then obtain m where m: "update_verifier_set_for_prover s p vs = s\<lparr>cd_verifier_provers := m\<rparr>" "kv_ok m" by blast
  have pairs: "pairs_ok (cd_verifier_provers s)" using assms by (simp add: cd_inv_def)
  have "vp_prover r = q \<and> vp_verifier r = v" if "kv_get m (q, v) = Some r" for q v r
    using that update_verifier_set_get [of s p vs q v] m(1) pairs by (auto simp: pairs_ok_def split: if_splits)
  then have "pairs_ok m" by (simp add: pairs_ok_def)
  then show "cd_inv (update_verifier_set_for_prover s p vs)"
    using assms m(2) unfolding m(1) by (simp add: cd_inv_def)
  show "cd_extends s (update_verifier_set_for_prover s p vs)" unfolding m(1) by (simp add: cd_extends_def)
qed

lemma cd_dispatch_step:
  assumes run: "cd_dispatch env s a msg = Inr (s', r)" and inv: "cd_inv s"
  shows "cd_inv s' \<and> cd_extends s s' \<and> active_set s' = sets_after env a msg (active_set s)"
proof (cases msg)
  case (CdRegisterProtocol sr rt ms)
  then obtain p where "s' = s\<lparr>cd_protocol := Some p\<rparr>"
    using run by (auto simp: register_protocol_def save_protocol_contracts_def result_simps)
  then show ?thesis using inv CdRegisterProtocol by (simp add: cd_inv_def cd_extends_def active_set_def fun_eq_iff)
next
  case (CdRegisterChain c p g v)
  then obtain p' g' v' where save: "save_chain_contracts s c p' g' v' = Inr s'"
    using run by (auto simp: cd_register_chain_def result_simps)
  note save_chain_contracts_Inr [OF save inv]
  then show ?thesis using CdRegisterChain by (auto simp: cd_extends_def active_set_def fun_eq_iff)
next
  case (CdSetActiveVerifiers vs)
  then obtain ws where ws: "try_map (validate_cosmwasm_address (ce_addr_validate env)) vs = Inr ws"
    and s': "s' = update_verifier_set_for_prover s a ws"
    using run by (auto simp: set_active_verifier_set_def and_then_Inr_iff map_err_Inr_iff)
  show ?thesis using CdSetActiveVerifiers update_verifier_set_inv [OF inv] validated_set [OF ws]
    by (simp add: s' active_set_update)
next
  case (CdInstantiateChainContracts n salt params)
  obtain gateway verifier prover where params: "params = Manual gateway verifier prover" by (cases params)
  have "instantiate_chain_contracts env s n salt (Manual gateway verifier prover) = Inr (s', r)"
    using run CdInstantiateChainContracts params by (auto simp: result_simps)
  then obtain d where "kv_get (cd_deployed s) n = None" "s' = s\<lparr>cd_deployed := kv_set n d (cd_deployed s)\<rparr>"
    by (rule instantiate_chain_contracts_Inr)
  then show ?thesis using inv CdInstantiateChainContracts
    by (auto simp: cd_inv_def cd_extends_def active_set_def fun_eq_iff map_le_def)
next
  case (CdRegisterDeployment n)
  then have "register_deployment s a n = Inr (s', r)" using run by (auto simp: result_simps)
  then obtain d where "cd_inv s'" "s' = s\<lparr>cd_chains := kv_set (dc_chain_name d) (chain_contracts_response d) (cd_chains s)\<rparr>"
    using inv by (rule register_deployment_Inr)
  then show ?thesis using CdRegisterDeployment by (auto simp: cd_extends_def active_set_def fun_eq_iff)
qed

text \<open>No contract is listed as a proxy, so every accepted call is a direct one.\<close>

lemma cd_tx_Inr:
  assumes "cd_tx s (env, a, call) = Inr (s', r)" and "cd_inv s"
  obtains msg where "call = Direct msg" "cd_dispatch env s a msg = Inr (s', r)"
    "case msg of CdSetActiveVerifiers _ \<Rightarrow> a \<in> registered_provers s | _ \<Rightarrow> governance_addr (cd_perms s) = Some a"
proof -
  from assms(1) obtain b msg where auth: "authorize (cd_perms s) ([] :: (string \<times> (cd_state_error, string) result) list) cd_permissions
      (\<lambda>m role a. find_prover_address s a) a call = Inr (b, msg)" and d: "cd_dispatch env s b msg = Inr (s', r)"
    by (auto simp: cd_tx_def cd_execute_def result_simps)
  have direct: "call = Direct msg \<and> b = a"
    using auth by (cases call) (auto simp: authorize_def result_simps)
  then have perms: "ensure_permissions (cd_perms s) a (cd_permissions msg) (\<lambda>_. find_prover_address s a) = Inr ()"
    using auth by (simp add: authorize_Direct_Inr_iff)
  have "case msg of CdSetActiveVerifiers _ \<Rightarrow> a \<in> registered_provers s | _ \<Rightarrow> governance_addr (cd_perms s) = Some a"
    using perms is_prover_registered_iff [OF assms(2), of a]
    by (cases msg) (auto simp: result_simps find_prover_address_def)
  then show ?thesis using that direct d by blast
qed

lemma cd_tx_step:
  assumes "cd_tx s call = Inr (s', r)" and "cd_inv s"
  shows "cd_inv s' \<and> cd_extends s s' \<and> active_set s' = report call (active_set s)"
proof -
  obtain env a m where call: "call = (env, a, m)" by (cases call)
  from assms [unfolded call] obtain msg where msg: "m = Direct msg" and run: "cd_dispatch env s a msg = Inr (s', r)" by (rule cd_tx_Inr)
  have "report call (active_set s) = sets_after env a msg (active_set s)" by (cases msg) (simp_all add: call msg report_def)
  then show ?thesis using cd_dispatch_step [OF run assms(2)] by simp
qed

interpretation cdc: contract_machine cd_tx cd_inv "\<lambda>_. True"
  by unfold_locales (use cd_tx_step in blast)

lemma cd_reachable_inv: "cd_reachable s \<Longrightarrow> cd_inv s"
proof (induction rule: cd_reachable.induct)
  case (cd_init env governance s r)
  then show ?case by (auto simp: cd_instantiate_def result_simps cd_inv_def index_unique_def pairs_ok_def)
next
  case (cd_step s call s' r)
  then show ?case using cd_tx_step by blast
qed

lemma cd_run_extends: "cd_inv s \<Longrightarrow> cd_extends s (run_txs cd_tx s calls)"
  by (rule cdc.run_rel) (use cd_tx_step in \<open>auto simp: list_all_iff intro: cd_extends_trans\<close>)

lemma cd_tx_registered:
  assumes "cd_tx s call = Inr (s', r)" and "cd_inv s" and "report_of call = Some (p, vs)"
  shows "p \<in> registered_provers s"
proof -
  from assms(3) obtain env where call: "call = (env, p, Direct (CdSetActiveVerifiers vs))"
    by (cases call rule: report_of.cases) auto
  from assms(1,2) [unfolded call] obtain msg where "Direct (CdSetActiveVerifiers vs) = Direct msg"
    "case msg of CdSetActiveVerifiers _ \<Rightarrow> p \<in> registered_provers s | _ \<Rightarrow> governance_addr (cd_perms s) = Some p"
    by (rule cd_tx_Inr)
  then show ?thesis by auto
qed

lemma set_provers_for_verifier:
  assumes "cd_inv s"
  shows "set (provers_for_verifier s v) = {p. v \<in> active_set s p}"
proof -
  have pairs: "pairs_ok (cd_verifier_provers s)" and ok: "kv_ok (cd_verifier_provers s)" using assms by (simp_all add: cd_inv_def)
  have "p \<in> set (provers_for_verifier s v) \<longleftrightarrow> (\<exists>k r. (k, r) \<in> set (cd_verifier_provers s) \<and> vp_verifier r = v \<and> vp_prover r = p)" for p
    by (force simp: provers_for_verifier_def)
  also have "\<dots> p \<longleftrightarrow> (\<exists>q w r. kv_get (cd_verifier_provers s) (q, w) = Some r \<and> vp_verifier r = v \<and> vp_prover r = p)" for p
    by (simp add: kv_ok_get_iff [OF ok])
  also have "\<dots> p \<longleftrightarrow> v \<in> active_set s p" for p
    using pairs by (fastforce simp: pairs_ok_def active_set_def)
  finally show ?thesis by auto
qed

subsection \<open>Replaced provers\<close>

text \<open>A prover that no registered chain has cannot report, so its last set stays.\<close>

fun registers_prover :: "cd_state \<Rightarrow> cd_call \<Rightarrow> string \<Rightarrow> bool" where
  "registers_prover s (env, _, Direct (CdRegisterChain _ prover _ _)) p \<longleftrightarrow> ce_addr_validate env prover = Some p"
| "registers_prover s (_, _, Direct (CdRegisterDeployment n)) p \<longleftrightarrow> map_option dc_multisig_prover (kv_get (cd_deployed s) n) = Some p"
| "registers_prover s _ p \<longleftrightarrow> False"

fun never_registers :: "cd_state \<Rightarrow> cd_call list \<Rightarrow> string \<Rightarrow> bool" where
  "never_registers s [] p \<longleftrightarrow> True"
| "never_registers s (call # calls) p \<longleftrightarrow> \<not> registers_prover s call p \<and> never_registers (commit s (cd_tx s call)) calls p"

lemma registered_provers_set:
  "registered_provers (s\<lparr>cd_chains := kv_set c r (cd_chains s)\<rparr>) \<subseteq> insert (cr_prover_address r) (registered_provers s)"
  by (auto simp: registered_provers_def split: if_splits)

lemma cd_tx_provers:
  assumes "cd_tx s call = Inr (s', r)" and "cd_inv s" and "\<not> registers_prover s call p" and "p \<notin> registered_provers s"
  shows "p \<notin> registered_provers s' \<and> active_set s' p = active_set s p"
proof -
  obtain env a m where call: "call = (env, a, m)" by (cases call)
  from assms(1,2) [unfolded call] obtain msg where msg: "m = Direct msg" and run: "cd_dispatch env s a msg = Inr (s', r)"
    and perm: "case msg of CdSetActiveVerifiers _ \<Rightarrow> a \<in> registered_provers s | _ \<Rightarrow> governance_addr (cd_perms s) = Some a"
    by (rule cd_tx_Inr)
  have "active_set s' p = active_set s p"
    using cd_dispatch_step [OF run assms(2)] perm assms(4) by (cases msg) auto
  moreover have "p \<notin> registered_provers s'"
  proof (cases msg)
    case (CdRegisterChain c pa g v)
    then obtain pr g' v' where val: "ce_addr_validate env pa = Some pr" and save: "save_chain_contracts s c pr g' v' = Inr s'"
      using run by (auto simp: cd_register_chain_def validate_cosmwasm_address_def result_simps)
    have "p \<noteq> pr" using val assms(3) by (auto simp: call msg CdRegisterChain)
    then show ?thesis
      using save_chain_contracts_Inr(1) [OF save assms(2)] registered_provers_set assms(4) by fastforce
  next
    case (CdRegisterDeployment n)
    then have "register_deployment s a n = Inr (s', r)" using run by (auto simp: result_simps)
    then obtain d where d: "kv_get (cd_deployed s) n = Some d"
      and s': "s' = s\<lparr>cd_chains := kv_set (dc_chain_name d) (chain_contracts_response d) (cd_chains s)\<rparr>"
      using assms(2) by (rule register_deployment_Inr)
    have "p \<noteq> dc_multisig_prover d" using d assms(3) by (auto simp: call msg CdRegisterDeployment)
    then show ?thesis using registered_provers_set assms(4) unfolding s' by (fastforce simp: chain_contracts_response_def)
  next
    case (CdInstantiateChainContracts n salt params)
    obtain gateway verifier prover where params: "params = Manual gateway verifier prover" by (cases params)
    have "instantiate_chain_contracts env s n salt (Manual gateway verifier prover) = Inr (s', r)"
      using run CdInstantiateChainContracts params by (auto simp: result_simps)
    then obtain d where "s' = s\<lparr>cd_deployed := kv_set n d (cd_deployed s)\<rparr>" by (rule instantiate_chain_contracts_Inr)
    then show ?thesis using assms(4) by (simp add: registered_provers_def)
  next
    case (CdRegisterProtocol sr rt ms)
    then have "cd_chains s' = cd_chains s"
      using run by (auto simp: register_protocol_def save_protocol_contracts_def result_simps)
    then show ?thesis using assms(4) by (simp add: registered_provers_def)
  next
    case (CdSetActiveVerifiers vs)
    then have "cd_chains s' = cd_chains s"
      using run by (auto simp: set_active_verifier_set_def update_verifier_set_for_prover_def Let_def result_simps)
    then show ?thesis using assms(4) by (simp add: registered_provers_def)
  qed
  ultimately show ?thesis by blast
qed

lemma run_unregistered:
  assumes "cd_inv s" and "never_registers s calls p" and "p \<notin> registered_provers s"
  shows "active_set (run_txs cd_tx s calls) p = active_set s p"
  using assms
proof (induction calls arbitrary: s)
  case Nil
  then show ?case by (simp add: run_txs_def)
next
  case (Cons call calls)
  let ?s = "commit s (cd_tx s call)"
  have "cd_inv ?s" using Cons.prems(1) by (simp add: cdc.commit_inv)
  moreover have "p \<notin> registered_provers ?s \<and> active_set ?s p = active_set s p"
    using cd_tx_provers [OF _ Cons.prems(1), of call _ _ p] Cons.prems(2,3)
    by (cases "cd_tx s call") (auto simp: commit_def)
  ultimately show ?case using Cons.IH [of ?s] Cons.prems(2) by (simp add: run_txs_def)
qed

section \<open>Example\<close>

text \<open>A coordinator with the chain \<open>eth\<close>, whose prover \<open>pr1\<close> has reported the verifier \<open>a\<close>.\<close>

definition cd_ex_env :: cd_env where
  "cd_ex_env = \<lparr>ce_address = ''coord'', ce_addr_validate = Some, ce_code_checksum = (\<lambda>i. Some [ucast i]),
     ce_addr_canonicalize = (\<lambda>_. Some []), ce_instantiate2_address = (\<lambda>checksum _ salt. Some (checksum @ salt)),
     ce_addr_humanize = (\<lambda>bs. Some (map (\<lambda>b. char_of (unat b)) bs))\<rparr>"

definition cd_ex_record :: "string \<Rightarrow> chain_contracts_record" where
  "cd_ex_record p = \<lparr>cr_chain_name = ''eth'', cr_prover_address = p, cr_gateway_address = ''gw1'', cr_verifier_address = ''vv1''\<rparr>"

definition cd_ex_state :: "(string, chain_contracts_record) kv \<Rightarrow> (string \<times> string, verifier_prover_record) kv \<Rightarrow> cd_state" where
  "cd_ex_state chs vps = \<lparr>cd_perms = \<lparr>admin_addr = None, governance_addr = Some ''gov''\<rparr>, cd_protocol = None, cd_deployed = [],
     cd_chains = chs, cd_verifier_provers = vps\<rparr>"

definition cd_ex_pairs :: "(string \<times> string, verifier_prover_record) kv" where
  "cd_ex_pairs = [((''pr1'', ''a''), \<lparr>vp_prover = ''pr1'', vp_verifier = ''a''\<rparr>)]"

lemmas cd_ex_defs [simp] = cd_ex_env_def cd_ex_record_def cd_ex_state_def cd_ex_pairs_def

lemmas cd_eval = cd_tx_def cd_execute_def authorize_def ensure_permissions_def general_check_def sender_role_def
  find_prover_address_def is_prover_registered_def index_item_def cd_register_chain_def save_chain_contracts_def index_taken_def
  set_active_verifier_set_def update_verifier_set_for_prover_def existing_verifiers_def validate_cosmwasm_address_def response_new_def

lemma cd_ex_instantiate: "cd_instantiate cd_ex_env ''gov'' = Inr (cd_ex_state [] [], response_new)"
  by (simp add: cd_instantiate_def validate_cosmwasm_address_def set_governance_def)

lemma cd_ex_register:
  "cd_tx (cd_ex_state [] []) (cd_ex_env, ''gov'', Direct (CdRegisterChain ''eth'' ''pr1'' ''gw1'' ''vv1''))
     = Inr (cd_ex_state [(''eth'', cd_ex_record ''pr1'')] [], response_new)"
  by (simp add: cd_eval)

lemma cd_ex_report:
  "cd_tx (cd_ex_state [(''eth'', cd_ex_record ''pr1'')] []) (cd_ex_env, ''pr1'', Direct (CdSetActiveVerifiers [''a'']))
     = Inr (cd_ex_state [(''eth'', cd_ex_record ''pr1'')] cd_ex_pairs, response_new)"
  by (simp add: cd_eval)

lemma cd_ex_replace:
  "cd_tx (cd_ex_state [(''eth'', cd_ex_record ''pr1'')] cd_ex_pairs) (cd_ex_env, ''gov'', Direct (CdRegisterChain ''eth'' ''pr2'' ''gw1'' ''vv1''))
     = Inr (cd_ex_state [(''eth'', cd_ex_record ''pr2'')] cd_ex_pairs, response_new)"
  by (simp add: cd_eval)

lemma cd_ex_reachable:
  "cd_reachable (cd_ex_state [(''eth'', cd_ex_record ''pr1'')] [])"
  "cd_reachable (cd_ex_state [(''eth'', cd_ex_record ''pr1'')] cd_ex_pairs)"
proof -
  show 1: "cd_reachable (cd_ex_state [(''eth'', cd_ex_record ''pr1'')] [])"
    by (rule cd_step [OF cd_init [OF cd_ex_instantiate] cd_ex_register])
  show "cd_reachable (cd_ex_state [(''eth'', cd_ex_record ''pr1'')] cd_ex_pairs)"
    by (rule cd_step [OF 1 cd_ex_report])
qed

section \<open>Properties\<close>

text \<open>
  C18. The verifier sets are an abstract function from provers to sets of verifiers. A successful
  call changes it only if it is a report, which a prover of a registered chain makes and which
  replaces the set of this prover by the reported verifiers and no other set. A verifier is
  ready to unbond exactly if it is in the set of no prover, and the provers reported for it are
  those whose sets it is in.
\<close>

theorem active_sets_refine:
  assumes "cd_reachable s" and "cd_tx s call = Inr (s', r)"
  shows "active_set s' = report call (active_set s)
    \<and> (\<forall>p vs. report_of call = Some (p, vs) \<longrightarrow> p \<in> registered_provers s)
    \<and> (check_verifier_ready_to_unbond s' v \<longleftrightarrow> (\<forall>p. v \<notin> active_set s' p))
    \<and> set (provers_for_verifier s' v) = {p. v \<in> active_set s' p}"
proof -
  have inv: "cd_inv s" using assms(1) by (rule cd_reachable_inv)
  from cd_tx_step [OF assms(2) inv] have "cd_inv s'" "active_set s' = report call (active_set s)" by blast+
  then show ?thesis using cd_tx_registered [OF assms(2) inv] ready_iff set_provers_for_verifier by blast
qed

theorem active_sets_refine_witness:
  "active_set (cd_ex_state [(''eth'', cd_ex_record ''pr1'')] cd_ex_pairs) ''pr1'' = {''a''}
     \<and> \<not> check_verifier_ready_to_unbond (cd_ex_state [(''eth'', cd_ex_record ''pr1'')] cd_ex_pairs) ''a''"
proof -
  let ?s = "cd_ex_state [(''eth'', cd_ex_record ''pr1'')] cd_ex_pairs"
  note a = active_sets_refine [OF cd_ex_reachable(1) cd_ex_report, of "''a''"]
  then have "active_set ?s ''pr1'' = {''a''}" by (simp add: report_def)
  then show ?thesis using a by blast
qed

text \<open>
  C34. The four ways to look up the contracts of a chain agree: a record found by the address
  of a prover, a gateway or a verifier is the one registered under its chain name, and it is found by
  each of its addresses in their role. So no two chains have the same prover, the same gateway or the
  same verifier (an address may stand in different roles). A registered chain stays registered.
\<close>

theorem chain_contracts_consistent:
  assumes "cd_reachable s"
  shows "(chain_contracts_info s (KeyProverAddress a) = Inr r
      \<longleftrightarrow> chain_contracts_info s (KeyChainName (cr_chain_name r)) = Inr r \<and> cr_prover_address r = a)
    \<and> (chain_contracts_info s (KeyGatewayAddress a) = Inr r
      \<longleftrightarrow> chain_contracts_info s (KeyChainName (cr_chain_name r)) = Inr r \<and> cr_gateway_address r = a)
    \<and> (chain_contracts_info s (KeyVerifierAddress a) = Inr r
      \<longleftrightarrow> chain_contracts_info s (KeyChainName (cr_chain_name r)) = Inr r \<and> cr_verifier_address r = a)
    \<and> (is_ok (chain_contracts_info s (KeyChainName c)) \<longrightarrow> is_ok (chain_contracts_info (run_txs cd_tx s calls) (KeyChainName c)))"
proof -
  have inv: "cd_inv s" using assms by (rule cd_reachable_inv)
  then have "index_unique cr_prover_address s" "index_unique cr_gateway_address s" "index_unique cr_verifier_address s"
    by (simp_all add: cd_inv_def)
  note item = this [THEN index_item_iff [OF inv]]
  have "is_ok (chain_contracts_info (run_txs cd_tx s calls) (KeyChainName c))" if "is_ok (chain_contracts_info s (KeyChainName c))"
    using cd_run_extends [OF inv, of calls] that
    by (cases "kv_get (cd_chains s) c") (auto simp: chain_contracts_info_def contracts_by_chain_def cd_extends_def dom_def)
  then show ?thesis
    by (simp add: chain_contracts_info_def contracts_by_prover_def contracts_by_gateway_def contracts_by_verifier_def
        contracts_by_chain_def result_simps item)
qed

theorem chain_contracts_consistent_witness:
  "chain_contracts_info (cd_ex_state [(''eth'', cd_ex_record ''pr1'')] []) (KeyGatewayAddress ''gw1'') = Inr (cd_ex_record ''pr1'')"
  using chain_contracts_consistent [OF cd_ex_reachable(1), of "''gw1''" "cd_ex_record ''pr1''"]
  by (simp add: chain_contracts_info_def contracts_by_chain_def)

text \<open>
  C39. If governance registers a new prover for a chain, the verifiers in the last set that the
  old prover reported are not ready to unbond any more, whatever calls follow, until the old
  prover is registered again: nobody else can clear its set.
\<close>

theorem replaced_prover_blocks_unbonding:
  assumes "cd_reachable s" and "kv_get (cd_chains s) c = Some q" and "v \<in> active_set s (cr_prover_address q)"
    and "cd_tx s (env, a, Direct (CdRegisterChain c p g w)) = Inr (s', r)"
    and "ce_addr_validate env p \<noteq> Some (cr_prover_address q)" and "never_registers s' calls (cr_prover_address q)"
  shows "\<not> check_verifier_ready_to_unbond (run_txs cd_tx s' calls) v"
proof -
  have inv: "cd_inv s" using assms(1) by (rule cd_reachable_inv)
  from cd_tx_step [OF assms(4) inv] have inv': "cd_inv s'" and sets: "active_set s' = active_set s" by (simp_all add: report_def)
  from assms(4) inv obtain msg where "Direct (CdRegisterChain c p g w) = Direct msg" "cd_dispatch env s a msg = Inr (s', r)"
    by (rule cd_tx_Inr)
  then obtain p' g' w' where save: "save_chain_contracts s c p' g' w' = Inr s'" and p': "ce_addr_validate env p = Some p'"
    by (auto simp: cd_register_chain_def validate_cosmwasm_address_def result_simps)
  have "cr_prover_address q \<notin> registered_provers s'"
  proof
    assume "cr_prover_address q \<in> registered_provers s'"
    then obtain d qd where "kv_get (cd_chains s) d = Some qd" "cr_prover_address qd = cr_prover_address q" "d \<noteq> c"
      using save_chain_contracts_Inr(1) [OF save inv] assms(5) p' by (auto simp: registered_provers_def split: if_splits)
    moreover have "index_unique cr_prover_address s" using inv by (simp add: cd_inv_def)
    ultimately show False using index_uniqueD assms(2) by metis
  qed
  then have "v \<in> active_set (run_txs cd_tx s' calls) (cr_prover_address q)"
    using run_unregistered [OF inv' assms(6)] sets assms(3) by simp
  moreover have "cd_inv (run_txs cd_tx s' calls)" using inv' by (simp add: cdc.run_inv list_all_iff)
  ultimately show ?thesis using ready_iff by blast
qed

theorem replaced_prover_blocks_unbonding_witness:
  "\<not> check_verifier_ready_to_unbond (cd_ex_state [(''eth'', cd_ex_record ''pr2'')] cd_ex_pairs) ''a''"
proof -
  let ?s = "cd_ex_state [(''eth'', cd_ex_record ''pr1'')] cd_ex_pairs" and ?calls = "[(cd_ex_env, ''pr1'', Direct (CdSetActiveVerifiers []))]"
  have q: "kv_get (cd_chains ?s) ''eth'' = Some (cd_ex_record ''pr1'')" "''a'' \<in> active_set ?s (cr_prover_address (cd_ex_record ''pr1''))"
    "ce_addr_validate cd_ex_env ''pr2'' \<noteq> Some (cr_prover_address (cd_ex_record ''pr1''))"
    by (simp_all add: active_set_def)
  have "never_registers (cd_ex_state [(''eth'', cd_ex_record ''pr2'')] cd_ex_pairs) ?calls (cr_prover_address (cd_ex_record ''pr1''))"
    by simp
  from replaced_prover_blocks_unbonding [OF cd_ex_reachable(2) q(1,2) cd_ex_replace q(3) this]
  have "\<not> check_verifier_ready_to_unbond (run_txs cd_tx (cd_ex_state [(''eth'', cd_ex_record ''pr2'')] cd_ex_pairs) ?calls) ''a''" .
  moreover have "run_txs cd_tx (cd_ex_state [(''eth'', cd_ex_record ''pr2'')] cd_ex_pairs) ?calls = cd_ex_state [(''eth'', cd_ex_record ''pr2'')] cd_ex_pairs"
    by (simp add: run_txs_def commit_def cd_eval)
  ultimately show ?thesis by simp
qed

end
