(* ===== verification/Its_Std.thy ===== *)
theory Its_Std
  imports Router_Api
begin

text \<open>
  The messages of the interchain token service, \<open>packages/interchain-token-service-std/src/primitives.rs\<close>:
  what the service contracts on the chains and the hub on Axelar send to each other. A nonempty
  value is represented by its underlying value; \<open>hub_message_ok\<close> is what the types of the source
  guarantee of every message.
\<close>

section \<open>Definitions\<close>

type_synonym token_id = "u8 list"

record interchain_transfer =
  it_token_id :: token_id
  it_source_address :: "u8 list"
  it_destination_address :: "u8 list"
  it_amount :: u256
  it_data :: "u8 list option"

record deploy_interchain_token =
  di_token_id :: token_id
  di_name :: string
  di_symbol :: string
  di_decimals :: u8
  di_minter :: "u8 list option"

record register_token_metadata =
  rm_decimals :: u8
  rm_token_address :: "u8 list"

record link_token =
  lt_token_id :: token_id
  lt_token_manager_type :: u256
  lt_source_token_address :: "u8 list"
  lt_destination_token_address :: "u8 list"
  lt_params :: "u8 list option"

datatype its_message =
    InterchainTransfer interchain_transfer
  | DeployInterchainToken deploy_interchain_token
  | LinkToken link_token

datatype hub_message =
    SendToHub string its_message
  | ReceiveFromHub string its_message
  | RegisterTokenMetadata register_token_metadata

text \<open>The invariants of the types: 32 bytes in a token id, no empty strings and no zero amounts.\<close>

definition token_id_ok :: "token_id \<Rightarrow> bool" where
  "token_id_ok t \<longleftrightarrow> length t = 32"

fun its_message_ok :: "its_message \<Rightarrow> bool" where
  "its_message_ok (InterchainTransfer t) \<longleftrightarrow> token_id_ok (it_token_id t) \<and> it_source_address t \<noteq> []
     \<and> it_destination_address t \<noteq> [] \<and> it_amount t \<noteq> 0 \<and> it_data t \<noteq> Some []"
| "its_message_ok (DeployInterchainToken d) \<longleftrightarrow> token_id_ok (di_token_id d) \<and> di_name d \<noteq> [] \<and> di_symbol d \<noteq> [] \<and> di_minter d \<noteq> Some []"
| "its_message_ok (LinkToken l) \<longleftrightarrow> token_id_ok (lt_token_id l) \<and> lt_source_token_address l \<noteq> []
     \<and> lt_destination_token_address l \<noteq> [] \<and> lt_params l \<noteq> Some []"

fun hub_message_ok :: "hub_message \<Rightarrow> bool" where
  "hub_message_ok (SendToHub chain m) \<longleftrightarrow> is_raw_chain_name chain \<and> its_message_ok m"
| "hub_message_ok (ReceiveFromHub chain m) \<longleftrightarrow> is_raw_chain_name chain \<and> its_message_ok m"
| "hub_message_ok (RegisterTokenMetadata r) \<longleftrightarrow> rm_token_address r \<noteq> []"

end
