(* ===== verification/Axelarnet_Gateway.thy ===== *)
theory Axelarnet_Gateway
  imports Router
begin

text \<open>
  The gateway of the Axelar chain itself, \<open>contracts/axelarnet-gateway/src\<close>: calls of contracts on
  Axelar to other chains, messages from the router that are executed at contracts on Axelar, and
  messages from and to the nexus module of the core, with their conversion in
  \<open>packages/axelar-core-std/src/nexus/execute.rs\<close>. The queries of the nexus module, the hash
  function, the hexadecimal codec and the validation of addresses are parameters of the environment.
\<close>

section \<open>Definitions\<close>

subsection \<open>Messages of the nexus module\<close>

record nexus_message =
  nx_source_chain :: string
  nx_source_address :: string
  nx_destination_chain :: string
  nx_destination_address :: string
  nx_payload_hash :: "u8 list"
  nx_source_tx_id :: "u8 list"
  nx_source_tx_index :: u64
  nx_id :: string

datatype nexus_error = QueryTxHashAndNonce | QueryIsChainRegistered | InvalidNexusMessageId string

definition parse_message_id :: "(string \<Rightarrow> u8 list option) \<Rightarrow> string \<Rightarrow> (nexus_error, u8 list \<times> u64) result" where
  "parse_message_id dec mid =
     and_then (change_context (InvalidNexusMessageId mid) (hex_event_from_str dec mid)) (\<lambda>i.
     and_then (change_context (InvalidNexusMessageId mid) (nonempty_vec_try_from (tx_hash i))) (\<lambda>tx_id.
     Ok (tx_id, event_index i)))"

definition nexus_of_message :: "(string \<Rightarrow> u8 list option) \<Rightarrow> message \<Rightarrow> nexus_message" where
  "nexus_of_message dec msg =
     (let (source_tx_id, source_tx_index) =
        (case parse_message_id dec (message_id (cc_id msg)) of Inr x \<Rightarrow> x | Inl _ \<Rightarrow> (replicate 32 0, 0))
      in \<lparr>nx_source_chain = source_chain (cc_id msg), nx_source_address = source_address msg,
          nx_destination_chain = destination_chain msg, nx_destination_address = destination_address msg,
          nx_payload_hash = payload_hash msg, nx_source_tx_id = source_tx_id, nx_source_tx_index = source_tx_index,
          nx_id = message_id (cc_id msg)\<rparr>)"

definition message_of_nexus :: "nexus_message \<Rightarrow> (nexus_error, message) result" where
  "message_of_nexus msg =
     and_then (change_context (InvalidNexusMessageId (nx_id msg)) (nonempty_string_try_from (nx_id msg))) (\<lambda>mid.
     Ok \<lparr>cc_id = CrossChainId (nx_source_chain msg) mid, source_address = nx_source_address msg,
         destination_chain = nx_destination_chain msg, destination_address = nx_destination_address msg,
         payload_hash = nx_payload_hash msg\<rparr>)"

subsection \<open>State\<close>

record ag_config =
  ac_chain_name :: string
  ac_router :: string
  ac_nexus :: string

datatype executable_message = ExApproved (executable_msg: message) | ExExecuted (executable_msg: message)

record ag_state =
  ag_config :: "ag_config option"
  ag_perms :: permission_state
  ag_routable :: "(cross_chain_id, message) kv"
  ag_executable :: "(cross_chain_id, executable_message) kv"

datatype ag_state_error =
    AgStd
  | AgMissingConfig
  | AgMessageMismatch cross_chain_id
  | AgMessageNotFound cross_chain_id
  | AgMessageNotApproved cross_chain_id
  | AgMessageAlreadyExecuted cross_chain_id
  | AgMessageAlreadyExists cross_chain_id
  | PayloadHashMismatch

datatype ag_error =
    SaveExecutableMessage
  | RoutableMessageAccess
  | MessageMismatchErr cross_chain_id
  | MarkExecuted cross_chain_id
  | InvalidDestination string string
  | CrossChainIdGeneration
  | SaveRoutableMessage
  | InvalidCrossChainId
  | EventIndexErr
  | InvalidSourceAddress string
  | InvalidDestinationAddress string
  | NexusErr
  | NonceOverflow
  | InvalidToken
  | InvalidRoutingDestination
  | InvalidNexusMessageForRouter
  | CallContractErr
  | RouteMessagesErr
  | ExecuteErr
  | QueryRoutableMessage
  | QueryExecutableMessages
  | AgAddressErr address_error
  | AgPermissionErr permission_error

record axelar_executable_msg =
  ax_cc_id :: cross_chain_id
  ax_source_address :: string
  ax_payload :: "u8 list"

datatype ag_event =
    ContractCalled message "u8 list"
  | AgRouting message
  | MessageExecuted message

datatype ag_out =
    AgToRouter string "message list"
  | AgToNexus nexus_message
  | AgExecuteAt string axelar_executable_msg

type_synonym ag_response = "(ag_out, ag_event) response"

record ag_env =
  ae_is_chain_registered :: "string \<Rightarrow> bool option"
  ae_tx_hash_and_nonce :: "(u8 list \<times> u64) option"
  ae_keccak256 :: "u8 list \<Rightarrow> u8 list"
  ae_codecs :: codecs
  ae_addr_validate :: "string \<Rightarrow> string option"

definition ag_load_config :: "ag_state \<Rightarrow> ('e, ag_config) result" where
  "ag_load_config s = expect_some ''gateway config must be set during instantiation'' (ag_config s)"

definition save_unique_routable_msg :: "ag_state \<Rightarrow> cross_chain_id \<Rightarrow> message \<Rightarrow> (ag_state_error, ag_state) result" where
  "save_unique_routable_msg s i msg =
     (if kv_get (ag_routable s) i \<noteq> None then fail (AgMessageAlreadyExists i)
      else Ok (s\<lparr>ag_routable := kv_set i msg (ag_routable s)\<rparr>))"

definition load_routable_msg :: "ag_state \<Rightarrow> cross_chain_id \<Rightarrow> (ag_state_error, message) result" where
  "load_routable_msg s i = ok_or (AgMessageNotFound i) (kv_get (ag_routable s) i)"

definition save_executable_msg :: "ag_state \<Rightarrow> cross_chain_id \<Rightarrow> message \<Rightarrow> (ag_state_error, ag_state) result" where
  "save_executable_msg s i msg =
     (case kv_get (ag_executable s) i of
        Some existing \<Rightarrow> if executable_msg existing \<noteq> msg then fail (AgMessageMismatch (cc_id msg)) else Ok s
      | None \<Rightarrow> Ok (s\<lparr>ag_executable := kv_set i (ExApproved msg) (ag_executable s)\<rparr>))"

definition load_executable_msg :: "ag_state \<Rightarrow> cross_chain_id \<Rightarrow> (ag_state_error, executable_message) result" where
  "load_executable_msg s i = ok_or (AgMessageNotApproved i) (kv_get (ag_executable s) i)"

definition mark_as_executed ::
  "ag_state \<Rightarrow> cross_chain_id \<Rightarrow> (message \<Rightarrow> (ag_state_error, unit) result) \<Rightarrow> (ag_state_error, ag_state \<times> message) result" where
  "mark_as_executed s i validate =
     and_then (case kv_get (ag_executable s) i of
         None \<Rightarrow> fail (AgMessageNotApproved i)
       | Some (ExExecuted _) \<Rightarrow> fail (AgMessageAlreadyExecuted i)
       | Some (ExApproved msg) \<Rightarrow> and_then (validate msg) (\<lambda>_. Ok msg)) (\<lambda>msg.
     Ok (s\<lparr>ag_executable := kv_set i (ExExecuted msg) (ag_executable s)\<rparr>, msg))"

subsection \<open>Operations\<close>

record call_contract_data =
  cl_destination_chain :: string
  cl_destination_address :: string
  cl_payload :: "u8 list"

definition to_message :: "(u8 list \<Rightarrow> u8 list) \<Rightarrow> call_contract_data \<Rightarrow> cross_chain_id \<Rightarrow> string \<Rightarrow> message" where
  "to_message H d i source = \<lparr>cc_id = i, source_address = source, destination_chain = cl_destination_chain d,
     destination_address = cl_destination_address d, payload_hash = H (cl_payload d)\<rparr>"

definition unique_cross_chain_id :: "ag_env \<Rightarrow> string \<Rightarrow> (ag_error, cross_chain_id) result" where
  "unique_cross_chain_id env chain_name =
     and_then (ok_or NexusErr (ae_tx_hash_and_nonce env)) (\<lambda>(hash, nonce).
     and_then (ensure (unat nonce < 2 ^ 32) NonceOverflow) (\<lambda>_.
     change_context InvalidCrossChainId (cross_chain_id_new chain_name
       (hex_event_to_string (hex_encode (ae_codecs env)) (HexTxHashAndEventIndex hash nonce)))))"

datatype routing_destination = RdNexus | RdRouter | RdThis

definition determine_routing_destination ::
  "ag_env \<Rightarrow> string \<Rightarrow> string \<Rightarrow> string \<Rightarrow> string \<Rightarrow> (ag_error, routing_destination) result" where
  "determine_routing_destination env sender dest_chain router this_chain =
     and_then (ok_or NexusErr (ae_is_chain_registered env dest_chain)) (\<lambda>registered.
     if registered then Ok RdNexus
     else if sender = router then and_then (ensure (dest_chain = this_chain) InvalidRoutingDestination) (\<lambda>_. Ok RdThis)
     else Ok RdRouter)"

definition try_load_routable_msg :: "ag_state \<Rightarrow> message \<Rightarrow> (ag_error, message option) result" where
  "try_load_routable_msg s msg =
     (case kv_get (ag_routable s) (cc_id msg) of
        Some stored_msg \<Rightarrow> if stored_msg \<noteq> msg then fail (MessageMismatchErr (cc_id msg)) else Ok (Some stored_msg)
      | None \<Rightarrow> Ok None)"

definition prepare_for_execution :: "ag_state \<Rightarrow> string \<Rightarrow> message list \<Rightarrow> (ag_error, ag_state \<times> ag_response) result" where
  "prepare_for_execution s chain_name msgs =
     and_then (try_fold (\<lambda>s msg.
         and_then (ensure (chain_name = destination_chain msg) (InvalidDestination chain_name (destination_chain msg))) (\<lambda>_.
         change_context SaveExecutableMessage (save_executable_msg s (cc_id msg) msg))) s msgs) (\<lambda>s1.
     Ok (s1, \<lparr>messages = [], events = map AgRouting msgs\<rparr>))"

definition router_route :: "string \<Rightarrow> message list \<Rightarrow> ag_out list" where
  "router_route router msgs = (case to_none_if_empty msgs of None \<Rightarrow> [] | Some msgs \<Rightarrow> [AgToRouter router msgs])"

definition route_to_router :: "string \<Rightarrow> message list \<Rightarrow> ag_response" where
  "route_to_router router msgs = \<lparr>messages = router_route router msgs, events = map AgRouting msgs\<rparr>"

definition route_to_nexus :: "ag_env \<Rightarrow> message list \<Rightarrow> ag_response" where
  "route_to_nexus env msgs =
     \<lparr>messages = map (\<lambda>m. AgToNexus (nexus_of_message (hex_decode (ae_codecs env)) m)) msgs, events = map AgRouting msgs\<rparr>"

text \<open>Itertools' \<open>unique\<close>: the first occurrence of every value.\<close>

definition unique :: "'a list \<Rightarrow> 'a list" where
  "unique xs = rev (remdups (rev xs))"

definition ag_route_group ::
  "ag_env \<Rightarrow> ag_config \<Rightarrow> string \<Rightarrow> ag_state \<times> ag_response \<Rightarrow> string \<times> message list \<Rightarrow> (ag_error, ag_state \<times> ag_response) result" where
  "ag_route_group env config sender acc grp =
     (case acc of (s, r) \<Rightarrow> case grp of (dest_chain, msgs) \<Rightarrow>
     and_then (determine_routing_destination env sender dest_chain (ac_router config) (ac_chain_name config)) (\<lambda>dest.
     and_then (case dest of
         RdThis \<Rightarrow> prepare_for_execution s (ac_chain_name config) msgs
       | RdNexus \<Rightarrow> Ok (s, route_to_nexus env msgs)
       | RdRouter \<Rightarrow> Ok (s, route_to_router (ac_router config) msgs)) (\<lambda>(s1, r1).
     Ok (s1, \<lparr>messages = messages r @ messages r1, events = events r @ events r1\<rparr>))))"

definition ag_route_messages ::
  "ag_env \<Rightarrow> ag_state \<Rightarrow> string \<Rightarrow> message list \<Rightarrow> (ag_error, ag_state \<times> ag_response) result" where
  "ag_route_messages env s sender msgs =
     and_then (ag_load_config s) (\<lambda>config.
     and_then (if sender \<noteq> ac_router config
         then and_then (try_map (try_load_routable_msg s) (unique msgs)) (\<lambda>ms. Ok (List.map_filter id ms))
         else Ok msgs) (\<lambda>msgs.
     try_fold (ag_route_group env config sender) (s, response_new) (chunk_by destination_chain msgs)))"

definition call_contract ::
  "ag_env \<Rightarrow> ag_state \<Rightarrow> string \<Rightarrow> call_contract_data \<Rightarrow> (ag_error, ag_state \<times> ag_response) result" where
  "call_contract env s sender d =
     and_then (ag_load_config s) (\<lambda>config.
     and_then (unique_cross_chain_id env (ac_chain_name config)) (\<lambda>i.
     and_then (change_context (InvalidSourceAddress sender) (address_from_str sender)) (\<lambda>source.
     let msg = to_message (ae_keccak256 env) d i source in
     and_then (case save_unique_routable_msg s (cc_id msg) msg of
         Inl (Err (AgMessageAlreadyExists _)) \<Rightarrow> panic ''violated invariant: message already exists''
       | r \<Rightarrow> change_context SaveRoutableMessage r) (\<lambda>s1.
     and_then (ag_route_messages env s1 sender [msg]) (\<lambda>(s2, r).
     Ok (s2, \<lparr>messages = messages r, events = events r @ [ContractCalled msg (cl_payload d)]\<rparr>))))))"

definition ensure_same_payload_hash :: "u8 list \<Rightarrow> message \<Rightarrow> (ag_state_error, unit) result" where
  "ensure_same_payload_hash h msg = (if h \<noteq> payload_hash msg then fail PayloadHashMismatch else Ok ())"

definition ag_execute_msg ::
  "ag_env \<Rightarrow> ag_state \<Rightarrow> cross_chain_id \<Rightarrow> u8 list \<Rightarrow> (ag_error, ag_state \<times> ag_response) result" where
  "ag_execute_msg env s i payload =
     and_then (change_context (MarkExecuted i) (mark_as_executed s i (ensure_same_payload_hash (ae_keccak256 env payload)))) (\<lambda>(s1, msg).
     and_then (change_context (InvalidDestinationAddress (destination_address msg))
       (validate_cosmwasm_address (ae_addr_validate env) (destination_address msg))) (\<lambda>destination.
     Ok (s1, \<lparr>messages = [AgExecuteAt destination \<lparr>ax_cc_id = i, ax_source_address = source_address msg, ax_payload = payload\<rparr>],
              events = [MessageExecuted msg]\<rparr>)))"

definition route_messages_from_nexus :: "ag_state \<Rightarrow> nexus_message list \<Rightarrow> (ag_error, ag_state \<times> ag_response) result" where
  "route_messages_from_nexus s msgs =
     and_then (change_context InvalidNexusMessageForRouter (try_map message_of_nexus msgs)) (\<lambda>msgs.
     and_then (ag_load_config s) (\<lambda>config.
     Ok (s, \<lparr>messages = router_route (ac_router config) msgs, events = []\<rparr>)))"

subsection \<open>Entry points\<close>

datatype ag_msg =
    AgRouteMessages "message list"
  | AgExecute cross_chain_id "u8 list"
  | AgCallContract call_contract_data
  | AgRouteMessagesFromNexus "nexus_message list"

fun ag_permissions :: "ag_msg \<Rightarrow> msg_permissions" where
  "ag_permissions (AgRouteMessagesFromNexus _) = \<lparr>specific_perms = [''nexus''], general_perms = [], external_perms = []\<rparr>"
| "ag_permissions _ = \<lparr>specific_perms = [], general_perms = [Any], external_perms = []\<rparr>"

definition match_nexus :: "ag_state \<Rightarrow> string \<Rightarrow> (ag_error, bool) result" where
  "match_nexus s sender_addr = and_then (ag_load_config s) (\<lambda>config. Ok (sender_addr = ac_nexus config))"

fun ag_dispatch :: "ag_env \<Rightarrow> ag_state \<Rightarrow> string \<Rightarrow> ag_msg \<Rightarrow> (ag_error, ag_state \<times> ag_response) result" where
  "ag_dispatch env s sender (AgCallContract d) = change_context CallContractErr (call_contract env s sender d)"
| "ag_dispatch env s sender (AgRouteMessages msgs) = change_context RouteMessagesErr (ag_route_messages env s sender msgs)"
| "ag_dispatch env s sender (AgExecute i payload) = change_context ExecuteErr (ag_execute_msg env s i payload)"
| "ag_dispatch env s sender (AgRouteMessagesFromNexus msgs) = route_messages_from_nexus s msgs"

definition ag_execute :: "ag_env \<Rightarrow> ag_state \<Rightarrow> string \<Rightarrow> ag_msg from_proxy \<Rightarrow> (ag_error, ag_state \<times> ag_response) result" where
  "ag_execute env s sender msg =
     and_then (map_err AgPermissionErr
       (authorize (ag_perms s) ([] :: (string \<times> (ag_error, string) result) list) ag_permissions
          (\<lambda>m role a. match_nexus s a) sender msg)) (\<lambda>(sender', m).
     ag_dispatch env s sender' m)"

definition ag_instantiate ::
  "(string \<Rightarrow> string option) \<Rightarrow> string \<Rightarrow> string \<Rightarrow> string \<Rightarrow> (ag_error, ag_state \<times> ag_response) result" where
  "ag_instantiate addr_validate chain_name router_address nexus =
     and_then (map_err AgAddressErr (validate_cosmwasm_address addr_validate router_address)) (\<lambda>router.
     and_then (map_err AgAddressErr (validate_cosmwasm_address addr_validate nexus)) (\<lambda>nexus.
     Ok (\<lparr>ag_config = Some \<lparr>ac_chain_name = chain_name, ac_router = router, ac_nexus = nexus\<rparr>,
          ag_perms = \<lparr>admin_addr = None, governance_addr = None\<rparr>, ag_routable = [], ag_executable = []\<rparr>, response_new)))"

subsection \<open>Queries\<close>

definition routable_messages :: "ag_state \<Rightarrow> cross_chain_id list \<Rightarrow> (ag_state_error, message list) result" where
  "routable_messages s ids = try_map (load_routable_msg s) ids"

definition executable_messages :: "ag_state \<Rightarrow> cross_chain_id list \<Rightarrow> (ag_state_error, executable_message list) result" where
  "executable_messages s ids = try_map (load_executable_msg s) ids"

definition ag_chain_name :: "ag_state \<Rightarrow> ('e, string) result" where
  "ag_chain_name s = and_then (ag_load_config s) (\<lambda>config. Ok (ac_chain_name config))"

subsection \<open>Transactions and reachable states\<close>

type_synonym ag_call = "ag_env \<times> string \<times> ag_msg from_proxy"

definition ag_tx :: "ag_state \<Rightarrow> ag_call \<Rightarrow> (ag_error, ag_state \<times> ag_response) result" where
  "ag_tx s call = (case call of (env, sender, msg) \<Rightarrow> ag_execute env s sender msg)"

text \<open>The hash function is the same in all calls, and the router sends nothing but messages to route.\<close>

definition ag_call_ok :: "(u8 list \<Rightarrow> u8 list) \<Rightarrow> string \<Rightarrow> ag_call \<Rightarrow> bool" where
  "ag_call_ok H router call \<longleftrightarrow> (case call of (env, sender, msg) \<Rightarrow>
     ae_keccak256 env = H \<and> (sender = router \<longrightarrow> (\<exists>ms. msg = Direct (AgRouteMessages ms))))"

text \<open>The calls of a run that succeed, with their responses.\<close>

fun ag_trace :: "ag_state \<Rightarrow> ag_call list \<Rightarrow> (ag_call \<times> ag_response) list" where
  "ag_trace s [] = []"
| "ag_trace s (call # calls) = (case ag_tx s call of
     Inl _ \<Rightarrow> ag_trace s calls
   | Inr (s', r) \<Rightarrow> (call, r) # ag_trace s' calls)"

subsection \<open>Specification\<close>

fun executed_id :: "ag_out \<Rightarrow> cross_chain_id list" where
  "executed_id (AgExecuteAt _ x) = [ax_cc_id x]"
| "executed_id _ = []"

definition executed_ids :: "(ag_call \<times> ag_response) list \<Rightarrow> cross_chain_id list" where
  "executed_ids trace = concat (map (\<lambda>(_, r). concat (map executed_id (messages r))) trace)"

fun routed :: "ag_out \<Rightarrow> message list" where
  "routed (AgToRouter _ ms) = ms"
| "routed _ = []"

definition approves :: "ag_config \<Rightarrow> ag_call \<Rightarrow> message \<Rightarrow> bool" where
  "approves config call m \<longleftrightarrow> (\<exists>env ms. call = (env, ac_router config, Direct (AgRouteMessages ms)) \<and> m \<in> set ms)
     \<and> destination_chain m = ac_chain_name config"

definition creates :: "ag_config \<Rightarrow> (u8 list \<Rightarrow> u8 list) \<Rightarrow> ag_call \<Rightarrow> message \<Rightarrow> bool" where
  "creates config H call m \<longleftrightarrow> (\<exists>env d. call = (env, source_address m, Direct (AgCallContract d))
     \<and> m = to_message H d (cc_id m) (source_address m)) \<and> source_chain (cc_id m) = ac_chain_name config"

text \<open>
  The state as the history of the calls explains it: every executable message was approved by a
  call of the router, it is marked as executed exactly if it has been executed, and every
  routable message was created by a call of its source address.
\<close>

definition explained :: "ag_config \<Rightarrow> (u8 list \<Rightarrow> u8 list) \<Rightarrow> (ag_call \<times> ag_response) list \<Rightarrow> ag_state \<Rightarrow> bool" where
  "explained config H trace s \<longleftrightarrow> ag_config s = Some config
     \<and> (\<forall>i x. kv_get (ag_executable s) i = Some x \<longrightarrow> cc_id (executable_msg x) = i
          \<and> (\<exists>call \<in> fst ` set trace. approves config call (executable_msg x)))
     \<and> (\<forall>i. i \<in> set (executed_ids trace) \<longleftrightarrow> (\<exists>m. kv_get (ag_executable s) i = Some (ExExecuted m)))
     \<and> (\<forall>i m. kv_get (ag_routable s) i = Some m \<longrightarrow> cc_id m = i \<and> (\<exists>call \<in> fst ` set trace. creates config H call m))"

section \<open>Lemmas\<close>

subsection \<open>Routing\<close>

lemma unique_set [simp]: "set (unique xs) = set xs"
  by (simp add: unique_def)

lemma unique_distinct [simp]: "distinct (unique xs)"
  by (simp add: unique_def)

lemma router_route_routed: "out \<in> set (router_route router ms) \<Longrightarrow> routed out = ms \<and> executed_id out = []"
  by (auto simp: router_route_def to_none_if_empty_def split: if_splits)

text \<open>What a group of messages does: messages from the router become approved, others are sent on.\<close>

definition approval :: "ag_config \<Rightarrow> message set \<Rightarrow> ag_state \<Rightarrow> ag_state \<Rightarrow> bool" where
  "approval config ms s s' \<longleftrightarrow> (\<exists>m. s' = s\<lparr>ag_executable := m\<rparr>)
     \<and> (\<forall>i x. kv_get (ag_executable s) i = Some x \<longrightarrow> kv_get (ag_executable s') i = Some x)
     \<and> (\<forall>i x. kv_get (ag_executable s') i = Some x \<longrightarrow> kv_get (ag_executable s) i = Some x
          \<or> (\<exists>m \<in> ms. i = cc_id m \<and> x = ExApproved m \<and> destination_chain m = ac_chain_name config))"

lemma approval_refl: "approval config ms s s"
  by (auto simp: approval_def intro: exI [of _ "ag_executable s"])

lemma approval_trans:
  assumes "approval config A s s1" and "approval config B s1 s2"
  shows "approval config (A \<union> B) s s2"
proof -
  have "\<exists>m. s2 = s\<lparr>ag_executable := m\<rparr>" using assms by (auto simp: approval_def)
  moreover have "kv_get (ag_executable s2) i = Some x" if "kv_get (ag_executable s) i = Some x" for i x
    using that assms unfolding approval_def by blast
  moreover have "kv_get (ag_executable s) i = Some x \<or> (\<exists>m \<in> A \<union> B. i = cc_id m \<and> x = ExApproved m \<and> destination_chain m = ac_chain_name config)"
    if "kv_get (ag_executable s2) i = Some x" for i x
    using that assms unfolding approval_def by blast
  ultimately show ?thesis by (simp add: approval_def)
qed

lemma approval_mono: "approval config A s s' \<Longrightarrow> A \<subseteq> B \<Longrightarrow> approval config B s s'"
  unfolding approval_def by blast

lemma save_executable_approval:
  assumes "save_executable_msg s (cc_id m) m = Inr s'" and "destination_chain m = ac_chain_name config"
  shows "approval config {m} s s'"
  using assms approval_refl [of config "{m}" s]
  by (auto simp: save_executable_msg_def approval_def split: option.splits if_splits)

lemma prepare_approval:
  assumes "prepare_for_execution s (ac_chain_name config) ms = Inr (s', r)"
  shows "approval config (set ms) s s' \<and> messages r = []"
proof -
  let ?f = "\<lambda>s msg. and_then (ensure (ac_chain_name config = destination_chain msg) (InvalidDestination (ac_chain_name config) (destination_chain msg))) (\<lambda>_.
         change_context SaveExecutableMessage (save_executable_msg s (cc_id msg) msg))"
  from assms have fold: "try_fold ?f s ms = Inr s'" and r: "messages r = []"
    by (auto simp: prepare_for_execution_def result_simps)
  from fold have "approval config (set ms) s s'"
  proof (induction ms arbitrary: s)
    case Nil
    then show ?case by (simp add: approval_refl)
  next
    case (Cons m ms)
    then obtain s1 where s1: "save_executable_msg s (cc_id m) m = Inr s1" "destination_chain m = ac_chain_name config"
      and rest: "try_fold ?f s1 ms = Inr s'" by (auto simp: result_simps)
    from approval_trans [OF save_executable_approval [OF s1] Cons.IH [OF rest]] show ?case by simp
  qed
  then show ?thesis using r by simp
qed

definition ag_routes :: "ag_config \<Rightarrow> string \<Rightarrow> message set \<Rightarrow> ag_state \<Rightarrow> ag_state \<times> ag_response \<Rightarrow> bool" where
  "ag_routes config a ms s x \<longleftrightarrow> (case x of (s', r) \<Rightarrow>
     approval config (if a = ac_router config then ms else {}) s s'
     \<and> (\<forall>out \<in> set (messages r). executed_id out = [] \<and> set (routed out) \<subseteq> (if a = ac_router config then {} else ms)))"

lemma route_group_step:
  assumes "ag_route_group env config a (s, r) (d, ms) = Inr (s', r')"
  obtains r1 where "messages r' = messages r @ messages r1" "ag_routes config a (set ms) s (s', r1)"
proof -
  from assms obtain dest r1 where dest: "determine_routing_destination env a d (ac_router config) (ac_chain_name config) = Inr dest"
    and step: "(case dest of RdThis \<Rightarrow> prepare_for_execution s (ac_chain_name config) ms
       | RdNexus \<Rightarrow> Ok (s, route_to_nexus env ms) | RdRouter \<Rightarrow> Ok (s, route_to_router (ac_router config) ms)) = Inr (s', r1)"
    and r': "messages r' = messages r @ messages r1"
    by (auto simp: ag_route_group_def result_simps)
  have "ag_routes config a (set ms) s (s', r1)"
  proof (cases dest)
    case RdNexus
    then show ?thesis using step by (auto simp: ag_routes_def route_to_nexus_def approval_refl)
  next
    case RdRouter
    then have "a \<noteq> ac_router config" using dest by (auto simp: determine_routing_destination_def result_simps split: if_splits)
    then show ?thesis using RdRouter step by (auto simp: ag_routes_def route_to_router_def approval_refl dest: router_route_routed)
  next
    case RdThis
    then have "a = ac_router config" using dest by (auto simp: determine_routing_destination_def result_simps split: if_splits)
    then show ?thesis using RdThis step prepare_approval [of s config ms s' r1] by (auto simp: ag_routes_def)
  qed
  then show ?thesis using that r' by blast
qed

lemma route_groups_step:
  assumes "try_fold (ag_route_group env config a) (s, r) gs = Inr (s', r')"
  shows "\<exists>r1. messages r' = messages r @ messages r1 \<and> ag_routes config a (\<Union>g \<in> set gs. set (snd g)) s (s', r1)"
  using assms
proof (induction gs arbitrary: s r)
  case Nil
  then show ?case by (auto simp: ag_routes_def approval_refl intro: exI [of _ response_new] simp: response_new_def)
next
  case (Cons g gs)
  obtain d ms where g: "g = (d, ms)" by (cases g)
  from Cons.prems obtain s1 r1 where step: "ag_route_group env config a (s, r) (d, ms) = Inr (s1, r1)"
    and rest: "try_fold (ag_route_group env config a) (s1, r1) gs = Inr (s', r')" by (auto simp: g result_simps)
  from step obtain q1 where q1: "messages r1 = messages r @ messages q1" "ag_routes config a (set ms) s (s1, q1)"
    by (rule route_group_step)
  from Cons.IH [OF rest] obtain q2 where q2: "messages r' = messages r1 @ messages q2"
    "ag_routes config a (\<Union>g \<in> set gs. set (snd g)) s1 (s', q2)" by blast
  have "ag_routes config a (\<Union>g \<in> set (g # gs). set (snd g)) s (s', \<lparr>messages = messages q1 @ messages q2, events = []\<rparr>)"
    using q1(2) q2(2) approval_trans [of config "set ms" s s1 "\<Union>g \<in> set gs. set (snd g)" s'] approval_trans [of config "{}" s s1 "{}" s']
    by (auto simp: ag_routes_def g split: if_splits)
  then show ?case using q1(1) q2(1) by (intro exI [of _ "\<lparr>messages = messages q1 @ messages q2, events = []\<rparr>"]) simp
qed

lemma chunk_by_union: "(\<Union>g \<in> set (chunk_by f xs). set (snd g)) = set xs"
  using arg_cong [where f = set, OF concat_chunk_by [of f xs]] by simp

lemma ag_route_messages_Inr:
  assumes "ag_route_messages env s a ms = Inr (s', r)" and "ag_config s = Some config"
  shows "ag_routes config a (set ms) s (s', r)
    \<and> (\<forall>out \<in> set (messages r). \<forall>m \<in> set (routed out). kv_get (ag_routable s) (cc_id m) = Some m)"
proof -
  from assms obtain ms' where ms': "if a \<noteq> ac_router config then and_then (try_map (try_load_routable_msg s) (unique ms)) (\<lambda>ms. Ok (List.map_filter id ms)) = Inr ms' else ms' = ms"
    and fold: "try_fold (ag_route_group env config a) (s, response_new) (chunk_by destination_chain ms') = Inr (s', r)"
    by (auto simp: ag_route_messages_def ag_load_config_def result_simps split: if_splits)
  from route_groups_step [OF fold] obtain r1 where "messages r = messages r1" "ag_routes config a (set ms') s (s', r1)"
    by (auto simp: chunk_by_union response_new_def)
  then have routes: "ag_routes config a (set ms') s (s', r)" by (simp add: ag_routes_def)
  have sub: "set ms' \<subseteq> set ms \<and> (a \<noteq> ac_router config \<longrightarrow> (\<forall>m \<in> set ms'. kv_get (ag_routable s) (cc_id m) = Some m))"
  proof (cases "a = ac_router config")
    case False
    then obtain xs where xs: "list_all2 (\<lambda>m x. try_load_routable_msg s m = Inr x) (unique ms) xs" "ms' = List.map_filter id xs"
      using ms' by (auto simp: result_simps)
    have "m \<in> set ms \<and> kv_get (ag_routable s) (cc_id m) = Some m" if "m \<in> set ms'" for m
    proof -
      from that have "Some m \<in> set xs" by (auto simp: xs(2) map_filter_def)
      then obtain m0 where "m0 \<in> set ms" "try_load_routable_msg s m0 = Inr (Some m)"
        using list_all2_right_in [OF xs(1)] by auto
      then show ?thesis by (auto simp: try_load_routable_msg_def split: option.splits if_splits)
    qed
    then show ?thesis by blast
  qed (use ms' in auto)
  then show ?thesis using routes approval_mono [of config "set ms'" s s' "set ms"] by (fastforce simp: ag_routes_def split: if_splits)
qed

subsection \<open>Calls\<close>

lemma ag_tx_Inr:
  assumes "ag_tx s (env, a, call) = Inr (s', r)"
  obtains msg where "call = Direct msg" "ag_dispatch env s a msg = Inr (s', r)"
    "\<And>ms. msg = AgRouteMessagesFromNexus ms \<Longrightarrow> map_option ac_nexus (ag_config s) = Some a"
proof -
  from assms obtain b msg where auth: "authorize (ag_perms s) ([] :: (string \<times> (ag_error, string) result) list) ag_permissions
      (\<lambda>m role a. match_nexus s a) a call = Inr (b, msg)" and d: "ag_dispatch env s b msg = Inr (s', r)"
    by (auto simp: ag_tx_def ag_execute_def result_simps)
  have direct: "call = Direct msg \<and> b = a"
    using auth by (cases call) (auto simp: authorize_def result_simps)
  then have perms: "ensure_permissions (ag_perms s) a (ag_permissions msg) (\<lambda>_. match_nexus s a) = Inr ()"
    using auth by (simp add: authorize_Direct_Inr_iff)
  have "map_option ac_nexus (ag_config s) = Some a" if "msg = AgRouteMessagesFromNexus ms" for ms
    using perms that by (auto simp: result_simps match_nexus_def ag_load_config_def)
  then show ?thesis using that direct d by blast
qed

lemma call_contract_Inr:
  assumes "call_contract env s a d = Inr (s', r)" and "ag_config s = Some config"
  obtains m s1 r1 where "m = to_message (ae_keccak256 env) d (cc_id m) a" "source_chain (cc_id m) = ac_chain_name config"
    "kv_get (ag_routable s) (cc_id m) = None" "s1 = s\<lparr>ag_routable := kv_set (cc_id m) m (ag_routable s)\<rparr>"
    "ag_route_messages env s1 a [m] = Inr (s', r1)" "messages r = messages r1"
proof -
  from assms obtain i source s1 r1 where i: "unique_cross_chain_id env (ac_chain_name config) = Inr i"
    and source: "address_from_str a = Inr source"
    and save: "(case save_unique_routable_msg s i (to_message (ae_keccak256 env) d i source) of
         Inl (Err (AgMessageAlreadyExists _)) \<Rightarrow> panic ''violated invariant: message already exists''
       | r \<Rightarrow> change_context SaveRoutableMessage r) = (Inr s1 :: (ag_error, _) result)"
    and route: "ag_route_messages env s1 a [to_message (ae_keccak256 env) d i source] = Inr (s', r1)"
    and r: "messages r = messages r1"
    by (auto simp: call_contract_def ag_load_config_def to_message_def Let_def result_simps)
  have "source = a" using source by (auto simp: address_from_str_def result_simps split: if_splits)
  moreover have "source_chain i = ac_chain_name config"
    using i by (auto simp: unique_cross_chain_id_def cross_chain_id_new_def chain_name_raw_from_str_def result_simps split: if_splits)
  moreover have "kv_get (ag_routable s) i = None"
    and "s1 = s\<lparr>ag_routable := kv_set i (to_message (ae_keccak256 env) d i source) (ag_routable s)\<rparr>"
    using save by (auto simp: save_unique_routable_msg_def split: if_splits)
  ultimately show ?thesis
    using that [of "to_message (ae_keccak256 env) d i source" s1 r1] route r by (simp add: to_message_def)
qed

lemma ag_execute_msg_Inr:
  assumes "ag_execute_msg env s i payload = Inr (s', r)"
  obtains m dest where "kv_get (ag_executable s) i = Some (ExApproved m)" "payload_hash m = ae_keccak256 env payload"
    "s' = s\<lparr>ag_executable := kv_set i (ExExecuted m) (ag_executable s)\<rparr>" "ae_addr_validate env (destination_address m) = Some dest"
    "messages r = [AgExecuteAt dest \<lparr>ax_cc_id = i, ax_source_address = source_address m, ax_payload = payload\<rparr>]"
  using assms
  by (auto simp: ag_execute_msg_def mark_as_executed_def ensure_same_payload_hash_def validate_cosmwasm_address_def result_simps
      split: option.splits executable_message.splits if_splits)

subsection \<open>Histories\<close>

lemma executed_ids_append [simp]: "executed_ids (xs @ ys) = executed_ids xs @ executed_ids ys"
  by (simp add: executed_ids_def)

lemma executed_ids_none:
  assumes "\<forall>out \<in> set (messages r). executed_id out = []"
  shows "executed_ids [(call, r)] = []"
  using assms by (simp add: executed_ids_def)

lemma explained_route:
  assumes ex: "explained config H trace s" and routes: "ag_routes config a ms s (s', r)"
    and appr: "\<forall>m \<in> ms. a = ac_router config \<longrightarrow> destination_chain m = ac_chain_name config \<longrightarrow> approves config call m"
  shows "explained config H (trace @ [(call, r)]) s'"
proof -
  let ?ms = "if a = ac_router config then ms else {}"
  have app: "approval config ?ms s s'" and none: "executed_ids [(call, r)] = []"
    using routes by (auto simp: ag_routes_def intro!: executed_ids_none)
  then obtain m where s': "s' = s\<lparr>ag_executable := m\<rparr>" by (auto simp: approval_def)
  have "cc_id (executable_msg x) = i \<and> (\<exists>call' \<in> fst ` set (trace @ [(call, r)]). approves config call' (executable_msg x))"
    if x: "kv_get (ag_executable s') i = Some x" for i x
  proof -
    from app x consider "kv_get (ag_executable s) i = Some x"
      | m where "m \<in> ?ms" "i = cc_id m" "x = ExApproved m" "destination_chain m = ac_chain_name config"
      unfolding approval_def by blast
    then show ?thesis
    proof cases
      case 1
      then show ?thesis using ex unfolding explained_def by fastforce
    next
      case 2
      then show ?thesis using appr by (auto split: if_splits)
    qed
  qed
  moreover have "(\<exists>m. kv_get (ag_executable s') i = Some (ExExecuted m)) \<longleftrightarrow> (\<exists>m. kv_get (ag_executable s) i = Some (ExExecuted m))" for i
    using app unfolding approval_def by blast
  ultimately show ?thesis
    using ex none unfolding explained_def by (auto simp: s')
qed

lemma explained_frame:
  assumes "explained config H trace s" and "\<forall>out \<in> set (messages r). executed_id out = []"
  shows "explained config H (trace @ [(call, r)]) s"
proof -
  have "executed_ids [(call, r)] = []" using assms(2) by (rule executed_ids_none)
  then show ?thesis using assms(1) unfolding explained_def by (auto 0 4)
qed

lemma explained_create:
  assumes "explained config H trace s" and "creates config H call m" and "call \<in> fst ` set trace"
  shows "explained config H trace (s\<lparr>ag_routable := kv_set (cc_id m) m (ag_routable s)\<rparr>)"
  using assms unfolding explained_def by auto

lemma explained_same:
  assumes "explained config H trace s" and "approval config {} s s'"
  shows "explained config H trace s'"
proof -
  obtain m where s': "s' = s\<lparr>ag_executable := m\<rparr>" using assms(2) by (auto simp: approval_def)
  have "kv_get (ag_executable s') i = Some x \<longleftrightarrow> kv_get (ag_executable s) i = Some x" for i x
    using assms(2) unfolding approval_def by blast
  then have "kv_get (ag_executable s') = kv_get (ag_executable s)" by (metis ext not_Some_eq)
  then show ?thesis using assms(1) by (simp add: explained_def s')
qed

lemma explained_step:
  assumes ex: "explained config H trace s" and tx: "ag_tx s call = Inr (s', r)" and ok: "ag_call_ok H (ac_router config) call"
  shows "explained config H (trace @ [(call, r)]) s'"
    and "set (executed_ids [(call, r)]) \<inter> set (executed_ids trace) = {}" and "distinct (executed_ids [(call, r)])"
proof -
  obtain env a c where call: "call = (env, a, c)" by (cases call)
  have config: "ag_config s = Some config" using ex by (simp add: explained_def)
  have H: "ae_keccak256 env = H" using ok by (simp add: call ag_call_ok_def)
  from tx [unfolded call] obtain msg where c: "c = Direct msg" and run: "ag_dispatch env s a msg = Inr (s', r)" by (rule ag_tx_Inr)
  have "explained config H (trace @ [(call, r)]) s'
     \<and> set (executed_ids [(call, r)]) \<inter> set (executed_ids trace) = {} \<and> distinct (executed_ids [(call, r)])"
  proof (cases msg)
    case (AgRouteMessages ms)
    then have "ag_routes config a (set ms) s (s', r)" using run ag_route_messages_Inr [OF _ config] by (auto simp: result_simps)
    moreover from this have "executed_ids [(call, r)] = []" by (auto simp: ag_routes_def intro!: executed_ids_none)
    ultimately show ?thesis using explained_route [OF ex, of a "set ms" s' r call]
      by (auto simp: call c AgRouteMessages approves_def)
  next
    case (AgExecute i payload)
    then have "ag_execute_msg env s i payload = Inr (s', r)" using run by (auto simp: result_simps)
    then obtain m dest where m: "kv_get (ag_executable s) i = Some (ExApproved m)"
      and s': "s' = s\<lparr>ag_executable := kv_set i (ExExecuted m) (ag_executable s)\<rparr>"
      and r: "messages r = [AgExecuteAt dest \<lparr>ax_cc_id = i, ax_source_address = source_address m, ax_payload = payload\<rparr>]"
      by (rule ag_execute_msg_Inr)
    have ids: "executed_ids [(call, r)] = [i]" by (simp add: executed_ids_def r)
    have "cc_id m = i \<and> (\<exists>call \<in> fst ` set trace. approves config call m)" using ex m unfolding explained_def by fastforce
    then have "explained config H (trace @ [(call, r)]) s'"
      using ex unfolding explained_def s' executed_ids_append ids by (auto split: if_splits)
    moreover have "i \<notin> set (executed_ids trace)" using ex m unfolding explained_def by auto
    ultimately show ?thesis by (simp add: ids)
  next
    case (AgCallContract d)
    then have "call_contract env s a d = Inr (s', r)" using run by (auto simp: result_simps)
    then obtain m s1 r1 where m: "m = to_message (ae_keccak256 env) d (cc_id m) a" "source_chain (cc_id m) = ac_chain_name config"
      and s1: "s1 = s\<lparr>ag_routable := kv_set (cc_id m) m (ag_routable s)\<rparr>"
      and route: "ag_route_messages env s1 a [m] = Inr (s', r1)" and r: "messages r = messages r1"
      using config by (rule call_contract_Inr)
    have a: "a \<noteq> ac_router config" using ok by (auto simp: call c AgCallContract ag_call_ok_def)
    have s1': "ag_config s1 = Some config" using config by (simp add: s1)
    have routes: "ag_routes config a {m} s1 (s', r)"
      using ag_route_messages_Inr [OF route s1'] r by (simp add: ag_routes_def)
    then have none: "\<forall>out \<in> set (messages r). executed_id out = []" and app: "approval config {} s1 s'"
      using a by (simp_all add: ag_routes_def)
    have "source_address m = a" by (subst m(1)) (simp add: to_message_def)
    then have "creates config H call m" using m by (auto simp: creates_def call c AgCallContract H)
    then have "explained config H (trace @ [(call, r)]) s1"
      using explained_create [OF explained_frame [OF ex none]] by (simp add: s1)
    then have "explained config H (trace @ [(call, r)]) s'" using app by (rule explained_same)
    then show ?thesis using executed_ids_none [OF none, of call] by simp
  next
    case (AgRouteMessagesFromNexus ms)
    then obtain ms' where r: "s' = s" "messages r = router_route (ac_router config) ms'"
      using run config by (auto simp: route_messages_from_nexus_def ag_load_config_def result_simps)
    have none: "\<forall>out \<in> set (messages r). executed_id out = []" using router_route_routed by (auto simp: r)
    then show ?thesis using explained_frame [OF ex none, of call] executed_ids_none [OF none, of call] by (simp add: r)
  qed
  then show "explained config H (trace @ [(call, r)]) s'"
    and "set (executed_ids [(call, r)]) \<inter> set (executed_ids trace) = {}" and "distinct (executed_ids [(call, r)])" by blast+
qed

lemma explained_run:
  assumes "explained config H trace s" and "list_all (ag_call_ok H (ac_router config)) calls" and "distinct (executed_ids trace)"
  shows "explained config H (trace @ ag_trace s calls) (run_txs ag_tx s calls) \<and> distinct (executed_ids (trace @ ag_trace s calls))"
  using assms
proof (induction calls arbitrary: s trace)
  case Nil
  then show ?case by (simp add: run_txs_def)
next
  case (Cons call calls)
  show ?case
  proof (cases "ag_tx s call")
    case (Inl e)
    then show ?thesis using Cons by (simp add: run_txs_def commit_def)
  next
    case (Inr x)
    obtain s' r where tx: "ag_tx s call = Inr (s', r)" using Inr by (cases x) auto
    have ok: "ag_call_ok H (ac_router config) call" using Cons.prems(2) by simp
    note step = explained_step [OF Cons.prems(1) tx ok]
    have "distinct (executed_ids (trace @ [(call, r)]))" using step(2,3) Cons.prems(3) by auto
    from Cons.IH [OF step(1) _ this] show ?thesis using tx Cons.prems(2) by (simp add: run_txs_def commit_def)
  qed
qed

lemma ag_trace_split:
  assumes "ag_trace s calls = pre @ (c, r) # post"
  shows "\<exists>calls1 calls2 s'. calls = calls1 @ c # calls2 \<and> ag_trace s calls1 = pre \<and> ag_tx (run_txs ag_tx s calls1) c = Inr (s', r)"
  using assms
proof (induction calls arbitrary: s pre)
  case (Cons call calls)
  show ?case
  proof (cases "ag_tx s call")
    case (Inl e)
    then obtain calls1 calls2 s' where "calls = calls1 @ c # calls2" "ag_trace s calls1 = pre" "ag_tx (run_txs ag_tx s calls1) c = Inr (s', r)"
      using Cons.IH [of s pre] Cons.prems by auto
    then have "call # calls = (call # calls1) @ c # calls2 \<and> ag_trace s (call # calls1) = pre
      \<and> ag_tx (run_txs ag_tx s (call # calls1)) c = Inr (s', r)" using Inl by (simp add: run_txs_def commit_def)
    then show ?thesis by blast
  next
    case (Inr x)
    obtain s1 r1 where tx: "ag_tx s call = Inr (s1, r1)" using Inr by (cases x) auto
    show ?thesis
    proof (cases pre)
      case Nil
      then have "call # calls = [] @ c # calls \<and> ag_trace s [] = pre \<and> ag_tx (run_txs ag_tx s []) c = Inr (s1, r)"
        using Cons.prems tx by (simp add: run_txs_def)
      then show ?thesis by blast
    next
      case (Cons y pre')
      then obtain calls1 calls2 s' where "calls = calls1 @ c # calls2" "ag_trace s1 calls1 = pre'" "ag_tx (run_txs ag_tx s1 calls1) c = Inr (s', r)"
        using Cons.IH [of s1 pre'] Cons.prems tx by auto
      then have "call # calls = (call # calls1) @ c # calls2 \<and> ag_trace s (call # calls1) = pre
        \<and> ag_tx (run_txs ag_tx s (call # calls1)) c = Inr (s', r)" using tx \<open>pre = y # pre'\<close> Cons.prems by (simp add: run_txs_def commit_def)
      then show ?thesis by blast
    qed
  qed
qed simp

lemma ag_instantiate_explained:
  assumes "ag_instantiate av chain router nexus = Inr (s, r)"
  obtains router' nexus' where "av router = Some router'" "av nexus = Some nexus'"
    "explained \<lparr>ac_chain_name = chain, ac_router = router', ac_nexus = nexus'\<rparr> H [] s"
  using assms by (auto simp: ag_instantiate_def validate_cosmwasm_address_def explained_def executed_ids_def result_simps)

lemma to_message_fields:
  assumes "m = to_message H d i a"
  shows "destination_chain m = cl_destination_chain d \<and> destination_address m = cl_destination_address d \<and> payload_hash m = H (cl_payload d)"
  using assms by (simp add: to_message_def)

text \<open>A point of the history: what is known of the state before a call of the trace.\<close>

lemma history_point:
  assumes "explained config H [] s" and "list_all (ag_call_ok H (ac_router config)) calls" and "ag_trace s calls = pre @ (c, r) # post"
  obtains s1 s2 where "explained config H pre s1" "ag_tx s1 c = Inr (s2, r)" "explained config H (pre @ [(c, r)]) s2"
proof -
  from ag_trace_split [OF assms(3)] obtain calls1 calls2 s2 where calls: "calls = calls1 @ c # calls2" and pre: "ag_trace s calls1 = pre"
    and tx: "ag_tx (run_txs ag_tx s calls1) c = Inr (s2, r)" by blast
  have ok: "list_all (ag_call_ok H (ac_router config)) calls1" "ag_call_ok H (ac_router config) c" using assms(2) calls by simp_all
  have ex: "explained config H pre (run_txs ag_tx s calls1)"
    using explained_run [OF assms(1) ok(1)] pre by (simp add: executed_ids_def)
  show ?thesis using that [OF ex tx explained_step(1) [OF ex tx ok(2)]] .
qed

lemma routed_stored:
  assumes "ag_tx s (env, a, c) = Inr (s', r)" and "ag_config s = Some config" and "out \<in> set (messages r)" and "m \<in> set (routed out)"
  shows "(\<exists>ms n. c = Direct (AgRouteMessagesFromNexus ms) \<and> a = ac_nexus config \<and> n \<in> set ms \<and> message_of_nexus n = Inr m)
    \<or> kv_get (ag_routable s') (cc_id m) = Some m"
proof -
  from assms(1) obtain msg where c: "c = Direct msg" and run: "ag_dispatch env s a msg = Inr (s', r)"
    and nexus: "\<And>ms. msg = AgRouteMessagesFromNexus ms \<Longrightarrow> map_option ac_nexus (ag_config s) = Some a" by (rule ag_tx_Inr) blast
  show ?thesis
  proof (cases msg)
    case (AgRouteMessages ms)
    then have "ag_routes config a (set ms) s (s', r)" "kv_get (ag_routable s) (cc_id m) = Some m"
      using run ag_route_messages_Inr [OF _ assms(2)] assms(3,4) by (auto simp: result_simps)
    then show ?thesis by (auto simp: ag_routes_def approval_def)
  next
    case (AgExecute i payload)
    then have "ag_execute_msg env s i payload = Inr (s', r)" using run by (auto simp: result_simps)
    then obtain dest x where "messages r = [AgExecuteAt dest x]" by (rule ag_execute_msg_Inr)
    then have False using assms(3,4) by simp
    then show ?thesis ..
  next
    case (AgCallContract d)
    then have "call_contract env s a d = Inr (s', r)" using run by (auto simp: result_simps)
    then obtain m' s1 r1 where s1: "s1 = s\<lparr>ag_routable := kv_set (cc_id m') m' (ag_routable s)\<rparr>"
      and route: "ag_route_messages env s1 a [m'] = Inr (s', r1)" and r: "messages r = messages r1"
      using assms(2) by (rule call_contract_Inr)
    have "ag_config s1 = Some config" using assms(2) by (simp add: s1)
    from ag_route_messages_Inr [OF route this] show ?thesis using assms(3,4) r by (auto simp: ag_routes_def approval_def)
  next
    case (AgRouteMessagesFromNexus ms)
    then obtain ms' where ms': "list_all2 (\<lambda>n m. message_of_nexus n = Inr m) ms ms'" and r: "messages r = router_route (ac_router config) ms'"
      using run assms(2) by (auto simp: route_messages_from_nexus_def ag_load_config_def result_simps)
    have "m \<in> set ms'" using assms(3,4) router_route_routed by (fastforce simp: r)
    then show ?thesis using list_all2_right_in [OF ms'] nexus [OF AgRouteMessagesFromNexus] assms(2)
      by (auto simp: c AgRouteMessagesFromNexus)
  qed
qed

lemma execution_approved:
  assumes "explained config H [] s" and "list_all (ag_call_ok H (ac_router config)) calls"
    and tr: "ag_trace s calls = pre @ ((env, a, Direct (AgExecute i payload)), r) # post"
  shows "\<exists>m dest. cc_id m = i \<and> payload_hash m = H payload \<and> (\<exists>call \<in> fst ` set pre. approves config call m)
    \<and> ae_addr_validate env (destination_address m) = Some dest
    \<and> messages r = [AgExecuteAt dest \<lparr>ax_cc_id = i, ax_source_address = source_address m, ax_payload = payload\<rparr>]"
proof -
  from assms obtain s1 s2 where s1: "explained config H pre s1" and tx: "ag_tx s1 (env, a, Direct (AgExecute i payload)) = Inr (s2, r)"
    by (rule history_point)
  from ag_trace_split [OF tr] have H: "ae_keccak256 env = H" using assms(2) by (auto simp: ag_call_ok_def)
  have "ag_execute_msg env s1 i payload = Inr (s2, r)" using tx by (rule ag_tx_Inr) (auto simp: result_simps)
  then obtain m dest where m: "kv_get (ag_executable s1) i = Some (ExApproved m)" "payload_hash m = ae_keccak256 env payload"
    "ae_addr_validate env (destination_address m) = Some dest"
    "messages r = [AgExecuteAt dest \<lparr>ax_cc_id = i, ax_source_address = source_address m, ax_payload = payload\<rparr>]"
    by (rule ag_execute_msg_Inr)
  have "cc_id m = i \<and> (\<exists>call \<in> fst ` set pre. approves config call m)" using s1 m(1) unfolding explained_def by fastforce
  then show ?thesis using m H by blast
qed

lemma no_execution_else:
  assumes "ag_tx s (env, a, c) = Inr (s', r)" and "ag_config s = Some config" and "\<And>i payload. c \<noteq> Direct (AgExecute i payload)"
    and "out \<in> set (messages r)"
  shows "executed_id out = []"
proof -
  from assms(1) obtain msg where c: "c = Direct msg" and run: "ag_dispatch env s a msg = Inr (s', r)" by (rule ag_tx_Inr) blast
  show ?thesis
  proof (cases msg)
    case (AgRouteMessages ms)
    then show ?thesis using run ag_route_messages_Inr [OF _ assms(2), of env a ms s' r] assms(4) by (auto simp: result_simps ag_routes_def)
  next
    case (AgCallContract d)
    then have "call_contract env s a d = Inr (s', r)" using run by (auto simp: result_simps)
    then obtain m s1 r1 where s1: "s1 = s\<lparr>ag_routable := kv_set (cc_id m) m (ag_routable s)\<rparr>"
      and route: "ag_route_messages env s1 a [m] = Inr (s', r1)" and r: "messages r = messages r1"
      using assms(2) by (rule call_contract_Inr)
    have "ag_config s1 = Some config" using assms(2) by (simp add: s1)
    from ag_route_messages_Inr [OF route this] show ?thesis using assms(4) r by (auto simp: ag_routes_def)
  next
    case (AgRouteMessagesFromNexus ms)
    then show ?thesis using run assms(2,4) router_route_routed by (auto simp: route_messages_from_nexus_def ag_load_config_def result_simps)
  qed (use assms(3) c in blast)
qed

section \<open>Example\<close>

text \<open>A message from the router to a contract on Axelar that is approved and executed.\<close>

definition ag_ex_env :: "u8 list \<Rightarrow> ag_env" where
  "ag_ex_env h = \<lparr>ae_is_chain_registered = (\<lambda>_. Some False), ae_tx_hash_and_nonce = Some (h, 1), ae_keccak256 = (\<lambda>x. x),
     ae_codecs = example_codecs, ae_addr_validate = Some\<rparr>"

definition ag_ex_config :: ag_config where
  "ag_ex_config = \<lparr>ac_chain_name = ''axelar'', ac_router = ''router'', ac_nexus = ''nexus''\<rparr>"

definition ag_ex_message :: message where
  "ag_ex_message = \<lparr>cc_id = CrossChainId ''eth'' ''0x1-1'', source_address = ''0xits'', destination_chain = ''axelar'',
     destination_address = ''its'', payload_hash = [7]\<rparr>"

definition ag_ex_state :: "(cross_chain_id, executable_message) kv \<Rightarrow> ag_state" where
  "ag_ex_state ex = \<lparr>ag_config = Some ag_ex_config, ag_perms = \<lparr>admin_addr = None, governance_addr = None\<rparr>, ag_routable = [], ag_executable = ex\<rparr>"

definition ag_ex_approve :: ag_call where
  "ag_ex_approve = (ag_ex_env [], ''router'', Direct (AgRouteMessages [ag_ex_message]))"

definition ag_ex_run :: ag_call where
  "ag_ex_run = (ag_ex_env [], ''relayer'', Direct (AgExecute (CrossChainId ''eth'' ''0x1-1'') [7]))"

definition ag_ex_hash :: "u8 list" where
  "ag_ex_hash = replicate 32 1"

definition ag_ex_id :: cross_chain_id where
  "ag_ex_id = CrossChainId ''axelar'' (hex_event_to_string hex_encode_std (HexTxHashAndEventIndex ag_ex_hash 1))"

definition ag_ex_call :: ag_call where
  "ag_ex_call = (ag_ex_env ag_ex_hash, ''its'', Direct (AgCallContract
     \<lparr>cl_destination_chain = ''eth'', cl_destination_address = ''0xits'', cl_payload = [7]\<rparr>))"

definition ag_ex_created :: message where
  "ag_ex_created = \<lparr>cc_id = ag_ex_id, source_address = ''its'', destination_chain = ''eth'', destination_address = ''0xits'', payload_hash = [7]\<rparr>"

definition ag_ex_called :: ag_response where
  "ag_ex_called = \<lparr>messages = [AgToRouter ''router'' [ag_ex_created]], events = [AgRouting ag_ex_created, ContractCalled ag_ex_created [7]]\<rparr>"

lemmas ag_ex_defs [simp] = ag_ex_env_def ag_ex_config_def ag_ex_message_def ag_ex_state_def ag_ex_approve_def ag_ex_run_def
  ag_ex_call_def ag_ex_created_def ag_ex_called_def

lemmas ag_eval = ag_tx_def ag_execute_def authorize_def ensure_permissions_def general_check_def sender_role_def
  ag_route_messages_def ag_load_config_def ag_route_group_def determine_routing_destination_def prepare_for_execution_def
  save_executable_msg_def ag_execute_msg_def mark_as_executed_def ensure_same_payload_hash_def validate_cosmwasm_address_def
  response_new_def ensure_def

lemma ag_ex_instantiate: "ag_instantiate Some ''axelar'' ''router'' ''nexus'' = Inr (ag_ex_state [], response_new)"
  by (simp add: ag_instantiate_def validate_cosmwasm_address_def)

lemma ag_ex_approved:
  "ag_tx (ag_ex_state []) ag_ex_approve = Inr (ag_ex_state [(CrossChainId ''eth'' ''0x1-1'', ExApproved ag_ex_message)],
     \<lparr>messages = [], events = [AgRouting ag_ex_message]\<rparr>)"
  by (simp add: ag_eval)

lemma ag_ex_executed:
  "ag_tx (ag_ex_state [(CrossChainId ''eth'' ''0x1-1'', ExApproved ag_ex_message)]) ag_ex_run
     = Inr (ag_ex_state [(CrossChainId ''eth'' ''0x1-1'', ExExecuted ag_ex_message)],
       \<lparr>messages = [AgExecuteAt ''its'' \<lparr>ax_cc_id = CrossChainId ''eth'' ''0x1-1'', ax_source_address = ''0xits'', ax_payload = [7]\<rparr>],
        events = [MessageExecuted ag_ex_message]\<rparr>)"
  by (simp add: ag_eval)

lemma ag_ex_unique_id: "unique_cross_chain_id (ag_ex_env ag_ex_hash) ''axelar'' = Inr ag_ex_id"
proof -
  have "chain_name_raw_from_str ''axelar'' = Inr ''axelar''" by code_simp
  then show ?thesis by (simp add: unique_cross_chain_id_def ag_ex_id_def cross_chain_id_new_def ensure_def hex_event_to_string_def)
qed

lemma ag_ex_address: "address_from_str ''its'' = Inr ''its''"
  by code_simp

lemma ag_ex_calls:
  "ag_tx (ag_ex_state []) ag_ex_call = Inr ((ag_ex_state [])\<lparr>ag_routable := [(cc_id ag_ex_created, ag_ex_created)]\<rparr>, ag_ex_called)"
  using ag_ex_unique_id ag_ex_address
  by (simp add: ag_eval call_contract_def save_unique_routable_msg_def to_message_def try_load_routable_msg_def route_to_router_def
      router_route_def to_none_if_empty_def Let_def unique_def chunk_by.simps)

section \<open>Properties\<close>

text \<open>
  C13. In every run of the gateway of the Axelar chain no message is executed twice. Every
  execution is of a message that the router sent to the gateway before for this chain, with a
  payload that has the hash of the message, and the destination contract is called with the id
  and the source address of the message.
\<close>

theorem executed_once:
  assumes "ag_instantiate av chain router nexus = Inr (s, r0)" and "av router = Some router'" and "av nexus = Some nexus'"
    and "list_all (ag_call_ok H router') calls"
  shows "distinct (executed_ids (ag_trace s calls))
    \<and> (\<forall>pre env a i payload r post. ag_trace s calls = pre @ ((env, a, Direct (AgExecute i payload)), r) # post \<longrightarrow>
        (\<exists>m dest. cc_id m = i \<and> payload_hash m = H payload
          \<and> (\<exists>call \<in> fst ` set pre. approves \<lparr>ac_chain_name = chain, ac_router = router', ac_nexus = nexus'\<rparr> call m)
          \<and> ae_addr_validate env (destination_address m) = Some dest
          \<and> messages r = [AgExecuteAt dest \<lparr>ax_cc_id = i, ax_source_address = source_address m, ax_payload = payload\<rparr>]))"
proof -
  let ?c = "\<lparr>ac_chain_name = chain, ac_router = router', ac_nexus = nexus'\<rparr>"
  have ex: "explained ?c H [] s" using ag_instantiate_explained [OF assms(1), of H] assms(2,3) by auto
  have ok: "list_all (ag_call_ok H (ac_router ?c)) calls" using assms(4) by simp
  have "distinct (executed_ids (ag_trace s calls))" using explained_run [OF ex ok] by (simp add: executed_ids_def)
  then show ?thesis using execution_approved [OF ex ok] by blast
qed

theorem executed_once_witness:
  "distinct (executed_ids (ag_trace (ag_ex_state []) [ag_ex_approve, ag_ex_run, ag_ex_run]))
     \<and> executed_ids (ag_trace (ag_ex_state []) [ag_ex_approve, ag_ex_run, ag_ex_run]) = [CrossChainId ''eth'' ''0x1-1'']"
proof -
  have ok: "list_all (ag_call_ok (\<lambda>x. x) ''router'') [ag_ex_approve, ag_ex_run, ag_ex_run]" by (simp add: ag_call_ok_def)
  have again: "is_ok (ag_tx (ag_ex_state [(CrossChainId ''eth'' ''0x1-1'', ExExecuted ag_ex_message)]) ag_ex_run) = False"
    by (simp add: ag_eval)
  then obtain e where "ag_tx (ag_ex_state [(CrossChainId ''eth'' ''0x1-1'', ExExecuted ag_ex_message)]) ag_ex_run = Inl e"
    by (cases "ag_tx (ag_ex_state [(CrossChainId ''eth'' ''0x1-1'', ExExecuted ag_ex_message)]) ag_ex_run") auto
  then have "executed_ids (ag_trace (ag_ex_state []) [ag_ex_approve, ag_ex_run, ag_ex_run]) = [CrossChainId ''eth'' ''0x1-1'']"
    using ag_ex_approved ag_ex_executed by (simp add: executed_ids_def)
  then show ?thesis using executed_once [OF ag_ex_instantiate _ _ ok, of "''nexus''"] by blast
qed

text \<open>
  C22. Every message that the gateway of the Axelar chain sends to the router comes from the nexus
  module, or it was created by a call of the contract that is its source address: with the chain
  name of the gateway as its source chain, the destination of the call and the hash of its payload.
\<close>

theorem calls_authentic:
  assumes "ag_instantiate av chain router nexus = Inr (s, r0)" and "av router = Some router'" and "av nexus = Some nexus'"
    and "list_all (ag_call_ok H router') calls" and "ag_trace s calls = pre @ ((env, a, c), r) # post"
    and "AgToRouter dest ms \<in> set (messages r)" and "m \<in> set ms"
  shows "(\<exists>ns n. a = nexus' \<and> c = Direct (AgRouteMessagesFromNexus ns) \<and> n \<in> set ns \<and> message_of_nexus n = Inr m)
    \<or> (source_chain (cc_id m) = chain \<and> (\<exists>env' d. (env', source_address m, Direct (AgCallContract d)) \<in> fst ` set (pre @ [((env, a, c), r)])
         \<and> destination_chain m = cl_destination_chain d \<and> destination_address m = cl_destination_address d
         \<and> payload_hash m = H (cl_payload d)))"
proof -
  let ?c = "\<lparr>ac_chain_name = chain, ac_router = router', ac_nexus = nexus'\<rparr>"
  have ex: "explained ?c H [] s" using ag_instantiate_explained [OF assms(1), of H] assms(2,3) by auto
  have ok: "list_all (ag_call_ok H (ac_router ?c)) calls" using assms(4) by simp
  from ex ok assms(5) obtain s1 s2 where s1: "explained ?c H pre s1" and tx: "ag_tx s1 (env, a, c) = Inr (s2, r)"
    and s2: "explained ?c H (pre @ [((env, a, c), r)]) s2" by (rule history_point)
  have "ag_config s1 = Some ?c" using s1 by (simp add: explained_def)
  from routed_stored [OF tx this assms(6), of m] assms(7)
  consider ns n where "a = nexus'" "c = Direct (AgRouteMessagesFromNexus ns)" "n \<in> set ns" "message_of_nexus n = Inr m"
    | "kv_get (ag_routable s2) (cc_id m) = Some m" by auto
  then show ?thesis
  proof cases
    case 2
    then obtain call where "call \<in> fst ` set (pre @ [((env, a, c), r)])" "creates ?c H call m"
      using s2 unfolding explained_def by blast
    then obtain env' d where "(env', source_address m, Direct (AgCallContract d)) \<in> fst ` set (pre @ [((env, a, c), r)])"
      "m = to_message H d (cc_id m) (source_address m)" "source_chain (cc_id m) = chain" unfolding creates_def by auto
    then show ?thesis using to_message_fields by blast
  qed blast
qed

theorem calls_authentic_witness:
  "source_chain (cc_id ag_ex_created) = ''axelar'' \<and> payload_hash ag_ex_created = [7]
     \<and> messages ag_ex_called = [AgToRouter ''router'' [ag_ex_created]]"
proof -
  have "list_all (ag_call_ok (\<lambda>x. x) ''router'') [ag_ex_call]" by (simp add: ag_call_ok_def)
  note ok = this [unfolded ag_ex_call_def]
  have "ag_trace (ag_ex_state []) [ag_ex_call] = [] @ (ag_ex_call, ag_ex_called) # []" using ag_ex_calls by simp
  note tr = this [unfolded ag_ex_call_def]
  have out: "AgToRouter ''router'' [ag_ex_created] \<in> set (messages ag_ex_called)" by simp
  show ?thesis using calls_authentic [OF ag_ex_instantiate _ _ ok tr out, of "''nexus''" ag_ex_created] by auto
qed

end
