(* ===== verification/Interchain_Token_Service.thy ===== *)
theory Interchain_Token_Service
  imports Its_Std Axelarnet_Gateway
begin

text \<open>
  The hub of the interchain token service, \<open>contracts/interchain-token-service/src\<close>: it receives the
  messages of the service contracts on the chains, keeps the deployments and supplies of the tokens
  on every chain, converts amounts and decimals, and forwards the messages to the destination chain.
  The translation contracts of the chains, the chain name query of the gateway, the hash function
  and the validation of addresses are parameters of the environment.
\<close>

section \<open>Definitions\<close>

subsection \<open>Integers\<close>

datatype num_bits_error = InvalidNumberOfBits u32

text \<open>A number of bits from 1 to 256 is stored as one less, in a byte.\<close>

type_synonym num_bits = u8

definition num_bits_try_from :: "u32 \<Rightarrow> (num_bits_error, num_bits) result" where
  "num_bits_try_from value = ok_or (InvalidNumberOfBits value)
     (Option.bind (checked_sub value 1) (\<lambda>v. if unat v < 2 ^ 8 then Some (ucast v) else None))"

definition u32_of_num_bits :: "num_bits \<Rightarrow> u32" where
  "u32_of_num_bits b = ucast b + 1"

definition checked_pow :: "'w::len word \<Rightarrow> u32 \<Rightarrow> 'w word option" where
  "checked_pow b n = (if unat b ^ unat n < 2 ^ LENGTH('w) then Some (b ^ unat n) else None)"

definition checked_shr :: "'w::len word \<Rightarrow> u32 \<Rightarrow> 'w word option" where
  "checked_shr a n = (if unat n < LENGTH('w) then Some (drop_bit (unat n) a) else None)"

definition abs_diff :: "u8 \<Rightarrow> u8 \<Rightarrow> u8" where
  "abs_diff a b = (if a < b then b - a else a - b)"

subsection \<open>State\<close>

record its_config =
  ic_axelarnet_gateway :: string
  ic_operator :: string

record truncation_config =
  tr_max_uint_bits :: num_bits
  tr_max_decimals_when_truncating :: u8

record its_chain_config =
  cf_truncation :: truncation_config
  cf_its_address :: string
  cf_frozen :: bool
  cf_msg_translator :: string

datatype token_supply = Tracked u256 | Untracked

record token_instance =
  ti_supply :: token_supply
  ti_decimals :: u8

datatype token_deployment_type = Trustless | CustomMinter

record token_config =
  tk_origin_chain :: string

record custom_token_metadata =
  cm_chain :: string
  cm_decimals :: u8
  cm_token_address :: "u8 list"

record its_state =
  its_config :: "its_config option"
  its_perms :: permission_state
  its_killswitch :: "killswitch option"
  its_chain_configs :: "(string, its_chain_config) kv"
  its_token_instances :: "(string \<times> token_id, token_instance) kv"
  its_token_configs :: "(token_id, token_config) kv"
  its_custom_tokens :: "(string \<times> u8 list, custom_token_metadata) kv"

datatype its_state_error =
    ItsMissingConfig
  | ItsContractNotFound string
  | ItsContractAlreadyRegistered string
  | ItsChainNotFound string
  | ItsChainConfigNotFound string
  | InvalidTranslationContractAddress string
  | ItsStorage

text \<open>The errors of the operations, of the entry points and of the checks before them.\<close>

datatype its_error =
    UnknownItsContract string
  | InvalidPayload
  | InvalidMessageType
  | FailedItsContractRegistration string
  | FailedItsContractDeregistration string
  | FailedExecuteMessage
  | ExecutionDisabledErr
  | ItsChainFrozen string
  | InvalidTransferAmount string string u256
  | ItsStateErr
  | ChainAlreadyRegistered string
  | ChainNotRegistered string
  | TokenNotDeployed token_id string
  | TokenAlreadyDeployed token_id string
  | TokenDeployedFromNonOriginChain token_id string string
  | WrongOriginChain token_id string
  | TokenDeployedDecimalsMismatch token_id string u8 u8
  | TokenSupplyInvariantViolated token_id string
  | TokenNotRegistered "u8 list"
  | TokenDecimalsMismatch "u8 list" u8 u8
  | FailedToQueryAxelarnetGateway string
  | ModifySupplyOverflow token_supply
  | TranslationFailed
  | ItsExecuteErr
  | ModifySupplyErr
  | RegisterChainsErr
  | RegisterP2pTokenInstanceErr
  | UpdateChainErr
  | FreezeChainErr
  | UnfreezeChainErr
  | SetChainConfigErr
  | DisableExecutionErr
  | EnableExecutionErr
  | QueryChainConfigErr
  | QueryAllItsContractsErr
  | QueryTokenInstanceErr
  | QueryTokenConfigErr
  | QueryCustomTokenMetadataErr
  | QueryContractStatusErr
  | QueryAllChainConfigsErr
  | InvalidLimitErr
  | ItsAddressErr address_error
  | ItsPermissionErr permission_error

subsection \<open>Messages and the environment\<close>

datatype supply_modifier = IncreaseSupply u256 | DecreaseSupply u256

record chain_config_msg =
  cg_chain :: string
  cg_its_edge_contract :: string
  cg_truncation :: truncation_config
  cg_msg_translator :: string

datatype its_msg =
    ItsExecute axelar_executable_msg
  | RegisterP2pTokenInstance string token_id string u8 token_supply
  | RegisterChains "chain_config_msg list"
  | ModifySupply string token_id supply_modifier
  | UpdateChains "chain_config_msg list"
  | FreezeChain string
  | UnfreezeChain string
  | DisableExecution
  | EnableExecution

datatype its_event =
    MessageReceived cross_chain_id string its_message
  | TokenMetadataRegistered string "u8 list" u8
  | EvExecutionDisabled
  | EvExecutionEnabled
  | SupplyModified token_id string supply_modifier
  | EvInterchainTransfer token_id "u8 list" string "u8 list" u256 "u8 list option"
  | LinkTokenStarted token_id string u256 "u8 list" "u8 list" "u8 list option"
  | InterchainTokenDeploymentStarted token_id string string u8 "u8 list option" string

datatype its_out = ItsCallContract string call_contract_data

type_synonym its_response = "(its_out, its_event) response"

record its_env =
  ie_chain_name :: "string \<Rightarrow> string option"
  ie_from_bytes :: "string \<Rightarrow> u8 list \<Rightarrow> hub_message option"
  ie_to_bytes :: "string \<Rightarrow> hub_message \<Rightarrow> u8 list option"
  ie_keccak256 :: "u8 list \<Rightarrow> u8 list"
  ie_addr_validate :: "string \<Rightarrow> string option"

fun make_message_event :: "(u8 list \<Rightarrow> u8 list) \<Rightarrow> string \<Rightarrow> its_message \<Rightarrow> its_event" where
  "make_message_event H dest (InterchainTransfer t) =
     EvInterchainTransfer (it_token_id t) (it_source_address t) dest (it_destination_address t) (it_amount t)
       (map_option H (it_data t))"
| "make_message_event H dest (LinkToken l) =
     LinkTokenStarted (lt_token_id l) dest (lt_token_manager_type l) (lt_source_token_address l)
       (lt_destination_token_address l) (lt_params l)"
| "make_message_event H dest (DeployInterchainToken d) =
     InterchainTokenDeploymentStarted (di_token_id d) (di_name d) (di_symbol d) (di_decimals d) (di_minter d) dest"

subsection \<open>Access to the state\<close>

definition its_load_config :: "its_state \<Rightarrow> ('e, its_config) result" where
  "its_load_config s = expect_some ''config must be set during instantiation'' (its_config s)"

definition chain_config_new :: "its_env \<Rightarrow> chain_config_msg \<Rightarrow> (its_state_error, its_chain_config) result" where
  "chain_config_new env input =
     and_then (change_context (InvalidTranslationContractAddress (cg_msg_translator input))
       (validate_cosmwasm_address (ie_addr_validate env) (cg_msg_translator input))) (\<lambda>translator.
     Ok \<lparr>cf_truncation = cg_truncation input, cf_its_address = cg_its_edge_contract input, cf_frozen = False,
         cf_msg_translator = translator\<rparr>)"

definition load_chain_config :: "its_state \<Rightarrow> string \<Rightarrow> (its_state_error, its_chain_config) result" where
  "load_chain_config s chain = ok_or (ItsChainNotFound chain) (kv_get (its_chain_configs s) chain)"

definition save_chain_config :: "its_state \<Rightarrow> string \<Rightarrow> its_chain_config \<Rightarrow> its_state" where
  "save_chain_config s chain config = s\<lparr>its_chain_configs := kv_set chain config (its_chain_configs s)\<rparr>"

definition load_chain_configs ::
  "its_state \<Rightarrow> (its_chain_config \<Rightarrow> bool) \<Rightarrow> string option \<Rightarrow> u32 \<Rightarrow> (string \<times> its_chain_config) list" where
  "load_chain_configs s f start_after limit =
     take (unat limit) (filter (\<lambda>(_, config). f config)
       (filter (\<lambda>(c, _). case start_after of None \<Rightarrow> True | Some b \<Rightarrow> b < c) (its_chain_configs s)))"

definition may_load_its_contract :: "its_state \<Rightarrow> string \<Rightarrow> string option" where
  "may_load_its_contract s chain = map_option cf_its_address (kv_get (its_chain_configs s) chain)"

definition load_its_contract :: "its_state \<Rightarrow> string \<Rightarrow> (its_state_error, string) result" where
  "load_its_contract s chain = ok_or (ItsContractNotFound chain) (may_load_its_contract s chain)"

definition load_all_its_contracts :: "its_state \<Rightarrow> (string, string) kv" where
  "load_all_its_contracts s = map (\<lambda>(chain, config). (chain, cf_its_address config)) (its_chain_configs s)"

definition is_chain_frozen :: "its_state \<Rightarrow> string \<Rightarrow> (its_state_error, bool) result" where
  "is_chain_frozen s chain =
     and_then (ok_or (ItsChainNotFound chain) (kv_get (its_chain_configs s) chain)) (\<lambda>config. Ok (cf_frozen config))"

definition state_freeze_chain :: "its_state \<Rightarrow> string \<Rightarrow> (its_state_error, its_state) result" where
  "state_freeze_chain s chain =
     (case kv_get (its_chain_configs s) chain of
        Some x \<Rightarrow> Ok (save_chain_config s chain (x\<lparr>cf_frozen := True\<rparr>))
      | None \<Rightarrow> fail (ItsChainNotFound chain))"

definition state_unfreeze_chain :: "its_state \<Rightarrow> string \<Rightarrow> (its_state_error, its_state) result" where
  "state_unfreeze_chain s chain =
     (case kv_get (its_chain_configs s) chain of
        Some x \<Rightarrow> Ok (save_chain_config s chain (x\<lparr>cf_frozen := False\<rparr>))
      | None \<Rightarrow> fail (ItsChainNotFound chain))"

definition save_token_instance :: "its_state \<Rightarrow> string \<Rightarrow> token_id \<Rightarrow> token_instance \<Rightarrow> its_state" where
  "save_token_instance s chain t i = s\<lparr>its_token_instances := kv_set (chain, t) i (its_token_instances s)\<rparr>"

definition may_load_token_instance :: "its_state \<Rightarrow> string \<Rightarrow> token_id \<Rightarrow> token_instance option" where
  "may_load_token_instance s chain t = kv_get (its_token_instances s) (chain, t)"

definition save_token_config :: "its_state \<Rightarrow> token_id \<Rightarrow> token_config \<Rightarrow> its_state" where
  "save_token_config s t config = s\<lparr>its_token_configs := kv_set t config (its_token_configs s)\<rparr>"

definition save_custom_token_metadata :: "its_state \<Rightarrow> string \<Rightarrow> register_token_metadata \<Rightarrow> its_state" where
  "save_custom_token_metadata s chain r =
     s\<lparr>its_custom_tokens := kv_set (chain, rm_token_address r)
        \<lparr>cm_chain = chain, cm_decimals = rm_decimals r, cm_token_address = rm_token_address r\<rparr> (its_custom_tokens s)\<rparr>"

definition may_load_custom_token :: "its_state \<Rightarrow> string \<Rightarrow> u8 list \<Rightarrow> custom_token_metadata option" where
  "may_load_custom_token s chain a = kv_get (its_custom_tokens s) (chain, a)"

fun supply_checked_add :: "token_supply \<Rightarrow> u256 \<Rightarrow> token_supply option" where
  "supply_checked_add Untracked amount = Some Untracked"
| "supply_checked_add (Tracked supply) amount = map_option Tracked (checked_add supply amount)"

fun supply_checked_sub :: "token_supply \<Rightarrow> u256 \<Rightarrow> token_supply option" where
  "supply_checked_sub Untracked amount = Some Untracked"
| "supply_checked_sub (Tracked supply) amount = map_option Tracked (checked_sub supply amount)"

definition new_on_origin :: "u8 \<Rightarrow> token_instance" where
  "new_on_origin decimals = \<lparr>ti_supply = Untracked, ti_decimals = decimals\<rparr>"

definition token_instance_new :: "token_deployment_type \<Rightarrow> u8 \<Rightarrow> token_instance" where
  "token_instance_new deployment_type decimals =
     \<lparr>ti_supply = (case deployment_type of Trustless \<Rightarrow> Tracked 0 | _ \<Rightarrow> Untracked), ti_decimals = decimals\<rparr>"

subsection \<open>Interceptors\<close>

definition try_load_token_instance :: "its_state \<Rightarrow> string \<Rightarrow> token_id \<Rightarrow> (its_error, token_instance) result" where
  "try_load_token_instance s chain t = ok_or (TokenNotDeployed t chain) (may_load_token_instance s chain t)"

definition subtract_supply_amount :: "its_state \<Rightarrow> string \<Rightarrow> interchain_transfer \<Rightarrow> (its_error, its_state) result" where
  "subtract_supply_amount s chain transfer =
     and_then (try_load_token_instance s chain (it_token_id transfer)) (\<lambda>token.
     and_then (ok_or (TokenSupplyInvariantViolated (it_token_id transfer) chain)
       (supply_checked_sub (ti_supply token) (it_amount transfer))) (\<lambda>supply.
     Ok (save_token_instance s chain (it_token_id transfer) (token\<lparr>ti_supply := supply\<rparr>))))"

definition add_supply_amount :: "its_state \<Rightarrow> string \<Rightarrow> interchain_transfer \<Rightarrow> (its_error, its_state) result" where
  "add_supply_amount s chain transfer =
     and_then (try_load_token_instance s chain (it_token_id transfer)) (\<lambda>token.
     and_then (ok_or (TokenSupplyInvariantViolated (it_token_id transfer) chain)
       (supply_checked_add (ti_supply token) (it_amount transfer))) (\<lambda>supply.
     Ok (save_token_instance s chain (it_token_id transfer) (token\<lparr>ti_supply := supply\<rparr>))))"

definition amount_overflows :: "u256 \<Rightarrow> num_bits \<Rightarrow> bool" where
  "amount_overflows amount target_chain_max_bits =
     (case checked_shr amount (u32_of_num_bits target_chain_max_bits) of
        Some res \<Rightarrow> res > 0
      | None \<Rightarrow> False)"

definition destination_amount ::
  "its_state \<Rightarrow> string \<Rightarrow> string \<Rightarrow> token_id \<Rightarrow> u256 \<Rightarrow> (its_error, u256) result" where
  "destination_amount s src dst t source_amount =
     and_then (try_load_token_instance s src t) (\<lambda>source_token.
     and_then (try_load_token_instance s dst t) (\<lambda>destination_token.
     let source_decimals = ti_decimals source_token; destination_decimals = ti_decimals destination_token in
     if source_decimals = destination_decimals then Ok source_amount
     else and_then (change_context ItsStateErr (load_chain_config s dst)) (\<lambda>config.
     and_then (ok_or (InvalidTransferAmount src dst source_amount)
       (checked_pow 10 (ucast (abs_diff source_decimals destination_decimals)))) (\<lambda>scaling_factor.
     and_then (if source_decimals > destination_decimals
         then expect_some ''scaling_factor must be non-zero'' (checked_div source_amount scaling_factor)
         else ok_or (InvalidTransferAmount src dst source_amount) (checked_mul source_amount scaling_factor)) (\<lambda>amount.
     if amount_overflows amount (tr_max_uint_bits (cf_truncation config)) then fail (InvalidTransferAmount src dst source_amount)
     else change_context (InvalidTransferAmount src dst source_amount) (nonempty_uint256_try_from amount))))))"

definition apply_scaling_factor_to_amount ::
  "its_state \<Rightarrow> string \<Rightarrow> string \<Rightarrow> interchain_transfer \<Rightarrow> (its_error, interchain_transfer) result" where
  "apply_scaling_factor_to_amount s src dst transfer =
     and_then (destination_amount s src dst (it_token_id transfer) (it_amount transfer)) (\<lambda>amount.
     Ok (transfer\<lparr>it_amount := amount\<rparr>))"

definition ensure_matching_original_deployment ::
  "its_state \<Rightarrow> string \<Rightarrow> string \<Rightarrow> token_id \<Rightarrow> u8 \<Rightarrow> (its_error, unit) result" where
  "ensure_matching_original_deployment s origin_chain chain t decimals =
     and_then (ensure (origin_chain = chain) (TokenDeployedFromNonOriginChain t origin_chain chain)) (\<lambda>_.
     and_then (ok_or (TokenNotDeployed t origin_chain) (may_load_token_instance s origin_chain t)) (\<lambda>i.
     ensure (ti_decimals i = decimals) (TokenDeployedDecimalsMismatch t chain (ti_decimals i) decimals)))"

definition deploy_token_to_source_chain :: "its_state \<Rightarrow> string \<Rightarrow> token_id \<Rightarrow> u8 \<Rightarrow> (its_error, its_state) result" where
  "deploy_token_to_source_chain s chain t decimals =
     (case kv_get (its_token_configs s) t of
        Some config \<Rightarrow> and_then (ensure_matching_original_deployment s (tk_origin_chain config) chain t decimals) (\<lambda>_. Ok s)
      | None \<Rightarrow> Ok (save_token_instance (save_token_config s t \<lparr>tk_origin_chain = chain\<rparr>) chain t (new_on_origin decimals)))"

definition deploy_token_to_destination_chain ::
  "its_state \<Rightarrow> string \<Rightarrow> token_id \<Rightarrow> u8 \<Rightarrow> token_deployment_type \<Rightarrow> (its_error, its_state) result" where
  "deploy_token_to_destination_chain s chain t decimals deployment_type =
     and_then (ensure (may_load_token_instance s chain t = None) (TokenAlreadyDeployed t chain)) (\<lambda>_.
     Ok (save_token_instance s chain t (token_instance_new deployment_type decimals)))"

definition destination_token_decimals :: "its_state \<Rightarrow> string \<Rightarrow> string \<Rightarrow> u8 \<Rightarrow> (its_error, u8) result" where
  "destination_token_decimals s src dst source_token_decimals =
     and_then (change_context ItsStateErr (load_chain_config s src)) (\<lambda>source_config.
     and_then (change_context ItsStateErr (load_chain_config s dst)) (\<lambda>destination_config.
     Ok (if tr_max_uint_bits (cf_truncation source_config) \<le> tr_max_uint_bits (cf_truncation destination_config)
         then source_token_decimals
         else min (tr_max_decimals_when_truncating (cf_truncation destination_config)) source_token_decimals)))"

definition calculate_scaling_factor ::
  "its_state \<Rightarrow> string \<Rightarrow> string \<Rightarrow> deploy_interchain_token \<Rightarrow> (its_error, deploy_interchain_token) result" where
  "calculate_scaling_factor s src dst d =
     and_then (destination_token_decimals s src dst (di_decimals d)) (\<lambda>decimals. Ok (d\<lparr>di_decimals := decimals\<rparr>))"

definition register_custom_token :: "its_state \<Rightarrow> string \<Rightarrow> register_token_metadata \<Rightarrow> (its_error, its_state) result" where
  "register_custom_token s src r =
     (case may_load_custom_token s src (rm_token_address r) of
        Some existing \<Rightarrow> and_then (ensure (cm_decimals existing = rm_decimals r)
          (TokenDecimalsMismatch (rm_token_address r) (cm_decimals existing) (rm_decimals r))) (\<lambda>_. Ok s)
      | None \<Rightarrow> Ok (save_custom_token_metadata s src r))"

subsection \<open>Messages from the chains\<close>

definition hub_message_from_bytes :: "its_env \<Rightarrow> its_state \<Rightarrow> string \<Rightarrow> u8 list \<Rightarrow> (its_error, hub_message) result" where
  "hub_message_from_bytes env s src payload =
     and_then (change_context ItsStateErr (load_chain_config s src)) (\<lambda>config.
     ok_or InvalidPayload (ie_from_bytes env (cf_msg_translator config) payload))"

definition hub_message_to_bytes :: "its_env \<Rightarrow> its_state \<Rightarrow> string \<Rightarrow> hub_message \<Rightarrow> (its_error, u8 list) result" where
  "hub_message_to_bytes env s dst m =
     and_then (change_context ItsStateErr (load_chain_config s dst)) (\<lambda>config.
     ok_or TranslationFailed (ie_to_bytes env (cf_msg_translator config) m))"

definition ensure_chain_not_frozen :: "its_state \<Rightarrow> string \<Rightarrow> (its_error, unit) result" where
  "ensure_chain_not_frozen s chain =
     and_then (change_context ItsStateErr (is_chain_frozen s chain)) (\<lambda>frozen. ensure (\<not> frozen) (ItsChainFrozen chain))"

definition ensure_is_its_source_address :: "its_state \<Rightarrow> string \<Rightarrow> string \<Rightarrow> (its_error, unit) result" where
  "ensure_is_its_source_address s src source =
     and_then (change_context ItsStateErr (load_its_contract s src)) (\<lambda>its_contract.
     ensure (source = its_contract) (UnknownItsContract source))"

definition axelar_chain_name :: "its_env \<Rightarrow> its_state \<Rightarrow> (its_error, string) result" where
  "axelar_chain_name env s =
     and_then (its_load_config s) (\<lambda>config.
     ok_or (FailedToQueryAxelarnetGateway (ic_axelarnet_gateway config)) (ie_chain_name env (ic_axelarnet_gateway config)))"

definition apply_to_link_token :: "its_state \<Rightarrow> string \<Rightarrow> string \<Rightarrow> link_token \<Rightarrow> (its_error, its_state \<times> link_token) result" where
  "apply_to_link_token s src dst l =
     and_then (ok_or (TokenNotRegistered (lt_source_token_address l)) (may_load_custom_token s src (lt_source_token_address l))) (\<lambda>source_token.
     and_then (deploy_token_to_source_chain s src (lt_token_id l) (cm_decimals source_token)) (\<lambda>s1.
     and_then (ok_or (TokenNotRegistered (lt_destination_token_address l))
       (may_load_custom_token s1 dst (lt_destination_token_address l))) (\<lambda>destination_token.
     and_then (deploy_token_to_destination_chain s1 dst (lt_token_id l) (cm_decimals destination_token) CustomMinter) (\<lambda>s2.
     Ok (s2, l)))))"

definition apply_to_transfer ::
  "its_state \<Rightarrow> string \<Rightarrow> string \<Rightarrow> interchain_transfer \<Rightarrow> (its_error, its_state \<times> interchain_transfer) result" where
  "apply_to_transfer s src dst transfer =
     and_then (subtract_supply_amount s src transfer) (\<lambda>s1.
     and_then (apply_scaling_factor_to_amount s1 src dst transfer) (\<lambda>transfer'.
     and_then (add_supply_amount s1 dst transfer') (\<lambda>s2.
     Ok (s2, transfer'))))"

definition deployment_type :: "deploy_interchain_token \<Rightarrow> token_deployment_type" where
  "deployment_type d = (if di_minter d \<noteq> None then CustomMinter else Trustless)"

definition apply_to_token_deployment ::
  "its_state \<Rightarrow> string \<Rightarrow> string \<Rightarrow> deploy_interchain_token \<Rightarrow> (its_error, its_state \<times> deploy_interchain_token) result" where
  "apply_to_token_deployment s src dst d =
     and_then (deploy_token_to_source_chain s src (di_token_id d) (di_decimals d)) (\<lambda>s1.
     and_then (calculate_scaling_factor s1 src dst d) (\<lambda>d'.
     and_then (deploy_token_to_destination_chain s1 dst (di_token_id d') (di_decimals d') (deployment_type d')) (\<lambda>s2.
     Ok (s2, d'))))"

definition apply_to_hub :: "its_state \<Rightarrow> string \<Rightarrow> string \<Rightarrow> its_message \<Rightarrow> (its_error, its_state \<times> its_message) result" where
  "apply_to_hub s src dst m =
     and_then (ensure_chain_not_frozen s src) (\<lambda>_.
     and_then (ensure_chain_not_frozen s dst) (\<lambda>_.
     case m of
       InterchainTransfer t \<Rightarrow> and_then (apply_to_transfer s src dst t) (\<lambda>(s', t'). Ok (s', InterchainTransfer t'))
     | DeployInterchainToken d \<Rightarrow> and_then (apply_to_token_deployment s src dst d) (\<lambda>(s', d'). Ok (s', DeployInterchainToken d'))
     | LinkToken l \<Rightarrow> and_then (apply_to_link_token s src dst l) (\<lambda>(s', l'). Ok (s', LinkToken l'))))"

definition send_to_destination :: "its_env \<Rightarrow> its_state \<Rightarrow> string \<Rightarrow> u8 list \<Rightarrow> (its_error, its_out list) result" where
  "send_to_destination env s dst payload =
     and_then (axelar_chain_name env s) (\<lambda>name.
     if dst = name then Ok []
     else and_then (change_context (ChainNotRegistered dst) (load_its_contract s dst)) (\<lambda>address.
     and_then (its_load_config s) (\<lambda>config.
     Ok [ItsCallContract (ic_axelarnet_gateway config)
       \<lparr>cl_destination_chain = chain_name_normalize dst, cl_destination_address = address, cl_payload = payload\<rparr>])))"

definition execute_message_on_hub ::
  "its_env \<Rightarrow> its_state \<Rightarrow> cross_chain_id \<Rightarrow> string \<Rightarrow> its_message \<Rightarrow> (its_error, its_state \<times> its_response) result" where
  "execute_message_on_hub env s i dst m =
     and_then (apply_to_hub s (source_chain i) dst m) (\<lambda>(s1, m').
     and_then (hub_message_to_bytes env s1 dst (ReceiveFromHub (source_chain i) m')) (\<lambda>payload.
     and_then (send_to_destination env s1 dst payload) (\<lambda>out.
     Ok (s1, \<lparr>messages = out, events = [MessageReceived i dst m', make_message_event (ie_keccak256 env) dst m']\<rparr>))))"

definition execute_register_token_metadata ::
  "its_state \<Rightarrow> string \<Rightarrow> register_token_metadata \<Rightarrow> (its_error, its_state \<times> its_response) result" where
  "execute_register_token_metadata s src r =
     and_then (ensure_chain_not_frozen s src) (\<lambda>_.
     and_then (register_custom_token s src r) (\<lambda>s1.
     Ok (s1, \<lparr>messages = [], events = [TokenMetadataRegistered src (rm_token_address r) (rm_decimals r)]\<rparr>)))"

definition execute_message :: "its_env \<Rightarrow> its_state \<Rightarrow> axelar_executable_msg \<Rightarrow> (its_error, its_state \<times> its_response) result" where
  "execute_message env s x =
     and_then (ensure (is_contract_active (its_killswitch s)) ExecutionDisabledErr) (\<lambda>_.
     and_then (ensure_is_its_source_address s (source_chain (ax_cc_id x)) (ax_source_address x)) (\<lambda>_.
     and_then (hub_message_from_bytes env s (source_chain (ax_cc_id x)) (ax_payload x)) (\<lambda>hub_message.
     case hub_message of
       SendToHub dst m \<Rightarrow> execute_message_on_hub env s (ax_cc_id x) dst m
     | RegisterTokenMetadata r \<Rightarrow> execute_register_token_metadata s (source_chain (ax_cc_id x)) r
     | _ \<Rightarrow> fail InvalidMessageType)))"

subsection \<open>Administration\<close>

definition its_freeze_chain :: "its_state \<Rightarrow> string \<Rightarrow> (its_error, its_state \<times> its_response) result" where
  "its_freeze_chain s chain = and_then (change_context ItsStateErr (state_freeze_chain s chain)) (\<lambda>s1. Ok (s1, response_new))"

definition its_unfreeze_chain :: "its_state \<Rightarrow> string \<Rightarrow> (its_error, its_state \<times> its_response) result" where
  "its_unfreeze_chain s chain = and_then (change_context ItsStateErr (state_unfreeze_chain s chain)) (\<lambda>s1. Ok (s1, response_new))"

definition disable_execution :: "its_state \<Rightarrow> (its_error, its_state \<times> its_response) result" where
  "disable_execution s =
     and_then (change_context ItsStateErr (killswitch_engage (its_killswitch s) EvExecutionDisabled)) (\<lambda>(k, evs).
     Ok (s\<lparr>its_killswitch := k\<rparr>, \<lparr>messages = [], events = evs\<rparr>))"

definition enable_execution :: "its_state \<Rightarrow> (its_error, its_state \<times> its_response) result" where
  "enable_execution s =
     and_then (change_context ItsStateErr (killswitch_disengage (its_killswitch s) EvExecutionEnabled)) (\<lambda>(k, evs).
     Ok (s\<lparr>its_killswitch := k\<rparr>, \<lparr>messages = [], events = evs\<rparr>))"

definition its_register_chain :: "its_env \<Rightarrow> its_state \<Rightarrow> chain_config_msg \<Rightarrow> (its_error, its_state) result" where
  "its_register_chain env s input =
     and_then (change_context ItsStateErr (chain_config_new env input)) (\<lambda>config.
     case kv_get (its_chain_configs s) (cg_chain input) of
       Some _ \<Rightarrow> fail (ChainAlreadyRegistered (cg_chain input))
     | None \<Rightarrow> Ok (save_chain_config s (cg_chain input) config))"

definition register_chains :: "its_env \<Rightarrow> its_state \<Rightarrow> chain_config_msg list \<Rightarrow> (its_error, its_state \<times> its_response) result" where
  "register_chains env s inputs = and_then (try_fold (its_register_chain env) s inputs) (\<lambda>s1. Ok (s1, response_new))"

definition update_chain :: "its_env \<Rightarrow> its_state \<Rightarrow> chain_config_msg \<Rightarrow> (its_error, its_state) result" where
  "update_chain env s input =
     and_then (change_context ItsStateErr (chain_config_new env input)) (\<lambda>config.
     case kv_get (its_chain_configs s) (cg_chain input) of
       None \<Rightarrow> fail (ChainNotRegistered (cg_chain input))
     | Some _ \<Rightarrow> Ok (save_chain_config s (cg_chain input) config))"

definition update_chains :: "its_env \<Rightarrow> its_state \<Rightarrow> chain_config_msg list \<Rightarrow> (its_error, its_state \<times> its_response) result" where
  "update_chains env s inputs = and_then (try_fold (update_chain env) s inputs) (\<lambda>s1. Ok (s1, response_new))"

definition modify_supply :: "its_state \<Rightarrow> string \<Rightarrow> token_id \<Rightarrow> supply_modifier \<Rightarrow> (its_error, its_state \<times> its_response) result" where
  "modify_supply s chain t modifier =
     and_then (ok_or (TokenNotDeployed t chain) (may_load_token_instance s chain t)) (\<lambda>i.
     let supply = (if ti_supply i = Untracked then Tracked 0 else ti_supply i) in
     and_then (case modifier of
         IncreaseSupply amount \<Rightarrow> ok_or (ModifySupplyOverflow supply) (supply_checked_add supply amount)
       | DecreaseSupply amount \<Rightarrow> ok_or (ModifySupplyOverflow supply) (supply_checked_sub supply amount)) (\<lambda>supply'.
     Ok (save_token_instance s chain t (i\<lparr>ti_supply := supply'\<rparr>),
         \<lparr>messages = [], events = [SupplyModified t chain modifier]\<rparr>)))"

definition ensure_chain_is_registered :: "its_state \<Rightarrow> string \<Rightarrow> (its_error, unit) result" where
  "ensure_chain_is_registered s chain = ensure (kv_get (its_chain_configs s) chain \<noteq> None) (ChainNotRegistered chain)"

definition register_p2p_token_instance ::
  "its_state \<Rightarrow> token_id \<Rightarrow> string \<Rightarrow> string \<Rightarrow> u8 \<Rightarrow> token_supply \<Rightarrow> (its_error, its_state \<times> its_response) result" where
  "register_p2p_token_instance s t chain origin_chain decimals supply =
     and_then (ensure_chain_is_registered s chain) (\<lambda>_.
     and_then (ensure_chain_is_registered s origin_chain) (\<lambda>_.
     and_then (case kv_get (its_token_configs s) t of
         Some config \<Rightarrow> and_then (ensure (tk_origin_chain config = origin_chain) (WrongOriginChain t (tk_origin_chain config))) (\<lambda>_. Ok s)
       | None \<Rightarrow> Ok (save_token_config s t \<lparr>tk_origin_chain = origin_chain\<rparr>)) (\<lambda>s1.
     if may_load_token_instance s1 chain t \<noteq> None then fail (TokenAlreadyDeployed t chain)
     else Ok (save_token_instance s1 chain t \<lparr>ti_supply = supply, ti_decimals = decimals\<rparr>, response_new))))"

subsection \<open>Entry points\<close>

fun its_permissions :: "its_msg \<Rightarrow> msg_permissions" where
  "its_permissions (ItsExecute _) = \<lparr>specific_perms = [''gateway''], general_perms = [], external_perms = []\<rparr>"
| "its_permissions (RegisterP2pTokenInstance _ _ _ _ _) =
     \<lparr>specific_perms = [''operator''], general_perms = [Elevated], external_perms = []\<rparr>"
| "its_permissions (ModifySupply _ _ _) = \<lparr>specific_perms = [''operator''], general_perms = [Elevated], external_perms = []\<rparr>"
| "its_permissions (RegisterChains _) = \<lparr>specific_perms = [], general_perms = [Governance], external_perms = []\<rparr>"
| "its_permissions (UpdateChains _) = \<lparr>specific_perms = [], general_perms = [Governance], external_perms = []\<rparr>"
| "its_permissions _ = \<lparr>specific_perms = [], general_perms = [Elevated], external_perms = []\<rparr>"

definition match_gateway :: "its_state \<Rightarrow> string \<Rightarrow> (its_error, bool) result" where
  "match_gateway s sender = and_then (its_load_config s) (\<lambda>config. Ok (sender = ic_axelarnet_gateway config))"

definition match_operator :: "its_state \<Rightarrow> string \<Rightarrow> (its_error, bool) result" where
  "match_operator s sender = and_then (its_load_config s) (\<lambda>config. Ok (sender = ic_operator config))"

fun its_dispatch :: "its_env \<Rightarrow> its_state \<Rightarrow> its_msg \<Rightarrow> (its_error, its_state \<times> its_response) result" where
  "its_dispatch env s (ItsExecute x) = change_context ItsExecuteErr (execute_message env s x)"
| "its_dispatch env s (RegisterP2pTokenInstance chain t origin_chain decimals supply) =
     change_context RegisterP2pTokenInstanceErr (register_p2p_token_instance s t chain origin_chain decimals supply)"
| "its_dispatch env s (ModifySupply chain t modifier) = change_context ModifySupplyErr (modify_supply s chain t modifier)"
| "its_dispatch env s (RegisterChains inputs) = change_context RegisterChainsErr (register_chains env s inputs)"
| "its_dispatch env s (UpdateChains inputs) = change_context UpdateChainErr (update_chains env s inputs)"
| "its_dispatch env s (FreezeChain chain) = change_context FreezeChainErr (its_freeze_chain s chain)"
| "its_dispatch env s (UnfreezeChain chain) = change_context UnfreezeChainErr (its_unfreeze_chain s chain)"
| "its_dispatch env s DisableExecution = change_context DisableExecutionErr (disable_execution s)"
| "its_dispatch env s EnableExecution = change_context EnableExecutionErr (enable_execution s)"

definition its_execute :: "its_env \<Rightarrow> its_state \<Rightarrow> string \<Rightarrow> its_msg \<Rightarrow> (its_error, its_state \<times> its_response) result" where
  "its_execute env s sender msg =
     and_then (map_err ItsPermissionErr
       (ensure_permissions (its_perms s) sender (its_permissions msg)
          (\<lambda>role. if role = ''gateway'' then match_gateway s sender else match_operator s sender))) (\<lambda>_.
     its_dispatch env s msg)"

definition its_instantiate ::
  "(string \<Rightarrow> string option) \<Rightarrow> string \<Rightarrow> string \<Rightarrow> string \<Rightarrow> string \<Rightarrow> (its_error, its_state \<times> its_response) result" where
  "its_instantiate addr_validate admin_address governance_address operator_address gateway_address =
     and_then (map_err ItsAddressErr (validate_cosmwasm_address addr_validate admin_address)) (\<lambda>admin.
     and_then (map_err ItsAddressErr (validate_cosmwasm_address addr_validate governance_address)) (\<lambda>governance.
     and_then (map_err ItsAddressErr (validate_cosmwasm_address addr_validate operator_address)) (\<lambda>operator.
     and_then (map_err ItsAddressErr (validate_cosmwasm_address addr_validate gateway_address)) (\<lambda>gateway.
     Ok (\<lparr>its_config = Some \<lparr>ic_axelarnet_gateway = gateway, ic_operator = operator\<rparr>,
          its_perms = \<lparr>admin_addr = Some admin, governance_addr = Some governance\<rparr>,
          its_killswitch = killswitch_init Disengaged, its_chain_configs = [], its_token_instances = [],
          its_token_configs = [], its_custom_tokens = []\<rparr>, response_new)))))"

subsection \<open>Queries\<close>

record chain_config_response =
  cq_chain :: string
  cq_its_edge_contract :: string
  cq_truncation :: truncation_config
  cq_frozen :: bool
  cq_msg_translator :: string

definition its_chain_response :: "string \<Rightarrow> its_chain_config \<Rightarrow> chain_config_response" where
  "its_chain_response chain config = \<lparr>cq_chain = chain, cq_its_edge_contract = cf_its_address config,
     cq_truncation = cf_truncation config, cq_frozen = cf_frozen config, cq_msg_translator = cf_msg_translator config\<rparr>"

definition query_its_chain :: "its_state \<Rightarrow> string \<Rightarrow> chain_config_response option" where
  "query_its_chain s chain = map_option (its_chain_response chain) (kv_get (its_chain_configs s) chain)"

datatype chain_status_filter = FilterFrozen | FilterActive

fun convert_chain_filter :: "chain_status_filter option \<Rightarrow> its_chain_config \<Rightarrow> bool" where
  "convert_chain_filter (Some FilterFrozen) config = cf_frozen config"
| "convert_chain_filter (Some FilterActive) config = (\<not> cf_frozen config)"
| "convert_chain_filter None config = True"

definition query_its_chains ::
  "its_state \<Rightarrow> chain_status_filter option \<Rightarrow> string option \<Rightarrow> u32 \<Rightarrow> (its_error, chain_config_response list) result" where
  "query_its_chains s status start_after limit =
     and_then (change_context InvalidLimitErr (nonempty_uint32_try_from limit)) (\<lambda>limit.
     Ok (map (\<lambda>(chain, config). its_chain_response chain config) (load_chain_configs s (convert_chain_filter status) start_after limit)))"

definition query_custom_token_metadata :: "its_state \<Rightarrow> string \<Rightarrow> u8 list \<Rightarrow> u8 option" where
  "query_custom_token_metadata s chain a = map_option cm_decimals (may_load_custom_token s chain a)"

definition is_contract_enabled :: "its_state \<Rightarrow> bool" where
  "is_contract_enabled s = is_contract_active (its_killswitch s)"

subsection \<open>Transactions\<close>

type_synonym its_call = "its_env \<times> string \<times> its_msg"

definition its_tx :: "its_state \<Rightarrow> its_call \<Rightarrow> (its_error, its_state \<times> its_response) result" where
  "its_tx s call = (case call of (env, sender, msg) \<Rightarrow> its_execute env s sender msg)"

text \<open>The calls of a run that succeed, with the state before the call and the response.\<close>

fun its_trace :: "its_state \<Rightarrow> its_call list \<Rightarrow> (its_state \<times> its_call \<times> its_response) list" where
  "its_trace s [] = []"
| "its_trace s (call # calls) = (case its_tx s call of
     Inl _ \<Rightarrow> its_trace s calls
   | Inr (s', r) \<Rightarrow> (s, call, r) # its_trace s' calls)"

inductive its_reachable :: "its_state \<Rightarrow> bool" where
  its_start: "its_instantiate av admin governance operator gateway = Inr (s, r) \<Longrightarrow> its_reachable s"
| its_step: "its_reachable s \<Longrightarrow> its_tx s call = Inr (s', r) \<Longrightarrow> its_reachable s'"

subsection \<open>Specification\<close>

text \<open>
  Every deployment belongs to a token with an origin, on registered chains, and the metadata of a
  custom token are stored under their chain and address.
\<close>

definition its_inv :: "its_state \<Rightarrow> bool" where
  "its_inv s \<longleftrightarrow> its_config s \<noteq> None \<and> its_killswitch s \<noteq> None
     \<and> kv_ok (its_chain_configs s) \<and> kv_ok (its_token_instances s) \<and> kv_ok (its_token_configs s) \<and> kv_ok (its_custom_tokens s)
     \<and> (\<forall>c t. kv_get (its_token_instances s) (c, t) \<noteq> None \<longrightarrow>
          kv_get (its_token_configs s) t \<noteq> None \<and> kv_get (its_chain_configs s) c \<noteq> None)
     \<and> (\<forall>t config. kv_get (its_token_configs s) t = Some config \<longrightarrow> kv_get (its_chain_configs s) (tk_origin_chain config) \<noteq> None)
     \<and> (\<forall>c a m. kv_get (its_custom_tokens s) (c, a) = Some m \<longrightarrow>
          cm_chain m = c \<and> cm_token_address m = a \<and> kv_get (its_chain_configs s) c \<noteq> None)"

text \<open>The transfer that a call brings to the hub: its source and destination and the transfer as the source chain sent it.\<close>

definition its_incoming :: "its_state \<Rightarrow> its_call \<Rightarrow> (string \<times> string \<times> interchain_transfer) option" where
  "its_incoming s call = (case call of (env, a, msg) \<Rightarrow> (case msg of
     ItsExecute x \<Rightarrow> (case hub_message_from_bytes env s (source_chain (ax_cc_id x)) (ax_payload x) of
         Inr (SendToHub dst (InterchainTransfer t)) \<Rightarrow> Some (source_chain (ax_cc_id x), dst, t)
       | _ \<Rightarrow> None)
   | _ \<Rightarrow> None))"

text \<open>What leaves and what enters a chain of a token, as the calls and the events show it.\<close>

fun event_credit :: "string \<Rightarrow> token_id \<Rightarrow> its_event \<Rightarrow> nat" where
  "event_credit c t (MessageReceived i dst (InterchainTransfer tr)) = (if dst = c \<and> it_token_id tr = t then unat (it_amount tr) else 0)"
| "event_credit c t (SupplyModified t' c' (IncreaseSupply a)) = (if c' = c \<and> t' = t then unat a else 0)"
| "event_credit c t _ = 0"

fun event_debit :: "string \<Rightarrow> token_id \<Rightarrow> its_event \<Rightarrow> nat" where
  "event_debit c t (SupplyModified t' c' (DecreaseSupply a)) = (if c' = c \<and> t' = t then unat a else 0)"
| "event_debit c t _ = 0"

definition its_credit :: "string \<Rightarrow> token_id \<Rightarrow> its_state \<times> its_call \<times> its_response \<Rightarrow> nat" where
  "its_credit c t e = (case e of (s, call, r) \<Rightarrow> sum_list (map (event_credit c t) (events r)))"

definition its_debit :: "string \<Rightarrow> token_id \<Rightarrow> its_state \<times> its_call \<times> its_response \<Rightarrow> nat" where
  "its_debit c t e = (case e of (s, call, r) \<Rightarrow>
     (case its_incoming s call of Some (src, dst, tr) \<Rightarrow> if src = c \<and> it_token_id tr = t then unat (it_amount tr) else 0 | None \<Rightarrow> 0)
     + sum_list (map (event_debit c t) (events r)))"

text \<open>A deployment keeps its decimals, and a tracked supply changes by what enters and leaves.\<close>

definition ledger_step :: "its_state \<Rightarrow> its_state \<Rightarrow> string \<Rightarrow> token_id \<Rightarrow> nat \<Rightarrow> nat \<Rightarrow> bool" where
  "ledger_step s s' c t credit debit \<longleftrightarrow> (\<forall>i. kv_get (its_token_instances s) (c, t) = Some i \<longrightarrow>
     (\<exists>i'. kv_get (its_token_instances s') (c, t) = Some i' \<and> ti_decimals i' = ti_decimals i
       \<and> (\<forall>x. ti_supply i = Tracked x \<longrightarrow> (\<exists>y. ti_supply i' = Tracked y \<and> unat x + credit = unat y + debit))))"

section \<open>Lemmas\<close>

lemmas its_state_defs = load_chain_config_def save_chain_config_def may_load_its_contract_def load_its_contract_def
  is_chain_frozen_def state_freeze_chain_def state_unfreeze_chain_def save_token_instance_def may_load_token_instance_def
  save_token_config_def save_custom_token_metadata_def may_load_custom_token_def

subsection \<open>Effects of the operations\<close>

lemma its_tx_Inr:
  assumes "its_tx s (env, a, msg) = Inr (s', r)"
  shows "its_dispatch env s msg = Inr (s', r)"
    and "ensure_permissions (its_perms s) a (its_permissions msg)
          (\<lambda>role. if role = ''gateway'' then match_gateway s a else match_operator s a) = Inr ()"
  using assms by (auto simp: its_tx_def its_execute_def and_then_Inr_iff map_err_Inr_iff)

lemma deploy_source_Inr:
  assumes "deploy_token_to_source_chain s c t d = Inr s'"
  shows "(s' = s \<and> (\<exists>config i. kv_get (its_token_configs s) t = Some config \<and> tk_origin_chain config = c
            \<and> kv_get (its_token_instances s) (c, t) = Some i \<and> ti_decimals i = d))
    \<or> (kv_get (its_token_configs s) t = None
         \<and> s' = save_token_instance (save_token_config s t \<lparr>tk_origin_chain = c\<rparr>) c t (new_on_origin d))"
  using assms by (auto simp: deploy_token_to_source_chain_def ensure_matching_original_deployment_def may_load_token_instance_def
      result_simps split: option.splits)

lemma deploy_destination_Inr:
  assumes "deploy_token_to_destination_chain s c t d k = Inr s'"
  shows "kv_get (its_token_instances s) (c, t) = None \<and> s' = save_token_instance s c t (token_instance_new k d)"
  using assms by (auto simp: deploy_token_to_destination_chain_def may_load_token_instance_def result_simps)

lemma ensure_chain_not_frozen_Inr [result_simps]:
  "ensure_chain_not_frozen s c = Inr x \<longleftrightarrow> (\<exists>config. kv_get (its_chain_configs s) c = Some config \<and> \<not> cf_frozen config)"
  by (auto simp: ensure_chain_not_frozen_def is_chain_frozen_def result_simps)

lemma apply_to_transfer_Inr:
  assumes "apply_to_transfer s src dst tr = Inr (s', tr')"
  obtains si supply1 di supply2 s1 where
    "kv_get (its_token_instances s) (src, it_token_id tr) = Some si"
    "supply_checked_sub (ti_supply si) (it_amount tr) = Some supply1"
    "s1 = save_token_instance s src (it_token_id tr) (si\<lparr>ti_supply := supply1\<rparr>)"
    "destination_amount s1 src dst (it_token_id tr) (it_amount tr) = Inr (it_amount tr')" "tr' = tr\<lparr>it_amount := it_amount tr'\<rparr>"
    "kv_get (its_token_instances s1) (dst, it_token_id tr) = Some di"
    "supply_checked_add (ti_supply di) (it_amount tr') = Some supply2"
    "s' = save_token_instance s1 dst (it_token_id tr) (di\<lparr>ti_supply := supply2\<rparr>)"
  using assms that
  by (auto simp: apply_to_transfer_def subtract_supply_amount_def add_supply_amount_def try_load_token_instance_def
      may_load_token_instance_def apply_scaling_factor_to_amount_def result_simps)

lemma apply_to_deployment_Inr:
  assumes "apply_to_token_deployment s src dst d = Inr (s', d')"
  obtains s1 where "deploy_token_to_source_chain s src (di_token_id d) (di_decimals d) = Inr s1"
    "d' = d\<lparr>di_decimals := di_decimals d'\<rparr>" "destination_token_decimals s1 src dst (di_decimals d) = Inr (di_decimals d')"
    "deploy_token_to_destination_chain s1 dst (di_token_id d) (di_decimals d') (deployment_type d) = Inr s'"
  using assms that
  by (auto simp: apply_to_token_deployment_def calculate_scaling_factor_def deployment_type_def result_simps)

lemma apply_to_link_Inr:
  assumes "apply_to_link_token s src dst l = Inr (s', l')"
  obtains s1 d1 d2 where "deploy_token_to_source_chain s src (lt_token_id l) d1 = Inr s1"
    "deploy_token_to_destination_chain s1 dst (lt_token_id l) d2 CustomMinter = Inr s'" "l' = l"
  using assms that by (auto simp: apply_to_link_token_def result_simps)

lemma apply_to_hub_Inr:
  assumes "apply_to_hub s src dst m = Inr (s', m')"
  obtains (transfer) t t' where "m = InterchainTransfer t" "m' = InterchainTransfer t'" "apply_to_transfer s src dst t = Inr (s', t')"
  | (deployment) d d' where "m = DeployInterchainToken d" "m' = DeployInterchainToken d'" "apply_to_token_deployment s src dst d = Inr (s', d')"
  | (link) l where "m = LinkToken l" "m' = LinkToken l" "apply_to_link_token s src dst l = Inr (s', l)"
  using assms by (cases m) (auto simp: apply_to_hub_def result_simps elim: apply_to_link_Inr)

lemma apply_to_hub_chains:
  assumes "apply_to_hub s src dst m = Inr x"
  shows "\<exists>cs cd. kv_get (its_chain_configs s) src = Some cs \<and> \<not> cf_frozen cs \<and> kv_get (its_chain_configs s) dst = Some cd \<and> \<not> cf_frozen cd"
  using assms by (auto simp: apply_to_hub_def result_simps)

lemma execute_message_Inr:
  assumes "execute_message env s x = Inr (s', r)"
  obtains (hub) dst m m' payload where "hub_message_from_bytes env s (source_chain (ax_cc_id x)) (ax_payload x) = Inr (SendToHub dst m)"
      "apply_to_hub s (source_chain (ax_cc_id x)) dst m = Inr (s', m')"
      "hub_message_to_bytes env s' dst (ReceiveFromHub (source_chain (ax_cc_id x)) m') = Inr payload"
      "send_to_destination env s' dst payload = Inr (messages r)"
      "events r = [MessageReceived (ax_cc_id x) dst m', make_message_event (ie_keccak256 env) dst m']"
  | (metadata) tm where "hub_message_from_bytes env s (source_chain (ax_cc_id x)) (ax_payload x) = Inr (RegisterTokenMetadata tm)"
      "ensure_chain_not_frozen s (source_chain (ax_cc_id x)) = Inr ()"
      "register_custom_token s (source_chain (ax_cc_id x)) tm = Inr s'" "messages r = []"
      "events r = [TokenMetadataRegistered (source_chain (ax_cc_id x)) (rm_token_address tm) (rm_decimals tm)]"
proof -
  from assms obtain h where h: "hub_message_from_bytes env s (source_chain (ax_cc_id x)) (ax_payload x) = Inr h"
    and run: "(case h of SendToHub dst m \<Rightarrow> execute_message_on_hub env s (ax_cc_id x) dst m
       | RegisterTokenMetadata tm \<Rightarrow> execute_register_token_metadata s (source_chain (ax_cc_id x)) tm
       | _ \<Rightarrow> fail InvalidMessageType) = Inr (s', r)" by (auto simp: execute_message_def and_then_Inr_iff)
  show ?thesis
  proof (cases h)
    case (SendToHub dst m)
    then show ?thesis using run h hub by (auto simp: execute_message_on_hub_def and_then_Inr_iff)
  next
    case (RegisterTokenMetadata tm)
    then show ?thesis using run h metadata by (auto simp: execute_register_token_metadata_def and_then_Inr_iff)
  qed (use run in simp)
qed

subsection \<open>The invariant\<close>

lemma its_inv_instance:
  assumes "its_inv s" "kv_get (its_token_configs s) t \<noteq> None" "kv_get (its_chain_configs s) c \<noteq> None"
  shows "its_inv (save_token_instance s c t i)"
  using assms by (auto simp: its_inv_def save_token_instance_def)

lemma its_inv_token_config:
  assumes "its_inv s" "kv_get (its_chain_configs s) (tk_origin_chain config) \<noteq> None"
  shows "its_inv (save_token_config s t config)"
  using assms by (auto simp: its_inv_def save_token_config_def)

lemma its_inv_chain_config:
  assumes "its_inv s"
  shows "its_inv (save_chain_config s c config)"
  using assms unfolding its_inv_def save_chain_config_def by (simp; blast)

lemma its_inv_custom_token:
  assumes "its_inv s" "kv_get (its_chain_configs s) c \<noteq> None"
  shows "its_inv (save_custom_token_metadata s c m)"
  using assms by (auto simp: its_inv_def save_custom_token_metadata_def)

lemma its_inv_killswitch: "its_inv s \<Longrightarrow> its_inv (s\<lparr>its_killswitch := Some k\<rparr>)"
  unfolding its_inv_def by simp

lemma save_fields [simp]:
  "its_token_configs (save_token_instance s c t i) = its_token_configs s"
  "its_chain_configs (save_token_instance s c t i) = its_chain_configs s"
  "its_chain_configs (save_token_config s t config) = its_chain_configs s"
  "its_token_instances (save_token_config s t config) = its_token_instances s"
  "its_token_configs (save_token_config s t config) = kv_set t config (its_token_configs s)"
  "its_token_instances (save_token_instance s c t i) = kv_set (c, t) i (its_token_instances s)"
  "its_token_instances (save_chain_config s c cc) = its_token_instances s"
  "its_token_instances (save_custom_token_metadata s c m) = its_token_instances s"
  "its_token_configs (save_custom_token_metadata s c m) = its_token_configs s"
  "its_chain_configs (save_custom_token_metadata s c m) = its_chain_configs s"
  "its_token_configs (save_chain_config s c cc) = its_token_configs s"
  "its_chain_configs (save_chain_config s c cc) = kv_set c cc (its_chain_configs s)"
  by (simp_all add: save_token_instance_def save_token_config_def save_chain_config_def save_custom_token_metadata_def)

lemma deploy_source_inv:
  assumes "its_inv s" "deploy_token_to_source_chain s c t d = Inr s'" "kv_get (its_chain_configs s) c \<noteq> None"
  shows "its_inv s' \<and> kv_get (its_token_configs s') t \<noteq> None \<and> its_chain_configs s' = its_chain_configs s"
  using deploy_source_Inr [OF assms(2)] assms(1,3) by (auto intro!: its_inv_instance its_inv_token_config)

lemma deploy_pair_inv:
  assumes "its_inv s" "kv_get (its_chain_configs s) src \<noteq> None" "kv_get (its_chain_configs s) dst \<noteq> None"
    and "deploy_token_to_source_chain s src t d = Inr s1" "deploy_token_to_destination_chain s1 dst t d' k = Inr s'"
  shows "its_inv s'"
  using deploy_source_inv [OF assms(1,4,2)] deploy_destination_Inr [OF assms(5)] assms(3) by (auto intro: its_inv_instance)

lemma its_inv_configured:
  "its_inv s \<Longrightarrow> kv_get (its_token_instances s) (c, t) = Some i \<Longrightarrow> kv_get (its_token_configs s) t \<noteq> None"
  unfolding its_inv_def by blast

lemma its_inv_update:
  assumes "its_inv s" "kv_get (its_token_instances s) (c, t) = Some i"
  shows "its_inv (save_token_instance s c t i')"
proof (rule its_inv_instance [OF assms(1)])
  show "kv_get (its_token_configs s) t \<noteq> None" "kv_get (its_chain_configs s) c \<noteq> None"
    using assms unfolding its_inv_def by blast+
qed

lemma apply_to_hub_inv:
  assumes "its_inv s" "apply_to_hub s src dst m = Inr (s', m')"
  shows "its_inv s'"
proof -
  from apply_to_hub_chains [OF assms(2)] have chains: "kv_get (its_chain_configs s) src \<noteq> None" "kv_get (its_chain_configs s) dst \<noteq> None" by auto
  from assms(2) show ?thesis
  proof (cases rule: apply_to_hub_Inr)
    case (transfer tr tr')
    from transfer(3) obtain si supply1 di supply2 s1 where si: "kv_get (its_token_instances s) (src, it_token_id tr) = Some si"
      and s1: "s1 = save_token_instance s src (it_token_id tr) (si\<lparr>ti_supply := supply1\<rparr>)"
      and s': "s' = save_token_instance s1 dst (it_token_id tr) (di\<lparr>ti_supply := supply2\<rparr>)" by (rule apply_to_transfer_Inr)
    show ?thesis unfolding s' s1 using its_inv_configured [OF assms(1) si] assms(1) chains by (simp add: its_inv_instance)
  next
    case (deployment d d')
    from deployment(3) show ?thesis by (rule apply_to_deployment_Inr) (rule deploy_pair_inv [OF assms(1) chains])
  next
    case (link l)
    from link(3) show ?thesis by (rule apply_to_link_Inr) (rule deploy_pair_inv [OF assms(1) chains])
  qed
qed

lemma register_custom_token_Inr:
  assumes "register_custom_token s c m = Inr s'"
  shows "s' = s \<or> s' = save_custom_token_metadata s c m \<and> kv_get (its_custom_tokens s) (c, rm_token_address m) = None"
  using assms by (auto simp: register_custom_token_def may_load_custom_token_def result_simps split: option.splits)

lemma register_p2p_Inr:
  assumes "register_p2p_token_instance s t c origin d supply = Inr (s', r)"
  obtains s1 where "kv_get (its_chain_configs s) c \<noteq> None" "kv_get (its_chain_configs s) origin \<noteq> None"
    "s1 = s \<and> kv_get (its_token_configs s) t = Some \<lparr>tk_origin_chain = origin\<rparr>
       \<or> s1 = save_token_config s t \<lparr>tk_origin_chain = origin\<rparr> \<and> kv_get (its_token_configs s) t = None"
    "kv_get (its_token_instances s) (c, t) = None"
    "s' = save_token_instance s1 c t \<lparr>ti_supply = supply, ti_decimals = d\<rparr>" "r = response_new"
proof -
  from assms obtain s1 where chains: "kv_get (its_chain_configs s) c \<noteq> None" "kv_get (its_chain_configs s) origin \<noteq> None"
    and s1: "(case kv_get (its_token_configs s) t of
         Some config \<Rightarrow> and_then (ensure (tk_origin_chain config = origin) (WrongOriginChain t (tk_origin_chain config))) (\<lambda>_. Ok s)
       | None \<Rightarrow> Ok (save_token_config s t \<lparr>tk_origin_chain = origin\<rparr>)) = (Inr s1 :: (its_error, its_state) result)"
    and rest: "may_load_token_instance s1 c t = None" "s' = save_token_instance s1 c t \<lparr>ti_supply = supply, ti_decimals = d\<rparr>" "r = response_new"
    by (auto simp: register_p2p_token_instance_def ensure_chain_is_registered_def result_simps split: if_splits)
  have "s1 = s \<and> kv_get (its_token_configs s) t = Some \<lparr>tk_origin_chain = origin\<rparr>
       \<or> s1 = save_token_config s t \<lparr>tk_origin_chain = origin\<rparr> \<and> kv_get (its_token_configs s) t = None"
    using s1 by (auto simp: result_simps split: option.splits)
  moreover from this rest(1) have "kv_get (its_token_instances s) (c, t) = None" by (auto simp: may_load_token_instance_def)
  ultimately show ?thesis using that chains rest by blast
qed

lemma modify_supply_Inr:
  assumes "modify_supply s c t m = Inr (s', r)"
  obtains i spl spl' where "kv_get (its_token_instances s) (c, t) = Some i"
    "spl = (if ti_supply i = Untracked then Tracked 0 else ti_supply i)"
    "(case m of IncreaseSupply a \<Rightarrow> supply_checked_add spl a | DecreaseSupply a \<Rightarrow> supply_checked_sub spl a) = Some spl'"
    "s' = save_token_instance s c t (i\<lparr>ti_supply := spl'\<rparr>)" "messages r = []" "events r = [SupplyModified t c m]"
  using assms that
  by (cases m) (auto simp: modify_supply_def may_load_token_instance_def Let_def result_simps)

lemma chain_operations:
  "its_register_chain env s input = Inr s' \<Longrightarrow> kv_get (its_chain_configs s) (cg_chain input) = None
     \<and> (\<exists>translator. s' = save_chain_config s (cg_chain input) \<lparr>cf_truncation = cg_truncation input,
          cf_its_address = cg_its_edge_contract input, cf_frozen = False, cf_msg_translator = translator\<rparr>)"
  "update_chain env s input = Inr s' \<Longrightarrow> kv_get (its_chain_configs s) (cg_chain input) \<noteq> None
     \<and> (\<exists>translator. s' = save_chain_config s (cg_chain input) \<lparr>cf_truncation = cg_truncation input,
          cf_its_address = cg_its_edge_contract input, cf_frozen = False, cf_msg_translator = translator\<rparr>)"
  by (auto simp: its_register_chain_def update_chain_def chain_config_new_def result_simps split: option.splits)

text \<open>A property of the state that a saved chain configuration keeps is kept by both operations on lists of chains.\<close>

lemma chain_lists_keep:
  assumes "\<And>s input config. input \<in> set inputs \<Longrightarrow> P s \<Longrightarrow> P (save_chain_config s (cg_chain input) config)" and "P s"
  shows "register_chains env s inputs = Inr (s', r) \<Longrightarrow> P s' \<and> r = response_new"
    and "update_chains env s inputs = Inr (s', r) \<Longrightarrow> P s' \<and> r = response_new"
proof -
  have "try_fold f s inputs = Inr s1 \<Longrightarrow> P s1"
    if "\<And>s input s'. f s input = Inr s' \<Longrightarrow> \<exists>config. s' = save_chain_config s (cg_chain input) config"
    for f :: "its_state \<Rightarrow> chain_config_msg \<Rightarrow> (its_error, its_state) result" and s1
    using assms
  proof (induction inputs arbitrary: s)
    case (Cons input inputs)
    then obtain s2 where s2: "f s input = Inr s2" and rest: "try_fold f s2 inputs = Inr s1" by (auto simp: result_simps)
    from that [OF s2] Cons.prems(2,3) have "P s2" by auto
    then show ?case using Cons.IH [OF rest] Cons.prems(2) by simp
  qed simp
  note fold = this [of "its_register_chain env"] this [of "update_chain env"]
  show "register_chains env s inputs = Inr (s', r) \<Longrightarrow> P s' \<and> r = response_new"
    "update_chains env s inputs = Inr (s', r) \<Longrightarrow> P s' \<and> r = response_new"
    using fold chain_operations unfolding register_chains_def update_chains_def by (auto simp: and_then_Inr_iff) blast+
qed

text \<open>The messages that concern no token.\<close>

fun administrative :: "its_msg \<Rightarrow> bool" where
  "administrative (ItsExecute _) = False"
| "administrative (RegisterP2pTokenInstance _ _ _ _ _) = False"
| "administrative (ModifySupply _ _ _) = False"
| "administrative _ = True"

lemma administrative_Inr:
  assumes "its_dispatch env s msg = Inr (s', r)" "administrative msg"
  shows "its_token_instances s' = its_token_instances s \<and> its_token_configs s' = its_token_configs s \<and> messages r = []
    \<and> set (events r) \<subseteq> {EvExecutionDisabled, EvExecutionEnabled}"
proof (cases msg)
  case (RegisterChains inputs)
  then show ?thesis using assms(1) chain_lists_keep(1) [of inputs "\<lambda>x. its_token_instances x = its_token_instances s
      \<and> its_token_configs x = its_token_configs s" s env s' r] by (simp add: map_err_Inr_iff response_new_def)
next
  case (UpdateChains inputs)
  then show ?thesis using assms(1) chain_lists_keep(2) [of inputs "\<lambda>x. its_token_instances x = its_token_instances s
      \<and> its_token_configs x = its_token_configs s" s env s' r] by (simp add: map_err_Inr_iff response_new_def)
qed (use assms in \<open>auto simp: its_freeze_chain_def state_freeze_chain_def its_unfreeze_chain_def state_unfreeze_chain_def
    disable_execution_def enable_execution_def killswitch_engage_def killswitch_disengage_def response_new_def result_simps
    split: option.splits killswitch.splits\<close>)

lemma its_tx_inv:
  assumes "its_inv s" "its_tx s call = Inr (s', r)"
  shows "its_inv s'"
proof -
  obtain env a msg where call: "call = (env, a, msg)" by (cases call)
  note run = its_tx_Inr(1) [OF assms(2) [unfolded call]]
  show ?thesis
  proof (cases msg)
    case (ItsExecute x)
    then have "execute_message env s x = Inr (s', r)" using run by (simp add: map_err_Inr_iff)
    then show ?thesis
    proof (cases rule: execute_message_Inr)
      case hub
      then show ?thesis using apply_to_hub_inv [OF assms(1)] by blast
    next
      case (metadata tm)
      then show ?thesis using assms(1) register_custom_token_Inr [OF metadata(3)]
        by (auto simp: ensure_chain_not_frozen_Inr intro: its_inv_custom_token)
    qed
  next
    case (RegisterP2pTokenInstance c t origin d spl)
    then have "register_p2p_token_instance s t c origin d spl = Inr (s', r)" using run by (simp add: map_err_Inr_iff)
    then show ?thesis by (rule register_p2p_Inr) (use assms(1) in \<open>auto intro!: its_inv_instance its_inv_token_config\<close>)
  next
    case (ModifySupply c t m)
    then have "modify_supply s c t m = Inr (s', r)" using run by (simp add: map_err_Inr_iff)
    then show ?thesis
      by (rule modify_supply_Inr) (use its_inv_update [OF assms(1)] in simp)
  next
    case (RegisterChains inputs)
    then show ?thesis using run chain_lists_keep(1) [of inputs its_inv, OF its_inv_chain_config assms(1)] by (auto simp: map_err_Inr_iff)
  next
    case (UpdateChains inputs)
    then show ?thesis using run chain_lists_keep(2) [of inputs its_inv, OF its_inv_chain_config assms(1)] by (auto simp: map_err_Inr_iff)
  next
    case (FreezeChain c)
    then show ?thesis using run assms(1)
      by (auto simp: its_freeze_chain_def state_freeze_chain_def result_simps intro: its_inv_chain_config split: option.splits)
  next
    case (UnfreezeChain c)
    then show ?thesis using run assms(1)
      by (auto simp: its_unfreeze_chain_def state_unfreeze_chain_def result_simps intro: its_inv_chain_config split: option.splits)
  qed (use run its_inv_killswitch [OF assms(1)] in \<open>auto simp: disable_execution_def enable_execution_def killswitch_engage_def
      killswitch_disengage_def result_simps split: option.splits killswitch.splits\<close>)
qed

lemma its_start_inv: "its_instantiate av admin governance operator gateway = Inr (s, r) \<Longrightarrow> its_inv s"
  by (auto simp: its_instantiate_def its_inv_def killswitch_init_def result_simps)

lemma its_reachable_inv: "its_reachable s \<Longrightarrow> its_inv s"
  by (induction rule: its_reachable.induct) (auto intro: its_start_inv its_tx_inv)

interpretation its_machine: contract_machine its_tx its_inv "\<lambda>_. True"
  by unfold_locales (rule its_tx_inv)

subsection \<open>The ledger\<close>

lemma ledger_step_same: "its_token_instances s' = its_token_instances s \<Longrightarrow> ledger_step s s' c t 0 0"
  by (simp add: ledger_step_def)

lemma ledger_step_trans:
  assumes "ledger_step s s1 c t credit debit" "ledger_step s1 s' c t credit' debit'"
  shows "ledger_step s s' c t (credit + credit') (debit + debit')"
  unfolding ledger_step_def
proof (intro allI impI)
  fix i assume "kv_get (its_token_instances s) (c, t) = Some i"
  with assms(1) obtain i1 where i1: "kv_get (its_token_instances s1) (c, t) = Some i1" "ti_decimals i1 = ti_decimals i"
    and x: "\<forall>x. ti_supply i = Tracked x \<longrightarrow> (\<exists>y. ti_supply i1 = Tracked y \<and> unat x + credit = unat y + debit)"
    unfolding ledger_step_def by blast
  from assms(2) i1(1) obtain i2 where i2: "kv_get (its_token_instances s') (c, t) = Some i2" "ti_decimals i2 = ti_decimals i1"
    and y: "\<forall>x. ti_supply i1 = Tracked x \<longrightarrow> (\<exists>y. ti_supply i2 = Tracked y \<and> unat x + credit' = unat y + debit')"
    unfolding ledger_step_def by blast
  have "\<exists>z. ti_supply i2 = Tracked z \<and> unat w + (credit + credit') = unat z + (debit + debit')" if "ti_supply i = Tracked w" for w
  proof -
    from x that obtain v where v: "ti_supply i1 = Tracked v" "unat w + credit = unat v + debit" by blast
    with y obtain z where "ti_supply i2 = Tracked z" "unat v + credit' = unat z + debit'" by blast
    with v(2) show ?thesis by simp
  qed
  then show "\<exists>i'. kv_get (its_token_instances s') (c, t) = Some i' \<and> ti_decimals i' = ti_decimals i
      \<and> (\<forall>x. ti_supply i = Tracked x \<longrightarrow> (\<exists>y. ti_supply i' = Tracked y \<and> unat x + (credit + credit') = unat y + (debit + debit')))"
    using i1(2) i2 by auto
qed

lemma ledger_step_sub:
  assumes "kv_get (its_token_instances s) (c', t') = Some i" "supply_checked_sub (ti_supply i) a = Some spl"
  shows "ledger_step s (save_token_instance s c' t' (i\<lparr>ti_supply := spl\<rparr>)) c t 0 (if c' = c \<and> t' = t then unat a else 0)"
  using assms by (cases "ti_supply i") (auto simp: ledger_step_def dest: checked_sub_unat)

lemma ledger_step_add:
  assumes "kv_get (its_token_instances s) (c', t') = Some i" "supply_checked_add (ti_supply i) a = Some spl"
  shows "ledger_step s (save_token_instance s c' t' (i\<lparr>ti_supply := spl\<rparr>)) c t (if c' = c \<and> t' = t then unat a else 0) 0"
  using assms by (cases "ti_supply i") (auto simp: ledger_step_def dest: checked_add_unat)

lemma ledger_step_new:
  assumes "kv_get (its_token_instances s) (c', t') = None" "its_token_instances s' = kv_set (c', t') i (its_token_instances s)"
  shows "ledger_step s s' c t 0 0"
  using assms by (auto simp: ledger_step_def)

lemma ledger_deploy_source:
  assumes "its_inv s" "deploy_token_to_source_chain s c' t' d = Inr s'"
  shows "ledger_step s s' c t 0 0"
proof -
  consider "s' = s" | "kv_get (its_token_configs s) t' = None" "its_token_instances s' = kv_set (c', t') (new_on_origin d) (its_token_instances s)"
    using deploy_source_Inr [OF assms(2)] by auto
  then show ?thesis
  proof cases
    case 2
    then have "kv_get (its_token_instances s) (c', t') = None" using its_inv_configured [OF assms(1)] by fastforce
    then show ?thesis using 2(2) by (rule ledger_step_new)
  qed (simp add: ledger_step_same)
qed

lemma ledger_deploy_pair:
  assumes "its_inv s" "deploy_token_to_source_chain s src t' d = Inr s1" "deploy_token_to_destination_chain s1 dst t' d' k = Inr s'"
  shows "ledger_step s s' c t 0 0"
  using ledger_step_trans [OF ledger_deploy_source [OF assms(1,2)] ledger_step_new [of s1 dst t' s']] deploy_destination_Inr [OF assms(3)]
  by simp

lemma ledger_hub:
  assumes "its_inv s" "apply_to_hub s src dst m = Inr (s', m')"
  shows "ledger_step s s' c t (case m' of InterchainTransfer tr \<Rightarrow> if dst = c \<and> it_token_id tr = t then unat (it_amount tr) else 0 | _ \<Rightarrow> 0)
     (case m of InterchainTransfer tr \<Rightarrow> if src = c \<and> it_token_id tr = t then unat (it_amount tr) else 0 | _ \<Rightarrow> 0)"
  using assms(2)
proof (cases rule: apply_to_hub_Inr)
  case (transfer tr tr')
  from transfer(3) obtain si supply1 di supply2 s1 where
    sub: "kv_get (its_token_instances s) (src, it_token_id tr) = Some si" "supply_checked_sub (ti_supply si) (it_amount tr) = Some supply1"
    and s1: "s1 = save_token_instance s src (it_token_id tr) (si\<lparr>ti_supply := supply1\<rparr>)" and tr': "tr' = tr\<lparr>it_amount := it_amount tr'\<rparr>"
    and add: "kv_get (its_token_instances s1) (dst, it_token_id tr) = Some di" "supply_checked_add (ti_supply di) (it_amount tr') = Some supply2"
    and s': "s' = save_token_instance s1 dst (it_token_id tr) (di\<lparr>ti_supply := supply2\<rparr>)" by (rule apply_to_transfer_Inr)
  have token: "it_token_id tr' = it_token_id tr" by (subst tr') simp
  show ?thesis
    using ledger_step_trans [OF ledger_step_sub [OF sub, of c t, folded s1] ledger_step_add [OF add, of c t, folded s']]
    by (simp add: transfer(1,2) token)
next
  case (deployment d d')
  from deployment(3) show ?thesis
    by (rule apply_to_deployment_Inr) (use ledger_deploy_pair [OF assms(1)] in \<open>simp add: deployment(1,2)\<close>)
next
  case (link l)
  from link(3) show ?thesis by (rule apply_to_link_Inr) (use ledger_deploy_pair [OF assms(1)] in \<open>simp add: link(1,2)\<close>)
qed

lemma ledger_tx:
  assumes "its_inv s" "its_tx s call = Inr (s', r)"
  shows "ledger_step s s' c t (its_credit c t (s, call, r)) (its_debit c t (s, call, r))"
proof -
  obtain env a msg where call: "call = (env, a, msg)" by (cases call)
  note run = its_tx_Inr(1) [OF assms(2) [unfolded call]]
  have quiet: ?thesis if "administrative msg"
  proof -
    from administrative_Inr [OF run that] have "\<forall>e \<in> set (events r). event_credit c t e = 0 \<and> event_debit c t e = 0"
      and same: "its_token_instances s' = its_token_instances s" by auto
    then have "its_credit c t (s, call, r) = 0" "its_debit c t (s, call, r) = 0"
      using that by (auto simp: its_credit_def its_debit_def its_incoming_def call split: its_msg.splits)
    then show ?thesis using same by (simp add: ledger_step_same)
  qed
  show ?thesis
  proof (cases msg)
    case (ItsExecute x)
    then have "execute_message env s x = Inr (s', r)" using run by (simp add: map_err_Inr_iff)
    then show ?thesis
    proof (cases rule: execute_message_Inr)
      case (hub dst m m' payload)
      from ledger_hub [OF assms(1) hub(2), of c t] show ?thesis
        by (cases m; cases m') (simp_all add: call ItsExecute its_credit_def its_debit_def its_incoming_def hub(1,5))
    next
      case (metadata tm)
      then show ?thesis using register_custom_token_Inr [OF metadata(3)]
        by (auto simp: call ItsExecute its_credit_def its_debit_def its_incoming_def intro: ledger_step_same)
    qed
  next
    case (RegisterP2pTokenInstance c' t' origin d spl)
    then have "register_p2p_token_instance s t' c' origin d spl = Inr (s', r)" using run by (simp add: map_err_Inr_iff)
    then have "ledger_step s s' c t 0 0 \<and> events r = []"
      by (rule register_p2p_Inr) (auto intro!: ledger_step_new simp: response_new_def)
    then show ?thesis by (simp add: its_credit_def its_debit_def its_incoming_def call RegisterP2pTokenInstance)
  next
    case (ModifySupply c' t' m)
    then have "modify_supply s c' t' m = Inr (s', r)" using run by (simp add: map_err_Inr_iff)
    then obtain i spl spl' where i: "kv_get (its_token_instances s) (c', t') = Some i"
      and spl: "spl = (if ti_supply i = Untracked then Tracked 0 else ti_supply i)"
      and spl': "(case m of IncreaseSupply a \<Rightarrow> supply_checked_add spl a | DecreaseSupply a \<Rightarrow> supply_checked_sub spl a) = Some spl'"
      and s': "s' = save_token_instance s c' t' (i\<lparr>ti_supply := spl'\<rparr>)" and ev: "events r = [SupplyModified t' c' m]"
      by (rule modify_supply_Inr)
    show ?thesis using i spl spl'
      by (cases m; cases "ti_supply i") (auto simp: its_credit_def its_debit_def its_incoming_def call ModifySupply ev s' ledger_step_def
          dest!: checked_add_unat checked_sub_unat)
  qed (simp_all add: quiet)
qed

lemma ledger_run:
  assumes "its_inv s"
  shows "ledger_step s (run_txs its_tx s calls) c t (sum_list (map (its_credit c t) (its_trace s calls)))
     (sum_list (map (its_debit c t) (its_trace s calls)))"
  using assms
proof (induction calls arbitrary: s)
  case (Cons call calls)
  show ?case
  proof (cases "its_tx s call")
    case (Inr x)
    then obtain s1 r where tx: "its_tx s call = Inr (s1, r)" by (cases x) auto
    show ?thesis using ledger_step_trans [OF ledger_tx [OF Cons.prems tx, of c t] Cons.IH [OF its_tx_inv [OF Cons.prems tx]]] tx by simp
  qed (use Cons in simp)
qed (simp add: ledger_step_same)

text \<open>Without the operator a supply starts at zero or is never tracked, and nothing moves before the deployment.\<close>

fun intervenes :: "string \<Rightarrow> token_id \<Rightarrow> its_call \<Rightarrow> bool" where
  "intervenes c t (env, a, ModifySupply c' t' m) \<longleftrightarrow> c' = c \<and> t' = t"
| "intervenes c t (env, a, RegisterP2pTokenInstance c' t' origin d spl) \<longleftrightarrow> c' = c \<and> t' = t"
| "intervenes c t _ \<longleftrightarrow> False"

definition supply_born :: "its_state \<Rightarrow> its_state \<Rightarrow> string \<Rightarrow> token_id \<Rightarrow> bool" where
  "supply_born s s' c t \<longleftrightarrow> (\<forall>i'. kv_get (its_token_instances s') (c, t) = Some i' \<longrightarrow>
     (case kv_get (its_token_instances s) (c, t) of
        None \<Rightarrow> ti_supply i' = Tracked 0 \<or> ti_supply i' = Untracked
      | Some i \<Rightarrow> ti_supply i = Untracked \<longrightarrow> ti_supply i' = Untracked))"

lemma born_same: "kv_get (its_token_instances s') (c, t) = kv_get (its_token_instances s) (c, t) \<Longrightarrow> supply_born s s' c t"
  by (auto simp: supply_born_def split: option.splits)

lemma born_deploy_pair:
  assumes "its_inv s" "deploy_token_to_source_chain s src t' d = Inr s1" "deploy_token_to_destination_chain s1 dst t' d' k = Inr s'"
  shows "supply_born s s' c t"
proof -
  consider "s1 = s" | "kv_get (its_token_configs s) t' = None" "its_token_instances s1 = kv_set (src, t') (new_on_origin d) (its_token_instances s)"
    using deploy_source_Inr [OF assms(2)] by auto
  then show ?thesis
  proof cases
    case 1
    then show ?thesis using deploy_destination_Inr [OF assms(3)]
      by (auto simp: supply_born_def token_instance_new_def split: option.splits token_deployment_type.splits)
  next
    case 2
    then have "kv_get (its_token_instances s) (c, t') = None" for c using its_inv_configured [OF assms(1)] by fastforce
    then show ?thesis using deploy_destination_Inr [OF assms(3)] 2(2)
      by (auto simp: supply_born_def token_instance_new_def new_on_origin_def split: option.splits token_deployment_type.splits)
  qed
qed

lemma supply_checked_untracked:
  "supply_checked_sub Untracked a = Some x \<Longrightarrow> x = Untracked" "supply_checked_add Untracked a = Some x \<Longrightarrow> x = Untracked"
  by simp_all

lemma born_hub:
  assumes "its_inv s" "apply_to_hub s src dst m = Inr (s', m')"
  shows "supply_born s s' c t"
  using assms(2)
proof (cases rule: apply_to_hub_Inr)
  case (transfer tr tr')
  from transfer(3) obtain si supply1 di supply2 s1 where
    si: "kv_get (its_token_instances s) (src, it_token_id tr) = Some si" "supply_checked_sub (ti_supply si) (it_amount tr) = Some supply1"
    and s1: "s1 = save_token_instance s src (it_token_id tr) (si\<lparr>ti_supply := supply1\<rparr>)"
    and di: "kv_get (its_token_instances s1) (dst, it_token_id tr) = Some di" "supply_checked_add (ti_supply di) (it_amount tr') = Some supply2"
    and s': "s' = save_token_instance s1 dst (it_token_id tr) (di\<lparr>ti_supply := supply2\<rparr>)" by (rule apply_to_transfer_Inr)
  show ?thesis using si di by (auto simp: supply_born_def s' s1 split: if_splits option.splits)
next
  case (deployment d d')
  from deployment(3) show ?thesis by (rule apply_to_deployment_Inr) (rule born_deploy_pair [OF assms(1)])
next
  case (link l)
  from link(3) show ?thesis by (rule apply_to_link_Inr) (rule born_deploy_pair [OF assms(1)])
qed

lemma born_tx:
  assumes "its_inv s" "its_tx s call = Inr (s', r)" "\<not> intervenes c t call"
  shows "supply_born s s' c t"
proof -
  obtain env a msg where call: "call = (env, a, msg)" by (cases call)
  note run = its_tx_Inr(1) [OF assms(2) [unfolded call]]
  show ?thesis
  proof (cases msg)
    case (ItsExecute x)
    then have "execute_message env s x = Inr (s', r)" using run by (simp add: map_err_Inr_iff)
    then show ?thesis
    proof (cases rule: execute_message_Inr)
      case hub
      then show ?thesis using born_hub [OF assms(1)] by blast
    next
      case (metadata tm)
      then show ?thesis using register_custom_token_Inr [OF metadata(3)] by (auto intro: born_same)
    qed
  next
    case (RegisterP2pTokenInstance c' t' origin d spl)
    then have "register_p2p_token_instance s t' c' origin d spl = Inr (s', r)" using run by (simp add: map_err_Inr_iff)
    then show ?thesis by (rule register_p2p_Inr) (use assms(3) in \<open>auto simp: call RegisterP2pTokenInstance intro!: born_same\<close>)
  next
    case (ModifySupply c' t' m)
    then have "modify_supply s c' t' m = Inr (s', r)" using run by (simp add: map_err_Inr_iff)
    then show ?thesis by (rule modify_supply_Inr) (use assms(3) in \<open>auto simp: call ModifySupply intro!: born_same\<close>)
  qed (use administrative_Inr [OF run] in \<open>auto intro!: born_same\<close>)
qed

lemma no_flow_before_deployment:
  assumes "its_tx s call = Inr (s', r)" "kv_get (its_token_instances s) (c, t) = None"
  shows "its_credit c t (s, call, r) = 0 \<and> its_debit c t (s, call, r) = 0"
proof -
  obtain env a msg where call: "call = (env, a, msg)" by (cases call)
  note run = its_tx_Inr(1) [OF assms(1) [unfolded call]]
  have quiet: ?thesis if "\<And>x. msg \<noteq> ItsExecute x" "\<forall>e \<in> set (events r). event_credit c t e = 0 \<and> event_debit c t e = 0"
    using that by (auto simp: its_credit_def its_debit_def its_incoming_def call split: its_msg.splits)
  show ?thesis
  proof (cases msg)
    case (ItsExecute x)
    then have "execute_message env s x = Inr (s', r)" using run by (simp add: map_err_Inr_iff)
    then show ?thesis
    proof (cases rule: execute_message_Inr)
      case (hub dst m m' payload)
      from hub(2) show ?thesis
      proof (cases rule: apply_to_hub_Inr)
        case (transfer tr tr')
        from transfer(3) obtain si supply1 di supply2 s1 where
          si: "kv_get (its_token_instances s) (source_chain (ax_cc_id x), it_token_id tr) = Some si"
          and s1: "s1 = save_token_instance s (source_chain (ax_cc_id x)) (it_token_id tr) (si\<lparr>ti_supply := supply1\<rparr>)"
          and tr': "tr' = tr\<lparr>it_amount := it_amount tr'\<rparr>" and di: "kv_get (its_token_instances s1) (dst, it_token_id tr) = Some di"
          by (rule apply_to_transfer_Inr)
        have token: "it_token_id tr' = it_token_id tr" by (subst tr') simp
        have "kv_get (its_token_instances s) (dst, it_token_id tr) \<noteq> None" using si di by (auto simp: s1 split: if_splits)
        then show ?thesis using si assms(2) token
          by (auto simp: its_credit_def its_debit_def its_incoming_def call ItsExecute hub(1,5) transfer(1,2))
      qed (simp_all add: its_credit_def its_debit_def its_incoming_def call ItsExecute hub(1,5))
    qed (simp add: its_credit_def its_debit_def its_incoming_def call ItsExecute)
  next
    case (ModifySupply c' t' m)
    then have "modify_supply s c' t' m = Inr (s', r)" using run by (simp add: map_err_Inr_iff)
    then show ?thesis by (rule modify_supply_Inr)
      (cases m, use assms(2) in \<open>auto simp: its_credit_def its_debit_def its_incoming_def call ModifySupply\<close>)
  next
    case (RegisterP2pTokenInstance c' t' origin d spl)
    then have "register_p2p_token_instance s t' c' origin d spl = Inr (s', r)" using run by (simp add: map_err_Inr_iff)
    then show ?thesis by (rule register_p2p_Inr) (intro quiet, simp_all add: RegisterP2pTokenInstance response_new_def)
  qed (intro quiet; use administrative_Inr [OF run] in auto)+
qed

subsection \<open>Amounts\<close>

lemma unat_u32_of_num_bits: "unat (u32_of_num_bits b) = unat b + 1"
proof -
  have "unat b < 2 ^ 8" using unat_less_width [of b] by simp
  then show ?thesis by (simp add: u32_of_num_bits_def unat_word_ariths unsigned_ucast_eq take_bit_nat_eq_self)
qed

lemma amount_fits:
  assumes "\<not> amount_overflows a b"
  shows "unat a < 2 ^ (unat b + 1)"
proof (cases "unat b + 1 < 256")
  case True
  then have "drop_bit (unat b + 1) a = 0"
    using assms by (simp add: amount_overflows_def checked_shr_def unat_u32_of_num_bits word_gt_0)
  then have "unat a div 2 ^ (unat b + 1) = 0" by (metis drop_bit_eq_div unat_0 unat_drop_bit_eq)
  then show ?thesis by (simp add: div_eq_0_iff)
next
  case False
  moreover have "unat b < 256" using unat_less_width [of b] by simp
  ultimately have "unat b + 1 = 256" by simp
  then show ?thesis using unat_less_width [of a] by simp
qed

lemma checked_pow_unat: "checked_pow (b :: 'w::len word) n = Some p \<Longrightarrow> unat p = unat b ^ unat n"
proof -
  assume "checked_pow b n = Some p"
  then have p: "p = b ^ unat n" and fits: "unat b ^ unat n < 2 ^ LENGTH('w)" by (auto simp: checked_pow_def split: if_splits)
  have "p = of_nat (unat b ^ unat n)" by (simp add: p)
  then have "unat p = take_bit LENGTH('w) (unat b ^ unat n)" by (simp only: unsigned_of_nat of_nat_id)
  then show ?thesis using fits by (simp add: take_bit_nat_eq_self)
qed

text \<open>The amount on the destination chain is the same value in the decimals of that chain, rounded down.\<close>

definition same_value :: "u256 \<Rightarrow> u8 \<Rightarrow> u256 \<Rightarrow> u8 \<Rightarrow> bool" where
  "same_value a da b db \<longleftrightarrow> unat b * 10 ^ unat da \<le> unat a * 10 ^ unat db \<and> unat a * 10 ^ unat db < (unat b + 1) * 10 ^ unat da"

lemma scale_down:
  assumes "db < da" "unat p = 10 ^ (unat da - unat db)"
  shows "same_value a da (a div p) db"
proof -
  let ?q = "(10 :: nat) ^ (unat da - unat db)"
  have da: "(10 :: nat) ^ unat da = ?q * 10 ^ unat db"
    using assms(1) by (simp add: word_less_nat_alt flip: power_add)
  have b: "unat (a div p) = unat a div ?q" using assms(2) by (simp add: unat_div)
  have "unat a div ?q * ?q \<le> unat a" "unat a < (unat a div ?q + 1) * ?q"
    by (simp, metis add.commute div_less_iff_less_mult less_add_one mult.commute plus_1_eq_Suc zero_less_numeral zero_less_power)
  then have "unat a div ?q * ?q * 10 ^ unat db \<le> unat a * 10 ^ unat db" "unat a * 10 ^ unat db < (unat a div ?q + 1) * ?q * 10 ^ unat db"
    by (simp_all only: mult_le_mono1 mult_less_mono1 zero_less_power zero_less_numeral)
  then show ?thesis unfolding same_value_def b da by (simp only: mult.assoc conj_absorb)
qed

lemma scale_up:
  assumes "da < db" "unat p = 10 ^ (unat db - unat da)" "unat b = unat a * unat p"
  shows "same_value a da b db"
proof -
  have "(10 :: nat) ^ unat db = 10 ^ (unat db - unat da) * 10 ^ unat da"
    using assms(1) by (simp add: word_less_nat_alt flip: power_add)
  then have "unat b * 10 ^ unat da = unat a * 10 ^ unat db" using assms(2,3) by simp
  then show ?thesis by (simp add: same_value_def)
qed

lemma unat_abs_diff: "unat (ucast (abs_diff a b) :: u32) = (if a < b then unat b - unat a else unat a - unat b)"
proof -
  have "unat a < 256" "unat b < 256" using unat_less_width [of a] unat_less_width [of b] by simp_all
  then have "take_bit 32 (unat b - unat a) = unat b - unat a" "take_bit 32 (unat a - unat b) = unat a - unat b"
    by (simp_all add: take_bit_nat_eq_self)
  then show ?thesis by (simp add: abs_diff_def unsigned_ucast_eq unat_sub word_le_nat_alt word_less_nat_alt not_less)
qed

lemma destination_amount_Inr:
  assumes "destination_amount s src dst t a = Inr a'"
  obtains si di where "kv_get (its_token_instances s) (src, t) = Some si" "kv_get (its_token_instances s) (dst, t) = Some di"
    "same_value a (ti_decimals si) a' (ti_decimals di)"
    "ti_decimals si = ti_decimals di \<and> a' = a \<or> a' \<noteq> 0 \<and> (\<exists>config. kv_get (its_chain_configs s) dst = Some config
       \<and> unat a' < 2 ^ (unat (tr_max_uint_bits (cf_truncation config)) + 1))"
proof -
  from assms obtain si di where inst: "kv_get (its_token_instances s) (src, t) = Some si" "kv_get (its_token_instances s) (dst, t) = Some di"
    by (auto simp: destination_amount_def try_load_token_instance_def may_load_token_instance_def result_simps)
  show ?thesis
  proof (cases "ti_decimals si = ti_decimals di")
    case True
    then have "a' = a" using assms inst by (auto simp: destination_amount_def try_load_token_instance_def may_load_token_instance_def result_simps)
    then show ?thesis using that inst True by (simp add: same_value_def)
  next
    case False
    then obtain config p where config: "kv_get (its_chain_configs s) dst = Some config"
      and p: "checked_pow 10 (ucast (abs_diff (ti_decimals si) (ti_decimals di))) = Some p"
      and a': "(if ti_decimals si > ti_decimals di then checked_div a p else checked_mul a p) = Some a'"
      and bits: "\<not> amount_overflows a' (tr_max_uint_bits (cf_truncation config))" and nz: "a' \<noteq> 0"
      using assms inst by (auto simp: destination_amount_def try_load_token_instance_def may_load_token_instance_def load_chain_config_def
          Let_def nonempty_uint256_try_from_def result_simps split: if_splits)
    note pow = checked_pow_unat [OF p, unfolded unat_abs_diff]
    have "same_value a (ti_decimals si) a' (ti_decimals di)"
    proof (cases "ti_decimals di < ti_decimals si")
      case True
      then show ?thesis using a' pow scale_down [OF True, of p a] by (auto simp: checked_div_def split: if_splits)
    next
      case False
      then have less: "ti_decimals si < ti_decimals di" using \<open>ti_decimals si \<noteq> ti_decimals di\<close> by simp
      have "unat a' = unat a * unat p" using a' False by (auto dest: checked_mul_unat)
      then show ?thesis using scale_up [OF less, of p a' a] pow less by simp
    qed
    then show ?thesis using that inst config nz amount_fits [OF bits] by blast
  qed
qed

subsection \<open>Frozen chains\<close>

definition frozen_on :: "its_state \<Rightarrow> string \<Rightarrow> bool" where
  "frozen_on s c \<longleftrightarrow> (\<exists>config. kv_get (its_chain_configs s) c = Some config \<and> cf_frozen config)"

fun its_unfreezes :: "string \<Rightarrow> its_call \<Rightarrow> bool" where
  "its_unfreezes c (env, a, UnfreezeChain c') \<longleftrightarrow> c' = c"
| "its_unfreezes c (env, a, UpdateChains inputs) \<longleftrightarrow> c \<in> cg_chain ` set inputs"
| "its_unfreezes c _ \<longleftrightarrow> False"

definition instance_on :: "its_state \<Rightarrow> string \<Rightarrow> token_id \<Rightarrow> token_instance option" where
  "instance_on s c t = kv_get (its_token_instances s) (c, t)"

lemma apply_to_hub_frame:
  assumes "apply_to_hub s src dst m = Inr (s', m')"
  shows "its_chain_configs s' = its_chain_configs s" and "c \<noteq> src \<Longrightarrow> c \<noteq> dst \<Longrightarrow> instance_on s' c t = instance_on s c t"
proof -
  have deploy: "its_chain_configs s' = its_chain_configs s \<and> (c \<noteq> src \<longrightarrow> c \<noteq> dst \<longrightarrow> instance_on s' c t = instance_on s c t)"
    if "deploy_token_to_source_chain s src t' d = Inr s1" "deploy_token_to_destination_chain s1 dst t' d' k = Inr s'" for t' d s1 d' k
    using deploy_source_Inr [OF that(1)] deploy_destination_Inr [OF that(2)] by (auto simp: instance_on_def)
  have "its_chain_configs s' = its_chain_configs s \<and> (c \<noteq> src \<longrightarrow> c \<noteq> dst \<longrightarrow> instance_on s' c t = instance_on s c t)"
    using assms
  proof (cases rule: apply_to_hub_Inr)
    case (transfer tr tr')
    from transfer(3) show ?thesis by (rule apply_to_transfer_Inr) (simp add: instance_on_def)
  next
    case (deployment d d')
    from deployment(3) show ?thesis by (rule apply_to_deployment_Inr) (rule deploy)
  next
    case (link l)
    from link(3) show ?thesis by (rule apply_to_link_Inr) (rule deploy)
  qed
  then show "its_chain_configs s' = its_chain_configs s" "c \<noteq> src \<Longrightarrow> c \<noteq> dst \<Longrightarrow> instance_on s' c t = instance_on s c t" by auto
qed

lemma frozen_not_applied:
  assumes "frozen_on s c" "apply_to_hub s src dst m = Inr x"
  shows "src \<noteq> c \<and> dst \<noteq> c"
  using apply_to_hub_chains [OF assms(2)] assms(1) by (auto simp: frozen_on_def)

lemma register_chains_frozen:
  assumes "register_chains env s inputs = Inr (s', r)" "frozen_on s c"
  shows "frozen_on s' c"
proof -
  from assms(1) have "try_fold (its_register_chain env) s inputs = Inr s'" by (auto simp: register_chains_def and_then_Inr_iff)
  then show ?thesis by (rule try_fold_invariant) (use assms(2) in \<open>auto simp: frozen_on_def dest!: chain_operations(1)\<close>)
qed

lemma frozen_tx:
  assumes "frozen_on s c" "its_tx s call = Inr (s', r)" "\<not> its_unfreezes c call"
  shows "frozen_on s' c" and "call = (env', a', ItsExecute x') \<Longrightarrow> source_chain (ax_cc_id x') \<noteq> c \<and> (\<forall>i m. MessageReceived i c m \<notin> set (events r))"
    and "\<not> intervenes c t call \<Longrightarrow> instance_on s' c t = instance_on s c t"
proof -
  obtain env a msg where call: "call = (env, a, msg)" by (cases call)
  note run = its_tx_Inr(1) [OF assms(2) [unfolded call]]
  have "frozen_on s' c \<and> (\<forall>x'. msg = ItsExecute x' \<longrightarrow> source_chain (ax_cc_id x') \<noteq> c \<and> (\<forall>i m. MessageReceived i c m \<notin> set (events r)))
    \<and> (\<not> intervenes c t call \<longrightarrow> instance_on s' c t = instance_on s c t)"
  proof (cases msg)
    case (ItsExecute x)
    then have "execute_message env s x = Inr (s', r)" using run by (simp add: map_err_Inr_iff)
    then show ?thesis
    proof (cases rule: execute_message_Inr)
      case (hub dst m m' payload)
      have "MessageReceived i c y \<noteq> make_message_event (ie_keccak256 env) dst m'" for i y by (cases m') simp_all
      then show ?thesis using frozen_not_applied [OF assms(1) hub(2)] apply_to_hub_frame [OF hub(2)] assms(1)
        by (auto simp: frozen_on_def ItsExecute hub(5))
    next
      case (metadata tm)
      then show ?thesis using assms(1) register_custom_token_Inr [OF metadata(3)]
        by (auto simp: frozen_on_def ItsExecute instance_on_def ensure_chain_not_frozen_Inr)
    qed
  next
    case (RegisterP2pTokenInstance c' t' origin d spl)
    then have "register_p2p_token_instance s t' c' origin d spl = Inr (s', r)" using run by (simp add: map_err_Inr_iff)
    then show ?thesis
      by (rule register_p2p_Inr) (use assms(1) in \<open>auto simp: call RegisterP2pTokenInstance frozen_on_def instance_on_def\<close>)
  next
    case (ModifySupply c' t' m)
    then have "modify_supply s c' t' m = Inr (s', r)" using run by (simp add: map_err_Inr_iff)
    then show ?thesis by (rule modify_supply_Inr) (use assms(1) in \<open>auto simp: call ModifySupply frozen_on_def instance_on_def\<close>)
  next
    case (RegisterChains inputs)
    then show ?thesis using run register_chains_frozen [of env s inputs s' r c] assms(1) administrative_Inr [OF run]
      by (simp add: map_err_Inr_iff instance_on_def)
  next
    case (UpdateChains inputs)
    then have "c \<notin> cg_chain ` set inputs" using assms(3) by (simp add: call)
    then have "frozen_on y c \<Longrightarrow> frozen_on (save_chain_config y (cg_chain input) config) c" if "input \<in> set inputs" for y input config
      using that by (auto simp: frozen_on_def)
    from chain_lists_keep(2) [of inputs "\<lambda>x. frozen_on x c", OF this assms(1)] have "frozen_on s' c"
      using run UpdateChains by (simp add: map_err_Inr_iff)
    then show ?thesis using administrative_Inr [OF run] UpdateChains by (simp add: instance_on_def)
  qed (use run assms(1,3) in \<open>auto simp: call its_freeze_chain_def state_freeze_chain_def its_unfreeze_chain_def state_unfreeze_chain_def
      disable_execution_def enable_execution_def frozen_on_def instance_on_def result_simps split: option.splits\<close>)
  then show "frozen_on s' c" "call = (env', a', ItsExecute x') \<Longrightarrow> source_chain (ax_cc_id x') \<noteq> c \<and> (\<forall>i m. MessageReceived i c m \<notin> set (events r))"
    "\<not> intervenes c t call \<Longrightarrow> instance_on s' c t = instance_on s c t" by (simp_all add: call)
qed

subsection \<open>Deployments\<close>

lemma deploy_pair_origin:
  assumes "deploy_token_to_source_chain s src t' d = Inr s1" "deploy_token_to_destination_chain s1 dst t' d' k = Inr s'"
  shows "(\<forall>t config. kv_get (its_token_configs s) t = Some config \<longrightarrow> kv_get (its_token_configs s') t = Some config)
    \<and> (\<forall>c t. instance_on s' c t \<noteq> instance_on s c t \<longrightarrow> kv_get (its_token_configs s') t = Some \<lparr>tk_origin_chain = src\<rparr>)"
  using deploy_source_Inr [OF assms(1)] deploy_destination_Inr [OF assms(2)] by (auto simp: instance_on_def)

lemma deployment_tx:
  assumes "its_tx s call = Inr (s', r)"
  shows "kv_get (its_token_configs s) t = Some config \<Longrightarrow> kv_get (its_token_configs s') t = Some config"
    and "instance_on s c t = None \<Longrightarrow> instance_on s' c t \<noteq> None \<Longrightarrow> \<not> intervenes c t call \<Longrightarrow>
      \<exists>env a x. call = (env, a, ItsExecute x) \<and> kv_get (its_token_configs s') t = Some \<lparr>tk_origin_chain = source_chain (ax_cc_id x)\<rparr>"
proof -
  obtain env a msg where call: "call = (env, a, msg)" by (cases call)
  note run = its_tx_Inr(1) [OF assms [unfolded call]]
  have "(kv_get (its_token_configs s) t = Some config \<longrightarrow> kv_get (its_token_configs s') t = Some config)
    \<and> (instance_on s c t = None \<longrightarrow> instance_on s' c t \<noteq> None \<longrightarrow> \<not> intervenes c t call \<longrightarrow>
        (\<exists>x. msg = ItsExecute x \<and> kv_get (its_token_configs s') t = Some \<lparr>tk_origin_chain = source_chain (ax_cc_id x)\<rparr>))"
  proof (cases msg)
    case (ItsExecute x)
    then have "execute_message env s x = Inr (s', r)" using run by (simp add: map_err_Inr_iff)
    then show ?thesis
    proof (cases rule: execute_message_Inr)
      case (hub dst m m' payload)
      have pair: ?thesis if "deploy_token_to_source_chain s (source_chain (ax_cc_id x)) t' d = Inr s1"
        "deploy_token_to_destination_chain s1 dst t' d' k = Inr s'" for t' d s1 d' k
        using deploy_pair_origin [OF that] ItsExecute by metis
      from hub(2) show ?thesis
      proof (cases rule: apply_to_hub_Inr)
        case (transfer tr tr')
        from transfer(3) show ?thesis by (rule apply_to_transfer_Inr) (auto simp: instance_on_def split: if_splits)
      next
        case (deployment d d')
        from deployment(3) show ?thesis by (rule apply_to_deployment_Inr) (rule pair)
      next
        case (link l)
        from link(3) show ?thesis by (rule apply_to_link_Inr) (rule pair)
      qed
    next
      case (metadata tm)
      then show ?thesis using register_custom_token_Inr [OF metadata(3)] by (auto simp: instance_on_def)
    qed
  next
    case (RegisterP2pTokenInstance c' t' origin d spl)
    then have "register_p2p_token_instance s t' c' origin d spl = Inr (s', r)" using run by (simp add: map_err_Inr_iff)
    then show ?thesis by (rule register_p2p_Inr) (auto simp: call RegisterP2pTokenInstance instance_on_def)
  next
    case (ModifySupply c' t' m)
    then have "modify_supply s c' t' m = Inr (s', r)" using run by (simp add: map_err_Inr_iff)
    then show ?thesis by (rule modify_supply_Inr) (auto simp: call ModifySupply instance_on_def)
  qed (use administrative_Inr [OF run] in \<open>simp_all add: instance_on_def\<close>)
  then show "kv_get (its_token_configs s) t = Some config \<Longrightarrow> kv_get (its_token_configs s') t = Some config"
    "instance_on s c t = None \<Longrightarrow> instance_on s' c t \<noteq> None \<Longrightarrow> \<not> intervenes c t call \<Longrightarrow>
      \<exists>env a x. call = (env, a, ItsExecute x) \<and> kv_get (its_token_configs s') t = Some \<lparr>tk_origin_chain = source_chain (ax_cc_id x)\<rparr>"
    by (auto simp: call)
qed

subsection \<open>Runs\<close>

lemma its_trace_split:
  assumes "(s1, call, r) \<in> set (its_trace s calls)"
  shows "\<exists>calls1 calls2 s'. calls = calls1 @ call # calls2 \<and> s1 = run_txs its_tx s calls1 \<and> its_tx s1 call = Inr (s', r)"
  using assms
proof (induction calls arbitrary: s)
  case (Cons c calls)
  show ?case
  proof (cases "its_tx s c")
    case (Inl e)
    then obtain calls1 calls2 s' where "calls = calls1 @ call # calls2" "s1 = run_txs its_tx s calls1" "its_tx s1 call = Inr (s', r)"
      using Cons.IH [of s] Cons.prems by auto
    then have "c # calls = (c # calls1) @ call # calls2 \<and> s1 = run_txs its_tx s (c # calls1) \<and> its_tx s1 call = Inr (s', r)" using Inl by simp
    then show ?thesis by blast
  next
    case (Inr x)
    then obtain s2 r2 where tx: "its_tx s c = Inr (s2, r2)" by (cases x) auto
    then consider "s1 = s" "call = c" "r = r2" | "(s1, call, r) \<in> set (its_trace s2 calls)" using Cons.prems by auto
    then show ?thesis
    proof cases
      case 1
      then have "c # calls = [] @ call # calls \<and> s1 = run_txs its_tx s [] \<and> its_tx s1 call = Inr (s2, r)" using tx by simp
      then show ?thesis by blast
    next
      case 2
      then obtain calls1 calls2 s' where "calls = calls1 @ call # calls2" "s1 = run_txs its_tx s2 calls1" "its_tx s1 call = Inr (s', r)"
        using Cons.IH [of s2] by auto
      then have "c # calls = (c # calls1) @ call # calls2 \<and> s1 = run_txs its_tx s (c # calls1) \<and> its_tx s1 call = Inr (s', r)" using tx by simp
      then show ?thesis by blast
    qed
  qed
qed simp

lemma frozen_run:
  assumes "frozen_on s c" "list_all (\<lambda>call. \<not> its_unfreezes c call) calls"
  shows "frozen_on (run_txs its_tx s calls) c
    \<and> (list_all (\<lambda>call. \<not> intervenes c t call) calls \<longrightarrow> instance_on (run_txs its_tx s calls) c t = instance_on s c t)"
  using assms
proof (induction calls arbitrary: s)
  case (Cons call calls)
  show ?case
  proof (cases "its_tx s call")
    case (Inr x)
    then obtain s1 r where tx: "its_tx s call = Inr (s1, r)" by (cases x) auto
    have "\<not> its_unfreezes c call" using Cons.prems(2) by simp
    note step = frozen_tx [OF Cons.prems(1) tx this]
    show ?thesis using Cons.IH [OF step(1)] Cons.prems(2) step(3) tx by simp
  qed (use Cons in simp)
qed simp

definition covered :: "string \<Rightarrow> token_id \<Rightarrow> its_state \<Rightarrow> nat \<Rightarrow> nat \<Rightarrow> bool" where
  "covered c t s credit debit \<longleftrightarrow> (case instance_on s c t of
     None \<Rightarrow> credit = 0 \<and> debit = 0
   | Some i \<Rightarrow> (case ti_supply i of Tracked y \<Rightarrow> credit = unat y + debit | Untracked \<Rightarrow> True))"

lemma covered_tx:
  assumes "its_inv s" "its_tx s call = Inr (s', r)" "\<not> intervenes c t call" "covered c t s credit debit"
  shows "covered c t s' (credit + its_credit c t (s, call, r)) (debit + its_debit c t (s, call, r))"
proof -
  note ledger = ledger_tx [OF assms(1,2), of c t] and born = born_tx [OF assms(1-3)]
  show ?thesis
  proof (cases "instance_on s c t")
    case None
    then have flow: "its_credit c t (s, call, r) = 0" "its_debit c t (s, call, r) = 0" "credit = 0" "debit = 0"
      using no_flow_before_deployment [OF assms(2)] assms(4) by (simp_all add: instance_on_def covered_def)
    show ?thesis using None born
      by (auto simp: covered_def flow instance_on_def supply_born_def split: option.splits token_supply.splits)
  next
    case (Some i)
    then obtain i' where i': "instance_on s' c t = Some i'"
      and x: "\<forall>x. ti_supply i = Tracked x \<longrightarrow> (\<exists>y. ti_supply i' = Tracked y
        \<and> unat x + its_credit c t (s, call, r) = unat y + its_debit c t (s, call, r))"
      using ledger by (auto simp: ledger_step_def instance_on_def)
    show ?thesis
    proof (cases "ti_supply i")
      case (Tracked x1)
      with x obtain y where "ti_supply i' = Tracked y" "unat x1 + its_credit c t (s, call, r) = unat y + its_debit c t (s, call, r)" by blast
      then show ?thesis using assms(4) Some Tracked i' by (simp add: covered_def)
    next
      case Untracked
      then have "ti_supply i' = Untracked" using born Some i' by (auto simp: supply_born_def instance_on_def)
      then show ?thesis using i' by (simp add: covered_def)
    qed
  qed
qed

lemma covered_run:
  assumes "its_inv s" "list_all (\<lambda>call. \<not> intervenes c t call) calls" "covered c t s credit debit"
  shows "covered c t (run_txs its_tx s calls) (credit + sum_list (map (its_credit c t) (its_trace s calls)))
     (debit + sum_list (map (its_debit c t) (its_trace s calls)))"
  using assms
proof (induction calls arbitrary: s credit debit)
  case (Cons call calls)
  show ?case
  proof (cases "its_tx s call")
    case (Inr x)
    then obtain s1 r where tx: "its_tx s call = Inr (s1, r)" by (cases x) auto
    have "\<not> intervenes c t call" "list_all (\<lambda>call. \<not> intervenes c t call) calls" using Cons.prems(2) by simp_all
    from Cons.IH [OF its_tx_inv [OF Cons.prems(1) tx] this(2) covered_tx [OF Cons.prems(1) tx this(1) Cons.prems(3)]] tx
    show ?thesis by (simp add: add.assoc)
  qed (use Cons in simp)
qed simp

lemma its_execute_sender:
  assumes "its_tx s (env, a, ItsExecute x) = Inr (s', r)"
  obtains config where "its_config s = Some config" "a = ic_axelarnet_gateway config" "execute_message env s x = Inr (s', r)"
proof -
  have "ensure_permissions (its_perms s) a (its_permissions (ItsExecute x))
          (\<lambda>role. if role = ''gateway'' then match_gateway s a else match_operator s a) = Inr ()" by (rule its_tx_Inr(2) [OF assms])
  then obtain config where "its_config s = Some config" "a = ic_axelarnet_gateway config"
    by (auto simp: ensure_permissions_Inr_iff match_gateway_def its_load_config_def result_simps)
  then show ?thesis using that its_tx_Inr(1) [OF assms] by (simp add: map_err_Inr_iff)
qed

lemma execute_message_source:
  assumes "execute_message env s x = Inr (s', r)"
  shows "is_contract_active (its_killswitch s)"
    and "\<exists>config. kv_get (its_chain_configs s) (source_chain (ax_cc_id x)) = Some config \<and> ax_source_address x = cf_its_address config"
  using assms by (auto simp: execute_message_def ensure_is_its_source_address_def load_its_contract_def may_load_its_contract_def result_simps)

lemma apply_to_hub_config: "apply_to_hub s src dst m = Inr (s', m') \<Longrightarrow> its_config s' = its_config s \<and> its_perms s' = its_perms s"
  by (erule apply_to_hub_Inr; (erule apply_to_transfer_Inr | erule apply_to_deployment_Inr | erule apply_to_link_Inr);
      auto simp: save_token_instance_def save_token_config_def dest!: deploy_source_Inr deploy_destination_Inr)

section \<open>Example\<close>

text \<open>
  A token of a chain with 256-bit amounts is deployed to a chain with 64-bit amounts and at most 6
  decimals, an amount is sent there and a part of it back.
\<close>

definition its_ex_transfer :: "u256 \<Rightarrow> interchain_transfer" where
  "its_ex_transfer a = \<lparr>it_token_id = [9], it_source_address = [1], it_destination_address = [2], it_amount = a, it_data = None\<rparr>"

definition its_ex_deploy :: deploy_interchain_token where
  "its_ex_deploy = \<lparr>di_token_id = [9], di_name = ''Token'', di_symbol = ''TOK'', di_decimals = 18, di_minter = None\<rparr>"

text \<open>The messages that the payloads of the example stand for.\<close>

definition its_ex_from_bytes :: "u8 list \<Rightarrow> hub_message option" where
  "its_ex_from_bytes p = (if p = [0] then Some (SendToHub ''sui'' (DeployInterchainToken its_ex_deploy))
     else if p = [1] then Some (SendToHub ''sui'' (InterchainTransfer (its_ex_transfer 1500000000000005)))
     else if p = [2] then Some (SendToHub ''eth'' (InterchainTransfer (its_ex_transfer 600)))
     else None)"

definition its_ex_env :: its_env where
  "its_ex_env = \<lparr>ie_chain_name = (\<lambda>_. Some ''axelar''), ie_from_bytes = (\<lambda>_. its_ex_from_bytes), ie_to_bytes = (\<lambda>_ _. Some [3]),
     ie_keccak256 = (\<lambda>x. x), ie_addr_validate = Some\<rparr>"

definition its_ex_input :: "string \<Rightarrow> num_bits \<Rightarrow> u8 \<Rightarrow> chain_config_msg" where
  "its_ex_input c b d = \<lparr>cg_chain = c, cg_its_edge_contract = ''0xits'', cg_truncation = \<lparr>tr_max_uint_bits = b,
     tr_max_decimals_when_truncating = d\<rparr>, cg_msg_translator = ''translator''\<rparr>"

definition its_ex_chain :: "num_bits \<Rightarrow> u8 \<Rightarrow> bool \<Rightarrow> its_chain_config" where
  "its_ex_chain b d frozen = \<lparr>cf_truncation = \<lparr>tr_max_uint_bits = b, tr_max_decimals_when_truncating = d\<rparr>, cf_its_address = ''0xits'',
     cf_frozen = frozen, cf_msg_translator = ''translator''\<rparr>"

definition its_ex_call :: "string \<Rightarrow> u8 list \<Rightarrow> its_call" where
  "its_ex_call c p = (its_ex_env, ''gateway'', ItsExecute \<lparr>ax_cc_id = CrossChainId c ''0x1-1'', ax_source_address = ''0xits'', ax_payload = p\<rparr>)"

definition its_ex_setup :: its_call where
  "its_ex_setup = (its_ex_env, ''gov'', RegisterChains [its_ex_input ''eth'' 255 18, its_ex_input ''sui'' 63 6])"

definition its_ex_state :: "(string, its_chain_config) kv \<Rightarrow> u256 option \<Rightarrow> its_state" where
  "its_ex_state cs x = \<lparr>its_config = Some \<lparr>ic_axelarnet_gateway = ''gateway'', ic_operator = ''operator''\<rparr>,
     its_perms = \<lparr>admin_addr = Some ''admin'', governance_addr = Some ''gov''\<rparr>, its_killswitch = Some Disengaged,
     its_chain_configs = cs,
     its_token_instances = (case x of None \<Rightarrow> [] | Some y \<Rightarrow> [((''eth'', [9]), \<lparr>ti_supply = Untracked, ti_decimals = 18\<rparr>),
       ((''sui'', [9]), \<lparr>ti_supply = Tracked y, ti_decimals = 6\<rparr>)]),
     its_token_configs = (case x of None \<Rightarrow> [] | Some y \<Rightarrow> [([9], \<lparr>tk_origin_chain = ''eth''\<rparr>)]), its_custom_tokens = []\<rparr>"

abbreviation its_ex_chains :: "(string, its_chain_config) kv" where
  "its_ex_chains \<equiv> [(''eth'', its_ex_chain 255 18 False), (''sui'', its_ex_chain 63 6 False)]"

lemmas its_ex_defs = its_ex_transfer_def its_ex_deploy_def its_ex_from_bytes_def its_ex_env_def its_ex_input_def its_ex_chain_def
  its_ex_call_def its_ex_setup_def its_ex_state_def

lemmas its_eval = its_tx_def its_execute_def ensure_permissions_def general_check_def sender_role_def match_gateway_def match_operator_def
  its_load_config_def execute_message_def execute_message_on_hub_def apply_to_hub_def apply_to_transfer_def apply_to_token_deployment_def
  subtract_supply_amount_def add_supply_amount_def apply_scaling_factor_to_amount_def destination_amount_def try_load_token_instance_def
  deploy_token_to_source_chain_def deploy_token_to_destination_chain_def calculate_scaling_factor_def destination_token_decimals_def
  deployment_type_def token_instance_new_def new_on_origin_def hub_message_from_bytes_def hub_message_to_bytes_def
  ensure_is_its_source_address_def ensure_chain_not_frozen_def send_to_destination_def axelar_chain_name_def is_contract_active_def
  register_chains_def its_register_chain_def chain_config_new_def validate_cosmwasm_address_def checked_add_def checked_sub_def
  checked_pow_def checked_mul_def checked_div_def abs_diff_def amount_overflows_def checked_shr_def u32_of_num_bits_def
  nonempty_uint256_try_from_def its_freeze_chain_def response_new_def ensure_def its_state_defs chain_name_normalize_def Let_def

lemma its_ex_start: "its_instantiate Some ''admin'' ''gov'' ''operator'' ''gateway'' = Inr (its_ex_state [] None, response_new)"
  by (simp add: its_instantiate_def validate_cosmwasm_address_def its_ex_state_def killswitch_init_def)

lemma its_ex_step_setup: "its_tx (its_ex_state [] None) its_ex_setup = Inr (its_ex_state its_ex_chains None, response_new)"
  by (simp add: its_eval its_ex_defs less_char_def)

lemma its_ex_step_deploy:
  "its_tx (its_ex_state its_ex_chains None) (its_ex_call ''eth'' [0]) = Inr (its_ex_state its_ex_chains (Some 0),
     \<lparr>messages = [ItsCallContract ''gateway'' \<lparr>cl_destination_chain = ''sui'', cl_destination_address = ''0xits'', cl_payload = [3]\<rparr>],
      events = [MessageReceived (CrossChainId ''eth'' ''0x1-1'') ''sui'' (DeployInterchainToken (its_ex_deploy\<lparr>di_decimals := 6\<rparr>)),
        InterchainTokenDeploymentStarted [9] ''Token'' ''TOK'' 6 None ''sui'']\<rparr>)"
  by (simp add: its_eval its_ex_defs less_char_def to_lowercase_def lower_char_def)

lemma its_ex_step_transfer:
  "its_tx (its_ex_state its_ex_chains (Some 0)) (its_ex_call ''eth'' [1]) = Inr (its_ex_state its_ex_chains (Some 1500),
     \<lparr>messages = [ItsCallContract ''gateway'' \<lparr>cl_destination_chain = ''sui'', cl_destination_address = ''0xits'', cl_payload = [3]\<rparr>],
      events = [MessageReceived (CrossChainId ''eth'' ''0x1-1'') ''sui'' (InterchainTransfer (its_ex_transfer 1500)),
        EvInterchainTransfer [9] [1] ''sui'' [2] 1500 None]\<rparr>)"
  by (simp add: its_eval its_ex_defs less_char_def to_lowercase_def lower_char_def)

lemma its_ex_step_back:
  "its_tx (its_ex_state its_ex_chains (Some 1500)) (its_ex_call ''sui'' [2]) = Inr (its_ex_state its_ex_chains (Some 900),
     \<lparr>messages = [ItsCallContract ''gateway'' \<lparr>cl_destination_chain = ''eth'', cl_destination_address = ''0xits'', cl_payload = [3]\<rparr>],
      events = [MessageReceived (CrossChainId ''sui'' ''0x1-1'') ''eth'' (InterchainTransfer (its_ex_transfer 600000000000000)),
        EvInterchainTransfer [9] [1] ''eth'' [2] 600000000000000 None]\<rparr>)"
  by (simp add: its_eval its_ex_defs less_char_def to_lowercase_def lower_char_def)

abbreviation its_ex_calls :: "its_call list" where
  "its_ex_calls \<equiv> [its_ex_setup, its_ex_call ''eth'' [0], its_ex_call ''eth'' [1], its_ex_call ''sui'' [2]]"

lemmas its_ex_steps = its_ex_step_setup its_ex_step_deploy its_ex_step_transfer its_ex_step_back

lemma its_ex_run: "run_txs its_tx (its_ex_state [] None) its_ex_calls = its_ex_state its_ex_chains (Some 900)"
  by (simp add: its_ex_steps)

lemma its_ex_incoming:
  "its_incoming (its_ex_state its_ex_chains x) (its_ex_call ''eth'' [0]) = None"
  "its_incoming (its_ex_state its_ex_chains x) (its_ex_call ''eth'' [1]) = Some (''eth'', ''sui'', its_ex_transfer 1500000000000005)"
  "its_incoming (its_ex_state its_ex_chains x) (its_ex_call ''sui'' [2]) = Some (''sui'', ''eth'', its_ex_transfer 600)"
  by (simp_all add: its_incoming_def hub_message_from_bytes_def load_chain_config_def its_ex_defs)

lemma its_ex_flow:
  "map (its_credit ''sui'' [9]) (its_trace (its_ex_state [] None) its_ex_calls) = [0, 0, 1500, 0]"
  "map (its_debit ''sui'' [9]) (its_trace (its_ex_state [] None) its_ex_calls) = [0, 0, 0, 600]"
  by (simp_all add: its_ex_steps its_credit_def its_debit_def its_ex_incoming response_new_def)
     (simp_all add: its_ex_transfer_def its_incoming_def its_ex_setup_def)

lemma its_ex_reachable: "its_reachable (its_ex_state its_ex_chains (Some 0))"
  using its_start [OF its_ex_start] its_ex_step_setup its_ex_step_deploy by (blast intro: its_step)

section \<open>Properties\<close>

text \<open>
  C4. From the start of the hub on, as long as the operator does not register or modify the supply of a
  token on a chain: wherever the supply is tracked, what was sent to the chain is exactly what was
  sent back from it plus the supply that is left. A chain can never send out more of the token than
  it has received.
\<close>

theorem bridged_supply_covered:
  assumes "its_instantiate av admin governance operator gateway = Inr (s, r)"
    and "list_all (\<lambda>call. \<not> intervenes c t call) calls"
    and "instance_on (run_txs its_tx s calls) c t = Some i" and "ti_supply i = Tracked y"
  shows "sum_list (map (its_credit c t) (its_trace s calls)) = unat y + sum_list (map (its_debit c t) (its_trace s calls))"
proof -
  have "covered c t s 0 0" using assms(1) by (auto simp: its_instantiate_def covered_def instance_on_def result_simps)
  from covered_run [OF its_start_inv [OF assms(1)] assms(2) this] show ?thesis using assms(3,4) by (simp add: covered_def)
qed

theorem bridged_supply_covered_witness:
  "sum_list (map (its_credit ''sui'' [9]) (its_trace (its_ex_state [] None) its_ex_calls))
     = 900 + sum_list (map (its_debit ''sui'' [9]) (its_trace (its_ex_state [] None) its_ex_calls))
   \<and> map (its_credit ''sui'' [9]) (its_trace (its_ex_state [] None) its_ex_calls) = [0, 0, 1500, 0]"
proof -
  have quiet: "list_all (\<lambda>call. \<not> intervenes ''sui'' [9] call) its_ex_calls" by (simp add: its_ex_setup_def its_ex_call_def)
  have "instance_on (run_txs its_tx (its_ex_state [] None) its_ex_calls) ''sui'' [9] = Some \<lparr>ti_supply = Tracked 900, ti_decimals = 6\<rparr>"
    unfolding its_ex_run by (simp add: instance_on_def its_ex_state_def)
  from bridged_supply_covered [OF its_ex_start quiet this, of 900] show ?thesis using its_ex_flow(1) by simp
qed

text \<open>
  C15. The supply of a token that is tracked on a chain stays tracked, and at every time it is what it was
  before plus all amounts that were sent to the chain or added by the operator, minus all amounts
  that were sent from the chain or removed by the operator. The decimals of the deployment never
  change.
\<close>

theorem supply_ledger:
  assumes "its_reachable s" and "instance_on s c t = Some i" and "ti_supply i = Tracked x"
  shows "\<exists>i' y. instance_on (run_txs its_tx s calls) c t = Some i' \<and> ti_supply i' = Tracked y \<and> ti_decimals i' = ti_decimals i
    \<and> unat x + sum_list (map (its_credit c t) (its_trace s calls)) = unat y + sum_list (map (its_debit c t) (its_trace s calls))"
  using ledger_run [OF its_reachable_inv [OF assms(1)], of calls c t] assms(2,3) by (auto simp: ledger_step_def instance_on_def)

theorem supply_ledger_witness:
  "instance_on (run_txs its_tx (its_ex_state its_ex_chains (Some 0)) [its_ex_call ''eth'' [1], its_ex_call ''sui'' [2]]) ''sui'' [9]
     = Some \<lparr>ti_supply = Tracked 900, ti_decimals = 6\<rparr>
   \<and> sum_list (map (its_credit ''sui'' [9]) (its_trace (its_ex_state its_ex_chains (Some 0)) [its_ex_call ''eth'' [1], its_ex_call ''sui'' [2]]))
     = 900 + sum_list (map (its_debit ''sui'' [9]) (its_trace (its_ex_state its_ex_chains (Some 0)) [its_ex_call ''eth'' [1], its_ex_call ''sui'' [2]]))"
proof -
  have "instance_on (its_ex_state its_ex_chains (Some 0)) ''sui'' [9] = Some \<lparr>ti_supply = Tracked 0, ti_decimals = 6\<rparr>"
    by (simp add: instance_on_def its_ex_state_def)
  from supply_ledger [OF its_ex_reachable this, of 0 "[its_ex_call ''eth'' [1], its_ex_call ''sui'' [2]]"]
  show ?thesis by (simp add: its_ex_steps) (auto simp: instance_on_def its_ex_state_def)
qed

lemma transfer_effect:
  assumes "its_tx s (env, a, ItsExecute x) = Inr (s', r)" and "its_incoming s (env, a, ItsExecute x) = Some (src, dst, tr)"
  shows "\<exists>config cs cd si di amount payload. its_config s = Some config \<and> a = ic_axelarnet_gateway config
    \<and> kv_get (its_chain_configs s) src = Some cs \<and> ax_source_address x = cf_its_address cs \<and> \<not> cf_frozen cs
    \<and> kv_get (its_chain_configs s) dst = Some cd \<and> \<not> cf_frozen cd
    \<and> instance_on s src (it_token_id tr) = Some si \<and> instance_on s dst (it_token_id tr) = Some di
    \<and> same_value (it_amount tr) (ti_decimals si) amount (ti_decimals di)
    \<and> (ti_decimals si = ti_decimals di \<and> amount = it_amount tr
        \<or> amount \<noteq> 0 \<and> unat amount < 2 ^ (unat (tr_max_uint_bits (cf_truncation cd)) + 1))
    \<and> ie_to_bytes env (cf_msg_translator cd) (ReceiveFromHub src (InterchainTransfer (tr\<lparr>it_amount := amount\<rparr>))) = Some payload
    \<and> messages r = (if ie_chain_name env a = Some dst then [] else [ItsCallContract a
         \<lparr>cl_destination_chain = chain_name_normalize dst, cl_destination_address = cf_its_address cd, cl_payload = payload\<rparr>])"
proof -
  from assms(1) obtain config where config: "its_config s = Some config" and a: "a = ic_axelarnet_gateway config"
    and exec: "execute_message env s x = Inr (s', r)" by (rule its_execute_sender)
  from assms(2) have src: "src = source_chain (ax_cc_id x)"
    and h: "hub_message_from_bytes env s src (ax_payload x) = Inr (SendToHub dst (InterchainTransfer tr))"
    by (auto simp: its_incoming_def split: sum.splits hub_message.splits its_message.splits)
  from exec obtain m' payload where hub: "apply_to_hub s src dst (InterchainTransfer tr) = Inr (s', m')"
    and payload: "hub_message_to_bytes env s' dst (ReceiveFromHub src m') = Inr payload"
    and send: "send_to_destination env s' dst payload = Inr (messages r)"
    by (cases rule: execute_message_Inr) (use h src in auto)
  from hub obtain tr' where m': "m' = InterchainTransfer tr'" and transfer: "apply_to_transfer s src dst tr = Inr (s', tr')"
    by (cases rule: apply_to_hub_Inr) auto
  note chains = apply_to_hub_chains [OF hub] execute_message_source(2) [OF exec, folded src]
  have same: "its_chain_configs s' = its_chain_configs s" "its_config s' = its_config s"
    using apply_to_hub_frame(1) [OF hub] apply_to_hub_config [OF hub] by simp_all
  from transfer obtain si0 supply1 s1 where si0: "kv_get (its_token_instances s) (src, it_token_id tr) = Some si0"
    and s1: "s1 = save_token_instance s src (it_token_id tr) (si0\<lparr>ti_supply := supply1\<rparr>)"
    and amount: "destination_amount s1 src dst (it_token_id tr) (it_amount tr) = Inr (it_amount tr')"
    and tr': "tr' = tr\<lparr>it_amount := it_amount tr'\<rparr>" by (rule apply_to_transfer_Inr)
  from amount obtain si1 di1 where si1: "kv_get (its_token_instances s1) (src, it_token_id tr) = Some si1"
    and di1: "kv_get (its_token_instances s1) (dst, it_token_id tr) = Some di1"
    and val: "same_value (it_amount tr) (ti_decimals si1) (it_amount tr') (ti_decimals di1)"
    and fits: "ti_decimals si1 = ti_decimals di1 \<and> it_amount tr' = it_amount tr \<or> it_amount tr' \<noteq> 0 \<and> (\<exists>config.
       kv_get (its_chain_configs s1) dst = Some config \<and> unat (it_amount tr') < 2 ^ (unat (tr_max_uint_bits (cf_truncation config)) + 1))"
    by (rule destination_amount_Inr)
  obtain di where di: "kv_get (its_token_instances s) (dst, it_token_id tr) = Some di" "ti_decimals di = ti_decimals di1"
    using di1 si0 by (cases "dst = src") (auto simp: s1)
  have si: "ti_decimals si1 = ti_decimals si0" using si1 by (auto simp: s1)
  have "its_chain_configs s1 = its_chain_configs s" by (simp add: s1)
  then show ?thesis using config a chains si0 di si val fits payload send m' tr' same
    by (auto simp: instance_on_def hub_message_to_bytes_def send_to_destination_def axelar_chain_name_def its_load_config_def load_chain_config_def
        load_its_contract_def may_load_its_contract_def result_simps split: if_splits)
qed

text \<open>
  C14. A transfer goes through the hub only if the gateway delivered it from the registered service
  contract of its source chain and neither chain is frozen. The hub makes of it the same transfer
  with the same value in the decimals of the destination chain, rounded down, never zero unless it
  was zero, and within the integers of the chain whenever the decimals differ. It sends this, in the
  payload of the translator, to the service contract of the destination chain in one call of the gateway;
  only if the destination is the Axelar chain itself nothing is sent.
\<close>

theorem transfer_delivered:
  assumes "its_tx s (env, a, ItsExecute x) = Inr (s', r)" and "its_incoming s (env, a, ItsExecute x) = Some (src, dst, tr)"
  shows "\<exists>config cs cd si di amount payload. its_config s = Some config \<and> a = ic_axelarnet_gateway config
    \<and> kv_get (its_chain_configs s) src = Some cs \<and> ax_source_address x = cf_its_address cs \<and> \<not> cf_frozen cs
    \<and> kv_get (its_chain_configs s) dst = Some cd \<and> \<not> cf_frozen cd
    \<and> instance_on s src (it_token_id tr) = Some si \<and> instance_on s dst (it_token_id tr) = Some di
    \<and> same_value (it_amount tr) (ti_decimals si) amount (ti_decimals di)
    \<and> (ti_decimals si = ti_decimals di \<and> amount = it_amount tr
        \<or> amount \<noteq> 0 \<and> unat amount < 2 ^ (unat (tr_max_uint_bits (cf_truncation cd)) + 1))
    \<and> ie_to_bytes env (cf_msg_translator cd) (ReceiveFromHub src (InterchainTransfer (tr\<lparr>it_amount := amount\<rparr>))) = Some payload
    \<and> messages r = (if ie_chain_name env a = Some dst then [] else [ItsCallContract a
         \<lparr>cl_destination_chain = chain_name_normalize dst, cl_destination_address = cf_its_address cd, cl_payload = payload\<rparr>])"
  by (rule transfer_effect [OF assms])

theorem transfer_delivered_witness:
  "\<exists>amount payload. same_value 1500000000000005 18 amount 6 \<and> unat amount < 2 ^ 64 \<and> payload = [3::u8]
     \<and> ie_to_bytes its_ex_env ''translator'' (ReceiveFromHub ''eth'' (InterchainTransfer (its_ex_transfer amount))) = Some payload"
proof -
  note tx = its_ex_step_transfer [unfolded its_ex_call_def] and inc = its_ex_incoming(2) [of "Some 0", unfolded its_ex_call_def]
  show ?thesis using transfer_delivered [OF tx inc] by (auto simp: instance_on_def its_ex_defs)
qed

text \<open>
  C20. While a chain is frozen, no message from it and no message to it passes the hub, and the
  deployments and supplies of the tokens on it stay as they are, except where the operator modifies
  or registers one. Only the explicit unfreezing and an update of the configuration of the chain end
  the freeze.
\<close>

theorem frozen_chain_isolated:
  assumes "frozen_on s c" and "list_all (\<lambda>call. \<not> its_unfreezes c call) calls"
  shows "frozen_on (run_txs its_tx s calls) c
    \<and> (\<forall>s1 env a x r. (s1, (env, a, ItsExecute x), r) \<in> set (its_trace s calls) \<longrightarrow>
         source_chain (ax_cc_id x) \<noteq> c \<and> (\<forall>i m. MessageReceived i c m \<notin> set (events r)))
    \<and> (\<forall>t. list_all (\<lambda>call. \<not> intervenes c t call) calls \<longrightarrow> instance_on (run_txs its_tx s calls) c t = instance_on s c t)"
proof -
  have "source_chain (ax_cc_id x) \<noteq> c \<and> (\<forall>i m. MessageReceived i c m \<notin> set (events r))"
    if tr: "(s1, (env, a, ItsExecute x), r) \<in> set (its_trace s calls)" for s1 env a x r
  proof -
    from its_trace_split [OF tr] obtain calls1 calls2 s2 where calls: "calls = calls1 @ (env, a, ItsExecute x) # calls2"
      and s1: "s1 = run_txs its_tx s calls1" and tx: "its_tx s1 (env, a, ItsExecute x) = Inr (s2, r)" by blast
    have "frozen_on s1 c" using frozen_run [OF assms(1), of calls1] assms(2) by (simp add: s1 calls)
    from frozen_tx(2) [OF this tx _ refl] show ?thesis by simp
  qed
  then show ?thesis using frozen_run [OF assms] by blast
qed

lemma its_ex_step_freeze:
  "its_tx (its_ex_state its_ex_chains (Some 1500)) (its_ex_env, ''admin'', FreezeChain ''sui'')
     = Inr (its_ex_state [(''eth'', its_ex_chain 255 18 False), (''sui'', its_ex_chain 63 6 True)] (Some 1500), response_new)"
  by (simp add: its_eval its_ex_defs less_char_def)

theorem frozen_chain_isolated_witness:
  "instance_on (run_txs its_tx (its_ex_state [(''eth'', its_ex_chain 255 18 False), (''sui'', its_ex_chain 63 6 True)] (Some 1500))
     [its_ex_call ''eth'' [1], its_ex_call ''sui'' [2]]) ''sui'' [9] = Some \<lparr>ti_supply = Tracked 1500, ti_decimals = 6\<rparr>"
proof -
  let ?s = "its_ex_state [(''eth'', its_ex_chain 255 18 False), (''sui'', its_ex_chain 63 6 True)] (Some 1500)"
  have "frozen_on ?s ''sui''" by (simp add: frozen_on_def its_ex_state_def its_ex_chain_def)
  moreover have "list_all (\<lambda>call. \<not> its_unfreezes ''sui'' call) [its_ex_call ''eth'' [1], its_ex_call ''sui'' [2]]" by (simp add: its_ex_call_def)
  ultimately have "list_all (\<lambda>call. \<not> intervenes ''sui'' [9] call) [its_ex_call ''eth'' [1], its_ex_call ''sui'' [2]] \<longrightarrow>
      instance_on (run_txs its_tx ?s [its_ex_call ''eth'' [1], its_ex_call ''sui'' [2]]) ''sui'' [9] = instance_on ?s ''sui'' [9]"
    using frozen_chain_isolated by blast
  moreover have "instance_on ?s ''sui'' [9] = Some \<lparr>ti_supply = Tracked 1500, ti_decimals = 6\<rparr>" by (simp add: instance_on_def its_ex_state_def)
  ultimately show ?thesis by (simp add: its_ex_call_def)
qed

text \<open>
  C21. The origin chain of a token never changes once it is known, and unless the operator registers a
  deployment, a token comes to a further chain only by a message of the service contract of its
  origin chain.
\<close>

theorem only_origin_deploys:
  assumes "its_tx s call = Inr (s', r)"
  shows "(\<forall>t config. kv_get (its_token_configs s) t = Some config \<longrightarrow> kv_get (its_token_configs s') t = Some config)
    \<and> (\<forall>c t. instance_on s c t = None \<and> instance_on s' c t \<noteq> None \<and> \<not> intervenes c t call \<longrightarrow>
        (\<exists>env x cs config. call = (env, ic_axelarnet_gateway config, ItsExecute x) \<and> its_config s = Some config
          \<and> kv_get (its_chain_configs s) (source_chain (ax_cc_id x)) = Some cs \<and> ax_source_address x = cf_its_address cs
          \<and> kv_get (its_token_configs s') t = Some \<lparr>tk_origin_chain = source_chain (ax_cc_id x)\<rparr>))"
proof (intro conjI allI impI)
  fix c t assume new: "instance_on s c t = None \<and> instance_on s' c t \<noteq> None \<and> \<not> intervenes c t call"
  then obtain env a x where call: "call = (env, a, ItsExecute x)"
    and origin: "kv_get (its_token_configs s') t = Some \<lparr>tk_origin_chain = source_chain (ax_cc_id x)\<rparr>" using deployment_tx(2) [OF assms] by blast
  from assms [unfolded call] obtain config where config: "its_config s = Some config" "a = ic_axelarnet_gateway config"
    and exec: "execute_message env s x = Inr (s', r)" by (rule its_execute_sender)
  from execute_message_source(2) [OF exec] config origin call
  show "\<exists>env x cs config. call = (env, ic_axelarnet_gateway config, ItsExecute x) \<and> its_config s = Some config
      \<and> kv_get (its_chain_configs s) (source_chain (ax_cc_id x)) = Some cs \<and> ax_source_address x = cf_its_address cs
      \<and> kv_get (its_token_configs s') t = Some \<lparr>tk_origin_chain = source_chain (ax_cc_id x)\<rparr>" by blast
qed (rule deployment_tx(1) [OF assms])

theorem only_origin_deploys_witness:
  "kv_get (its_token_configs (its_ex_state its_ex_chains (Some 0))) [9] = Some \<lparr>tk_origin_chain = ''eth''\<rparr>
     \<and> instance_on (its_ex_state its_ex_chains None) ''sui'' [9] = None \<and> instance_on (its_ex_state its_ex_chains (Some 0)) ''sui'' [9] \<noteq> None"
proof -
  have new: "instance_on (its_ex_state its_ex_chains None) ''sui'' [9] = None" "instance_on (its_ex_state its_ex_chains (Some 0)) ''sui'' [9] \<noteq> None"
    "\<not> intervenes ''sui'' [9] (its_ex_call ''eth'' [0])" by (simp_all add: instance_on_def its_ex_state_def its_ex_call_def)
  then obtain env and x :: axelar_executable_msg and config :: its_config where "its_ex_call ''eth'' [0] = (env, ic_axelarnet_gateway config, ItsExecute x)"
    "kv_get (its_token_configs (its_ex_state its_ex_chains (Some 0))) [9] = Some \<lparr>tk_origin_chain = source_chain (ax_cc_id x)\<rparr>"
    using only_origin_deploys [OF its_ex_step_deploy] by blast
  then show ?thesis using new by (auto simp: its_ex_call_def)
qed

end
