(* ===== verification/Its_Abi_Translator.thy ===== *)
theory Its_Abi_Translator
  imports Its_Std
begin

text \<open>
  The translation contract for chains with the ABI of Ethereum, \<open>contracts/its-abi-translator/src\<close>:
  the messages of the token service as parameter lists of the ABI and back. The coding of
  parameter lists is that of the crate \<open>alloy_sol_types\<close>; what the contract relies on is the locale
  \<open>abi_codec\<close>, and the coding of the ABI specification for the types that occur is written out as
  its instance.
\<close>

section \<open>Definitions\<close>

subsection \<open>Values of the ABI\<close>

datatype abi_type = TUint256 | TUint8 | TBytes32 | TBytes | TString

datatype abi_value = AUint256 u256 | AUint8 u8 | ABytes32 "u8 list" | ABytes "u8 list" | AString string

fun abi_type_of :: "abi_value \<Rightarrow> abi_type" where
  "abi_type_of (AUint256 _) = TUint256"
| "abi_type_of (AUint8 _) = TUint8"
| "abi_type_of (ABytes32 _) = TBytes32"
| "abi_type_of (ABytes _) = TBytes"
| "abi_type_of (AString _) = TString"

datatype message_type =
    MtInterchainTransfer | MtDeployInterchainToken | MtDeployTokenManager | MtSendToHub | MtReceiveFromHub | MtLinkToken
  | MtRegisterTokenMetadata

fun message_type_code :: "message_type \<Rightarrow> u256" where
  "message_type_code MtInterchainTransfer = 0"
| "message_type_code MtDeployInterchainToken = 1"
| "message_type_code MtDeployTokenManager = 2"
| "message_type_code MtSendToHub = 3"
| "message_type_code MtReceiveFromHub = 4"
| "message_type_code MtLinkToken = 5"
| "message_type_code MtRegisterTokenMetadata = 6"

text \<open>The parameter types of the Solidity structs.\<close>

definition interchain_transfer_types :: "abi_type list" where
  "interchain_transfer_types = [TUint256, TBytes32, TBytes, TBytes, TUint256, TBytes]"

definition deploy_interchain_token_types :: "abi_type list" where
  "deploy_interchain_token_types = [TUint256, TBytes32, TString, TString, TUint8, TBytes]"

definition send_to_hub_types :: "abi_type list" where
  "send_to_hub_types = [TUint256, TString, TBytes]"

definition receive_from_hub_types :: "abi_type list" where
  "receive_from_hub_types = [TUint256, TString, TBytes]"

definition register_token_metadata_types :: "abi_type list" where
  "register_token_metadata_types = [TUint256, TBytes, TUint8]"

definition link_token_types :: "abi_type list" where
  "link_token_types = [TUint256, TBytes32, TUint256, TBytes, TBytes, TBytes]"

text \<open>The coding of the library: parameter lists, and the message type in the first word.\<close>

record abi_lib =
  abi_encode_params :: "abi_value list \<Rightarrow> u8 list"
  abi_decode_params :: "abi_type list \<Rightarrow> u8 list \<Rightarrow> abi_value list option"
  abi_decode_message_type :: "u8 list \<Rightarrow> message_type option"

subsection \<open>Messages\<close>

datatype abi_error =
    InsufficientMessageLength
  | AbiInvalidMessageType
  | AbiInvalidChainName
  | AbiNonEmpty nonempty_error
  | AbiDecodeFailed

definition into_vec :: "u8 list option \<Rightarrow> u8 list" where
  "into_vec x = (case x of Some v \<Rightarrow> v | None \<Rightarrow> [])"

definition from_vec :: "u8 list \<Rightarrow> (abi_error, u8 list option) result" where
  "from_vec x = (if x = [] then Ok None
     else and_then (expect_ok ''empty vec should not happen'' (nonempty_vec_try_from x)) (\<lambda>v. Ok (Some v)))"

fun message_abi_values :: "its_message \<Rightarrow> abi_value list" where
  "message_abi_values (InterchainTransfer t) =
     [AUint256 (message_type_code MtInterchainTransfer), ABytes32 (it_token_id t), ABytes (it_source_address t),
      ABytes (it_destination_address t), AUint256 (it_amount t), ABytes (into_vec (it_data t))]"
| "message_abi_values (DeployInterchainToken d) =
     [AUint256 (message_type_code MtDeployInterchainToken), ABytes32 (di_token_id d), AString (di_name d), AString (di_symbol d),
      AUint8 (di_decimals d), ABytes (into_vec (di_minter d))]"
| "message_abi_values (LinkToken l) =
     [AUint256 (message_type_code MtLinkToken), ABytes32 (lt_token_id l), AUint256 (lt_token_manager_type l),
      ABytes (lt_source_token_address l), ABytes (lt_destination_token_address l), ABytes (into_vec (lt_params l))]"

definition message_abi_encode :: "abi_lib \<Rightarrow> its_message \<Rightarrow> u8 list" where
  "message_abi_encode abi m = abi_encode_params abi (message_abi_values m)"

definition decode_interchain_transfer :: "abi_lib \<Rightarrow> u8 list \<Rightarrow> (abi_error, its_message) result" where
  "decode_interchain_transfer abi payload =
     (case abi_decode_params abi interchain_transfer_types payload of
        Some [AUint256 _, ABytes32 token_id, ABytes source, ABytes destination, AUint256 amount, ABytes data] \<Rightarrow>
          and_then (map_err AbiNonEmpty (nonempty_vec_try_from source)) (\<lambda>source.
          and_then (map_err AbiNonEmpty (nonempty_vec_try_from destination)) (\<lambda>destination.
          and_then (map_err AbiNonEmpty (nonempty_uint256_try_from amount)) (\<lambda>amount.
          and_then (from_vec data) (\<lambda>data.
          Ok (InterchainTransfer \<lparr>it_token_id = token_id, it_source_address = source, it_destination_address = destination,
            it_amount = amount, it_data = data\<rparr>)))))
      | _ \<Rightarrow> fail AbiDecodeFailed)"

definition decode_deploy_interchain_token :: "abi_lib \<Rightarrow> u8 list \<Rightarrow> (abi_error, its_message) result" where
  "decode_deploy_interchain_token abi payload =
     (case abi_decode_params abi deploy_interchain_token_types payload of
        Some [AUint256 _, ABytes32 token_id, AString name, AString symbol, AUint8 decimals, ABytes minter] \<Rightarrow>
          and_then (map_err AbiNonEmpty (nonempty_string_try_from name)) (\<lambda>name.
          and_then (map_err AbiNonEmpty (nonempty_string_try_from symbol)) (\<lambda>symbol.
          and_then (from_vec minter) (\<lambda>minter.
          Ok (DeployInterchainToken \<lparr>di_token_id = token_id, di_name = name, di_symbol = symbol, di_decimals = decimals,
            di_minter = minter\<rparr>))))
      | _ \<Rightarrow> fail AbiDecodeFailed)"

definition decode_link_token :: "abi_lib \<Rightarrow> u8 list \<Rightarrow> (abi_error, its_message) result" where
  "decode_link_token abi payload =
     (case abi_decode_params abi link_token_types payload of
        Some [AUint256 _, ABytes32 token_id, AUint256 manager_type, ABytes source, ABytes destination, ABytes params] \<Rightarrow>
          and_then (map_err AbiNonEmpty (nonempty_vec_try_from source)) (\<lambda>source.
          and_then (map_err AbiNonEmpty (nonempty_vec_try_from destination)) (\<lambda>destination.
          and_then (from_vec params) (\<lambda>params.
          Ok (LinkToken \<lparr>lt_token_id = token_id, lt_token_manager_type = manager_type, lt_source_token_address = source,
            lt_destination_token_address = destination, lt_params = params\<rparr>))))
      | _ \<Rightarrow> fail AbiDecodeFailed)"

definition message_abi_decode :: "abi_lib \<Rightarrow> u8 list \<Rightarrow> (abi_error, its_message) result" where
  "message_abi_decode abi payload =
     and_then (ensure (length payload \<ge> 32) InsufficientMessageLength) (\<lambda>_.
     and_then (ok_or AbiInvalidMessageType (abi_decode_message_type abi (take 32 payload))) (\<lambda>message_type.
     case message_type of
       MtInterchainTransfer \<Rightarrow> decode_interchain_transfer abi payload
     | MtDeployInterchainToken \<Rightarrow> decode_deploy_interchain_token abi payload
     | MtLinkToken \<Rightarrow> decode_link_token abi payload
     | _ \<Rightarrow> fail AbiInvalidMessageType))"

fun hub_message_abi_values :: "abi_lib \<Rightarrow> hub_message \<Rightarrow> abi_value list" where
  "hub_message_abi_values abi (SendToHub dest m) =
     [AUint256 (message_type_code MtSendToHub), AString dest, ABytes (message_abi_encode abi m)]"
| "hub_message_abi_values abi (ReceiveFromHub src m) =
     [AUint256 (message_type_code MtReceiveFromHub), AString src, ABytes (message_abi_encode abi m)]"
| "hub_message_abi_values abi (RegisterTokenMetadata r) =
     [AUint256 (message_type_code MtRegisterTokenMetadata), ABytes (rm_token_address r), AUint8 (rm_decimals r)]"

definition hub_message_abi_encode :: "abi_lib \<Rightarrow> hub_message \<Rightarrow> u8 list" where
  "hub_message_abi_encode abi h = abi_encode_params abi (hub_message_abi_values abi h)"

definition decode_hub :: "abi_lib \<Rightarrow> abi_type list \<Rightarrow> (string \<Rightarrow> its_message \<Rightarrow> hub_message) \<Rightarrow> u8 list \<Rightarrow> (abi_error, hub_message) result" where
  "decode_hub abi types f payload =
     (case abi_decode_params abi types payload of
        Some [AUint256 _, AString chain, ABytes m] \<Rightarrow>
          and_then (change_context AbiInvalidChainName (chain_name_raw_from_str chain)) (\<lambda>chain.
          and_then (message_abi_decode abi m) (\<lambda>m. Ok (f chain m)))
      | _ \<Rightarrow> fail AbiDecodeFailed)"

definition decode_register_token_metadata :: "abi_lib \<Rightarrow> u8 list \<Rightarrow> (abi_error, hub_message) result" where
  "decode_register_token_metadata abi payload =
     (case abi_decode_params abi register_token_metadata_types payload of
        Some [AUint256 _, ABytes address, AUint8 decimals] \<Rightarrow>
          and_then (map_err AbiNonEmpty (nonempty_vec_try_from address)) (\<lambda>address.
          Ok (RegisterTokenMetadata \<lparr>rm_decimals = decimals, rm_token_address = address\<rparr>))
      | _ \<Rightarrow> fail AbiDecodeFailed)"

definition hub_message_abi_decode :: "abi_lib \<Rightarrow> u8 list \<Rightarrow> (abi_error, hub_message) result" where
  "hub_message_abi_decode abi payload =
     and_then (ensure (length payload \<ge> 32) InsufficientMessageLength) (\<lambda>_.
     and_then (ok_or AbiInvalidMessageType (abi_decode_message_type abi (take 32 payload))) (\<lambda>message_type.
     case message_type of
       MtSendToHub \<Rightarrow> decode_hub abi send_to_hub_types SendToHub payload
     | MtReceiveFromHub \<Rightarrow> decode_hub abi receive_from_hub_types ReceiveFromHub payload
     | MtRegisterTokenMetadata \<Rightarrow> decode_register_token_metadata abi payload
     | _ \<Rightarrow> fail AbiInvalidMessageType))"

subsection \<open>The queries of the contract\<close>

datatype translator_error = TranslatorStd | TranslatorTranslationFailed | SerializationFailed | UnsupportedOperation

datatype translator_query = FromBytes "u8 list" | ToBytes hub_message

datatype translator_answer = HubMessage hub_message | Payload "u8 list"

fun its_translator_query :: "abi_lib \<Rightarrow> translator_query \<Rightarrow> (translator_error, translator_answer) result" where
  "its_translator_query abi (FromBytes payload) =
     and_then (change_context SerializationFailed (hub_message_abi_decode abi payload)) (\<lambda>m. Ok (HubMessage m))"
| "its_translator_query abi (ToBytes m) = Ok (Payload (hub_message_abi_encode abi m))"

text \<open>
  What the contract relies on: decoding gives back the encoded values (strings that are UTF-8, as
  every string of Rust is, and lengths below 2 to the 64), of the types that were asked for, and the first word is
  the message type.
\<close>

fun abi_value_ok :: "(string \<Rightarrow> bool) \<Rightarrow> abi_value \<Rightarrow> bool" where
  "abi_value_ok utf8 (ABytes32 b) \<longleftrightarrow> length b = 32"
| "abi_value_ok utf8 (ABytes b) \<longleftrightarrow> length b < 2 ^ 64"
| "abi_value_ok utf8 (AString s) \<longleftrightarrow> utf8 s \<and> length s < 2 ^ 64"
| "abi_value_ok utf8 _ \<longleftrightarrow> True"

text \<open>The strings of a message are UTF-8 and nothing is larger than the addresses of a machine.\<close>

definition hub_message_fits :: "abi_lib \<Rightarrow> (string \<Rightarrow> bool) \<Rightarrow> hub_message \<Rightarrow> bool" where
  "hub_message_fits abi utf8 h \<longleftrightarrow> list_all (abi_value_ok utf8) (hub_message_abi_values abi h)
     \<and> (case h of SendToHub _ m \<Rightarrow> list_all (abi_value_ok utf8) (message_abi_values m)
         | ReceiveFromHub _ m \<Rightarrow> list_all (abi_value_ok utf8) (message_abi_values m) | _ \<Rightarrow> True)"

section \<open>Lemmas\<close>

lemma from_vec_into_vec: "x \<noteq> Some [] \<Longrightarrow> from_vec (into_vec x) = Inr x"
  by (auto simp: from_vec_def into_vec_def nonempty_vec_try_from_def split: option.splits)

lemma from_vec_Inr: "from_vec x = Inr y \<Longrightarrow> y \<noteq> Some []"
  by (auto simp: from_vec_def nonempty_vec_try_from_def split: if_splits)

subsection \<open>What follows from the contract of the library\<close>

locale abi_codec =
  fixes abi :: abi_lib
    and utf8 :: "string \<Rightarrow> bool"
  assumes decode_encode: "length vs \<le> 6 \<Longrightarrow> list_all (abi_value_ok utf8) vs \<Longrightarrow>
      abi_decode_params abi (map abi_type_of vs) (abi_encode_params abi vs) = Some vs"
    and decode_bytes32: "abi_decode_params abi types payload = Some vs \<Longrightarrow> ABytes32 b \<in> set vs \<Longrightarrow> length b = 32"
    and first_word: "32 \<le> length (abi_encode_params abi (AUint256 n # vs))"
    and message_type: "abi_decode_message_type abi (take 32 (abi_encode_params abi (AUint256 (message_type_code m) # vs))) = Some m"
begin

lemma decode_values:
  assumes "list_all (abi_value_ok utf8) vs" "length vs \<le> 6" "types = map abi_type_of vs"
  shows "abi_decode_params abi types (abi_encode_params abi vs) = Some vs"
  using decode_encode [OF assms(2,1)] assms(3) by simp

lemma message_roundtrip:
  assumes "its_message_ok m" "list_all (abi_value_ok utf8) (message_abi_values m)"
  shows "message_abi_decode abi (message_abi_encode abi m) = Inr m"
proof (cases m)
  case (InterchainTransfer t)
  have "abi_decode_params abi interchain_transfer_types (abi_encode_params abi (message_abi_values m)) = Some (message_abi_values m)"
    by (rule decode_values [OF assms(2)]) (simp_all add: InterchainTransfer interchain_transfer_types_def)
  then show ?thesis using assms(1) message_type [of MtInterchainTransfer] first_word [of 0]
    by (simp add: InterchainTransfer message_abi_decode_def message_abi_encode_def decode_interchain_transfer_def
        nonempty_vec_try_from_def nonempty_uint256_try_from_def from_vec_into_vec ensure_def)
next
  case (DeployInterchainToken d)
  have "abi_decode_params abi deploy_interchain_token_types (abi_encode_params abi (message_abi_values m)) = Some (message_abi_values m)"
    by (rule decode_values [OF assms(2)]) (simp_all add: DeployInterchainToken deploy_interchain_token_types_def)
  then show ?thesis using assms(1) message_type [of MtDeployInterchainToken] first_word [of 1]
    by (simp add: DeployInterchainToken message_abi_decode_def message_abi_encode_def decode_deploy_interchain_token_def
        nonempty_string_try_from_def from_vec_into_vec ensure_def)
next
  case (LinkToken l)
  have "abi_decode_params abi link_token_types (abi_encode_params abi (message_abi_values m)) = Some (message_abi_values m)"
    by (rule decode_values [OF assms(2)]) (simp_all add: LinkToken link_token_types_def)
  then show ?thesis using assms(1) message_type [of MtLinkToken] first_word [of 5]
    by (simp add: LinkToken message_abi_decode_def message_abi_encode_def decode_link_token_def
        nonempty_vec_try_from_def from_vec_into_vec ensure_def)
qed

lemma hub_message_roundtrip:
  assumes "hub_message_ok h" "hub_message_fits abi utf8 h"
  shows "hub_message_abi_decode abi (hub_message_abi_encode abi h) = Inr h"
proof (cases h)
  case (SendToHub chain m)
  have "abi_decode_params abi send_to_hub_types (abi_encode_params abi (hub_message_abi_values abi h)) = Some (hub_message_abi_values abi h)"
    by (rule decode_values) (use assms(2) in \<open>simp_all add: SendToHub send_to_hub_types_def hub_message_fits_def\<close>)
  then show ?thesis using assms message_type [of MtSendToHub] first_word [of 3] message_roundtrip [of m]
    by (simp add: SendToHub hub_message_abi_decode_def hub_message_abi_encode_def decode_hub_def hub_message_fits_def
        chain_name_raw_from_str_def ensure_def)
next
  case (ReceiveFromHub chain m)
  have "abi_decode_params abi receive_from_hub_types (abi_encode_params abi (hub_message_abi_values abi h)) = Some (hub_message_abi_values abi h)"
    by (rule decode_values) (use assms(2) in \<open>simp_all add: ReceiveFromHub receive_from_hub_types_def hub_message_fits_def\<close>)
  then show ?thesis using assms message_type [of MtReceiveFromHub] first_word [of 4] message_roundtrip [of m]
    by (simp add: ReceiveFromHub hub_message_abi_decode_def hub_message_abi_encode_def decode_hub_def hub_message_fits_def
        chain_name_raw_from_str_def ensure_def)
next
  case (RegisterTokenMetadata r)
  have "abi_decode_params abi register_token_metadata_types (abi_encode_params abi (hub_message_abi_values abi h)) = Some (hub_message_abi_values abi h)"
    by (rule decode_values) (use assms(2) in \<open>simp_all add: RegisterTokenMetadata register_token_metadata_types_def hub_message_fits_def\<close>)
  then show ?thesis using assms(1) message_type [of MtRegisterTokenMetadata] first_word [of 6]
    by (simp add: RegisterTokenMetadata hub_message_abi_decode_def hub_message_abi_encode_def decode_register_token_metadata_def
        nonempty_vec_try_from_def ensure_def)
qed

lemma decoded_transfer_ok: "decode_interchain_transfer abi payload = Inr m \<Longrightarrow> its_message_ok m"
  by (auto simp: decode_interchain_transfer_def nonempty_vec_try_from_def nonempty_uint256_try_from_def token_id_ok_def result_simps
      dest!: from_vec_Inr decode_bytes32 split: option.splits list.splits abi_value.splits if_splits)

lemma decoded_deployment_ok: "decode_deploy_interchain_token abi payload = Inr m \<Longrightarrow> its_message_ok m"
  by (auto simp: decode_deploy_interchain_token_def nonempty_string_try_from_def token_id_ok_def result_simps
      dest!: from_vec_Inr decode_bytes32 split: option.splits list.splits abi_value.splits if_splits)

lemma decoded_link_ok: "decode_link_token abi payload = Inr m \<Longrightarrow> its_message_ok m"
  by (auto simp: decode_link_token_def nonempty_vec_try_from_def token_id_ok_def result_simps
      dest!: from_vec_Inr decode_bytes32 split: option.splits list.splits abi_value.splits if_splits)

lemma decoded_message_ok:
  assumes "message_abi_decode abi payload = Inr m"
  shows "its_message_ok m"
proof -
  from assms obtain mt where "(case mt of MtInterchainTransfer \<Rightarrow> decode_interchain_transfer abi payload
     | MtDeployInterchainToken \<Rightarrow> decode_deploy_interchain_token abi payload
     | MtLinkToken \<Rightarrow> decode_link_token abi payload | _ \<Rightarrow> fail AbiInvalidMessageType) = Inr m" by (auto simp: message_abi_decode_def and_then_Inr_iff)
  then show ?thesis by (cases mt) (auto dest: decoded_transfer_ok decoded_deployment_ok decoded_link_ok)
qed

lemma decoded_hub_message_ok:
  assumes "hub_message_abi_decode abi payload = Inr h"
  shows "hub_message_ok h"
proof -
  have hub: "decode_hub abi types f payload = Inr h \<Longrightarrow> \<exists>chain m. h = f chain m \<and> is_raw_chain_name chain \<and> its_message_ok m" for types f
    by (auto simp: decode_hub_def chain_name_raw_from_str_def and_then_Inr_iff map_err_Inr_iff dest: decoded_message_ok
        split: option.splits list.splits abi_value.splits if_splits)
  have metadata: "decode_register_token_metadata abi payload = Inr h \<Longrightarrow> hub_message_ok h"
    by (auto simp: decode_register_token_metadata_def nonempty_vec_try_from_def result_simps
        split: option.splits list.splits abi_value.splits if_splits)
  from assms obtain mt where "(case mt of MtSendToHub \<Rightarrow> decode_hub abi send_to_hub_types SendToHub payload
     | MtReceiveFromHub \<Rightarrow> decode_hub abi receive_from_hub_types ReceiveFromHub payload
     | MtRegisterTokenMetadata \<Rightarrow> decode_register_token_metadata abi payload
     | _ \<Rightarrow> fail AbiInvalidMessageType) = Inr h" by (auto simp: hub_message_abi_decode_def and_then_Inr_iff)
  then show ?thesis by (cases mt) (auto dest!: hub metadata)
qed

end

subsection \<open>The coding of the ABI specification\<close>

text \<open>
  Numbers are words of 32 bytes, the most significant byte first. The parameters stand in order in the
  head; a value of variable length is replaced by its offset and stands after the head, with its length
  before it and padded to full words.
\<close>

fun nat_be :: "nat \<Rightarrow> nat \<Rightarrow> u8 list" where
  "nat_be 0 n = []"
| "nat_be (Suc k) n = nat_be k (n div 256) @ [of_nat (n mod 256)]"

definition abi_word :: "nat \<Rightarrow> u8 list" where
  "abi_word n = nat_be 32 n"

definition abi_padding :: "nat \<Rightarrow> u8 list" where
  "abi_padding n = replicate ((32 - n mod 32) mod 32) 0"

definition abi_tail :: "u8 list \<Rightarrow> u8 list" where
  "abi_tail b = abi_word (length b) @ b @ abi_padding (length b)"

definition bytes_string :: "u8 list \<Rightarrow> string" where
  "bytes_string b = map (\<lambda>x. char_of (unat x)) b"

fun abi_parts :: "nat \<Rightarrow> abi_value list \<Rightarrow> u8 list \<times> u8 list" where
  "abi_parts off [] = ([], [])"
| "abi_parts off (AUint256 n # vs) = (let (h, t) = abi_parts off vs in (abi_word (unat n) @ h, t))"
| "abi_parts off (AUint8 n # vs) = (let (h, t) = abi_parts off vs in (abi_word (unat n) @ h, t))"
| "abi_parts off (ABytes32 b # vs) = (let (h, t) = abi_parts off vs in (b @ h, t))"
| "abi_parts off (ABytes b # vs) = (let (h, t) = abi_parts (off + length (abi_tail b)) vs in (abi_word off @ h, abi_tail b @ t))"
| "abi_parts off (AString s # vs) =
     (let (h, t) = abi_parts (off + length (abi_tail (str_bytes s))) vs in (abi_word off @ h, abi_tail (str_bytes s) @ t))"

definition abi_encode_std :: "abi_value list \<Rightarrow> u8 list" where
  "abi_encode_std vs = (case abi_parts (32 * length vs) vs of (h, t) \<Rightarrow> h @ t)"

definition abi_read_tail :: "u8 list \<Rightarrow> nat \<Rightarrow> u8 list option" where
  "abi_read_tail p off =
     (let d = drop off p; n = from_be_slice (take 32 d)
      in if length d < 32 \<or> length d < 32 + n then None else Some (take n (drop 32 d)))"

fun abi_read :: "u8 list \<Rightarrow> abi_type \<Rightarrow> u8 list \<Rightarrow> abi_value option" where
  "abi_read p TUint256 w = Some (AUint256 (of_nat (from_be_slice w)))"
| "abi_read p TUint8 w = (if from_be_slice w < 256 then Some (AUint8 (of_nat (from_be_slice w))) else None)"
| "abi_read p TBytes32 w = Some (ABytes32 w)"
| "abi_read p TBytes w = map_option ABytes (abi_read_tail p (from_be_slice w))"
| "abi_read p TString w = Option.bind (abi_read_tail p (from_be_slice w)) (\<lambda>b.
     if is_ascii (bytes_string b) then Some (AString (bytes_string b)) else None)"

fun abi_read_all :: "u8 list \<Rightarrow> abi_type list \<Rightarrow> u8 list \<Rightarrow> abi_value list option" where
  "abi_read_all p [] q = Some []"
| "abi_read_all p (ty # tys) q = (if length q < 32 then None else
     Option.bind (abi_read p ty (take 32 q)) (\<lambda>v. map_option ((#) v) (abi_read_all p tys (drop 32 q))))"

definition abi_decode_std :: "abi_type list \<Rightarrow> u8 list \<Rightarrow> abi_value list option" where
  "abi_decode_std tys p = abi_read_all p tys p"

definition message_types :: "message_type list" where
  "message_types = [MtInterchainTransfer, MtDeployInterchainToken, MtDeployTokenManager, MtSendToHub, MtReceiveFromHub, MtLinkToken,
     MtRegisterTokenMetadata]"

definition abi_message_type_std :: "u8 list \<Rightarrow> message_type option" where
  "abi_message_type_std w = (if from_be_slice w < length message_types then Some (message_types ! from_be_slice w) else None)"

definition std_abi :: abi_lib where
  "std_abi = \<lparr>abi_encode_params = abi_encode_std, abi_decode_params = abi_decode_std, abi_decode_message_type = abi_message_type_std\<rparr>"

lemma length_nat_be [simp]: "length (nat_be k n) = k"
  by (induction k n rule: nat_be.induct) simp_all

lemma from_be_nat_be: "n < 256 ^ k \<Longrightarrow> from_be_slice (nat_be k n) = n"
proof (induction k n rule: nat_be.induct)
  case (2 k n)
  then have "from_be_slice (nat_be k (n div 256)) = n div 256" by (simp add: less_mult_imp_div_less mult.commute)
  then show ?case by (simp add: from_be_slice_snoc unsigned_of_nat take_bit_eq_mod)
qed (simp add: from_be_slice_def)

lemma length_abi_word [simp]: "length (abi_word n) = 32"
  by (simp add: abi_word_def)

lemma from_be_abi_word: "n < 2 ^ 256 \<Longrightarrow> from_be_slice (abi_word n) = n"
  unfolding abi_word_def by (rule from_be_nat_be) simp

lemma bytes_string_bytes [simp]: "bytes_string (str_bytes s) = s"
proof -
  have "unat (char_byte c) = of_char c" for c :: char
    using nat_of_char_less_256 [of c] by (simp add: char_byte_def unsigned_of_nat take_bit_nat_eq_self)
  then show ?thesis by (simp add: bytes_string_def str_bytes_def comp_def)
qed

lemma length_str_bytes [simp]: "length (str_bytes s) = length s"
  by (simp add: str_bytes_def)

lemma length_abi_tail: "length (abi_tail b) \<le> 63 + length b"
proof -
  have "(32 - length b mod 32) mod 32 \<le> (31 :: nat)" using mod_less_divisor [of 32 "32 - length b mod 32"] by linarith
  then show ?thesis by (simp add: abi_tail_def abi_padding_def)
qed

lemma abi_read_tail_at:
  assumes "drop off p = abi_tail b @ rest" "length b < 2 ^ 256"
  shows "abi_read_tail p off = Some b"
  using assms by (simp add: abi_read_tail_def abi_tail_def from_be_abi_word)

lemma drop_next: "drop off p = x @ y \<Longrightarrow> drop (off + length x) p = y"
  by (metis add.commute append_eq_conv_conj drop_drop)

lemma abi_read_parts:
  assumes "list_all (abi_value_ok is_ascii) vs" "abi_parts off vs = (h, t)" "drop off p = t @ rest" "off + length t < 2 ^ 256"
  shows "abi_read_all p (map abi_type_of vs) (h @ rest') = Some vs"
  using assms
proof (induction off vs arbitrary: h t rest rule: abi_parts.induct)
  case (2 off n vs)
  then show ?case using unat_less_width [of n] by (auto simp: from_be_abi_word split: prod.splits)
next
  case (3 off n vs)
  have "unat n < 256" using unat_less_width [of n] by simp
  then show ?case using 3 by (auto simp: from_be_abi_word split: prod.splits)
next
  case (5 off b vs)
  obtain h' t' where parts: "abi_parts (off + length (abi_tail b)) vs = (h', t')" by (cases "abi_parts (off + length (abi_tail b)) vs")
  have ht: "h = abi_word off @ h'" "t = abi_tail b @ t'" using 5(3) parts by simp_all
  have "abi_read_tail p off = Some b" by (rule abi_read_tail_at) (use 5(2,4) ht in auto)
  moreover have "abi_read_all p (map abi_type_of vs) (h' @ rest') = Some vs"
    by (rule "5.IH" [OF _ parts]) (use 5(2,4,5) drop_next [of off p "abi_tail b" "t' @ rest"] ht in \<open>simp_all add: add.assoc\<close>)
  ultimately show ?case using 5(5) ht by (simp add: from_be_abi_word)
next
  case (6 off s vs)
  let ?b = "str_bytes s"
  obtain h' t' where parts: "abi_parts (off + length (abi_tail ?b)) vs = (h', t')" by (cases "abi_parts (off + length (abi_tail ?b)) vs")
  have ht: "h = abi_word off @ h'" "t = abi_tail ?b @ t'" using 6(3) parts by simp_all
  have "abi_read_tail p off = Some ?b" by (rule abi_read_tail_at) (use 6(2,4) ht in auto)
  moreover have "abi_read_all p (map abi_type_of vs) (h' @ rest') = Some vs"
    by (rule "6.IH" [OF _ parts]) (use 6(2,4,5) drop_next [of off p "abi_tail ?b" "t' @ rest"] ht in \<open>simp_all add: add.assoc\<close>)
  ultimately show ?case using 6(2,5) ht by (simp add: from_be_abi_word)
qed (auto split: prod.splits)

lemma length_abi_parts:
  assumes "list_all (abi_value_ok utf8) vs" "abi_parts off vs = (h, t)"
  shows "length h = 32 * length vs \<and> length t \<le> length vs * (63 + 2 ^ 64)"
  using assms
proof (induction off vs arbitrary: h t rule: abi_parts.induct)
  case (5 off b vs)
  then show ?case using length_abi_tail [of b] by (auto split: prod.splits)
next
  case (6 off s vs)
  then show ?case using length_abi_tail [of "str_bytes s"] by (auto split: prod.splits)
qed (auto split: prod.splits)

lemma abi_decode_encode_std:
  assumes "length vs \<le> 6" "list_all (abi_value_ok is_ascii) vs"
  shows "abi_decode_std (map abi_type_of vs) (abi_encode_std vs) = Some vs"
proof -
  obtain h t where parts: "abi_parts (32 * length vs) vs = (h, t)" by (cases "abi_parts (32 * length vs) vs")
  note len = length_abi_parts [OF assms(2) parts]
  have "length t \<le> 6 * (63 + 2 ^ 64)" using len assms(1) mult_le_mono1 [OF assms(1), of "63 + 2 ^ 64"] by linarith
  then have "32 * length vs + length t < 2 ^ 256" using assms(1) by simp
  from abi_read_parts [OF assms(2) parts, of "h @ t" "[]" t] this len show ?thesis
    by (simp add: abi_decode_std_def abi_encode_std_def parts)
qed

lemma abi_read_bytes32: "abi_read_all p tys q = Some vs \<Longrightarrow> ABytes32 b \<in> set vs \<Longrightarrow> length b = 32"
proof (induction p tys q arbitrary: vs rule: abi_read_all.induct)
  case (2 p ty tys q)
  then obtain v vs' where q: "32 \<le> length q" and v: "abi_read p ty (take 32 q) = Some v" and vs: "abi_read_all p tys (drop 32 q) = Some vs'" "vs = v # vs'"
    by (auto simp: bind_eq_Some_conv split: if_splits)
  have "v = ABytes32 b \<Longrightarrow> length b = 32" using v q by (cases ty) (auto simp: bind_eq_Some_conv split: if_splits)
  then show ?case using 2 q v vs by auto
qed simp

lemma abi_first_word: "\<exists>rest. abi_encode_std (AUint256 n # vs) = abi_word (unat n) @ rest"
  by (auto simp: abi_encode_std_def split: prod.splits)

lemma abi_message_type_at: "abi_message_type_std (take 32 (abi_encode_std (AUint256 (message_type_code m) # vs))) = Some m"
proof -
  obtain rest where "abi_encode_std (AUint256 (message_type_code m) # vs) = abi_word (unat (message_type_code m)) @ rest"
    using abi_first_word by blast
  then show ?thesis by (cases m) (simp_all add: abi_message_type_std_def from_be_abi_word message_types_def)
qed

interpretation std_codec: abi_codec std_abi is_ascii
proof
  fix n vs
  obtain rest where "abi_encode_std (AUint256 n # vs) = abi_word (unat n) @ rest" using abi_first_word by blast
  then show "32 \<le> length (abi_encode_params std_abi (AUint256 n # vs))" by (simp add: std_abi_def)
qed (simp_all add: std_abi_def abi_decode_encode_std abi_message_type_at, simp add: abi_decode_std_def abi_read_bytes32)

section \<open>Example\<close>

definition abi_ex_message :: hub_message where
  "abi_ex_message = SendToHub ''eth'' (InterchainTransfer \<lparr>it_token_id = replicate 32 9, it_source_address = [1], it_destination_address = [2, 3],
     it_amount = 1500, it_data = None\<rparr>)"

lemma abi_ex_length: "length (message_abi_encode std_abi (InterchainTransfer \<lparr>it_token_id = replicate 32 9, it_source_address = [1],
     it_destination_address = [2, 3], it_amount = 1500, it_data = None\<rparr>)) = 352"
  by (simp add: message_abi_encode_def std_abi_def abi_encode_std_def abi_tail_def abi_padding_def into_vec_def)

lemma abi_ex_ok: "hub_message_ok abi_ex_message" "hub_message_fits std_abi is_ascii abi_ex_message"
  by (simp_all add: abi_ex_message_def token_id_ok_def hub_message_fits_def abi_ex_length into_vec_def
      is_raw_chain_name_def chain_name_max_len_def field_delimiter_def is_ascii_def)

section \<open>Properties\<close>

text \<open>
  C23. Whatever the ABI library does within its contract, the translator of the token service decodes
  every message from the bytes it encodes it to, and it accepts no bytes that stand for a message
  with an empty field or a zero amount.
\<close>

theorem translation_roundtrip:
  assumes "abi_codec abi utf8"
  shows "(hub_message_ok h \<and> hub_message_fits abi utf8 h \<longrightarrow>
      (\<exists>payload. its_translator_query abi (ToBytes h) = Inr (Payload payload) \<and> its_translator_query abi (FromBytes payload) = Inr (HubMessage h)))
    \<and> (its_translator_query abi (FromBytes bytes) = Inr (HubMessage h') \<longrightarrow> hub_message_ok h')"
  using abi_codec.hub_message_roundtrip [OF assms] abi_codec.decoded_hub_message_ok [OF assms] by (auto simp: result_simps)

theorem translation_roundtrip_witness:
  "\<exists>payload. its_translator_query std_abi (ToBytes abi_ex_message) = Inr (Payload payload)
     \<and> its_translator_query std_abi (FromBytes payload) = Inr (HubMessage abi_ex_message)"
  using translation_roundtrip [OF std_codec.abi_codec_axioms, of abi_ex_message] abi_ex_ok by blast

end
