(* ===== verification/Token_Hub.thy ===== *)
theory Token_Hub
  imports Interchain_Token_Service Its_Abi_Translator
begin

text \<open>
  The token service hub as it runs on Axelar: the gateway of the Axelar chain, the hub contract of the
  token service behind it and the translation contracts that the hub queries. A transaction calls
  one of the contracts; the messages in its response are executed in order within the same transaction,
  and the failure of one of them undoes all of it. Messages to other contracts are the output.
\<close>

section \<open>Definitions\<close>

record hub_setting =
  hs_gateway :: string
  hs_its :: string
  hs_translators :: "string \<Rightarrow> translator_query \<Rightarrow> (translator_error, translator_answer) result"
  hs_keccak256 :: "u8 list \<Rightarrow> u8 list"
  hs_addr_validate :: "string \<Rightarrow> string option"

record hub_state =
  hb_gateway :: ag_state
  hb_its :: its_state

text \<open>The queries of the hub contract are answered by the gateway and by the translation contracts.\<close>

definition query_chain_name :: "hub_setting \<Rightarrow> ag_state \<Rightarrow> string \<Rightarrow> string option" where
  "query_chain_name c g a = (if a = hs_gateway c then map_option ac_chain_name (ag_config g) else None)"

definition query_from_bytes :: "hub_setting \<Rightarrow> string \<Rightarrow> u8 list \<Rightarrow> hub_message option" where
  "query_from_bytes c a payload = (case hs_translators c a (FromBytes payload) of Inr (HubMessage m) \<Rightarrow> Some m | _ \<Rightarrow> None)"

definition query_to_bytes :: "hub_setting \<Rightarrow> string \<Rightarrow> hub_message \<Rightarrow> u8 list option" where
  "query_to_bytes c a m = (case hs_translators c a (ToBytes m) of Inr (Payload p) \<Rightarrow> Some p | _ \<Rightarrow> None)"

definition hub_its_env :: "hub_setting \<Rightarrow> ag_state \<Rightarrow> its_env" where
  "hub_its_env c g = \<lparr>ie_chain_name = query_chain_name c g, ie_from_bytes = query_from_bytes c, ie_to_bytes = query_to_bytes c,
     ie_keccak256 = hs_keccak256 c, ie_addr_validate = hs_addr_validate c\<rparr>"

text \<open>What a transaction shows: the messages delivered to the hub contract and those sent to other contracts.\<close>

datatype hub_output = Delivered axelar_executable_msg | Sent ag_out

datatype hub_error = HubGatewayErr ag_error | HubItsErr its_error

text \<open>A call of the gateway has one environment for the call and one for the call that comes back from the hub contract.\<close>

datatype hub_call = CallAxelarnet ag_env ag_env string "ag_msg from_proxy" | CallService ag_env string its_msg

definition hub_forward :: "hub_setting \<Rightarrow> ag_env \<Rightarrow> hub_state \<times> hub_output list \<Rightarrow> its_out \<Rightarrow> (hub_error, hub_state \<times> hub_output list) result" where
  "hub_forward c env x m = (case x of (s, out) \<Rightarrow> (case m of ItsCallContract a d \<Rightarrow>
     if a = hs_gateway c
     then and_then (map_err HubGatewayErr (ag_tx (hb_gateway s) (env, hs_its c, Direct (AgCallContract d)))) (\<lambda>(g, r).
       Ok (s\<lparr>hb_gateway := g\<rparr>, out @ map Sent (messages r)))
     else Ok (s, out)))"

definition hub_deliver :: "hub_setting \<Rightarrow> ag_env \<Rightarrow> hub_state \<times> hub_output list \<Rightarrow> ag_out \<Rightarrow> (hub_error, hub_state \<times> hub_output list) result" where
  "hub_deliver c env x m = (case x of (s, out) \<Rightarrow> (case m of
     AgExecuteAt a msg \<Rightarrow>
       if a = hs_its c
       then and_then (map_err HubItsErr (its_tx (hb_its s) (hub_its_env c (hb_gateway s), hs_gateway c, ItsExecute msg))) (\<lambda>(i, r).
         try_fold (hub_forward c env) (s\<lparr>hb_its := i\<rparr>, out @ [Delivered msg]) (messages r))
       else Ok (s, out @ [Sent m])
   | _ \<Rightarrow> Ok (s, out @ [Sent m])))"

fun hub_tx :: "hub_setting \<Rightarrow> hub_state \<Rightarrow> hub_call \<Rightarrow> (hub_error, hub_state \<times> hub_output list) result" where
  "hub_tx c s (CallAxelarnet env env' sender msg) =
     and_then (map_err HubGatewayErr (ag_tx (hb_gateway s) (env, sender, msg))) (\<lambda>(g, r).
     try_fold (hub_deliver c env') (s\<lparr>hb_gateway := g\<rparr>, []) (messages r))"
| "hub_tx c s (CallService env sender msg) =
     and_then (map_err HubItsErr (its_tx (hb_its s) (hub_its_env c (hb_gateway s), sender, msg))) (\<lambda>(i, r).
     try_fold (hub_forward c env) (s\<lparr>hb_its := i\<rparr>, []) (messages r))"

text \<open>
  The calls from outside come from neither of the two contracts, the hash function is the same in all
  of them, and the router sends nothing but messages to route.
\<close>

fun hub_call_ok :: "hub_setting \<Rightarrow> string \<Rightarrow> hub_call \<Rightarrow> bool" where
  "hub_call_ok c router (CallAxelarnet env env' sender msg) \<longleftrightarrow> sender \<noteq> hs_gateway c \<and> sender \<noteq> hs_its c
     \<and> ag_call_ok (hs_keccak256 c) router (env, sender, msg) \<and> ae_keccak256 env' = hs_keccak256 c"
| "hub_call_ok c router (CallService env sender msg) \<longleftrightarrow> sender \<noteq> hs_gateway c \<and> sender \<noteq> hs_its c \<and> ae_keccak256 env = hs_keccak256 c"

text \<open>The outputs of a run, and the ids of the messages that were delivered to the hub contract.\<close>

fun hub_outputs :: "hub_setting \<Rightarrow> hub_state \<Rightarrow> hub_call list \<Rightarrow> (hub_call \<times> hub_output list) list" where
  "hub_outputs c s [] = []"
| "hub_outputs c s (call # calls) = (case hub_tx c s call of
     Inl _ \<Rightarrow> hub_outputs c s calls
   | Inr (s', out) \<Rightarrow> (call, out) # hub_outputs c s' calls)"

fun delivered_messages :: "hub_output list \<Rightarrow> axelar_executable_msg list" where
  "delivered_messages [] = []"
| "delivered_messages (Delivered x # out) = x # delivered_messages out"
| "delivered_messages (Sent _ # out) = delivered_messages out"

definition hub_delivered :: "(hub_call \<times> hub_output list) list \<Rightarrow> axelar_executable_msg list" where
  "hub_delivered tr = concat (map (\<lambda>(_, out). delivered_messages out) tr)"

text \<open>The calls of the hub contract in a run: the deliveries of the gateway and the calls from outside, in order.\<close>

fun its_calls_of :: "hub_setting \<Rightarrow> its_env \<Rightarrow> hub_call \<times> hub_output list \<Rightarrow> its_call list" where
  "its_calls_of c env (CallAxelarnet _ _ _ _, out) = map (\<lambda>x. (env, hs_gateway c, ItsExecute x)) (delivered_messages out)"
| "its_calls_of c env (CallService _ sender msg, out) = [(env, sender, msg)]"

definition hub_its_calls :: "hub_setting \<Rightarrow> its_env \<Rightarrow> (hub_call \<times> hub_output list) list \<Rightarrow> its_call list" where
  "hub_its_calls c env tr = concat (map (its_calls_of c env) tr)"

section \<open>Lemmas\<close>

lemma delivered_append [simp]: "delivered_messages (xs @ ys) = delivered_messages xs @ delivered_messages ys"
  by (induction xs rule: delivered_messages.induct) simp_all

lemma delivered_sent [simp]: "delivered_messages (map Sent ms) = []"
  by (induction ms) simp_all

subsection \<open>Projection to the contracts\<close>

text \<open>
  A transaction of the system is a sequence of calls of the gateway and of the hub contract. The calls of
  the gateway are the one from outside and calls from the hub contract; what is delivered to the hub contract are
  executions by the gateway.
\<close>

fun delivered_to :: "string \<Rightarrow> ag_out \<Rightarrow> axelar_executable_msg list" where
  "delivered_to a (AgExecuteAt a' x) = (if a' = a then [x] else [])"
| "delivered_to a _ = []"

definition ag_delivered :: "string \<Rightarrow> (ag_call \<times> ag_response) list \<Rightarrow> axelar_executable_msg list" where
  "ag_delivered a tr = concat (map (\<lambda>(_, r). concat (map (delivered_to a) (messages r))) tr)"

definition its_sends :: "hub_setting \<Rightarrow> ag_call \<Rightarrow> bool" where
  "its_sends c call \<longleftrightarrow> (\<exists>env d. call = (env, hs_its c, Direct (AgCallContract d)) \<and> ae_keccak256 env = hs_keccak256 c)"

definition gateway_steps :: "hub_setting \<Rightarrow> ag_call set \<Rightarrow> ag_state \<Rightarrow> ag_state \<Rightarrow> axelar_executable_msg list \<Rightarrow> bool" where
  "gateway_steps c A g g' xs \<longleftrightarrow> (\<exists>acs. (\<forall>call \<in> set acs. call \<in> A \<or> its_sends c call) \<and> run_txs ag_tx g acs = g'
     \<and> ag_delivered (hs_its c) (ag_trace g acs) = xs) \<and> ag_config g' = ag_config g"

text \<open>A sequence of calls of the hub contract, all of which succeed.\<close>

definition its_steps :: "its_state \<Rightarrow> its_state \<Rightarrow> its_call list \<Rightarrow> bool" where
  "its_steps i i' ics \<longleftrightarrow> run_txs its_tx i ics = i' \<and> map (\<lambda>(_, call, _). call) (its_trace i ics) = ics
     \<and> its_config i' = its_config i \<and> its_perms i' = its_perms i"

lemma ag_trace_append: "ag_trace s (xs @ ys) = ag_trace s xs @ ag_trace (run_txs ag_tx s xs) ys"
  by (induction xs arbitrary: s) (auto split: sum.splits)

lemma its_trace_append: "its_trace s (xs @ ys) = its_trace s xs @ its_trace (run_txs its_tx s xs) ys"
  by (induction xs arbitrary: s) (auto split: sum.splits)

lemma gateway_steps_refl: "gateway_steps c A g g []"
  unfolding gateway_steps_def by (intro conjI exI [of _ "[]"]) (simp_all add: ag_delivered_def)

lemma its_steps_refl: "its_steps i i []"
  by (simp add: its_steps_def)

lemma gateway_steps_trans:
  assumes "gateway_steps c A g g1 xs" "gateway_steps c B g1 g' ys"
  shows "gateway_steps c (A \<union> B) g g' (xs @ ys)"
proof -
  from assms obtain acs bcs where "\<forall>call \<in> set acs. call \<in> A \<or> its_sends c call" "run_txs ag_tx g acs = g1"
    "ag_delivered (hs_its c) (ag_trace g acs) = xs" "\<forall>call \<in> set bcs. call \<in> B \<or> its_sends c call" "run_txs ag_tx g1 bcs = g'"
    "ag_delivered (hs_its c) (ag_trace g1 bcs) = ys" and config: "ag_config g' = ag_config g" by (auto simp: gateway_steps_def)
  then have "(\<forall>call \<in> set (acs @ bcs). call \<in> A \<union> B \<or> its_sends c call) \<and> run_txs ag_tx g (acs @ bcs) = g'
      \<and> ag_delivered (hs_its c) (ag_trace g (acs @ bcs)) = xs @ ys"
    by (auto simp: ag_trace_append ag_delivered_def run_txs_def)
  then show ?thesis using config unfolding gateway_steps_def by blast
qed

lemma its_steps_trans: "its_steps i i1 ics \<Longrightarrow> its_steps i1 i' jcs \<Longrightarrow> its_steps i i' (ics @ jcs)"
  by (auto simp: its_steps_def its_trace_append run_txs_def)

lemma ag_tx_config:
  assumes "ag_tx s (env, a, c) = Inr (s', r)" "ag_config s = Some config"
  shows "ag_config s' = ag_config s"
proof -
  from assms(1) obtain msg where run: "ag_dispatch env s a msg = Inr (s', r)" by (rule ag_tx_Inr)
  show ?thesis
  proof (cases msg)
    case (AgRouteMessages ms)
    then show ?thesis using run ag_route_messages_Inr [OF _ assms(2), of env a ms s' r] by (auto simp: result_simps ag_routes_def approval_def)
  next
    case (AgExecute i payload)
    then have "ag_execute_msg env s i payload = Inr (s', r)" using run by (auto simp: result_simps)
    then show ?thesis by (rule ag_execute_msg_Inr) simp
  next
    case (AgCallContract d)
    then have "call_contract env s a d = Inr (s', r)" using run by (auto simp: result_simps)
    then obtain m s1 r1 where s1: "s1 = s\<lparr>ag_routable := kv_set (cc_id m) m (ag_routable s)\<rparr>"
      and route: "ag_route_messages env s1 a [m] = Inr (s', r1)" using assms(2) by (rule call_contract_Inr)
    have "ag_config s1 = Some config" using assms(2) by (simp add: s1)
    from ag_route_messages_Inr [OF route this] show ?thesis by (auto simp: ag_routes_def approval_def s1)
  next
    case (AgRouteMessagesFromNexus ms)
    then show ?thesis using run by (auto simp: route_messages_from_nexus_def result_simps)
  qed
qed

lemma its_tx_config:
  assumes "its_tx s (env, a, msg) = Inr (s', r)"
  shows "its_config s' = its_config s \<and> its_perms s' = its_perms s"
proof -
  note run = its_tx_Inr(1) [OF assms]
  show ?thesis
  proof (cases msg)
    case (ItsExecute x)
    then have "execute_message env s x = Inr (s', r)" using run by (simp add: map_err_Inr_iff)
    then show ?thesis
    proof (cases rule: execute_message_Inr)
      case hub
      then show ?thesis using apply_to_hub_config by blast
    next
      case (metadata tm)
      then show ?thesis using register_custom_token_Inr [OF metadata(3)] by (auto simp: save_custom_token_metadata_def)
    qed
  next
    case (RegisterP2pTokenInstance c t origin d spl)
    then have "register_p2p_token_instance s t c origin d spl = Inr (s', r)" using run by (simp add: map_err_Inr_iff)
    then show ?thesis by (rule register_p2p_Inr) (auto simp: save_token_instance_def save_token_config_def)
  next
    case (ModifySupply c t m)
    then have "modify_supply s c t m = Inr (s', r)" using run by (simp add: map_err_Inr_iff)
    then show ?thesis by (rule modify_supply_Inr) (simp add: save_token_instance_def)
  next
    case (RegisterChains inputs)
    then show ?thesis using run chain_lists_keep(1) [of inputs "\<lambda>x. its_config x = its_config s \<and> its_perms x = its_perms s" s env s' r]
      by (simp add: map_err_Inr_iff save_chain_config_def)
  next
    case (UpdateChains inputs)
    then show ?thesis using run chain_lists_keep(2) [of inputs "\<lambda>x. its_config x = its_config s \<and> its_perms x = its_perms s" s env s' r]
      by (simp add: map_err_Inr_iff save_chain_config_def)
  qed (use run in \<open>auto simp: its_freeze_chain_def state_freeze_chain_def its_unfreeze_chain_def state_unfreeze_chain_def save_chain_config_def
      disable_execution_def enable_execution_def result_simps split: option.splits\<close>)
qed

lemma executed_delivered: "executed_id m = [] \<Longrightarrow> delivered_to a m = []"
  by (cases m) simp_all

lemma gateway_steps_one:
  assumes "ag_tx g (env, a, m) = Inr (g', r)" "ag_config g = Some config"
  shows "gateway_steps c {(env, a, m)} g g' (concat (map (delivered_to (hs_its c)) (messages r)))"
  unfolding gateway_steps_def using assms ag_tx_config [OF assms]
  by (intro conjI exI [of _ "[(env, a, m)]"]) (simp_all add: ag_delivered_def)

lemma its_steps_one:
  assumes "its_tx i call = Inr (i', r)"
  shows "its_steps i i' [call]"
  unfolding its_steps_def using assms its_tx_config [of i "fst call" "fst (snd call)" "snd (snd call)"] by simp

lemma forward_Inr:
  assumes "hub_forward c env (s, out) m = Inr (s', out')" "ag_config (hb_gateway s) = Some config" "ae_keccak256 env = hs_keccak256 c"
  shows "gateway_steps c {} (hb_gateway s) (hb_gateway s') [] \<and> hb_its s' = hb_its s \<and> delivered_messages out' = delivered_messages out"
proof -
  obtain a d where m: "m = ItsCallContract a d" by (cases m)
  show ?thesis
  proof (cases "a = hs_gateway c")
    case True
    then obtain g r where tx: "ag_tx (hb_gateway s) (env, hs_its c, Direct (AgCallContract d)) = Inr (g, r)"
      and s': "s' = s\<lparr>hb_gateway := g\<rparr>" "out' = out @ map Sent (messages r)"
      using assms(1) by (auto simp: hub_forward_def m result_simps)
    have "concat (map (delivered_to (hs_its c)) (messages r)) = []"
      using no_execution_else [OF tx assms(2)] executed_delivered by auto
    with gateway_steps_one [OF tx assms(2), of c]
    have "gateway_steps c {(env, hs_its c, Direct (AgCallContract d))} (hb_gateway s) g []" by simp
    then have "gateway_steps c {} (hb_gateway s) g []" using assms(3) by (auto simp: gateway_steps_def its_sends_def)
    then show ?thesis by (simp add: s')
  qed (use assms(1) m in \<open>auto simp: hub_forward_def gateway_steps_refl\<close>)
qed

lemma forward_all_Inr:
  assumes "try_fold (hub_forward c env) (s, out) ms = Inr (s', out')" "ag_config (hb_gateway s) = Some config" "ae_keccak256 env = hs_keccak256 c"
  shows "gateway_steps c {} (hb_gateway s) (hb_gateway s') [] \<and> hb_its s' = hb_its s \<and> delivered_messages out' = delivered_messages out"
  using assms(1,2)
proof (induction ms arbitrary: s out)
  case (Cons m ms)
  then obtain s1 out1 where step: "hub_forward c env (s, out) m = Inr (s1, out1)" and rest: "try_fold (hub_forward c env) (s1, out1) ms = Inr (s', out')"
    by (auto simp: result_simps)
  note one = forward_Inr [OF step Cons.prems(2) assms(3)]
  then have "ag_config (hb_gateway s1) = Some config" using Cons.prems(2) by (auto simp: gateway_steps_def)
  from Cons.IH [OF rest this] one show ?case using gateway_steps_trans [of c "{}" "hb_gateway s" "hb_gateway s1" "[]" "{}"] by auto
qed (simp add: gateway_steps_refl)

lemma hub_its_env_cong: "ag_config g' = ag_config g \<Longrightarrow> hub_its_env c g' = hub_its_env c g"
  by (simp add: hub_its_env_def query_chain_name_def fun_eq_iff)

abbreviation executions :: "hub_setting \<Rightarrow> ag_state \<Rightarrow> axelar_executable_msg list \<Rightarrow> its_call list" where
  "executions c g xs \<equiv> map (\<lambda>x. (hub_its_env c g, hs_gateway c, ItsExecute x)) xs"

lemma deliver_Inr:
  assumes "hub_deliver c env (s, out) m = Inr (s', out')" "ag_config (hb_gateway s) = Some config" "ae_keccak256 env = hs_keccak256 c"
  shows "gateway_steps c {} (hb_gateway s) (hb_gateway s') []
    \<and> its_steps (hb_its s) (hb_its s') (executions c (hb_gateway s) (delivered_to (hs_its c) m))
    \<and> delivered_messages out' = delivered_messages out @ delivered_to (hs_its c) m"
proof (cases "\<exists>x. m = AgExecuteAt (hs_its c) x")
  case True
  then obtain x where m: "m = AgExecuteAt (hs_its c) x" by blast
  with assms(1) obtain i r where tx: "its_tx (hb_its s) (hub_its_env c (hb_gateway s), hs_gateway c, ItsExecute x) = Inr (i, r)"
    and rest: "try_fold (hub_forward c env) (s\<lparr>hb_its := i\<rparr>, out @ [Delivered x]) (messages r) = Inr (s', out')"
    by (auto simp: hub_deliver_def result_simps)
  from forward_all_Inr [OF rest _ assms(3), of config] assms(2) its_steps_one [OF tx] show ?thesis by (simp add: m)
next
  case False
  then have "delivered_to (hs_its c) m = []" by (cases m) auto
  moreover have "s' = s \<and> out' = out @ [Sent m]" using assms(1) False by (cases m) (auto simp: hub_deliver_def split: if_splits)
  ultimately show ?thesis by (simp add: gateway_steps_refl its_steps_refl)
qed

lemma deliver_all_Inr:
  assumes "try_fold (hub_deliver c env) (s, out) ms = Inr (s', out')" "ag_config (hb_gateway s) = Some config" "ae_keccak256 env = hs_keccak256 c"
  shows "gateway_steps c {} (hb_gateway s) (hb_gateway s') []
    \<and> its_steps (hb_its s) (hb_its s') (executions c (hb_gateway s) (concat (map (delivered_to (hs_its c)) ms)))
    \<and> delivered_messages out' = delivered_messages out @ concat (map (delivered_to (hs_its c)) ms)"
  using assms(1,2)
proof (induction ms arbitrary: s out)
  case (Cons m ms)
  then obtain s1 out1 where step: "hub_deliver c env (s, out) m = Inr (s1, out1)" and rest: "try_fold (hub_deliver c env) (s1, out1) ms = Inr (s', out')"
    by (auto simp: result_simps)
  note one = deliver_Inr [OF step Cons.prems(2) assms(3)]
  then have config: "ag_config (hb_gateway s1) = ag_config (hb_gateway s)" by (simp add: gateway_steps_def)
  with Cons.prems(2) have "ag_config (hb_gateway s1) = Some config" by simp
  note more = Cons.IH [OF rest this]
  from one more show ?case
    using gateway_steps_trans [of c "{}" "hb_gateway s" "hb_gateway s1" "[]" "{}" "hb_gateway s'" "[]"] its_steps_trans
    by (auto simp: hub_its_env_cong [OF config])
qed (simp add: gateway_steps_refl its_steps_refl)

text \<open>The calls of the gateway from outside.\<close>

fun gateway_calls :: "hub_call \<Rightarrow> ag_call set" where
  "gateway_calls (CallAxelarnet env env' sender msg) = {(env, sender, msg)}"
| "gateway_calls (CallService env sender msg) = {}"

definition hub_wired :: "hub_setting \<Rightarrow> ag_config \<Rightarrow> hub_state \<Rightarrow> bool" where
  "hub_wired c config s \<longleftrightarrow> ag_config (hb_gateway s) = Some config \<and> map_option ic_axelarnet_gateway (its_config (hb_its s)) = Some (hs_gateway c)"

lemma service_call_sender:
  assumes "its_tx s (env, a, msg) = Inr (s', r)" "its_config s = Some config" "a \<noteq> ic_axelarnet_gateway config"
  shows "msg \<noteq> ItsExecute x" and "holds_permission (its_perms s) a Elevated \<or> a = ic_operator config"
proof -
  note perms = its_tx_Inr(2) [OF assms(1)]
  show "msg \<noteq> ItsExecute x" using its_execute_sender [of s env a x s' r] assms by auto
  then show "holds_permission (its_perms s) a Elevated \<or> a = ic_operator config"
    using perms assms(2,3) by (cases msg) (auto simp: result_simps match_operator_def match_gateway_def its_load_config_def)
qed

text \<open>The calls from outside that the hub contract accepts: no executions, and only from its administrators.\<close>

fun administrative_call :: "its_config \<Rightarrow> permission_state \<Rightarrow> hub_call \<Rightarrow> bool" where
  "administrative_call config perms (CallAxelarnet _ _ _ _) \<longleftrightarrow> True"
| "administrative_call config perms (CallService _ a msg) \<longleftrightarrow>
     (\<forall>x. msg \<noteq> ItsExecute x) \<and> (holds_permission perms a Elevated \<or> a = ic_operator config)"

lemma hub_tx_Inr:
  assumes "hub_tx c s call = Inr (s', out)" "hub_wired c config s" "hub_call_ok c (ac_router config) call" "its_config (hb_its s) = Some ic"
  shows "gateway_steps c (gateway_calls call) (hb_gateway s) (hb_gateway s') (delivered_messages out)
    \<and> its_steps (hb_its s) (hb_its s') (its_calls_of c (hub_its_env c (hb_gateway s)) (call, out))
    \<and> administrative_call ic (its_perms (hb_its s)) call"
proof (cases call)
  case (CallAxelarnet env env' sender msg)
  with assms(1) obtain g r where tx: "ag_tx (hb_gateway s) (env, sender, msg) = Inr (g, r)"
    and rest: "try_fold (hub_deliver c env') (s\<lparr>hb_gateway := g\<rparr>, []) (messages r) = Inr (s', out)" by (auto simp: result_simps)
  have config: "ag_config (hb_gateway s) = Some config" using assms(2) by (simp add: hub_wired_def)
  note one = gateway_steps_one [OF tx config, of c] and same = ag_tx_config [OF tx config]
  from deliver_all_Inr [OF rest, of config] same config assms(3) CallAxelarnet
  have more: "gateway_steps c {} g (hb_gateway s') []"
    "its_steps (hb_its s) (hb_its s') (executions c (hb_gateway s) (concat (map (delivered_to (hs_its c)) (messages r))))"
    "delivered_messages out = concat (map (delivered_to (hs_its c)) (messages r))" by (auto simp: hub_its_env_cong [OF same])
  show ?thesis using gateway_steps_trans [OF one more(1)] more(2,3) by (simp add: CallAxelarnet)
next
  case (CallService env sender msg)
  with assms(1) obtain i r where tx: "its_tx (hb_its s) (hub_its_env c (hb_gateway s), sender, msg) = Inr (i, r)"
    and rest: "try_fold (hub_forward c env) (s\<lparr>hb_its := i\<rparr>, []) (messages r) = Inr (s', out)" by (auto simp: result_simps)
  have "sender \<noteq> ic_axelarnet_gateway ic" using assms(2-4) CallService by (simp add: hub_wired_def)
  note admin = service_call_sender [OF tx assms(4) this]
  show ?thesis using its_steps_one [OF tx] forward_all_Inr [OF rest, of config] assms(2,3) CallService admin by (simp add: hub_wired_def)
qed

lemma hub_run_Inr:
  assumes "hub_wired c config s" "list_all (hub_call_ok c (ac_router config)) calls" "its_config (hb_its s) = Some ic"
  shows "gateway_steps c (\<Union>call \<in> set calls. gateway_calls call) (hb_gateway s) (hb_gateway (run_txs (hub_tx c) s calls)) (hub_delivered (hub_outputs c s calls))
    \<and> its_steps (hb_its s) (hb_its (run_txs (hub_tx c) s calls)) (hub_its_calls c (hub_its_env c (hb_gateway s)) (hub_outputs c s calls))
    \<and> list_all (\<lambda>(call, _). administrative_call ic (its_perms (hb_its s)) call) (hub_outputs c s calls)"
  using assms
proof (induction calls arbitrary: s)
  case (Cons call calls)
  have mono: "gateway_steps c A g g' xs \<Longrightarrow> A \<subseteq> B \<Longrightarrow> gateway_steps c B g g' xs" for A B g g' xs
    unfolding gateway_steps_def by blast
  show ?case
  proof (cases "hub_tx c s call")
    case (Inl e)
    then show ?thesis using Cons by (auto intro: mono)
  next
    case (Inr x)
    then obtain s1 out where tx: "hub_tx c s call = Inr (s1, out)" by (cases x) auto
    have ok: "hub_call_ok c (ac_router config) call" "list_all (hub_call_ok c (ac_router config)) calls" using Cons.prems(2) by simp_all
    note one = hub_tx_Inr [OF tx Cons.prems(1) ok(1) Cons.prems(3)]
    then have same: "ag_config (hb_gateway s1) = ag_config (hb_gateway s)" "its_perms (hb_its s1) = its_perms (hb_its s)"
      "its_config (hb_its s1) = its_config (hb_its s)" by (auto simp: gateway_steps_def its_steps_def)
    then have "hub_wired c config s1" "its_config (hb_its s1) = Some ic" using Cons.prems(1,3) by (auto simp: hub_wired_def)
    note more = Cons.IH [OF this(1) ok(2) this(2)]
    show ?thesis using one more gateway_steps_trans its_steps_trans
      by (auto simp: tx hub_delivered_def hub_its_calls_def hub_its_env_cong [OF same(1)] same(2))
  qed
qed (simp add: gateway_steps_refl its_steps_refl hub_delivered_def hub_its_calls_def)

subsection \<open>Deliveries\<close>

lemma delivered_ids:
  "distinct (concat (map executed_id outs)) \<Longrightarrow> distinct (map ax_cc_id (concat (map (delivered_to a) outs)))
     \<and> ax_cc_id ` set (concat (map (delivered_to a) outs)) \<subseteq> set (concat (map executed_id outs))"
proof (induction outs)
  case (Cons m outs)
  then show ?case by (cases m) auto
qed simp

lemma ag_delivered_distinct: "distinct (executed_ids tr) \<Longrightarrow> distinct (map ax_cc_id (ag_delivered a tr))"
proof -
  have flat: "executed_ids tr = concat (map executed_id (concat (map (\<lambda>(_, r). messages r) tr)))"
    "ag_delivered a tr = concat (map (delivered_to a) (concat (map (\<lambda>(_, r). messages r) tr)))"
    by (induction tr) (auto simp: executed_ids_def ag_delivered_def)
  show "distinct (executed_ids tr) \<Longrightarrow> ?thesis" unfolding flat using delivered_ids by blast
qed

lemma ag_trace_calls: "fst ` set (ag_trace s calls) \<subseteq> set calls"
  by (induction calls arbitrary: s) (auto split: sum.splits)

lemma in_delivered_to: "x \<in> set (delivered_to a m) \<longleftrightarrow> m = AgExecuteAt a x"
  by (cases m) auto

lemma delivery_approved:
  assumes ex: "explained config H [] g" and ok: "list_all (ag_call_ok H (ac_router config)) acs"
    and x: "x \<in> set (ag_delivered a (ag_trace g acs))"
  shows "\<exists>m. (\<exists>call \<in> set acs. approves config call m) \<and> cc_id m = ax_cc_id x \<and> source_address m = ax_source_address x
    \<and> payload_hash m = H (ax_payload x)"
proof -
  from x obtain call r where cr: "(call, r) \<in> set (ag_trace g acs)" and at: "AgExecuteAt a x \<in> set (messages r)"
    by (auto simp: ag_delivered_def in_delivered_to)
  obtain env b m0 where call: "call = (env, b, m0)" by (cases call)
  from split_list [OF cr] obtain pre post where tr: "ag_trace g acs = pre @ ((env, b, m0), r) # post" by (auto simp: call)
  from ex ok tr obtain s1 s2 where s1: "explained config H pre s1" and tx: "ag_tx s1 (env, b, m0) = Inr (s2, r)" by (rule history_point)
  have "ag_config s1 = Some config" using s1 by (simp add: explained_def)
  from no_execution_else [OF tx this _ at] obtain i payload where m0: "m0 = Direct (AgExecute i payload)" by auto
  from execution_approved [OF ex ok tr [unfolded m0]] obtain m dest where m: "cc_id m = i" "payload_hash m = H payload"
    "\<exists>call \<in> fst ` set pre. approves config call m"
    "messages r = [AgExecuteAt dest \<lparr>ax_cc_id = i, ax_source_address = source_address m, ax_payload = payload\<rparr>]" by blast
  have "fst ` set pre \<subseteq> set acs" using ag_trace_calls [of g acs] by (auto simp: tr)
  then show ?thesis using m at by auto
qed

subsection \<open>Calls that come back from the hub contract\<close>

text \<open>A message of the hub contract goes to the nexus module for the chains registered there, else to the router.\<close>

definition leaves_gateway :: "ag_env \<Rightarrow> ag_config \<Rightarrow> message \<Rightarrow> ag_out" where
  "leaves_gateway env config m =
     (if ae_is_chain_registered env (destination_chain m) = Some True
      then AgToNexus (nexus_of_message (hex_decode (ae_codecs env)) m) else AgToRouter (ac_router config) [m])"

lemma call_contract_routes:
  assumes "ag_tx g (env, a, Direct (AgCallContract d)) = Inr (g', r)" "ag_config g = Some config" "a \<noteq> ac_router config"
  shows "\<exists>m. messages r = [leaves_gateway env config m] \<and> m = to_message (ae_keccak256 env) d (cc_id m) a
    \<and> source_chain (cc_id m) = ac_chain_name config"
proof -
  have "call_contract env g a d = Inr (g', r)" using assms(1) by (rule ag_tx_Inr) (auto simp: result_simps)
  then obtain m s1 r1 where m: "m = to_message (ae_keccak256 env) d (cc_id m) a" "source_chain (cc_id m) = ac_chain_name config"
    and s1: "s1 = g\<lparr>ag_routable := kv_set (cc_id m) m (ag_routable g)\<rparr>"
    and route: "ag_route_messages env s1 a [m] = Inr (g', r1)" and r: "messages r = messages r1"
    using assms(2) by (rule call_contract_Inr)
  have "messages r1 = [leaves_gateway env config m]" using route assms(2,3)
    by (auto simp: ag_route_messages_def ag_load_config_def s1 unique_def try_load_routable_msg_def chunk_by.simps ag_route_group_def
        determine_routing_destination_def route_to_router_def route_to_nexus_def router_route_def to_none_if_empty_def response_new_def
        map_filter_simps leaves_gateway_def result_simps split: if_splits)
  then show ?thesis using m r by auto
qed

section \<open>Example\<close>

text \<open>The router approves the deployment of a token for the hub contract; it is executed, and once more in vain.\<close>

definition hub_ex_translator :: "string \<Rightarrow> translator_query \<Rightarrow> (translator_error, translator_answer) result" where
  "hub_ex_translator a q = (case q of
     FromBytes p \<Rightarrow> (case its_ex_from_bytes p of Some m \<Rightarrow> Ok (HubMessage m) | None \<Rightarrow> fail SerializationFailed)
   | ToBytes m \<Rightarrow> Ok (Payload [3]))"

definition hub_ex_setting :: hub_setting where
  "hub_ex_setting = \<lparr>hs_gateway = ''gateway'', hs_its = ''its'', hs_translators = hub_ex_translator, hs_keccak256 = (\<lambda>x. x),
     hs_addr_validate = Some\<rparr>"

definition hub_ex_message :: "u8 list \<Rightarrow> message" where
  "hub_ex_message p = \<lparr>cc_id = CrossChainId ''eth'' ''0x1-1'', source_address = ''0xits'', destination_chain = ''axelar'',
     destination_address = ''its'', payload_hash = p\<rparr>"

definition hub_ex_created :: message where
  "hub_ex_created = \<lparr>cc_id = ag_ex_id, source_address = ''its'', destination_chain = ''sui'', destination_address = ''0xits'', payload_hash = [3]\<rparr>"

definition hub_ex_executable :: "u8 list \<Rightarrow> axelar_executable_msg" where
  "hub_ex_executable p = \<lparr>ax_cc_id = CrossChainId ''eth'' ''0x1-1'', ax_source_address = ''0xits'', ax_payload = p\<rparr>"

definition hub_ex_setup :: hub_call where
  "hub_ex_setup = CallService (ag_ex_env []) ''gov'' (RegisterChains [its_ex_input ''eth'' 255 18, its_ex_input ''sui'' 63 6])"

definition hub_ex_approve :: hub_call where
  "hub_ex_approve = CallAxelarnet (ag_ex_env []) (ag_ex_env []) ''router'' (Direct (AgRouteMessages [hub_ex_message [0]]))"

definition hub_ex_execute :: "u8 list \<Rightarrow> hub_call" where
  "hub_ex_execute p = CallAxelarnet (ag_ex_env []) (ag_ex_env ag_ex_hash) ''relayer'' (Direct (AgExecute (CrossChainId ''eth'' ''0x1-1'') p))"

abbreviation hub_ex_start :: hub_state where
  "hub_ex_start \<equiv> \<lparr>hb_gateway = ag_ex_state [], hb_its = its_ex_state [] None\<rparr>"

abbreviation hub_ex_done :: "u8 list \<Rightarrow> u256 \<Rightarrow> hub_state" where
  "hub_ex_done p y \<equiv> \<lparr>hb_gateway = (ag_ex_state [(CrossChainId ''eth'' ''0x1-1'', ExExecuted (hub_ex_message p))])\<lparr>ag_routable := [(ag_ex_id, hub_ex_created)]\<rparr>,
     hb_its = its_ex_state its_ex_chains (Some y)\<rparr>"

lemmas hub_ex_defs = hub_ex_setting_def hub_ex_message_def hub_ex_created_def hub_ex_executable_def hub_ex_setup_def hub_ex_approve_def
  hub_ex_execute_def

lemmas hub_eval = hub_its_env_def query_chain_name_def query_from_bytes_def query_to_bytes_def hub_ex_translator_def hub_forward_def hub_deliver_def

lemma hub_ex_step_setup:
  "hub_tx hub_ex_setting hub_ex_start hub_ex_setup = Inr (\<lparr>hb_gateway = ag_ex_state [], hb_its = its_ex_state its_ex_chains None\<rparr>, [])"
  by (simp add: hub_eval hub_ex_defs its_eval its_ex_defs less_char_def)

lemma hub_ex_step_approve:
  "hub_tx hub_ex_setting \<lparr>hb_gateway = ag_ex_state [], hb_its = i\<rparr> hub_ex_approve
     = Inr (\<lparr>hb_gateway = ag_ex_state [(CrossChainId ''eth'' ''0x1-1'', ExApproved (hub_ex_message [0]))], hb_its = i\<rparr>, [])"
  by (simp add: hub_ex_defs ag_eval)

lemma hub_ex_gateway_execute:
  "ag_tx (ag_ex_state [(CrossChainId ''eth'' ''0x1-1'', ExApproved (hub_ex_message p))]) (ag_ex_env [], ''relayer'', Direct (AgExecute (CrossChainId ''eth'' ''0x1-1'') p))
     = Inr (ag_ex_state [(CrossChainId ''eth'' ''0x1-1'', ExExecuted (hub_ex_message p))],
       \<lparr>messages = [AgExecuteAt ''its'' (hub_ex_executable p)], events = [MessageExecuted (hub_ex_message p)]\<rparr>)"
  by (simp add: hub_ex_defs ag_eval)

abbreviation hub_ex_data :: call_contract_data where
  "hub_ex_data \<equiv> \<lparr>cl_destination_chain = ''sui'', cl_destination_address = ''0xits'', cl_payload = [3]\<rparr>"

lemma hub_ex_its_execute:
  "\<exists>r. its_tx (its_ex_state its_ex_chains None) (hub_its_env hub_ex_setting (ag_ex_state x), ''gateway'', ItsExecute (hub_ex_executable [0]))
     = Inr (its_ex_state its_ex_chains (Some 0), r) \<and> messages r = [ItsCallContract ''gateway'' hub_ex_data]"
  "\<exists>r. its_tx (its_ex_state its_ex_chains (Some 0)) (hub_its_env hub_ex_setting (ag_ex_state x), ''gateway'', ItsExecute (hub_ex_executable [1]))
     = Inr (its_ex_state its_ex_chains (Some 1500), r) \<and> messages r = [ItsCallContract ''gateway'' hub_ex_data]"
  by (simp_all add: hub_eval hub_ex_defs its_eval its_ex_defs less_char_def to_lowercase_def lower_char_def)

lemma hub_ex_gateway_call:
  "\<exists>r. ag_tx (ag_ex_state x) (ag_ex_env ag_ex_hash, ''its'', Direct (AgCallContract hub_ex_data))
     = Inr ((ag_ex_state x)\<lparr>ag_routable := [(ag_ex_id, hub_ex_created)]\<rparr>, r) \<and> messages r = [AgToRouter ''router'' [hub_ex_created]]"
  using ag_ex_unique_id ag_ex_address
  by (simp add: ag_eval call_contract_def save_unique_routable_msg_def to_message_def try_load_routable_msg_def route_to_router_def
      router_route_def to_none_if_empty_def Let_def unique_def chunk_by.simps hub_ex_created_def)

lemma hub_ex_execution:
  assumes "\<And>x. \<exists>r. its_tx i (hub_its_env hub_ex_setting (ag_ex_state x), ''gateway'', ItsExecute (hub_ex_executable p))
     = Inr (its_ex_state its_ex_chains (Some y), r) \<and> messages r = [ItsCallContract ''gateway'' hub_ex_data]"
  shows "hub_tx hub_ex_setting \<lparr>hb_gateway = ag_ex_state [(CrossChainId ''eth'' ''0x1-1'', ExApproved (hub_ex_message p))], hb_its = i\<rparr>
     (hub_ex_execute p) = Inr (hub_ex_done p y, [Delivered (hub_ex_executable p), Sent (AgToRouter ''router'' [hub_ex_created])])"
proof -
  let ?g = "ag_ex_state [(CrossChainId ''eth'' ''0x1-1'', ExExecuted (hub_ex_message p))]"
  obtain r where its: "its_tx i (hub_its_env hub_ex_setting ?g, ''gateway'', ItsExecute (hub_ex_executable p))
     = Inr (its_ex_state its_ex_chains (Some y), r)" "messages r = [ItsCallContract ''gateway'' hub_ex_data]" using assms by blast
  obtain r' where call: "ag_tx ?g (ag_ex_env ag_ex_hash, ''its'', Direct (AgCallContract hub_ex_data))
     = Inr (?g\<lparr>ag_routable := [(ag_ex_id, hub_ex_created)]\<rparr>, r')" "messages r' = [AgToRouter ''router'' [hub_ex_created]]"
    using hub_ex_gateway_call by blast
  have setting: "hs_its hub_ex_setting = ''its''" "hs_gateway hub_ex_setting = ''gateway''" by (simp_all add: hub_ex_setting_def)
  show ?thesis unfolding hub_ex_execute_def hub_tx.simps
    by (simp only: hub_ex_gateway_execute hub_state.select_convs)
       (simp only: and_then.simps map_err.simps prod.case response.select_convs try_fold.simps hub_deliver_def hub_forward_def hub_state.select_convs
          hub_state.update_convs ag_out.case setting its call its_out.case append.simps list.map if_True refl)
qed

lemmas hub_ex_step_execute = hub_ex_execution [OF hub_ex_its_execute(1)] hub_ex_execution [OF hub_ex_its_execute(2)]

lemma hub_ex_step_again: "\<not> is_ok (hub_tx hub_ex_setting (hub_ex_done [0] 0) (hub_ex_execute [0]))"
  by (simp add: hub_ex_defs ag_eval)

abbreviation hub_ex_calls :: "hub_call list" where
  "hub_ex_calls \<equiv> [hub_ex_setup, hub_ex_approve, hub_ex_execute [0], hub_ex_execute [0]]"

lemma hub_ex_outputs:
  "hub_outputs hub_ex_setting hub_ex_start hub_ex_calls = [(hub_ex_setup, []), (hub_ex_approve, []),
     (hub_ex_execute [0], [Delivered (hub_ex_executable [0]), Sent (AgToRouter ''router'' [hub_ex_created])])]"
proof -
  obtain e where "hub_tx hub_ex_setting (hub_ex_done [0] 0) (hub_ex_execute [0]) = Inl e"
    using hub_ex_step_again by (cases "hub_tx hub_ex_setting (hub_ex_done [0] 0) (hub_ex_execute [0])") auto
  then show ?thesis using hub_ex_step_setup hub_ex_step_approve hub_ex_step_execute(1) by simp
qed

section \<open>Properties\<close>

text \<open>
  C2. The hub contract has no protection of its own against the repetition of a message; together with
  the gateway it has. In every run of the two contracts from their instantiation, with arbitrary calls
  from outside of the two, of which the router's only route messages: no cross-chain message reaches the hub contract twice, and every message
  that does was sent to the gateway by the router, for this chain, with the same id, source address
  and payload hash. The state of the hub contract is exactly what the delivered messages and the
  accepted calls from outside make of it, executed in the order of the run and each successful;
  those calls execute no messages, and they come from the admin, governance or the operator.
\<close>

theorem hub_no_replay:
  assumes "ag_instantiate av chain router nexus = Inr (g, r)" and "av router = Some router'"
    and "its_instantiate av admin governance operator gateway = Inr (i, r')" and "av gateway = Some (hs_gateway c)"
    and "hs_its c \<noteq> router'" and "list_all (hub_call_ok c router') calls"
    and "tr = hub_outputs c \<lparr>hb_gateway = g, hb_its = i\<rparr> calls" and "ics = hub_its_calls c (hub_its_env c g) tr"
  shows "distinct (map ax_cc_id (hub_delivered tr))
    \<and> (\<forall>x \<in> set (hub_delivered tr). \<exists>env env' ms m. CallAxelarnet env env' router' (Direct (AgRouteMessages ms)) \<in> set calls
          \<and> m \<in> set ms \<and> destination_chain m = chain
          \<and> cc_id m = ax_cc_id x \<and> source_address m = ax_source_address x \<and> payload_hash m = hs_keccak256 c (ax_payload x))
    \<and> hb_its (run_txs (hub_tx c) \<lparr>hb_gateway = g, hb_its = i\<rparr> calls) = run_txs its_tx i ics
    \<and> map (\<lambda>(_, call, _). call) (its_trace i ics) = ics
    \<and> (\<forall>env a msg out. (CallService env a msg, out) \<in> set tr \<longrightarrow>
          (\<forall>x. msg \<noteq> ItsExecute x) \<and> Some a \<in> {av admin, av governance, av operator})"
proof -
  let ?s = "\<lparr>hb_gateway = g, hb_its = i\<rparr>" and ?xs = "hub_delivered tr"
  from assms(1) obtain nexus' where ex: "explained \<lparr>ac_chain_name = chain, ac_router = router', ac_nexus = nexus'\<rparr> (hs_keccak256 c) [] g"
    by (rule ag_instantiate_explained [where H = "hs_keccak256 c"]) (use assms(2) in auto)
  define config where "config = \<lparr>ac_chain_name = chain, ac_router = router', ac_nexus = nexus'\<rparr>"
  have router: "ac_router config = router'" by (simp add: config_def)
  have ex: "explained config (hs_keccak256 c) [] g" using ex by (simp add: config_def)
  have wired: "hub_wired c config ?s" using ex assms(3,4)
    by (auto simp: hub_wired_def explained_def its_instantiate_def validate_cosmwasm_address_def result_simps)
  have ok: "list_all (hub_call_ok c (ac_router config)) calls" using assms(6) by (simp add: router)
  from assms(3,4) obtain op where op: "av operator = Some op" "its_config i = Some \<lparr>ic_axelarnet_gateway = hs_gateway c, ic_operator = op\<rparr>"
    and perms: "its_perms i = \<lparr>admin_addr = av admin, governance_addr = av governance\<rparr>"
    by (auto simp: its_instantiate_def validate_cosmwasm_address_def result_simps)
  note run = hub_run_Inr [OF wired ok, unfolded hub_state.simps, OF op(2), folded assms(7), folded assms(8)]
  from run obtain acs where acs: "\<forall>call \<in> set acs. call \<in> (\<Union>call \<in> set calls. gateway_calls call) \<or> its_sends c call"
    and xs: "ag_delivered (hs_its c) (ag_trace g acs) = ?xs" by (auto simp: gateway_steps_def)
  have outer: "ag_call_ok (hs_keccak256 c) router' call" if "call \<in> gateway_calls hc" "hc \<in> set calls" for call hc
    using that assms(6) by (cases hc) (auto simp: list_all_iff)
  have inner: "ag_call_ok (hs_keccak256 c) router' call" if "its_sends c call" for call
    using that assms(5) by (auto simp: its_sends_def ag_call_ok_def)
  have aok: "list_all (ag_call_ok (hs_keccak256 c) (ac_router config)) acs" using acs outer inner by (auto simp: list_all_iff router)
  have "distinct (executed_ids (ag_trace g acs))" using explained_run [OF ex aok] by (simp add: executed_ids_def)
  then have "distinct (map ax_cc_id ?xs)" using ag_delivered_distinct xs by metis
  moreover have "\<exists>env env' ms m. CallAxelarnet env env' router' (Direct (AgRouteMessages ms)) \<in> set calls \<and> m \<in> set ms \<and> destination_chain m = chain
      \<and> cc_id m = ax_cc_id x \<and> source_address m = ax_source_address x \<and> payload_hash m = hs_keccak256 c (ax_payload x)" if "x \<in> set ?xs" for x
  proof -
    from delivery_approved [OF ex aok, of x "hs_its c"] that xs obtain m call where call: "call \<in> set acs" "approves config call m"
      and m: "cc_id m = ax_cc_id x" "source_address m = ax_source_address x" "payload_hash m = hs_keccak256 c (ax_payload x)" by auto
    from call(2) obtain env ms where ms: "call = (env, router', Direct (AgRouteMessages ms))" "m \<in> set ms" "destination_chain m = chain"
      by (auto simp: approves_def config_def)
    then have "\<not> its_sends c call" using assms(5) by (auto simp: its_sends_def)
    then obtain hc where "hc \<in> set calls" "call \<in> gateway_calls hc" using acs call(1) by blast
    moreover from this(2) obtain env' where "hc = CallAxelarnet env env' router' (Direct (AgRouteMessages ms))"
      by (cases hc) (auto simp: ms(1))
    ultimately show ?thesis using ms m by blast
  qed
  moreover have "(\<forall>x. msg \<noteq> ItsExecute x) \<and> Some a \<in> {av admin, av governance, av operator}"
    if "(CallService env a msg, out) \<in> set tr" for env a msg out
    using run that by (auto simp: list_all_iff perms op(1))
  moreover have "hb_its (run_txs (hub_tx c) ?s calls) = run_txs its_tx i ics" "map (\<lambda>(_, call, _). call) (its_trace i ics) = ics"
    using run by (simp_all add: its_steps_def)
  ultimately show ?thesis by blast
qed

theorem hub_no_replay_witness:
  "distinct (map ax_cc_id (hub_delivered (hub_outputs hub_ex_setting hub_ex_start hub_ex_calls)))
     \<and> hub_delivered (hub_outputs hub_ex_setting hub_ex_start hub_ex_calls) = [hub_ex_executable [0]]"
proof -
  have "list_all (hub_call_ok hub_ex_setting ''router'') hub_ex_calls" by (simp add: hub_ex_defs ag_call_ok_def)
  moreover have "Some ''gateway'' = Some (hs_gateway hub_ex_setting)" "hs_its hub_ex_setting \<noteq> ''router''" by (simp_all add: hub_ex_setting_def)
  ultimately have "distinct (map ax_cc_id (hub_delivered (hub_outputs hub_ex_setting hub_ex_start hub_ex_calls)))"
    using hub_no_replay [OF ag_ex_instantiate refl its_ex_start _ _ _ refl refl] by blast
  moreover have "hub_delivered (hub_outputs hub_ex_setting hub_ex_start hub_ex_calls) = [hub_ex_executable [0]]"
    unfolding hub_ex_outputs by (simp add: hub_delivered_def)
  ultimately show ?thesis ..
qed


text \<open>
  C8. When a transfer that the router sent to the hub contract is executed, it leaves the hub as the
  same transfer with the same value in the decimals of the destination chain, in the payload that the
  translator of that chain makes of it. Nothing is sent if the destination is the Axelar chain itself.
  Otherwise exactly one message leaves, from the hub contract to the service contract of the
  destination chain, with the hash of the payload: to the nexus module if the destination is
  registered there, else to the router.
\<close>

theorem transfer_through_hub:
  assumes "hub_tx c s (CallAxelarnet env env' a (Direct (AgExecute i payload))) = Inr (s', out)" and "hub_wired c config s"
    and "kv_get (ag_executable (hb_gateway s)) i = Some (ExApproved m)" and "ae_addr_validate env (destination_address m) = Some (hs_its c)"
    and "x = \<lparr>ax_cc_id = i, ax_source_address = source_address m, ax_payload = payload\<rparr>"
    and "its_incoming (hb_its s) (hub_its_env c (hb_gateway s), hs_gateway c, ItsExecute x) = Some (src, dst, tr)"
    and "hs_its c \<noteq> ac_router config"
  shows "\<exists>amount payload' cd si di. kv_get (its_chain_configs (hb_its s)) dst = Some cd
    \<and> instance_on (hb_its s) src (it_token_id tr) = Some si \<and> instance_on (hb_its s) dst (it_token_id tr) = Some di
    \<and> same_value (it_amount tr) (ti_decimals si) amount (ti_decimals di)
    \<and> query_to_bytes c (cf_msg_translator cd) (ReceiveFromHub src (InterchainTransfer (tr\<lparr>it_amount := amount\<rparr>))) = Some payload'
    \<and> (if dst = ac_chain_name config then out = [Delivered x]
       else \<exists>m'. source_chain (cc_id m') = ac_chain_name config \<and> source_address m' = hs_its c
         \<and> destination_chain m' = chain_name_normalize dst \<and> destination_address m' = cf_its_address cd
         \<and> payload_hash m' = ae_keccak256 env' payload'
         \<and> out = [Delivered x, Sent (if ae_is_chain_registered env' (chain_name_normalize dst) = Some True
              then AgToNexus (nexus_of_message (hex_decode (ae_codecs env')) m') else AgToRouter (ac_router config) [m'])])"
proof -
  have config: "ag_config (hb_gateway s) = Some config" using assms(2) by (simp add: hub_wired_def)
  from assms(1) obtain g r where tx: "ag_tx (hb_gateway s) (env, a, Direct (AgExecute i payload)) = Inr (g, r)"
    and rest: "try_fold (hub_deliver c env') (s\<lparr>hb_gateway := g\<rparr>, []) (messages r) = Inr (s', out)" by (auto simp: result_simps)
  have "ag_execute_msg env (hb_gateway s) i payload = Inr (g, r)" using tx by (rule ag_tx_Inr) (auto simp: result_simps)
  then have msgs: "messages r = [AgExecuteAt (hs_its c) x]" by (rule ag_execute_msg_Inr) (use assms(3-5) in auto)
  note same = ag_tx_config [OF tx config]
  from rest msgs obtain j q where its: "its_tx (hb_its s) (hub_its_env c (hb_gateway s), hs_gateway c, ItsExecute x) = Inr (j, q)"
    and fwd: "try_fold (hub_forward c env') (s\<lparr>hb_gateway := g, hb_its := j\<rparr>, [Delivered x]) (messages q) = Inr (s', out)"
    by (auto simp: hub_deliver_def hub_its_env_cong [OF same] result_simps)
  have name: "ie_chain_name (hub_its_env c (hb_gateway s)) (hs_gateway c) = Some (ac_chain_name config)"
    using config by (simp add: hub_its_env_def query_chain_name_def)
  from transfer_effect [OF its assms(6)] obtain cd si di amount payload' where
    eff: "kv_get (its_chain_configs (hb_its s)) dst = Some cd" "instance_on (hb_its s) src (it_token_id tr) = Some si"
      "instance_on (hb_its s) dst (it_token_id tr) = Some di" "same_value (it_amount tr) (ti_decimals si) amount (ti_decimals di)"
      "query_to_bytes c (cf_msg_translator cd) (ReceiveFromHub src (InterchainTransfer (tr\<lparr>it_amount := amount\<rparr>))) = Some payload'"
    and sent: "messages q = (if ac_chain_name config = dst then [] else [ItsCallContract (hs_gateway c)
      \<lparr>cl_destination_chain = chain_name_normalize dst, cl_destination_address = cf_its_address cd, cl_payload = payload'\<rparr>])"
    unfolding name by (auto simp: hub_its_env_def)
  let ?d = "\<lparr>cl_destination_chain = chain_name_normalize dst, cl_destination_address = cf_its_address cd, cl_payload = payload'\<rparr>"
  show ?thesis
  proof (cases "dst = ac_chain_name config")
    case True
    then show ?thesis using eff fwd sent by auto
  next
    case False
    with fwd sent obtain g2 r2 where call: "ag_tx g (env', hs_its c, Direct (AgCallContract ?d)) = Inr (g2, r2)"
      and out: "out = [Delivered x] @ map Sent (messages r2)" by (auto simp: hub_forward_def result_simps)
    from call_contract_routes [OF call _ assms(7)] same config obtain m' where m': "messages r2 = [leaves_gateway env' config m']"
      "m' = to_message (ae_keccak256 env') ?d (cc_id m') (hs_its c)" "source_chain (cc_id m') = ac_chain_name config" by auto
    note fields = to_message_fields [OF m'(2)]
    have "source_address m' = hs_its c" by (subst m'(2)) (simp add: to_message_def)
    moreover have "out = [Delivered x, Sent (leaves_gateway env' config m')]" using out m'(1) by simp
    ultimately show ?thesis using False eff m'(3) fields by (auto simp: leaves_gateway_def)
  qed
qed

theorem transfer_through_hub_witness:
  "\<exists>amount. same_value 1500000000000005 18 amount 6 \<and> payload_hash hub_ex_created = [3] \<and> destination_chain hub_ex_created = ''sui''
     \<and> query_to_bytes hub_ex_setting ''translator'' (ReceiveFromHub ''eth'' (InterchainTransfer (its_ex_transfer amount))) = Some [3]"
proof -
  let ?s = "\<lparr>hb_gateway = ag_ex_state [(CrossChainId ''eth'' ''0x1-1'', ExApproved (hub_ex_message [1]))], hb_its = its_ex_state its_ex_chains (Some 0)\<rparr>"
  have wired: "hub_wired hub_ex_setting ag_ex_config ?s" by (simp add: hub_wired_def its_ex_state_def hub_ex_setting_def)
  have incoming: "its_incoming (hb_its ?s) (hub_its_env hub_ex_setting (hb_gateway ?s), hs_gateway hub_ex_setting, ItsExecute (hub_ex_executable [1]))
      = Some (''eth'', ''sui'', its_ex_transfer 1500000000000005)"
    by (simp add: its_incoming_def hub_message_from_bytes_def load_chain_config_def hub_eval hub_ex_defs its_ex_defs)
  have normal: "chain_name_normalize ''sui'' = ''sui''" by code_simp
  note tx = hub_ex_step_execute(2) [unfolded hub_ex_execute_def]
  show ?thesis
    using transfer_through_hub [OF tx wired _ _ _ incoming, of "hub_ex_message [1]"] normal
    by (auto simp: hub_ex_defs its_ex_defs instance_on_def)
qed

end
