(* ===== verification/Spec2Isabelle.thy ===== *)
theory Spec2Isabelle
  imports Network Rewards Coordinator Token_Hub
begin

text \<open>
  A verification development for the Axelar Amplifier contracts, the CosmWasm contracts that
  connect chains through the Axelar network. The sources are under \<open>src/\<close>.

  \<^bold>\<open>The program.\<close> A message from one chain to another is submitted to the gateway contract of its
  source chain. The gateway asks the chain's voting verifier, which opens a poll among the active
  verifiers that the service registry reports. When more than the configured majority of the
  weight has voted for success, anyone can have the gateway route the message. It goes to the
  router, which checks the source and sends it to the gateway of the destination chain, where it
  is kept to be proved. Proofs are signed by the verifiers in sessions of the multisig contract.
  Verifiers bond stake in the service registry, and the rewards contract pays them for the polls
  and sessions they took part in. The coordinator deploys and registers the contracts of a chain,
  keeps the verifier sets that are in use, and tells the registry which verifiers may unbond. The
  Axelar chain itself has its own gateway, which executes messages at contracts on Axelar. One of
  them is the hub of the interchain token service: it accounts for the tokens on every chain and
  forwards transfers, deployments and links between the service contracts of the chains, with a
  translator for the message format of each chain. Each contract guards its messages with the
  roles that a derive macro turns into checks.

  \<^bold>\<open>Conventions.\<close> A contract is a record of its stored items and maps, a datatype of messages and
  one definition per function of the source, which returns the new state with the response or a
  failure. A failure is an error value of the source or a panic. Machine integers are words of
  their width, with checked, saturating and wrapping operations as the source has them. A stored
  map is a list sorted by its keys, the order in which the storage iterates; secondary indexes are
  filters of the primary map, which is what the storage library maintains. The chain reverts the
  writes of a failed call. A hash map of a message is a list in the order of its iteration.
  Functions of third-party crates are arguments or fields of an environment record: address
  validation, hash functions, codecs of message ids and addresses, signature verification, the
  rounding multiplication of the snapshot, timestamp arithmetic, the ABI coding of parameter lists,
  the computation of contract addresses, and the queries of the core's nexus
  module. What the code relies on is stated as a named hypothesis (for instance
  \<open>mul_ceil_rounds_up\<close>, \<open>selects\<close>, \<open>abi_codec\<close>), and the witness of a property with such a hypothesis uses a
  concrete function that fulfils it. All loops are structural recursions over lists or over a
  bounded range, so no fuel is used and every definition is total.

  \<^bold>\<open>The theories.\<close>
  \<^item> \<open>Prelude\<close>: results and their combinators, fixed-width arithmetic, the storage maps,
    itertools functions, transactions, and the locale \<open>contract_machine\<close>, which carries an
    invariant and a relation of states along runs. Every contract below interprets it.
  \<^item> \<open>Wasm_Std\<close>, \<open>Voting\<close>: \<open>packages/axelar-wasm-std\<close>, that is nonempty types, thresholds,
    snapshots, the killswitch, and the weighted polls of \<open>voting.rs\<close>. A snapshot's quorum
    is a majority; tallies count ballots; a consensus needs a majority and is final.
  \<^item> \<open>Permissions\<close>: \<open>permission_control.rs\<close> and the checks generated by \<open>msgs-derive\<close>. The
    check accepts exactly the permitted senders, and relaying gives no additional right.
  \<^item> \<open>Msg_Id\<close>: the formats of message ids, addresses and chain names. The codecs of a format
    are a locale with its round trips; accepted ids are unique representations.
  \<^item> \<open>Router_Api\<close>, \<open>Verifier_Set\<close>: messages and verifier sets and their hashes. A hash identifies
    a message, and a verifier set whose signers stand under their own addresses.
  \<^item> \<open>Router\<close>: \<open>contracts/router\<close>. Routing is characterised exactly; frozen chains stay silent;
    only the admin and governance change the registry of chains; no call panics.
  \<^item> \<open>Voting_Verifier\<close>: \<open>contracts/voting-verifier\<close>. A verdict needs votes and is final,
    verification makes progress, rewards go to the voters that agree with the verdict, and the only
    panics come from collisions. One theorem shows how a verifier set can be blocked.
  \<^item> \<open>Gateway\<close>: \<open>contracts/gateway\<close>. It forwards exactly the succeeded messages and keeps
    accepted messages for good.
  \<^item> \<open>Multisig\<close>: \<open>contracts/multisig\<close>. Sessions complete only with valid signatures of sufficient
    weight, by the verifier set stored at the time, and are final, under arbitrary calls; keys belong to
    their owners; sessions belong to the prover of a chain; the selection of signatures is
    minimal. One theorem shows how a registered set is replaced; what holds beyond if sets cannot be
    replaced is stated with the hypothesis \<open>ids_unique\<close>.
  \<^item> \<open>Rewards\<close>: \<open>contracts/rewards\<close>. A distribution pays each verifier exactly its share; the
    balances refine an abstract ledger; epochs run forward.
  \<^item> \<open>Service_Registry\<close>: \<open>contracts/service-registry\<close>. The balance covers the stakes; stake is
    locked until the unbonding period is over; the count of authorized verifiers is exact; the
    active verifiers are the eligible ones.
  \<^item> \<open>Coordinator\<close>: \<open>contracts/coordinator\<close>. The verifier sets refine a function from provers to
    sets; the records of the contracts of the chains agree with each other. One theorem shows how
    a replaced prover keeps verifiers from unbonding.
  \<^item> \<open>Axelarnet_Gateway\<close>: \<open>contracts/axelarnet-gateway\<close> and the nexus messages of
    \<open>packages/axelar-core-std\<close>. A message is executed at most once and only after the router sent
    it; what goes to the router was called for by its source or comes from the nexus module.
  \<^item> \<open>Its_Std\<close>: the messages of the token service, \<open>packages/interchain-token-service-std\<close>.
  \<^item> \<open>Interchain_Token_Service\<close>: \<open>contracts/interchain-token-service\<close>. Tracked supplies are a ledger
    of all amounts sent and received, so no chain sends out more than it received; transfers keep
    their value; frozen chains are isolated; only the origin chain deploys a token further.
  \<^item> \<open>Its_Abi_Translator\<close>: \<open>contracts/its-abi-translator\<close>. Encoding and decoding are a round trip
    for every ABI library with the laws of the locale \<open>abi_codec\<close>; the coding of the ABI
    specification is its instance.
  \<^item> \<open>Token_Hub\<close>: the gateway of the Axelar chain, the hub and the translators as one system. No
    message reaches the hub twice (\<open>hub_no_replay\<close>), and a transfer comes out as one message to
    the router (\<open>transfer_through_hub\<close>).
  \<^item> \<open>Network\<close> and this theory: the router, the registry, the voting verifiers and the gateways
    as one system, with the calls and queries they make of each other in one transaction. Every
    delivered message was voted for (\<open>delivery_sound\<close>), and succeeded messages are delivered
    (\<open>delivery_complete\<close>).

  Each theory lists its definitions in the order of the source, then the specification (what a
  reader needs to state the properties), then lemmas, an example instance for the witnesses, and
  the properties, each with its claim and its witness.

  \<^bold>\<open>Not modelled.\<close> The multisig prover and the event verifier. In the network the provers are
  addresses outside, the coordinator's answer is a parameter of the registry, and the axelarnet
  gateway is an address outside that calls the router; in the token hub the router is such an
  address in turn. The
  daemon \<open>ampd\<close> and its handlers are I/O over third-party node clients. The XRPL types and the
  EVM, Sui and Stellar payloads are encodings by third-party crates. The \<open>migrate\<close> entry points
  only set the stored version. JSON and protobuf encodings, attributes of events and the texts of
  errors are left out; errors keep their constructors.
\<close>

unbundle bit_operations_syntax

section \<open>Properties of the network\<close>

text \<open>
  C1. Every message that a transaction of the network stores at a gateway was sent there because
  the router has this gateway for the destination chain of the message. It was sent by the
  axelarnet gateway or by the registered gateway of its source chain, not frozen. If the sender is
  a gateway of the network, then it was called to route the message, and in its voting verifier
  more than half of the weight of the poll on the message is recorded as votes for success.
  Otherwise the sender is an address outside of the network that called the router.
\<close>

theorem delivery_sound:
  assumes "net_reachable P net" and "net_params_ok P" and "net_call_ok net call" and "net_tx P net call = Some net'"
    and "kv_get (nt_gateways net) g = Some gs" and "kv_get (nt_gateways net') g = Some gs'"
    and "kv_get (gw_outgoing gs') i = Some m" and "kv_get (gw_outgoing gs) i \<noteq> Some m"
  shows "route_gateway (net_router_env P) (nt_router net) (destination_chain m) = Some g
    \<and> (\<exists>a. (is_axelarnet_gateway (nt_router net) a
            \<or> (\<exists>e. kv_get (rt_chains (nt_router net)) (source_chain (cc_id m)) = Some e \<and> ep_gateway e = a \<and> ep_frozen_status e AND 1 = 0))
        \<and> ((\<exists>h ms. call = CallRouter h a (Direct (RouteMessages ms)) \<and> m \<in> set ms \<and> outside net a)
           \<or> (\<exists>h b ms gs1 vvs. call = CallGateway a h b (GwRoute ms) \<and> m \<in> set ms \<and> kv_get (nt_gateways net) a = Some gs1
                \<and> gateway_verifier net gs1 = Some vvs \<and> majority_voted (np_hash P) vvs m)))"
proof -
  have inv: "net_inv P net" using assms(1,2) by (rule net_reachable_inv)
  obtain outs where "net_effect P net call net' outs" using net_tx_effect [OF assms(4) inv assms(2,3)] ..
  from this assms(5-8) obtain a ms where b: "batch_from P net call a ms" and m: "m \<in> set ms"
    and src: "source_allowed (net_router_env P) (nt_router net) a ms"
    and dst: "route_gateway (net_router_env P) (nt_router net) (destination_chain m) = Some g"
    by (rule new_message_sent)
  have "router_inv (nt_router net)" using inv by (auto simp: net_inv_def intro: router_reachable_inv)
  then have "is_axelarnet_gateway (nt_router net) a
      \<or> (\<exists>e. kv_get (rt_chains (nt_router net)) (source_chain (cc_id m)) = Some e \<and> ep_gateway e = a \<and> ep_frozen_status e AND 1 = 0)"
    using source_allowed_from [OF _ src m] by blast
  moreover have "(\<exists>h ms. call = CallRouter h a (Direct (RouteMessages ms)) \<and> m \<in> set ms \<and> outside net a)
      \<or> (\<exists>h b ms gs1 vvs. call = CallGateway a h b (GwRoute ms) \<and> m \<in> set ms \<and> kv_get (nt_gateways net) a = Some gs1
           \<and> gateway_verifier net gs1 = Some vvs \<and> majority_voted (np_hash P) vvs m)"
    using b m assms(3) routable_voted [OF inv] by (auto simp: batch_from_def)
  ultimately show ?thesis using dst by blast
qed

theorem delivery_sound_witness:
  "route_gateway (net_router_env net_ex_params) (example_state 0) ''avax'' = Some ''gw2''
     \<and> majority_voted (\<lambda>x. x) net_ex_voted vv_ex_message"
proof -
  let ?net = "\<lambda>out. net_ex (example_state 0) net_ex_registry net_ex_voted out"
  have "net_call_ok (?net []) (CallGateway ''gw1'' 13 ''relayer'' (GwRoute [vv_ex_message]))" by (simp add: outside_def)
  from delivery_sound [where g = "''gw2''" and i = "cc_id vv_ex_message" and m = vv_ex_message
      and gs = "gw_ex_state []" and gs' = "gw_ex_state [(cc_id vv_ex_message, vv_ex_message)]", OF net_ex_voted net_ex_params_ok this net_ex_delivered]
  show ?thesis by (auto simp: gateway_verifier_def)
qed



end
